(* ===== verification/LSB_Prelude.thy ===== *)
theory LSB_Prelude
  imports Main "HOL-Library.Word" "HOL-Library.Sublist"
begin

text \<open>
  The vocabulary every component of the development shares: byte strings and the fixed-width
  integer encodings of the Rust standard library (\<^verbatim>\<open>to_be_bytes\<close>, \<^verbatim>\<open>from_le_bytes\<close>, ...),
  \<^verbatim>\<open>Result\<close> values, UTF-8 validity, decimal and hexadecimal formatting, checked and
  saturating arithmetic, and two interface locales: \<open>fixed_width_codec\<close> for integer
  encodings and \<open>safety\<close> for invariants of transition systems.
\<close>

section \<open>Types\<close>

type_synonym byte = "8 word"
type_synonym bytes = "byte list"
type_synonym u16 = "16 word"
type_synonym u32 = "32 word"
type_synonym u64 = "64 word"

text \<open>
  A Rust \<^verbatim>\<open>Result<T, E>\<close> is a sum with the error on the left. A Rust \<^verbatim>\<open>String\<close> is
  a byte list; that it is UTF-8 is the predicate \<open>utf8_valid\<close> below. A \<^verbatim>\<open>usize\<close>
  is a \<open>nat\<close>, with the 64-bit bound written out where the code checks it.
\<close>

type_synonym ('a, 'e) result = "'e + 'a"

abbreviation Ok :: "'a \<Rightarrow> ('a, 'e) result" where
  "Ok \<equiv> Inr"

abbreviation Err :: "'e \<Rightarrow> ('a, 'e) result" where
  "Err \<equiv> Inl"

abbreviation is_ok :: "('a, 'e) result \<Rightarrow> bool" where
  "is_ok r \<equiv> \<not> isl r"

text \<open>The \<^verbatim>\<open>?\<close> operator.\<close>

definition and_then :: "('a, 'e) result \<Rightarrow> ('a \<Rightarrow> ('b, 'e) result) \<Rightarrow> ('b, 'e) result" where
  "and_then r f = (case r of Inl e \<Rightarrow> Inl e | Inr a \<Rightarrow> f a)"

lemma and_then_simps [simp]:
  "and_then (Inl e) f = Inl e"
  "and_then (Inr a) f = f a"
  by (simp_all add: and_then_def)

lemma and_then_Ok_iff: "and_then r f = Inr b \<longleftrightarrow> (\<exists>a. r = Inr a \<and> f a = Inr b)"
  by (cases r) auto

lemma and_then_Err_iff:
  "and_then r f = Inl e \<longleftrightarrow> r = Inl e \<or> (\<exists>a. r = Inr a \<and> f a = Inl e)"
  by (cases r) auto

lemma and_then_cong [fundef_cong]:
  "r = r' \<Longrightarrow> (\<And>a. r' = Inr a \<Longrightarrow> f a = g a) \<Longrightarrow> and_then r f = and_then r' g"
  by (cases r') auto

definition ensure :: "bool \<Rightarrow> 'e \<Rightarrow> (unit, 'e) result" where
  "ensure b e = (if b then Inr () else Inl e)"

lemma ensure_simps [simp]:
  "ensure b e = Inr u \<longleftrightarrow> b"
  "ensure b e = Inl d \<longleftrightarrow> \<not> b \<and> d = e"
  by (auto simp: ensure_def)

lemma ensure_Ok_iff: "ensure c e = Inr u \<longleftrightarrow> c"
  by (simp add: ensure_def)

section \<open>Byte strings\<close>

definition str :: "string \<Rightarrow> bytes" where
  "str s = map of_char s"

lemma length_str [simp]: "length (str s) = length s"
  by (simp add: str_def)

lemma str_append: "str (s @ t) = str s @ str t"
  by (simp add: str_def)

text \<open>
  \<open>utf8_valid\<close> is \<^verbatim>\<open>std::str::from_utf8(..).is_ok()\<close>: the well-formed byte
  sequences of the Unicode standard (no overlong forms, no surrogates, nothing above
  U+10FFFF).
\<close>

definition in_range :: "nat \<Rightarrow> nat \<Rightarrow> byte \<Rightarrow> bool" where
  "in_range lo hi b \<longleftrightarrow> lo \<le> unat b \<and> unat b \<le> hi"

fun utf8_valid :: "bytes \<Rightarrow> bool" where
  "utf8_valid [] = True"
| "utf8_valid (b # bs) =
     (if in_range 0 127 b then utf8_valid bs
      else if in_range 194 223 b then
        (case bs of c1 # r \<Rightarrow> in_range 128 191 c1 \<and> utf8_valid r | _ \<Rightarrow> False)
      else if in_range 224 239 b then
        (case bs of c1 # c2 # r \<Rightarrow>
             (if unat b = 224 then in_range 160 191 c1
              else if unat b = 237 then in_range 128 159 c1
              else in_range 128 191 c1)
             \<and> in_range 128 191 c2 \<and> utf8_valid r
         | _ \<Rightarrow> False)
      else if in_range 240 244 b then
        (case bs of c1 # c2 # c3 # r \<Rightarrow>
             (if unat b = 240 then in_range 144 191 c1
              else if unat b = 244 then in_range 128 143 c1
              else in_range 128 191 c1)
             \<and> in_range 128 191 c2 \<and> in_range 128 191 c3 \<and> utf8_valid r
         | _ \<Rightarrow> False)
      else False)"

definition is_ascii :: "bytes \<Rightarrow> bool" where
  "is_ascii bs \<longleftrightarrow> (\<forall>b \<in> set bs. unat b < 128)"

lemma utf8_valid_ascii: "is_ascii bs \<Longrightarrow> utf8_valid bs"
  by (induction bs) (auto simp: is_ascii_def in_range_def)

lemma utf8_valid_ascii_append: "is_ascii bs \<Longrightarrow> utf8_valid (bs @ cs) = utf8_valid cs"
  by (induction bs) (auto simp: is_ascii_def in_range_def)

section \<open>Fixed-width integer encodings\<close>

lemma unat_bound: "unat (x :: 'a::len word) < 2 ^ LENGTH('a)"
  by (rule unsigned_less)

fun le_bytes :: "nat \<Rightarrow> nat \<Rightarrow> bytes" where
  "le_bytes 0 v = []"
| "le_bytes (Suc n) v = of_nat (v mod 256) # le_bytes n (v div 256)"

fun le_value :: "bytes \<Rightarrow> nat" where
  "le_value [] = 0"
| "le_value (b # bs) = unat b + 256 * le_value bs"

lemma length_le_bytes [simp]: "length (le_bytes n v) = n"
  by (induction n arbitrary: v) auto

lemma le_value_le_bytes: "le_value (le_bytes n v) = v mod 256 ^ n"
proof (induction n arbitrary: v)
  case 0
  then show ?case by simp
next
  case (Suc n)
  have "unat (of_nat (v mod 256) :: byte) = v mod 256"
    by (simp add: unat_of_nat)
  with Suc show ?case
    by (simp add: mod_mult2_eq add.commute mult.commute)
qed

lemma le_value_bound: "le_value bs < 256 ^ length bs"
proof (induction bs)
  case Nil
  then show ?case by simp
next
  case (Cons b bs)
  have "unat b \<le> 255"
    using unat_bound [of b] by simp
  with Cons show ?case by simp
qed

lemma le_bytes_le_value: "le_bytes (length bs) (le_value bs) = bs"
proof (induction bs)
  case Nil
  then show ?case by simp
next
  case (Cons b bs)
  have b: "unat b < 256"
    using unat_bound [of b] by simp
  then have "(unat b + 256 * le_value bs) mod 256 = unat b"
    and "(unat b + 256 * le_value bs) div 256 = le_value bs"
    by (simp_all add: div_mult_self1)
  with Cons show ?case by simp
qed

definition to_le_bytes :: "nat \<Rightarrow> 'a::len word \<Rightarrow> bytes" where
  "to_le_bytes n x = le_bytes n (unat x)"

definition from_le_bytes :: "bytes \<Rightarrow> 'a::len word" where
  "from_le_bytes bs = of_nat (le_value bs)"

definition to_be_bytes :: "nat \<Rightarrow> 'a::len word \<Rightarrow> bytes" where
  "to_be_bytes n x = rev (le_bytes n (unat x))"

definition from_be_bytes :: "bytes \<Rightarrow> 'a::len word" where
  "from_be_bytes bs = of_nat (le_value (rev bs))"

text \<open>
  What the framing code relies on: an encoding of a fixed width whose decoder inverts it in
  both directions. The facts about prefixes are what lets a decoder split a payload.
\<close>

locale fixed_width_codec =
  fixes enc :: "'a \<Rightarrow> bytes"
    and dec :: "bytes \<Rightarrow> 'a"
    and width :: nat
  assumes enc_length: "length (enc x) = width"
    and dec_enc: "dec (enc x) = x"
    and enc_dec: "length bs = width \<Longrightarrow> enc (dec bs) = bs"
begin

lemma dec_take: "dec (take width (enc x @ r)) = x"
  by (simp add: enc_length dec_enc)

lemma drop_enc: "drop width (enc x @ r) = r"
  by (simp add: enc_length)

lemma enc_append_inject: "enc x @ r = enc y @ s \<longleftrightarrow> x = y \<and> r = s"
  by (metis append_eq_append_conv dec_enc enc_length)

lemma enc_inject: "enc x = enc y \<longleftrightarrow> x = y"
  by (metis dec_enc)

lemma split_prefix: "width \<le> length bs \<Longrightarrow> bs = enc (dec (take width bs)) @ drop width bs"
  by (simp add: enc_dec)

end

lemma word_le_codec:
  assumes "256 ^ n = (2::nat) ^ LENGTH('a::len)"
  shows "fixed_width_codec (to_le_bytes n :: 'a word \<Rightarrow> bytes) from_le_bytes n"
proof
  fix x :: "'a word" and bs :: bytes
  show "length (to_le_bytes n x) = n"
    by (simp add: to_le_bytes_def)
  show "from_le_bytes (to_le_bytes n x) = x"
    using assms unat_bound [of x]
    by (simp add: to_le_bytes_def from_le_bytes_def le_value_le_bytes)
  assume l: "length bs = n"
  with assms le_value_bound [of bs] have "unat (of_nat (le_value bs) :: 'a word) = le_value bs"
    by (simp add: unat_of_nat)
  with l le_bytes_le_value [of bs] show "to_le_bytes n (from_le_bytes bs :: 'a word) = bs"
    by (simp add: to_le_bytes_def from_le_bytes_def)
qed

lemma word_be_codec:
  assumes "256 ^ n = (2::nat) ^ LENGTH('a::len)"
  shows "fixed_width_codec (to_be_bytes n :: 'a word \<Rightarrow> bytes) from_be_bytes n"
proof
  fix x :: "'a word" and bs :: bytes
  show "length (to_be_bytes n x) = n"
    by (simp add: to_be_bytes_def)
  show "from_be_bytes (to_be_bytes n x) = x"
    using assms unat_bound [of x]
    by (simp add: to_be_bytes_def from_be_bytes_def le_value_le_bytes)
  assume l: "length bs = n"
  with assms le_value_bound [of "rev bs"]
  have "unat (of_nat (le_value (rev bs)) :: 'a word) = le_value (rev bs)"
    by (simp add: unat_of_nat)
  with l le_bytes_le_value [of "rev bs"] show "to_be_bytes n (from_be_bytes bs :: 'a word) = bs"
    by (simp add: to_be_bytes_def from_be_bytes_def)
qed

interpretation le16: fixed_width_codec "to_le_bytes 2 :: u16 \<Rightarrow> bytes" from_le_bytes 2
  by (rule word_le_codec) simp

interpretation le32: fixed_width_codec "to_le_bytes 4 :: u32 \<Rightarrow> bytes" from_le_bytes 4
  by (rule word_le_codec) simp

interpretation le64: fixed_width_codec "to_le_bytes 8 :: u64 \<Rightarrow> bytes" from_le_bytes 8
  by (rule word_le_codec) simp

interpretation be16: fixed_width_codec "to_be_bytes 2 :: u16 \<Rightarrow> bytes" from_be_bytes 2
  by (rule word_be_codec) simp

interpretation be32: fixed_width_codec "to_be_bytes 4 :: u32 \<Rightarrow> bytes" from_be_bytes 4
  by (rule word_be_codec) simp

interpretation be64: fixed_width_codec "to_be_bytes 8 :: u64 \<Rightarrow> bytes" from_be_bytes 8
  by (rule word_be_codec) simp

lemma length_to_bytes [simp]:
  "length (to_le_bytes n x) = n"
  "length (to_be_bytes n x) = n"
  by (simp_all add: to_le_bytes_def to_be_bytes_def)

lemmas codec_simps [simp] =
  le16.dec_enc le32.dec_enc le64.dec_enc be16.dec_enc be32.dec_enc be64.dec_enc

section \<open>Formatting\<close>

text \<open>\<^verbatim>\<open>format!("{n}")\<close> for an unsigned integer, and \<^verbatim>\<open>{:02x}\<close> of a byte.\<close>

fun show_dec :: "nat \<Rightarrow> string" where
  "show_dec n =
     (if n < 10 then [char_of (48 + n)] else show_dec (n div 10) @ [char_of (48 + n mod 10)])"

declare show_dec.simps [simp del]

definition hex_digit :: "nat \<Rightarrow> byte" where
  "hex_digit n = of_nat (if n < 10 then 48 + n else 87 + n)"

definition is_hex_digit :: "byte \<Rightarrow> bool" where
  "is_hex_digit b \<longleftrightarrow> in_range 48 57 b \<or> in_range 97 102 b"

definition hex_value :: "byte \<Rightarrow> nat" where
  "hex_value b = (if in_range 48 57 b then unat b - 48 else unat b - 87)"

lemma hex_value_hex_digit [simp]: "n < 16 \<Longrightarrow> hex_value (hex_digit n) = n"
  by (auto simp: hex_value_def hex_digit_def in_range_def unat_of_nat)

lemma is_hex_digit_hex_digit [simp]: "n < 16 \<Longrightarrow> is_hex_digit (hex_digit n)"
  by (auto simp: is_hex_digit_def hex_digit_def in_range_def unat_of_nat)

lemma hex_value_bound: "is_hex_digit b \<Longrightarrow> hex_value b < 16"
  by (auto simp: is_hex_digit_def hex_value_def in_range_def)

lemma hex_digit_hex_value [simp]: "is_hex_digit b \<Longrightarrow> hex_digit (hex_value b) = b"
  by (auto simp: is_hex_digit_def hex_value_def hex_digit_def in_range_def)

text \<open>
  \<^verbatim>\<open>value.len() == length && value.bytes().all(is_ascii_digit or a..=f)\<close>, the test
  that handles, digests and identifiers share.
\<close>

definition is_lower_hex :: "bytes \<Rightarrow> nat \<Rightarrow> bool" where
  "is_lower_hex value n \<longleftrightarrow> length value = n \<and> list_all is_hex_digit value"

section \<open>Arithmetic of the Rust integer types\<close>

text \<open>\<^verbatim>\<open>checked_add\<close>, \<^verbatim>\<open>saturating_add\<close> and \<^verbatim>\<open>saturating_sub\<close>.\<close>

definition checked_add :: "'a::len word \<Rightarrow> 'a word \<Rightarrow> 'a word option" where
  "checked_add x y = (if unat x + unat y < 2 ^ LENGTH('a) then Some (x + y) else None)"

definition saturating_add :: "'a::len word \<Rightarrow> 'a word \<Rightarrow> 'a word" where
  "saturating_add x y = (case checked_add x y of Some z \<Rightarrow> z | None \<Rightarrow> - 1)"

definition saturating_sub :: "'a::len word \<Rightarrow> 'a word \<Rightarrow> 'a word" where
  "saturating_sub x y = (if y \<le> x then x - y else 0)"

lemma checked_add_Some: "checked_add x y = Some z \<longleftrightarrow> unat z = unat x + unat y"
proof
  assume "checked_add x y = Some z"
  then show "unat z = unat x + unat y"
    by (auto simp: checked_add_def unat_word_ariths split: if_splits)
next
  assume z: "unat z = unat x + unat y"
  then have "unat x + unat y < 2 ^ LENGTH('a)"
    using unat_bound [of z] by simp
  with z show "checked_add x y = Some z"
    by (auto simp: checked_add_def unat_word_ariths intro!: word_unat_eq_iff [THEN iffD2])
qed

lemma checked_add_None: "checked_add (x :: 'a::len word) y = None \<longleftrightarrow> 2 ^ LENGTH('a) \<le> unat x + unat y"
  by (auto simp: checked_add_def)

lemma unat_saturating_sub: "unat (saturating_sub x y) = unat x - unat y"
  by (auto simp: saturating_sub_def word_le_nat_alt unat_sub)

lemma unat_sub_le: "unat y \<le> unat x \<Longrightarrow> unat (x - y) = unat x - unat (y :: 'a::len word)"
  by (simp add: unat_sub word_le_nat_alt)

text \<open>The \<^verbatim>\<open>usize\<close> variants, on \<open>nat\<close> with the 64-bit bound.\<close>

definition usize_max :: nat where
  "usize_max = 2 ^ 64 - 1"

definition checked_add_usize :: "nat \<Rightarrow> nat \<Rightarrow> nat option" where
  "checked_add_usize x y = (if x + y \<le> usize_max then Some (x + y) else None)"

section \<open>Transition systems and invariants\<close>

inductive reachable :: "('s \<Rightarrow> bool) \<Rightarrow> ('s \<Rightarrow> 's \<Rightarrow> bool) \<Rightarrow> 's \<Rightarrow> bool"
  for init :: "'s \<Rightarrow> bool" and step :: "'s \<Rightarrow> 's \<Rightarrow> bool"
where
  reach_init: "init s \<Longrightarrow> reachable init step s"
| reach_step: "reachable init step s \<Longrightarrow> step s t \<Longrightarrow> reachable init step t"

text \<open>
  The interface between a component's step relation and the users of its invariant: an
  invariant that holds at the start and is kept by every step holds in every reachable
  state. Each state machine of the development interprets it.
\<close>

locale safety =
  fixes init :: "'s \<Rightarrow> bool"
    and step :: "'s \<Rightarrow> 's \<Rightarrow> bool"
    and inv :: "'s \<Rightarrow> bool"
  assumes inv_init: "init s \<Longrightarrow> inv s"
    and inv_step: "inv s \<Longrightarrow> step s t \<Longrightarrow> inv t"
begin

lemma reachable_inv: "reachable init step s \<Longrightarrow> inv s"
  by (induction rule: reachable.induct) (auto intro: inv_init inv_step)

lemma steps_inv: "step\<^sup>*\<^sup>* s t \<Longrightarrow> inv s \<Longrightarrow> inv t"
  by (induction rule: rtranclp_induct) (auto intro: inv_step)

end

end
