(* ===== verification/Wire_Frame.thy ===== *)
theory Wire_Frame
  imports LSB_Prelude
begin

text \<open>
  The binary framing of the host/guest control channel, \<^verbatim>\<open>crates/lsb-proto/src/frame.rs\<close>:
  \<^verbatim>\<open>[u32 BE length][u8 type][payload]\<close>. The module has the writer, the blocking reader, the
  buffer parser and the fixed payload layouts. Readers and writers are explicit states: a reader
  is the bytes still to come and what happens after them, a writer is the bytes written so far.
  The lemmas show that the reader inverts the writer on a stream, that the buffer parser and the
  reader accept the same frames, and what happens to frames that are too long.
\<close>

section \<open>Readers and writers\<close>

datatype io_error =
    UnexpectedEof
  | InvalidData
  | InvalidInput
  | OtherError
  | BrokenPipe bytes
  | ConnectionReset bytes
  | WouldBlock
  | NotFound
  | TimedOut

record reader =
  rd_data :: bytes
  rd_fail :: "io_error option" \<comment> \<open>after the data: \<open>None\<close> is end of file\<close>

record writer =
  wr_data :: bytes
  wr_fail :: "io_error option"

definition read_exact :: "reader \<Rightarrow> nat \<Rightarrow> (bytes \<times> reader, io_error) result" where
  "read_exact r n =
     (if n \<le> length (rd_data r)
      then Ok (take n (rd_data r), r\<lparr>rd_data := drop n (rd_data r)\<rparr>)
      else Err (case rd_fail r of None \<Rightarrow> UnexpectedEof | Some e \<Rightarrow> e))"

definition write_all :: "writer \<Rightarrow> bytes \<Rightarrow> (writer, io_error) result" where
  "write_all w bs =
     (case wr_fail w of Some e \<Rightarrow> Err e | None \<Rightarrow> Ok (w\<lparr>wr_data := wr_data w @ bs\<rparr>))"

definition flush :: "writer \<Rightarrow> (writer, io_error) result" where
  "flush w = (case wr_fail w of Some e \<Rightarrow> Err e | None \<Rightarrow> Ok w)"

section \<open>Message types\<close>

definition frame_types :: "(string \<times> byte) list" where
  "frame_types =
     [(''STDIN'', 0x01), (''STDOUT'', 0x02), (''STDERR'', 0x03),
      (''RESIZE'', 0x04), (''EXIT'', 0x05), (''ERROR'', 0x06), (''KILL'', 0x07),
      (''GUEST_READY'', 0x08), (''EXEC_REQ'', 0x10), (''MOUNT_REQ'', 0x11),
      (''MOUNT_RESP'', 0x12), (''READ_FILE_REQ'', 0x13), (''READ_FILE_RESP'', 0x14),
      (''WRITE_FILE_REQ'', 0x15), (''WRITE_FILE_DATA'', 0x16), (''WRITE_FILE_RESP'', 0x17),
      (''FWD_REQ'', 0x20), (''FWD_RESP'', 0x21), (''FWD_DATA'', 0x22), (''FWD_CLOSE'', 0x23),
      (''WATCH_REQ'', 0x30), (''WATCH_EVENT'', 0x31), (''MKDIR_REQ'', 0x40),
      (''FS_OK_RESP'', 0x41), (''READ_DIR_REQ'', 0x42), (''READ_DIR_RESP'', 0x43),
      (''STAT_REQ'', 0x44), (''STAT_RESP'', 0x45), (''REMOVE_REQ'', 0x46),
      (''RENAME_REQ'', 0x48), (''COPY_REQ'', 0x4A), (''CHMOD_REQ'', 0x4C),
      (''SYNC_FS_REQ'', 0x4E), (''MOUNT_CACHE_REQ'', 0x50), (''MOUNT_CACHE_RESP'', 0x51),
      (''MOUNT_CACHE_DATA'', 0x52)]"

definition MAX_FRAME_LEN :: u32 where
  "MAX_FRAME_LEN = push_bit 20 1"

definition MAX_FRAME_PAYLOAD :: nat where
  "MAX_FRAME_PAYLOAD = unat MAX_FRAME_LEN - 1"

section \<open>Operations\<close>

text \<open>
  The length field is computed in \<^verbatim>\<open>u32\<close>: the conversion of the payload length truncates and
  the addition wraps in a release build.
\<close>

definition frame_bytes :: "byte \<Rightarrow> bytes \<Rightarrow> bytes" where
  "frame_bytes msg_type payload =
     to_be_bytes 4 (1 + of_nat (length payload) :: u32) @ msg_type # payload"

definition write_frame :: "writer \<Rightarrow> byte \<Rightarrow> bytes \<Rightarrow> (writer, io_error) result" where
  "write_frame w msg_type payload =
     and_then (write_all w (frame_bytes msg_type payload)) flush"

definition read_frame :: "reader \<Rightarrow> ((byte \<times> bytes) option \<times> reader, io_error) result" where
  "read_frame r =
     (case read_exact r 4 of
        Inl UnexpectedEof \<Rightarrow> Ok (None, r\<lparr>rd_data := []\<rparr>)
      | Inl e \<Rightarrow> Err e
      | Inr (len_buf, r) \<Rightarrow>
          let len = (from_be_bytes len_buf :: u32) in
          if len = 0 \<or> len > MAX_FRAME_LEN then Err InvalidData
          else and_then (read_exact r 1) (\<lambda>(type_buf, r).
            let payload_len = unat (len - 1) in
            if payload_len > 0
            then and_then (read_exact r payload_len) (\<lambda>(payload, r).
                   Ok (Some (type_buf ! 0, payload), r))
            else Ok (Some (type_buf ! 0, []), r)))"

text \<open>\<^verbatim>\<open>serde_json::to_vec\<close> is a parameter: the encoder of the message type, which may fail.\<close>

definition send_json ::
  "('m \<Rightarrow> bytes option) \<Rightarrow> writer \<Rightarrow> byte \<Rightarrow> 'm \<Rightarrow> (writer, io_error) result" where
  "send_json to_vec w msg_type msg =
     (case to_vec msg of None \<Rightarrow> Err OtherError | Some payload \<Rightarrow> write_frame w msg_type payload)"

definition try_parse :: "bytes \<Rightarrow> (byte \<times> nat \<times> nat) option" where
  "try_parse buf =
     (if length buf < 5 then None
      else let len = (from_be_bytes [buf ! 0, buf ! 1, buf ! 2, buf ! 3] :: u32) in
           if len = 0 \<or> len > MAX_FRAME_LEN then None
           else let total = 4 + unat len in
                if length buf < total then None
                else Some (buf ! 4, 5, total))"

definition resize_payload :: "u16 \<Rightarrow> u16 \<Rightarrow> bytes" where
  "resize_payload rows cols = to_be_bytes 2 rows @ to_be_bytes 2 cols"

definition parse_resize :: "bytes \<Rightarrow> (u16 \<times> u16) option" where
  "parse_resize payload =
     (if length payload < 4 then None
      else Some (from_be_bytes [payload ! 0, payload ! 1],
                 from_be_bytes [payload ! 2, payload ! 3]))"

text \<open>An \<^verbatim>\<open>i32\<close> is its 32 bits, read by \<open>sint\<close> where the sign matters.\<close>

definition exit_payload :: "32 word \<Rightarrow> bytes" where
  "exit_payload code = to_be_bytes 4 code"

definition parse_exit_code :: "bytes \<Rightarrow> 32 word option" where
  "parse_exit_code payload =
     (if length payload < 4 then None
      else Some (from_be_bytes [payload ! 0, payload ! 1, payload ! 2, payload ! 3]))"

section \<open>Streams of frames\<close>

text \<open>
  The interface between a framing and its users: a reader of one item that returns the rest of
  the stream. Everything that is said about sequences of frames is proved from it once, and each
  framing of the repository interprets it.
\<close>

primrec get_many :: "(bytes \<Rightarrow> ('a \<times> bytes) option) \<Rightarrow> nat \<Rightarrow> bytes \<Rightarrow> ('a list \<times> bytes) option" where
  "get_many get 0 bs = Some ([], bs)"
| "get_many get (Suc n) bs =
     (case get bs of None \<Rightarrow> None
      | Some (a, r) \<Rightarrow> (case get_many get n r of None \<Rightarrow> None | Some (as, r') \<Rightarrow> Some (a # as, r')))"

locale stream_codec =
  fixes put :: "'a \<Rightarrow> bytes"
    and get :: "bytes \<Rightarrow> ('a \<times> bytes) option"
    and valid :: "'a \<Rightarrow> bool"
  assumes get_put: "valid a \<Longrightarrow> get (put a @ r) = Some (a, r)"
    and get_Nil: "get [] = None"
begin

lemma put_nonempty: "valid a \<Longrightarrow> put a \<noteq> []"
  using get_put [of a "[]"] get_Nil by auto

lemma prefix_free: "valid a \<Longrightarrow> valid b \<Longrightarrow> put a @ r = put b @ s \<longleftrightarrow> a = b \<and> r = s"
  by (metis Pair_inject get_put option.inject)

lemma get_many_put:
  "list_all valid as \<Longrightarrow> get_many get (length as) (concat (map put as) @ r) = Some (as, r)"
  by (induction as) (auto simp: get_put)

lemma stream_unique:
  "list_all valid as \<Longrightarrow> list_all valid bs \<Longrightarrow> concat (map put as) = concat (map put bs) \<Longrightarrow> as = bs"
proof (induction as arbitrary: bs)
  case Nil
  then show ?case
    using put_nonempty by (cases bs) auto
next
  case (Cons a as)
  then obtain b bs' where bs: "bs = b # bs'"
    using put_nonempty by (cases bs) auto
  with Cons.prems prefix_free [of a b] have "a = b" and "concat (map put as) = concat (map put bs')"
    by auto
  with Cons bs show ?case by simp
qed

end

section \<open>Correctness\<close>

lemma MAX_FRAME_LEN_simps [simp]: "unat MAX_FRAME_LEN = 1048576" "MAX_FRAME_LEN = 1048576"
  by (simp_all add: MAX_FRAME_LEN_def)

lemma MAX_FRAME_PAYLOAD_simp [simp]: "MAX_FRAME_PAYLOAD = 1048575"
  by (simp add: MAX_FRAME_PAYLOAD_def)

lemma frame_types_distinct: "distinct (map snd frame_types)" "distinct (map fst frame_types)"
  by (simp_all add: frame_types_def)

lemma take4: "4 \<le> length xs \<Longrightarrow> [xs ! 0, xs ! 1, xs ! 2, xs ! 3] = take 4 xs"
  by (auto intro!: nth_equalityI simp: nth_Cons' less_Suc_eq numeral_eq_Suc)

lemma take2: "2 \<le> length xs \<Longrightarrow> [xs ! 0, xs ! 1] = take 2 xs"
  by (auto intro!: nth_equalityI simp: nth_Cons' less_Suc_eq numeral_eq_Suc)

lemma drop_take2: "4 \<le> length xs \<Longrightarrow> [xs ! 2, xs ! 3] = take 2 (drop 2 xs)"
  by (auto intro!: nth_equalityI simp: nth_Cons' less_Suc_eq numeral_eq_Suc)

lemma unat_frame_len:
  assumes "length p < 2 ^ 32 - 1"
  shows "unat (1 + of_nat (length p) :: u32) = Suc (length p)"
  using assms by (simp add: unat_word_ariths unat_of_nat)

lemma frame_len_minus:
  assumes "length p < 2 ^ 32 - 1"
  shows "unat ((1 + of_nat (length p) :: u32) - 1) = length p"
  using assms by (simp add: unat_of_nat)

lemma length_frame_bytes [simp]: "length (frame_bytes t p) = 5 + length p"
  by (simp add: frame_bytes_def)

lemma write_frame_Ok:
  "wr_fail w = None \<Longrightarrow> write_frame w t p = Ok (w\<lparr>wr_data := wr_data w @ frame_bytes t p\<rparr>)"
  by (simp add: write_frame_def write_all_def flush_def)

lemma read_frame_frame_bytes:
  assumes "length p \<le> MAX_FRAME_PAYLOAD"
  shows "read_frame \<lparr>rd_data = frame_bytes t p @ rest, rd_fail = f\<rparr>
           = Ok (Some (t, p), \<lparr>rd_data = rest, rd_fail = f\<rparr>)"
proof -
  have small: "length p < 2 ^ 32 - 1"
    using assms by simp
  let ?len = "1 + of_nat (length p) :: u32"
  have "?len \<noteq> 0"
    using unat_frame_len [OF small] by (metis nat.distinct(1) unsigned_0)
  moreover have "\<not> ?len > MAX_FRAME_LEN"
    using unat_frame_len [OF small] assms by (simp add: word_less_nat_alt not_less)
  ultimately show ?thesis
    using frame_len_minus [OF small]
    by (simp add: read_frame_def read_exact_def frame_bytes_def)
qed

lemma read_frame_oversize:
  assumes "MAX_FRAME_PAYLOAD < length p" and "length p < 2 ^ 32 - 1"
  shows "read_frame \<lparr>rd_data = frame_bytes t p @ rest, rd_fail = f\<rparr> = Err InvalidData"
proof -
  have "1 + of_nat (length p) > MAX_FRAME_LEN"
    using unat_frame_len [OF assms(2)] assms(1) by (simp add: word_less_nat_alt)
  then show ?thesis
    by (simp add: read_frame_def read_exact_def frame_bytes_def)
qed

definition read_frame_bytes :: "bytes \<Rightarrow> ((byte \<times> bytes) \<times> bytes) option" where
  "read_frame_bytes bs =
     (case read_frame \<lparr>rd_data = bs, rd_fail = None\<rparr> of
        Inr (Some f, r) \<Rightarrow> Some (f, rd_data r) | _ \<Rightarrow> None)"

interpretation wire: stream_codec
  "\<lambda>(t, p). frame_bytes t p" read_frame_bytes "\<lambda>(t, p). length p \<le> MAX_FRAME_PAYLOAD"
proof
  fix a :: "byte \<times> bytes" and r
  obtain t p where a: "a = (t, p)" by (cases a)
  assume "case a of (t, p) \<Rightarrow> length p \<le> MAX_FRAME_PAYLOAD"
  with a show "read_frame_bytes ((case a of (t, p) \<Rightarrow> frame_bytes t p) @ r) = Some (a, r)"
    by (simp only: prod.case read_frame_bytes_def read_frame_frame_bytes) simp
next
  show "read_frame_bytes [] = None"
    by (simp add: read_frame_bytes_def read_frame_def read_exact_def)
qed

section \<open>Properties\<close>

text \<open>Any sequence of frames within the payload bound, written back to back, is read again
  frame by frame, whatever bytes follow.\<close>

theorem frame_stream_roundtrip:
  assumes "list_all (\<lambda>(t, p). length p \<le> MAX_FRAME_PAYLOAD) fs"
  shows "get_many read_frame_bytes (length fs) (concat (map (\<lambda>(t, p). frame_bytes t p) fs) @ rest)
    = Some (fs, rest)"
  by (rule wire.get_many_put [OF assms])

theorem frame_stream_roundtrip_witness:
  "list_all (\<lambda>(t, p). length p \<le> MAX_FRAME_PAYLOAD) [(1, [104, 105]), (5, [0, 0, 0, 7])] \<and>
   get_many read_frame_bytes 2 (frame_bytes 1 [104, 105] @ frame_bytes 5 [0, 0, 0, 7] @ [9])
     = Some ([(1, [104, 105]), (5, [0, 0, 0, 7])], [9])"
  using frame_stream_roundtrip [of "[(1, [104, 105]), (5, [0, 0, 0, 7])]" "[9]"]
  by (simp add: numeral_2_eq_2)

text \<open>C27: The parser over a buffer and the reader over a stream agree on every input: they accept
  the same frames and leave the same rest.\<close>

theorem try_parse_reads_frame:
  "read_frame_bytes buf =
     map_option (\<lambda>(t, a, b). ((t, take (b - a) (drop a buf)), drop b buf)) (try_parse buf)"
proof (cases "length buf < 5")
  case True
  then show ?thesis
    by (auto simp: read_frame_bytes_def read_frame_def read_exact_def try_parse_def Let_def
        and_then_def split: sum.splits)
next
  case False
  let ?len = "from_be_bytes (take 4 buf) :: u32"
  show ?thesis
  proof (cases "?len = 0 \<or> ?len > MAX_FRAME_LEN")
    case True
    with False take4 [of buf] show ?thesis
      by (auto simp: read_frame_bytes_def read_frame_def read_exact_def try_parse_def Let_def)
  next
    case len: False
    then have n: "unat ?len = Suc (unat (?len - 1))"
      by (simp add: unat_minus_one unat_gt_0)
    have "drop 4 buf = buf ! 4 # drop 5 buf"
      using False Cons_nth_drop_Suc [of 4 buf] by simp
    with len n False take4 [of buf] show ?thesis
      by (auto simp: read_frame_bytes_def read_frame_def read_exact_def try_parse_def Let_def
          and_then_def take_Suc_conv_app_nth add.commute)
  qed
qed

text \<open>A payload over the bound can be written, but the reader at the other end refuses it.\<close>

theorem oversize_frame_refused:
  assumes "MAX_FRAME_PAYLOAD < length p" and "length p < 2 ^ 32 - 1"
  shows "write_frame \<lparr>wr_data = [], wr_fail = None\<rparr> t p = Ok \<lparr>wr_data = frame_bytes t p, wr_fail = None\<rparr> \<and>
    read_frame \<lparr>rd_data = frame_bytes t p @ rest, rd_fail = f\<rparr> = Err InvalidData"
  by (simp_all add: write_frame_Ok read_frame_oversize [OF assms] del: MAX_FRAME_PAYLOAD_simp)

theorem oversize_frame_refused_witness:
  "MAX_FRAME_PAYLOAD < length (replicate 1048576 (0 :: byte)) \<and>
   write_frame \<lparr>wr_data = [], wr_fail = None\<rparr> 1 (replicate 1048576 0)
     = Ok \<lparr>wr_data = frame_bytes 1 (replicate 1048576 0), wr_fail = None\<rparr> \<and>
   read_frame \<lparr>rd_data = frame_bytes 1 (replicate 1048576 0) @ [], rd_fail = None\<rparr> = Err InvalidData"
  using oversize_frame_refused [of "replicate 1048576 0" 1 "[]" None] by simp

text \<open>A stream that ends inside the four length bytes is reported as a clean end of file.\<close>

theorem truncated_header_is_clean_eof:
  assumes "length bs < 4"
  shows "read_frame \<lparr>rd_data = bs, rd_fail = None\<rparr> = Ok (None, \<lparr>rd_data = [], rd_fail = None\<rparr>)"
  using assms by (simp add: read_frame_def read_exact_def)

theorem truncated_header_is_clean_eof_witness:
  "length [0, 0, 1 :: byte] < 4 \<and>
   read_frame \<lparr>rd_data = [0, 0, 1], rd_fail = None\<rparr> = Ok (None, \<lparr>rd_data = [], rd_fail = None\<rparr>)"
  using truncated_header_is_clean_eof [of "[0, 0, 1]"] by simp

text \<open>Terminal sizes and exit codes are read back from exactly the payloads that start with
  their encoding.\<close>

theorem control_payloads_roundtrip:
  "(parse_resize p = Some (rows, cols) \<longleftrightarrow> take 4 p = resize_payload rows cols) \<and>
   (parse_exit_code p = Some code \<longleftrightarrow> take 4 p = exit_payload code)"
proof (cases "length p < 4")
  case True
  then have "length (take 4 p) \<noteq> length (resize_payload rows cols)"
    and "length (take 4 p) \<noteq> length (exit_payload code)"
    by (simp_all add: resize_payload_def exit_payload_def)
  then have "take 4 p \<noteq> resize_payload rows cols" and "take 4 p \<noteq> exit_payload code" by metis+
  with True show ?thesis by (simp add: parse_resize_def parse_exit_code_def)
next
  case False
  then have two: "2 \<le> length p" "4 \<le> length p" by simp_all
  have "take 4 p = take 2 p @ take 2 (drop 2 p)" using take_add [of 2 2 p] by simp
  moreover have "parse_resize p = Some (from_be_bytes (take 2 p), from_be_bytes (take 2 (drop 2 p)))"
    unfolding parse_resize_def take2 [OF two(1)] drop_take2 [OF two(2)] using False by simp
  moreover have "parse_exit_code p = Some (from_be_bytes (take 4 p))"
    unfolding parse_exit_code_def take4 [OF two(2)] using False by simp
  ultimately show ?thesis
    using two by (auto simp: resize_payload_def exit_payload_def be16.enc_dec be32.enc_dec)
qed

end
