(* ===== verification/Mux_Codec.thy ===== *)
theory Mux_Codec
  imports Wire_Frame
begin

text \<open>
  The session multiplexer's frames, \<^verbatim>\<open>crates/lsb-proto/src/mux.rs\<close>: the frame datatype, the
  validation of session ids, credits, data and reasons, and the encoder and decoder. The lemmas
  show that the decoder inverts the encoder and the encoder the decoder, that every accepted
  frame fits the wire framing, and which error each malformed payload gets.
\<close>

section \<open>Constants and data\<close>

definition MUX_OPEN :: byte where "MUX_OPEN = 0x70"
definition MUX_OPEN_OK :: byte where "MUX_OPEN_OK = 0x71"
definition MUX_OPEN_ERR :: byte where "MUX_OPEN_ERR = 0x72"
definition MUX_DATA :: byte where "MUX_DATA = 0x73"
definition MUX_WINDOW :: byte where "MUX_WINDOW = 0x74"
definition MUX_FIN :: byte where "MUX_FIN = 0x75"
definition MUX_RST :: byte where "MUX_RST = 0x76"

definition SESSION_ID_LEN :: nat where "SESSION_ID_LEN = 8"
definition WINDOW_CREDIT_LEN :: nat where "WINDOW_CREDIT_LEN = 4"
definition MAX_DATA_LEN :: nat where "MAX_DATA_LEN = 64 * 1024"
definition MAX_OPEN_METADATA_LEN :: nat where "MAX_OPEN_METADATA_LEN = 4 * 1024"
definition MAX_REASON_LEN :: nat where "MAX_REASON_LEN = 4 * 1024"
definition WINDOW_PAYLOAD_LEN :: nat where
  "WINDOW_PAYLOAD_LEN = SESSION_ID_LEN + WINDOW_CREDIT_LEN"

lemmas mux_consts =
  MUX_OPEN_def MUX_OPEN_OK_def MUX_OPEN_ERR_def MUX_DATA_def MUX_WINDOW_def MUX_FIN_def MUX_RST_def
  SESSION_ID_LEN_def WINDOW_CREDIT_LEN_def MAX_DATA_LEN_def MAX_OPEN_METADATA_LEN_def
  MAX_REASON_LEN_def WINDOW_PAYLOAD_LEN_def

datatype MuxFrame =
    Open (session_id: u64) (metadata: bytes)
  | OpenOk (session_id: u64) (initial_credit: u32)
  | OpenErr (session_id: u64) (reason: bytes)
  | Data (session_id: u64) (payload: bytes)
  | Window (session_id: u64) (credit: u32)
  | Fin (session_id: u64)
  | Rst (session_id: u64) (reason: bytes)

datatype MuxFrameError =
    UnknownType byte
  | PayloadTooShort byte nat nat
  | InvalidPayloadLen byte nat nat
  | ReservedSessionId
  | InvalidHostSessionId u64
  | InvalidGuestSessionId u64
  | EmptyData
  | DataTooLarge nat nat
  | MetadataTooLarge nat nat
  | ReasonTooLarge nat nat
  | ZeroWindowCredit
  | ReasonNotUtf8

section \<open>Validation\<close>

definition is_host_session_id :: "u64 \<Rightarrow> bool" where
  "is_host_session_id sid \<longleftrightarrow> sid \<noteq> 0 \<and> sid mod 2 = 1"

definition is_guest_session_id :: "u64 \<Rightarrow> bool" where
  "is_guest_session_id sid \<longleftrightarrow> sid \<noteq> 0 \<and> sid mod 2 = 0"

definition validate_session_id :: "u64 \<Rightarrow> (unit, MuxFrameError) result" where
  "validate_session_id sid = (if sid = 0 then Err ReservedSessionId else Ok ())"

definition validate_host_session_id :: "u64 \<Rightarrow> (unit, MuxFrameError) result" where
  "validate_host_session_id sid =
     (if is_host_session_id sid then Ok ()
      else if sid = 0 then Err ReservedSessionId
      else Err (InvalidHostSessionId sid))"

definition validate_guest_session_id :: "u64 \<Rightarrow> (unit, MuxFrameError) result" where
  "validate_guest_session_id sid =
     (if is_guest_session_id sid then Ok ()
      else if sid = 0 then Err ReservedSessionId
      else Err (InvalidGuestSessionId sid))"

definition validate_credit :: "u32 \<Rightarrow> (unit, MuxFrameError) result" where
  "validate_credit c = (if c = 0 then Err ZeroWindowCredit else Ok ())"

definition validate_payload_len :: "byte \<Rightarrow> bytes \<Rightarrow> nat \<Rightarrow> (unit, MuxFrameError) result" where
  "validate_payload_len frame_type p m =
     (if length p > m
      then Err (if frame_type = MUX_DATA then DataTooLarge (length p) m
                else MetadataTooLarge (length p) m)
      else Ok ())"

definition validate_data :: "bytes \<Rightarrow> (unit, MuxFrameError) result" where
  "validate_data d =
     (if d = [] then Err EmptyData else validate_payload_len MUX_DATA d MAX_DATA_LEN)"

definition validate_reason :: "bytes \<Rightarrow> (unit, MuxFrameError) result" where
  "validate_reason r =
     (if length r > MAX_REASON_LEN then Err (ReasonTooLarge (length r) MAX_REASON_LEN) else Ok ())"

section \<open>Encoding\<close>

definition encode_session_id :: "u64 \<Rightarrow> (bytes, MuxFrameError) result" where
  "encode_session_id sid =
     and_then (validate_session_id sid) (\<lambda>_. Ok (to_be_bytes 8 sid))"

fun encode_frame :: "MuxFrame \<Rightarrow> (byte \<times> bytes, MuxFrameError) result" where
  "encode_frame (Open sid meta) =
     and_then (encode_session_id sid) (\<lambda>p.
     and_then (validate_payload_len MUX_OPEN meta MAX_OPEN_METADATA_LEN) (\<lambda>_.
       Ok (MUX_OPEN, p @ meta)))"
| "encode_frame (OpenOk sid c) =
     and_then (encode_session_id sid) (\<lambda>p.
     and_then (validate_credit c) (\<lambda>_. Ok (MUX_OPEN_OK, p @ to_be_bytes 4 c)))"
| "encode_frame (OpenErr sid r) =
     and_then (encode_session_id sid) (\<lambda>p.
     and_then (validate_reason r) (\<lambda>_. Ok (MUX_OPEN_ERR, p @ r)))"
| "encode_frame (Data sid d) =
     and_then (encode_session_id sid) (\<lambda>p.
     and_then (validate_data d) (\<lambda>_. Ok (MUX_DATA, p @ d)))"
| "encode_frame (Window sid c) =
     and_then (encode_session_id sid) (\<lambda>p.
     and_then (validate_credit c) (\<lambda>_. Ok (MUX_WINDOW, p @ to_be_bytes 4 c)))"
| "encode_frame (Fin sid) =
     and_then (encode_session_id sid) (\<lambda>p. Ok (MUX_FIN, p))"
| "encode_frame (Rst sid r) =
     and_then (encode_session_id sid) (\<lambda>p.
     and_then (validate_reason r) (\<lambda>_. Ok (MUX_RST, p @ r)))"

section \<open>Decoding\<close>

definition decode_session_id :: "bytes \<Rightarrow> (u64, MuxFrameError) result" where
  "decode_session_id p =
     (let sid = from_be_bytes p in and_then (validate_session_id sid) (\<lambda>_. Ok sid))"

definition decode_session_prefixed :: "byte \<Rightarrow> bytes \<Rightarrow> (u64 \<times> bytes, MuxFrameError) result" where
  "decode_session_prefixed frame_type p =
     (if length p < SESSION_ID_LEN then Err (PayloadTooShort frame_type SESSION_ID_LEN (length p))
      else and_then (decode_session_id (take SESSION_ID_LEN p)) (\<lambda>sid.
             Ok (sid, drop SESSION_ID_LEN p)))"

definition decode_window_payload :: "byte \<Rightarrow> bytes \<Rightarrow> (u64 \<times> u32, MuxFrameError) result" where
  "decode_window_payload frame_type p =
     (if length p \<noteq> WINDOW_PAYLOAD_LEN
      then Err (InvalidPayloadLen frame_type WINDOW_PAYLOAD_LEN (length p))
      else and_then (decode_session_id (take SESSION_ID_LEN p)) (\<lambda>sid.
           let c = from_be_bytes (take WINDOW_CREDIT_LEN (drop SESSION_ID_LEN p)) in
           and_then (validate_credit c) (\<lambda>_. Ok (sid, c))))"

definition decode_reason_payload :: "byte \<Rightarrow> bytes \<Rightarrow> (u64 \<times> bytes, MuxFrameError) result" where
  "decode_reason_payload frame_type p =
     and_then (decode_session_prefixed frame_type p) (\<lambda>(sid, r).
       if length r > MAX_REASON_LEN then Err (ReasonTooLarge (length r) MAX_REASON_LEN)
       else if \<not> utf8_valid r then Err ReasonNotUtf8
       else Ok (sid, r))"

definition decode_frame :: "byte \<Rightarrow> bytes \<Rightarrow> (MuxFrame, MuxFrameError) result" where
  "decode_frame frame_type p =
     (if frame_type = MUX_OPEN then
        and_then (decode_session_prefixed frame_type p) (\<lambda>(sid, meta).
        and_then (validate_payload_len frame_type meta MAX_OPEN_METADATA_LEN) (\<lambda>_.
          Ok (Open sid meta)))
      else if frame_type = MUX_OPEN_OK then
        and_then (decode_window_payload frame_type p) (\<lambda>(sid, c). Ok (OpenOk sid c))
      else if frame_type = MUX_OPEN_ERR then
        and_then (decode_reason_payload frame_type p) (\<lambda>(sid, r). Ok (OpenErr sid r))
      else if frame_type = MUX_DATA then
        and_then (decode_session_prefixed frame_type p) (\<lambda>(sid, d).
        and_then (validate_data d) (\<lambda>_. Ok (Data sid d)))
      else if frame_type = MUX_WINDOW then
        and_then (decode_window_payload frame_type p) (\<lambda>(sid, c). Ok (Window sid c))
      else if frame_type = MUX_FIN then
        (if length p \<noteq> SESSION_ID_LEN
         then Err (InvalidPayloadLen frame_type SESSION_ID_LEN (length p))
         else and_then (decode_session_id (take SESSION_ID_LEN p)) (\<lambda>sid. Ok (Fin sid)))
      else if frame_type = MUX_RST then
        and_then (decode_reason_payload frame_type p) (\<lambda>(sid, r). Ok (Rst sid r))
      else Err (UnknownType frame_type))"

section \<open>Messages\<close>

text \<open>The \<^verbatim>\<open>Display\<close> form of the errors, which the mux managers put into failure reasons.\<close>

definition show_hex2 :: "byte \<Rightarrow> bytes" where
  "show_hex2 b = [hex_digit (unat b div 16), hex_digit (unat b mod 16)]"

definition show_num :: "nat \<Rightarrow> bytes" where
  "show_num n = str (show_dec n)"

fun display_error :: "MuxFrameError \<Rightarrow> bytes" where
  "display_error (UnknownType t) = str ''unknown mux frame type 0x'' @ show_hex2 t"
| "display_error (PayloadTooShort t m a) =
     str ''mux frame type 0x'' @ show_hex2 t @ str '' payload too short: expected at least ''
       @ show_num m @ str '' bytes, got '' @ show_num a"
| "display_error (InvalidPayloadLen t m a) =
     str ''mux frame type 0x'' @ show_hex2 t @ str '' payload length mismatch: expected ''
       @ show_num m @ str '' bytes, got '' @ show_num a"
| "display_error ReservedSessionId = str ''mux session id 0 is reserved''"
| "display_error (InvalidHostSessionId sid) =
     str ''invalid host-opened mux session id '' @ show_num (unat sid)
       @ str '': expected a non-zero odd id''"
| "display_error (InvalidGuestSessionId sid) =
     str ''invalid guest-opened mux session id '' @ show_num (unat sid)
       @ str '': expected a non-zero even id''"
| "display_error EmptyData = str ''mux data frame payload is empty''"
| "display_error (DataTooLarge l m) =
     str ''mux data payload too large: '' @ show_num l @ str '' bytes exceeds '' @ show_num m"
| "display_error (MetadataTooLarge l m) =
     str ''mux open metadata too large: '' @ show_num l @ str '' bytes exceeds '' @ show_num m"
| "display_error (ReasonTooLarge l m) =
     str ''mux reason too large: '' @ show_num l @ str '' bytes exceeds '' @ show_num m"
| "display_error ZeroWindowCredit = str ''mux window credit must be non-zero''"
| "display_error ReasonNotUtf8 = str ''mux reason is not valid UTF-8''"

section \<open>Correctness\<close>

text \<open>
  What a sender must respect. A reason is a Rust \<^verbatim>\<open>String\<close>, so it is UTF-8 by its type; the
  predicate states it for the byte list that stands for it.
\<close>

fun mux_frame_ok :: "MuxFrame \<Rightarrow> bool" where
  "mux_frame_ok (Open sid meta) \<longleftrightarrow> sid \<noteq> 0 \<and> length meta \<le> MAX_OPEN_METADATA_LEN"
| "mux_frame_ok (OpenOk sid c) \<longleftrightarrow> sid \<noteq> 0 \<and> c \<noteq> 0"
| "mux_frame_ok (OpenErr sid r) \<longleftrightarrow> sid \<noteq> 0 \<and> length r \<le> MAX_REASON_LEN \<and> utf8_valid r"
| "mux_frame_ok (Data sid d) \<longleftrightarrow> sid \<noteq> 0 \<and> d \<noteq> [] \<and> length d \<le> MAX_DATA_LEN"
| "mux_frame_ok (Window sid c) \<longleftrightarrow> sid \<noteq> 0 \<and> c \<noteq> 0"
| "mux_frame_ok (Fin sid) \<longleftrightarrow> sid \<noteq> 0"
| "mux_frame_ok (Rst sid r) \<longleftrightarrow> sid \<noteq> 0 \<and> length r \<le> MAX_REASON_LEN \<and> utf8_valid r"

lemmas mux_validate_defs =
  encode_session_id_def validate_session_id_def validate_credit_def validate_reason_def
  validate_data_def validate_payload_len_def

lemmas mux_decode_defs =
  decode_frame_def decode_session_prefixed_def decode_window_payload_def decode_reason_payload_def
  decode_session_id_def mux_validate_defs mux_consts

lemma host_guest_ids_disjoint: "\<not> (is_host_session_id sid \<and> is_guest_session_id sid)"
  by (auto simp: is_host_session_id_def is_guest_session_id_def)

lemma be64_drop [simp]: "drop 8 (to_be_bytes 8 (x :: u64)) = []" "take 8 (to_be_bytes 8 (x :: u64)) = to_be_bytes 8 x"
  by simp_all

lemma encode_frame_ok:
  assumes "mux_frame_ok f"
  shows "\<exists>t p. encode_frame f = Ok (t, p) \<and> decode_frame t p = Ok f \<and> length p \<le> MAX_FRAME_PAYLOAD"
  using assms by (cases f) (auto simp: mux_decode_defs)

lemma encode_frame_Ok_iff:
  assumes "\<And>sid r. f \<in> {OpenErr sid r, Rst sid r} \<Longrightarrow> utf8_valid r"
  shows "(\<exists>t p. encode_frame f = Ok (t, p)) \<longleftrightarrow> mux_frame_ok f"
  using assms by (cases f) (auto simp: mux_validate_defs)

lemma decode_frame_ok:
  assumes "decode_frame t p = Ok f"
  shows "mux_frame_ok f \<and> encode_frame f = Ok (t, p)"
  using assms
  by (auto simp: mux_decode_defs be64.enc_dec be32.enc_dec and_then_Ok_iff Let_def split: if_splits)

text \<open>
  A mux frame on the wire: what the write loops of both mux managers put there and what their
  read loops get back.
\<close>

definition put_mux_frame :: "MuxFrame \<Rightarrow> bytes" where
  "put_mux_frame f = (case encode_frame f of Inr (t, p) \<Rightarrow> frame_bytes t p | Inl _ \<Rightarrow> [])"

definition get_mux_frame :: "bytes \<Rightarrow> (MuxFrame \<times> bytes) option" where
  "get_mux_frame bs =
     (case read_frame_bytes bs of
        Some ((t, p), r) \<Rightarrow> (case decode_frame t p of Inr f \<Rightarrow> Some (f, r) | Inl _ \<Rightarrow> None)
      | None \<Rightarrow> None)"

interpretation mux_wire: stream_codec put_mux_frame get_mux_frame mux_frame_ok
proof
  fix f r
  assume "mux_frame_ok f"
  then obtain t p where tp: "encode_frame f = Ok (t, p)" "decode_frame t p = Ok f"
    "length p \<le> MAX_FRAME_PAYLOAD"
    using encode_frame_ok by blast
  with wire.get_put [of "(t, p)" r] show "get_mux_frame (put_mux_frame f @ r) = Some (f, r)"
    by (simp add: get_mux_frame_def put_mux_frame_def)
next
  show "get_mux_frame [] = None"
    by (simp add: get_mux_frame_def wire.get_Nil)
qed

section \<open>Properties\<close>

text \<open>C25: Decoding and encoding of mux frames are inverse to each other: a payload decodes to a frame
  exactly if the frame is legal and encodes to that type and payload.\<close>

theorem mux_codec_inverse:
  "decode_frame t p = Ok f \<longleftrightarrow> mux_frame_ok f \<and> encode_frame f = Ok (t, p)"
  using decode_frame_ok encode_frame_ok by fastforce

text \<open>C26: What one mux manager writes, the other reads: any sequence of legal mux frames is recovered
  from its bytes on the wire, and no other sequence has the same bytes.\<close>

theorem mux_wire_roundtrip:
  assumes "list_all mux_frame_ok fs"
  shows "get_many get_mux_frame (length fs) (concat (map put_mux_frame fs) @ rest) = Some (fs, rest) \<and>
    (list_all mux_frame_ok gs \<longrightarrow> concat (map put_mux_frame gs) = concat (map put_mux_frame fs) \<longrightarrow> gs = fs)"
  using mux_wire.get_many_put [OF assms] mux_wire.stream_unique [OF _ assms] by simp_all

theorem mux_wire_roundtrip_witness:
  "list_all mux_frame_ok [Open 1 [101], Window 1 5, Fin 1] \<and>
   get_many get_mux_frame 3 (put_mux_frame (Open 1 [101]) @ put_mux_frame (Window 1 5) @ put_mux_frame (Fin 1))
     = Some ([Open 1 [101], Window 1 5, Fin 1], []) \<and>
   [Open 1 [101], Window 1 5, Fin 1] = [Open 1 [101], Window 1 5, Fin 1]"
proof -
  have ok: "list_all mux_frame_ok [Open 1 [101], Window 1 5, Fin 1]" by (simp add: mux_consts)
  then show ?thesis
    using mux_wire_roundtrip [OF ok, of "[]" "[Open 1 [101], Window 1 5, Fin 1]"]
    by (simp add: numeral_3_eq_3)
qed

end
