(* ===== verification/Mux_Session.thy ===== *)
theory Mux_Session
  imports Mux_Codec
begin

text \<open>
  What the two mux managers have in common. The Windows host
  (\<^verbatim>\<open>crates/lsb-platform/src/windows_x86_64/control/mux.rs\<close>) and the guest
  (\<^verbatim>\<open>crates/lsb-guest/src/main.rs\<close>) each keep a map of sessions, a queue of control frames and a
  queue of sessions that have something to send, behind one mutex. The per-session state and the
  code that closes a session, queues data, and picks the next outgoing frame is the same text in
  both crates; it is modelled here once, on an extensible record, and used by \<open>Mux_Host\<close> and
  \<open>Mux_Guest\<close>.

  A blocking operation is modelled by one attempt under the mutex, from one wake-up to the next:
  where the code waits on the condition variable the attempt is \<open>Wait\<close>, and the operation is
  attempted again from whatever state the other threads have left.
\<close>

section \<open>State\<close>

record mux_session =
  inbound :: bytes
  outbound :: "bytes list"
  outbound_bytes :: nat
  send_credit :: nat
  remote_fin :: bool
  local_fin :: bool
  fin_sent :: bool
  reset_reason :: "bytes option"
  scheduled :: bool

record 's mux_core =
  sessions :: "u64 \<Rightarrow> 's option"
  control_queue :: "MuxFrame list"
  ready_sessions :: "u64 list"
  failed :: "bytes option"

type_synonym ('a, 'b) mux_state = "('a mux_session_scheme, 'b) mux_core_scheme"

datatype 'a attempt = Wait | Ready 'a

definition RECEIVE_QUEUE_BYTES :: nat where
  "RECEIVE_QUEUE_BYTES = 256 * 1024"

definition SEND_QUEUE_BYTES :: nat where
  "SEND_QUEUE_BYTES = 256 * 1024"

definition MAX_CONTROL_QUEUE_FRAMES :: nat where
  "MAX_CONTROL_QUEUE_FRAMES = 128"

section \<open>Sessions\<close>

definition is_drained :: "'a mux_session_scheme \<Rightarrow> bool" where
  "is_drained s \<longleftrightarrow>
     local_fin s \<and> fin_sent s \<and> remote_fin s \<and> inbound s = [] \<and> outbound s = [] \<and>
     outbound_bytes s = 0"

definition put_session :: "('a, 'b) mux_state \<Rightarrow> u64 \<Rightarrow> 'a mux_session_scheme \<Rightarrow> ('a, 'b) mux_state" where
  "put_session st sid s = st\<lparr>sessions := (sessions st)(sid \<mapsto> s)\<rparr>"

definition push_control :: "('a, 'b) mux_state \<Rightarrow> MuxFrame \<Rightarrow> ('a, 'b) mux_state" where
  "push_control st f = st\<lparr>control_queue := control_queue st @ [f]\<rparr>"

text \<open>Marking a session as having something to send, unless it is scheduled already.\<close>

definition schedule :: "('a, 'b) mux_state \<Rightarrow> u64 \<Rightarrow> 'a mux_session_scheme \<Rightarrow> ('a, 'b) mux_state" where
  "schedule st sid s =
     (if scheduled s then put_session st sid s
      else (put_session st sid (s\<lparr>scheduled := True\<rparr>))
             \<lparr>ready_sessions := ready_sessions st @ [sid]\<rparr>)"

text \<open>\<^verbatim>\<open>close_session\<close>, which the handle's \<^verbatim>\<open>drop\<close> and the explicit close call.\<close>

definition close_session :: "('a, 'b) mux_state \<Rightarrow> u64 \<Rightarrow> ('a, 'b) mux_state" where
  "close_session st sid =
     (if failed st \<noteq> None then st
      else case sessions st sid of
             None \<Rightarrow> st
           | Some s \<Rightarrow> if local_fin s then st else schedule st sid (s\<lparr>local_fin := True\<rparr>))"

text \<open>How much of a buffer a write takes: bounded by the frame size, the peer's credit and the
  local send queue.\<close>

definition writable :: "'a mux_session_scheme \<Rightarrow> bytes \<Rightarrow> nat" where
  "writable s buf =
     min (min (min (length buf) MAX_DATA_LEN) (send_credit s)) (SEND_QUEUE_BYTES - outbound_bytes s)"

definition queue_outbound :: "'a mux_session_scheme \<Rightarrow> bytes \<Rightarrow> nat \<Rightarrow> 'a mux_session_scheme" where
  "queue_outbound s buf n =
     s\<lparr>outbound := outbound s @ [take n buf], outbound_bytes := outbound_bytes s + n,
       send_credit := send_credit s - n\<rparr>"

section \<open>The next outgoing frame\<close>

text \<open>
  The inner loop over the ready queue. The list argument is what is left of the queue; the
  queue of the returned state is what remains after the frame was taken. The manager's own
  \<^verbatim>\<open>prune_drained_session\<close> is an argument, since the guest also forgets the session's place in
  its accept queue.
\<close>

fun next_ready ::
  "(('a, 'b) mux_state \<Rightarrow> u64 \<Rightarrow> ('a, 'b) mux_state) \<Rightarrow> u64 list \<Rightarrow> ('a, 'b) mux_state
     \<Rightarrow> MuxFrame option \<times> ('a, 'b) mux_state" where
  "next_ready prune [] st = (None, st\<lparr>ready_sessions := []\<rparr>)"
| "next_ready prune (sid # rest) st =
     (case sessions st sid of
        None \<Rightarrow> next_ready prune rest st
      | Some s \<Rightarrow>
          (case outbound s of
             b # bs \<Rightarrow>
               let s = s\<lparr>outbound := bs, outbound_bytes := outbound_bytes s - length b\<rparr> in
               if bs = [] \<and> \<not> (local_fin s \<and> \<not> fin_sent s)
               then (Some (Data sid b),
                     (put_session st sid (s\<lparr>scheduled := False\<rparr>))\<lparr>ready_sessions := rest\<rparr>)
               else (Some (Data sid b), (put_session st sid s)\<lparr>ready_sessions := rest @ [sid]\<rparr>)
           | [] \<Rightarrow>
               if local_fin s \<and> \<not> fin_sent s
               then let s = s\<lparr>fin_sent := True, scheduled := False\<rparr>;
                        st = (put_session st sid s)\<lparr>ready_sessions := rest\<rparr> in
                    (Some (Fin sid), if is_drained s then prune st sid else st)
               else next_ready prune rest (put_session st sid (s\<lparr>scheduled := False\<rparr>))))"

definition next_outgoing_frame ::
  "(('a, 'b) mux_state \<Rightarrow> u64 \<Rightarrow> ('a, 'b) mux_state) \<Rightarrow> ('a, 'b) mux_state
     \<Rightarrow> MuxFrame option attempt \<times> ('a, 'b) mux_state" where
  "next_outgoing_frame prune st =
     (if failed st \<noteq> None then (Ready None, st)
      else case control_queue st of
             f # fs \<Rightarrow> (Ready (Some f), st\<lparr>control_queue := fs\<rparr>)
           | [] \<Rightarrow> (case next_ready prune (ready_sessions st) st of
                      (Some f, st') \<Rightarrow> (Ready (Some f), st')
                    | (None, st') \<Rightarrow> (Wait, st')))"

section \<open>What both ends keep\<close>

text \<open>
  A session's queues: the byte count is the size of the queued chunks, every chunk is a legal
  data frame, neither queue exceeds its bound, and a FIN that was sent was asked for.
\<close>

definition session_ok :: "'a mux_session_scheme \<Rightarrow> bool" where
  "session_ok s \<longleftrightarrow>
     outbound_bytes s = sum_list (map length (outbound s)) \<and>
     (\<forall>b \<in> set (outbound s). b \<noteq> [] \<and> length b \<le> MAX_DATA_LEN) \<and>
     outbound_bytes s \<le> SEND_QUEUE_BYTES \<and>
     length (inbound s) \<le> RECEIVE_QUEUE_BYTES \<and>
     (fin_sent s \<longrightarrow> local_fin s)"

definition has_work :: "'a mux_session_scheme \<Rightarrow> bool" where
  "has_work s \<longleftrightarrow> outbound s \<noteq> [] \<or> (local_fin s \<and> \<not> fin_sent s)"

text \<open>The ready queue and the \<open>scheduled\<close> flags agree, and a session with work is scheduled.\<close>

definition sched_at :: "u64 list \<Rightarrow> ('a, 'b) mux_state \<Rightarrow> bool" where
  "sched_at rs st \<longleftrightarrow>
     distinct rs \<and>
     (\<forall>sid s. sessions st sid = Some s \<longrightarrow>
        (scheduled s \<longleftrightarrow> sid \<in> set rs) \<and> (has_work s \<longrightarrow> scheduled s))"

abbreviation sched_ok :: "('a, 'b) mux_state \<Rightarrow> bool" where
  "sched_ok st \<equiv> sched_at (ready_sessions st) st"

definition endpoint_ok :: "('a, 'b) mux_state \<Rightarrow> bool" where
  "endpoint_ok st \<longleftrightarrow>
     (\<forall>sid s. sessions st sid = Some s \<longrightarrow> session_ok s) \<and>
     (failed st = None \<longrightarrow> sched_ok st) \<and>
     length (control_queue st) \<le> MAX_CONTROL_QUEUE_FRAMES"

text \<open>Two states with the same sessions but for the \<open>scheduled\<close> flags.\<close>

definition unscheduled :: "'a mux_session_scheme option \<Rightarrow> 'a mux_session_scheme option" where
  "unscheduled = map_option (\<lambda>s. s\<lparr>scheduled := False\<rparr>)"

lemma unscheduled_simps [simp]:
  "unscheduled None = None"
  "unscheduled (Some s) = Some (s\<lparr>scheduled := False\<rparr>)"
  by (simp_all add: unscheduled_def)

lemma put_session_simps [simp]:
  "sessions (put_session st sid s) = (sessions st)(sid \<mapsto> s)"
  "control_queue (put_session st sid s) = control_queue st"
  "ready_sessions (put_session st sid s) = ready_sessions st"
  "failed (put_session st sid s) = failed st"
  by (simp_all add: put_session_def)

lemma push_control_simps [simp]:
  "sessions (push_control st f) = sessions st"
  "control_queue (push_control st f) = control_queue st @ [f]"
  "ready_sessions (push_control st f) = ready_sessions st"
  "failed (push_control st f) = failed st"
  by (simp_all add: push_control_def)

lemma session_ok_scheduled [simp]: "session_ok (s\<lparr>scheduled := b\<rparr>) = session_ok s"
  by (simp add: session_ok_def)

lemma has_work_scheduled [simp]: "has_work (s\<lparr>scheduled := b\<rparr>) = has_work s"
  by (simp add: has_work_def)

lemma session_ok_updates [simp]:
  "session_ok (s\<lparr>send_credit := c\<rparr>) = session_ok s"
  "session_ok (s\<lparr>remote_fin := b\<rparr>) = session_ok s"
  "session_ok (s\<lparr>reset_reason := r\<rparr>) = session_ok s"
  by (simp_all add: session_ok_def)

lemma has_work_updates [simp]:
  "has_work (s\<lparr>inbound := x\<rparr>) = has_work s"
  "has_work (s\<lparr>send_credit := c\<rparr>) = has_work s"
  "has_work (s\<lparr>remote_fin := b\<rparr>) = has_work s"
  "has_work (s\<lparr>reset_reason := r\<rparr>) = has_work s"
  by (simp_all add: has_work_def)

lemma scheduled_idem: "scheduled s \<Longrightarrow> s\<lparr>scheduled := True\<rparr> = s"
  by (cases s) simp

lemma schedule_simps [simp]:
  "sessions (schedule st sid s) = (sessions st)(sid \<mapsto> s\<lparr>scheduled := True\<rparr>)"
  "control_queue (schedule st sid s) = control_queue st"
  "failed (schedule st sid s) = failed st"
  "ready_sessions (schedule st sid s) =
     (if scheduled s then ready_sessions st else ready_sessions st @ [sid])"
  by (simp_all add: schedule_def scheduled_idem)

lemma endpoint_ok_session: "endpoint_ok st \<Longrightarrow> sessions st sid = Some s \<Longrightarrow> session_ok s"
  by (auto simp: endpoint_ok_def)

lemma endpoint_ok_bounds:
  assumes "endpoint_ok st"
  shows "length (control_queue st) \<le> 128"
    and "sessions st sid = Some s \<Longrightarrow> length (inbound s) \<le> 262144 \<and>
      length (concat (outbound s)) \<le> 262144 \<and> outbound_bytes s = length (concat (outbound s))"
proof -
  show "length (control_queue st) \<le> 128"
    using assms by (simp add: endpoint_ok_def MAX_CONTROL_QUEUE_FRAMES_def)
  assume "sessions st sid = Some s"
  with assms have "session_ok s" by (rule endpoint_ok_session)
  then show "length (inbound s) \<le> 262144 \<and> length (concat (outbound s)) \<le> 262144 \<and>
      outbound_bytes s = length (concat (outbound s))"
    by (auto simp: session_ok_def length_concat RECEIVE_QUEUE_BYTES_def SEND_QUEUE_BYTES_def)
qed

text \<open>
  Writing a session back keeps the invariant if its flag still says whether it is queued; so does
  scheduling it.
\<close>

lemma put_session_ok:
  assumes "endpoint_ok st" and "sessions st sid = Some s" and "session_ok s'"
    and "scheduled s' = scheduled s" and "has_work s' \<longrightarrow> has_work s"
  shows "endpoint_ok (put_session st sid s')"
  using assms by (auto simp: endpoint_ok_def sched_at_def split: if_splits)

lemma schedule_ok:
  assumes "endpoint_ok st" and "sessions st sid = Some s" and "session_ok s'"
    and "scheduled s' = scheduled s"
  shows "endpoint_ok (schedule st sid s')"
  using assms by (auto simp: endpoint_ok_def sched_at_def split: if_splits)

lemma push_control_ok:
  "endpoint_ok st \<Longrightarrow> length (control_queue st) < MAX_CONTROL_QUEUE_FRAMES
     \<Longrightarrow> endpoint_ok (push_control st f)"
  by (auto simp: endpoint_ok_def sched_at_def)

lemma close_session_ok:
  assumes "endpoint_ok st"
  shows "endpoint_ok (close_session st sid)"
proof (cases "sessions st sid")
  case (Some s)
  with assms have "session_ok (s\<lparr>local_fin := True\<rparr>)"
    by (auto simp: session_ok_def dest!: endpoint_ok_session)
  with assms Some show ?thesis
    by (auto simp: close_session_def intro!: schedule_ok)
qed (use assms in \<open>simp add: close_session_def\<close>)

lemma writable_bounds:
  "writable s buf \<le> length buf" "writable s buf \<le> MAX_DATA_LEN"
  "writable s buf \<le> send_credit s" "writable s buf \<le> SEND_QUEUE_BYTES - outbound_bytes s"
  by (auto simp: writable_def)

lemma queue_outbound_ok:
  assumes "session_ok s" and "0 < n" and "n = writable s buf"
  shows "session_ok (queue_outbound s buf n)"
proof -
  have "n \<le> length buf" "n \<le> MAX_DATA_LEN" "n \<le> SEND_QUEUE_BYTES - outbound_bytes s"
    using assms(3) writable_bounds by auto
  with assms show ?thesis
    by (auto simp: session_ok_def queue_outbound_def)
qed

lemma queue_outbound_scheduled [simp]: "scheduled (queue_outbound s buf n) = scheduled s"
  by (simp add: queue_outbound_def)

section \<open>The writer's contract\<close>

text \<open>
  What the writer thread relies on from the manager: pruning removes the session exactly when it is
  drained, takes it out of the ready queue, and touches nothing else the writer looks at. The
  host's and the guest's \<^verbatim>\<open>prune_drained_session\<close> interpret it.
\<close>

definition unschedule :: "('a, 'b) mux_state \<Rightarrow> u64 \<Rightarrow> ('a, 'b) mux_state" where
  "unschedule st sid =
     (case sessions st sid of None \<Rightarrow> st | Some s \<Rightarrow> put_session st sid (s\<lparr>scheduled := False\<rparr>))"

lemma unschedule_simps [simp]:
  "control_queue (unschedule st sid) = control_queue st"
  "failed (unschedule st sid) = failed st"
  "unscheduled (sessions (unschedule st sid) i) = unscheduled (sessions st i)"
  by (auto simp: unschedule_def split: option.splits)

lemma sched_at_unschedule:
  assumes "sched_at (sid # rest) st" and "\<And>s. sessions st sid = Some s \<Longrightarrow> \<not> has_work s"
  shows "sched_at rest (unschedule st sid)"
  using assms by (auto simp: sched_at_def unschedule_def split: option.splits if_splits)

locale mux_endpoint =
  fixes prune :: "('a, 'b) mux_state \<Rightarrow> u64 \<Rightarrow> ('a, 'b) mux_state"
  assumes prune_drained:
      "sessions st sid = Some s \<Longrightarrow> is_drained s \<Longrightarrow> sessions (prune st sid) = (sessions st)(sid := None)"
    and prune_drained_ready:
      "sessions st sid = Some s \<Longrightarrow> is_drained s
         \<Longrightarrow> ready_sessions (prune st sid) = filter (\<lambda>q. q \<noteq> sid) (ready_sessions st)"
    and prune_not_drained:
      "(\<And>s. sessions st sid = Some s \<Longrightarrow> \<not> is_drained s) \<Longrightarrow> prune st sid = st"
    and prune_control: "control_queue (prune st sid) = control_queue st"
    and prune_failed: "failed (prune st sid) = failed st"
begin

lemma prune_ok: "endpoint_ok st \<Longrightarrow> endpoint_ok (prune st sid)"
proof (cases "\<exists>s. sessions st sid = Some s \<and> is_drained s")
  case True
  then obtain s where "sessions st sid = Some s" "is_drained s" by blast
  then show "endpoint_ok st \<Longrightarrow> endpoint_ok (prune st sid)"
    by (auto simp: endpoint_ok_def sched_at_def prune_drained prune_drained_ready prune_control
        prune_failed split: if_splits)
next
  case False
  then have "prune st sid = st"
    using prune_not_drained by blast
  then show "endpoint_ok st \<Longrightarrow> endpoint_ok (prune st sid)" by simp
qed

text \<open>A session without work is skipped; the first one with work gives the frame.\<close>

lemma next_ready_skip:
  "(\<And>s. sessions st sid = Some s \<Longrightarrow> \<not> has_work s)
     \<Longrightarrow> next_ready prune (sid # rest) st = next_ready prune rest (unschedule st sid)"
  by (auto simp: unschedule_def has_work_def split: option.splits list.splits)

lemma next_ready_data:
  assumes "sessions st sid = Some s" and "outbound s = b # bs"
    and "s' = s\<lparr>outbound := bs, outbound_bytes := outbound_bytes s - length b\<rparr>"
  shows "next_ready prune (sid # rest) st =
    (Some (Data sid b),
     if has_work s' then (put_session st sid s')\<lparr>ready_sessions := rest @ [sid]\<rparr>
     else (put_session st sid (s'\<lparr>scheduled := False\<rparr>))\<lparr>ready_sessions := rest\<rparr>)"
  using assms by (auto simp: has_work_def Let_def)

lemma next_ready_fin:
  assumes "sessions st sid = Some s" and "outbound s = []" and "local_fin s" and "\<not> fin_sent s"
    and "s' = s\<lparr>fin_sent := True, scheduled := False\<rparr>"
  shows "next_ready prune (sid # rest) st =
    (Some (Fin sid), prune ((put_session st sid s')\<lparr>ready_sessions := rest\<rparr>) sid)"
proof (cases "is_drained s'")
  case True
  with assms show ?thesis by simp
next
  case False
  then have "prune ((put_session st sid s')\<lparr>ready_sessions := rest\<rparr>) sid
      = (put_session st sid s')\<lparr>ready_sessions := rest\<rparr>"
    by (intro prune_not_drained) auto
  with False assms show ?thesis by simp
qed

lemma has_work_cases:
  assumes "has_work s"
  obtains (data) b bs where "outbound s = b # bs"
    | (fin) "outbound s = []" "local_fin s" "\<not> fin_sent s"
  using assms by (cases "outbound s") (auto simp: has_work_def)

lemma next_ready_induct [case_names Nil skip data fin]:
  assumes "\<And>st. P [] st"
    and "\<And>sid rest st. (\<And>s. sessions st sid = Some s \<Longrightarrow> \<not> has_work s)
           \<Longrightarrow> P rest (unschedule st sid) \<Longrightarrow> P (sid # rest) st"
    and "\<And>sid rest st s b bs. sessions st sid = Some s \<Longrightarrow> outbound s = b # bs \<Longrightarrow> P (sid # rest) st"
    and "\<And>sid rest st s. sessions st sid = Some s \<Longrightarrow> outbound s = [] \<Longrightarrow> local_fin s
           \<Longrightarrow> \<not> fin_sent s \<Longrightarrow> P (sid # rest) st"
  shows "P rs (st :: ('a, 'b) mux_state)"
proof (induction rs arbitrary: st)
  case Nil
  show ?case by (rule assms(1))
next
  case (Cons sid rest)
  show ?case
  proof (cases "\<exists>s. sessions st sid = Some s \<and> has_work s")
    case True
    then obtain s where "sessions st sid = Some s" "has_work s" by blast
    then show ?thesis by (elim has_work_cases) (auto intro: assms(3,4))
  next
    case False
    then show ?thesis by (auto intro: assms(2) Cons)
  qed
qed

lemma next_ready_frame:
  "control_queue (snd (next_ready prune rs st)) = control_queue st \<and>
   failed (snd (next_ready prune rs st)) = failed st"
  by (induction rs st rule: next_ready_induct)
    (simp_all add: next_ready_skip next_ready_data next_ready_fin prune_control prune_failed
      del: next_ready.simps(2))

lemma next_ready_ok:
  assumes "\<forall>sid s. sessions st sid = Some s \<longrightarrow> session_ok s" and "sched_at rs st"
    and "failed st = None" and "length (control_queue st) \<le> MAX_CONTROL_QUEUE_FRAMES"
  shows "endpoint_ok (snd (next_ready prune rs st))"
  using assms
proof (induction rs st rule: next_ready_induct)
  case (Nil st)
  then show ?case by (auto simp: endpoint_ok_def sched_at_def)
next
  case (skip sid rest st)
  have "\<forall>i s. sessions (unschedule st sid) i = Some s \<longrightarrow> session_ok s"
    using skip.prems(1) by (auto simp: unschedule_def split: option.splits if_splits)
  moreover have "sched_at rest (unschedule st sid)"
    by (rule sched_at_unschedule [OF skip.prems(2) skip.hyps])
  ultimately have "endpoint_ok (snd (next_ready prune rest (unschedule st sid)))"
    using skip by simp
  then show ?case using next_ready_skip [OF skip.hyps] by (simp del: next_ready.simps(2))
next
  case (data sid rest st s b bs)
  let ?s = "s\<lparr>outbound := bs, outbound_bytes := outbound_bytes s - length b\<rparr>"
  have "session_ok s" using data by blast
  with data(2) have "session_ok ?s" by (auto simp: session_ok_def)
  with data show ?case
    by (auto simp: next_ready_data endpoint_ok_def sched_at_def simp del: next_ready.simps(2)
        split: if_splits)
next
  case (fin sid rest st s)
  let ?s = "s\<lparr>fin_sent := True, scheduled := False\<rparr>"
  have "session_ok s" using fin by blast
  with fin(2,3) have "session_ok ?s" by (auto simp: session_ok_def)
  moreover have "\<not> has_work ?s" using fin by (simp add: has_work_def)
  ultimately have "endpoint_ok ((put_session st sid ?s)\<lparr>ready_sessions := rest\<rparr>)"
    using fin by (auto simp: endpoint_ok_def sched_at_def split: if_splits)
  with fin show ?case
    by (simp add: next_ready_fin prune_ok del: next_ready.simps(2))
qed

text \<open>If the loop finds nothing, no scheduled session had work.\<close>

lemma next_ready_None:
  "fst (next_ready prune rs st) = None \<Longrightarrow> sid \<in> set rs \<Longrightarrow> sessions st sid = Some s \<Longrightarrow> \<not> has_work s"
proof (induction rs st arbitrary: s rule: next_ready_induct)
  case (skip sid0 rest st)
  show ?case
  proof (cases "sid = sid0")
    case True
    with skip show ?thesis by blast
  next
    case False
    with skip.prems have "sessions (unschedule st sid0) sid = Some s"
      by (simp add: unschedule_def split: option.splits)
    with False skip show ?thesis
      by (simp add: next_ready_skip del: next_ready.simps(2))
  qed
qed (auto simp: next_ready_data next_ready_fin simp del: next_ready.simps(2))

lemma next_outgoing_ok:
  assumes "endpoint_ok st"
  shows "endpoint_ok (snd (next_outgoing_frame prune st))"
proof -
  have "endpoint_ok (st\<lparr>control_queue := fs\<rparr>)" if "control_queue st = f # fs" for f fs
    using assms that by (auto simp: endpoint_ok_def sched_at_def)
  moreover have "endpoint_ok (snd (next_ready prune (ready_sessions st) st))" if "failed st = None"
    using assms that by (intro next_ready_ok) (auto simp: endpoint_ok_def)
  ultimately show ?thesis
    using assms by (auto simp: next_outgoing_frame_def split: list.splits option.splits prod.splits)
qed

text \<open>The writer never sleeps while a control frame or a session with work is waiting.\<close>

lemma next_outgoing_progress:
  assumes "endpoint_ok st" and "failed st = None"
    and "control_queue st \<noteq> [] \<or> (\<exists>sid s. sessions st sid = Some s \<and> has_work s)"
  shows "\<exists>f. fst (next_outgoing_frame prune st) = Ready (Some f)"
proof (cases "control_queue st")
  case Nil
  with assms(3) obtain sid s where s: "sessions st sid = Some s" "has_work s" by blast
  with assms have "sid \<in> set (ready_sessions st)"
    by (auto simp: endpoint_ok_def sched_at_def)
  with s have "fst (next_ready prune (ready_sessions st) st) \<noteq> None"
    using next_ready_None by blast
  with Nil assms(2) show ?thesis
    by (auto simp: next_outgoing_frame_def split: option.splits prod.splits)
next
  case Cons
  with assms(2) show ?thesis by (simp add: next_outgoing_frame_def)
qed

end

end
