(* ===== verification/Mux_Host.thy ===== *)
theory Mux_Host
  imports Mux_Session
begin

text \<open>
  The host's mux manager, \<^verbatim>\<open>crates/lsb-platform/src/windows_x86_64/control/mux.rs\<close>: opening,
  reading, writing, flushing, closing and resetting sessions, the reader thread's handling of
  each incoming frame and the writer thread's choice of the next outgoing one. Every operation
  that blocks is split at its waits; \<open>host_step\<close> is the interleaving of all of them with a guest
  that may send any frame. The invariant bounds what such a guest can make the host buffer and
  says that no session with work to do is ever left out of the writer's queue.
\<close>

section \<open>State\<close>

datatype MuxSessionKind = Exec | Watch | File

fun metadata_of :: "MuxSessionKind \<Rightarrow> bytes" where
  "metadata_of Exec = str ''exec''"
| "metadata_of Watch = str ''watch''"
| "metadata_of File = str ''file''"

datatype SessionOpenState = Opening | Opened | Rejected bytes

record SessionState = mux_session +
  open_state :: SessionOpenState

record MuxManagerState = "SessionState mux_core" +
  next_host_session_id :: u64
  timed_out_host_opens :: "u64 list"

datatype MuxSessionError =
    ManagerClosed bytes
  | SessionRejected bytes
  | OpenTimeout nat
  | SessionIdExhausted

definition MAX_TIMED_OUT_OPENS :: nat where
  "MAX_TIMED_OUT_OPENS = 1024"

definition SESSION_OPEN_TIMEOUT :: nat where \<comment> \<open>in milliseconds\<close>
  "SESSION_OPEN_TIMEOUT = 90 * 1000"

definition session_new :: SessionState where
  "session_new =
     \<lparr>inbound = [], outbound = [], outbound_bytes = 0, send_credit = 0, remote_fin = False,
      local_fin = False, fin_sent = False, reset_reason = None, scheduled = False,
      open_state = Opening\<rparr>"

definition host_new :: MuxManagerState where
  "host_new =
     \<lparr>sessions = (\<lambda>_. None), control_queue = [], ready_sessions = [], failed = None,
      next_host_session_id = 1, timed_out_host_opens = []\<rparr>"

section \<open>Operations on the locked state\<close>

definition host_fail :: "MuxManagerState \<Rightarrow> bytes \<Rightarrow> MuxManagerState" where
  "host_fail st r =
     (if failed st \<noteq> None then st
      else st\<lparr>sessions := (\<lambda>i. map_option (\<lambda>s. s\<lparr>reset_reason := Some r\<rparr>) (sessions st i)),
              control_queue := [], ready_sessions := [], failed := Some r\<rparr>)"

definition prune_drained_session :: "MuxManagerState \<Rightarrow> u64 \<Rightarrow> MuxManagerState" where
  "prune_drained_session st sid =
     (case sessions st sid of
        Some s \<Rightarrow>
          if is_drained s
          then st\<lparr>sessions := (sessions st)(sid := None),
                  ready_sessions := filter (\<lambda>q. q \<noteq> sid) (ready_sessions st)\<rparr>
          else st
      | None \<Rightarrow> st)"

definition record_timed_out_open :: "MuxManagerState \<Rightarrow> u64 \<Rightarrow> MuxManagerState" where
  "record_timed_out_open st sid =
     (if sid \<in> set (timed_out_host_opens st) then st
      else let q = timed_out_host_opens st;
               q = (if length q \<ge> MAX_TIMED_OUT_OPENS then tl q else q) in
           st\<lparr>timed_out_host_opens := q @ [sid]\<rparr>)"

definition is_timed_out_open :: "MuxManagerState \<Rightarrow> u64 \<Rightarrow> bool" where
  "is_timed_out_open st sid \<longleftrightarrow> sid \<in> set (timed_out_host_opens st)"

definition remove_timed_out_open :: "MuxManagerState \<Rightarrow> u64 \<Rightarrow> bool \<times> MuxManagerState" where
  "remove_timed_out_open st sid =
     (if sid \<in> set (timed_out_host_opens st)
      then (True, st\<lparr>timed_out_host_opens := remove1 sid (timed_out_host_opens st)\<rparr>)
      else (False, st))"

definition timeout_open_session :: "MuxManagerState \<Rightarrow> u64 \<Rightarrow> nat \<Rightarrow> MuxManagerState" where
  "timeout_open_session st sid timeout =
     (let st = st\<lparr>sessions := (sessions st)(sid := None),
                  ready_sessions := filter (\<lambda>q. q \<noteq> sid) (ready_sessions st)\<rparr>;
          st = record_timed_out_open st sid in
      if length (control_queue st) < MAX_CONTROL_QUEUE_FRAMES
      then push_control st (Rst sid (str ''host timed out after '' @ show_num timeout
             @ str '' ms waiting for guest to accept mux session''))
      else st)"

definition host_remove_session :: "MuxManagerState \<Rightarrow> u64 \<Rightarrow> MuxManagerState" where
  "host_remove_session st sid = st\<lparr>sessions := (sessions st)(sid := None)\<rparr>"

section \<open>Opening a session\<close>

text \<open>
  \<^verbatim>\<open>open_session_with_timeout\<close> waits twice, first for room in the control queue and then for the
  guest's answer: three attempts, the last two repeated.
\<close>

definition open_session_begin ::
  "MuxManagerState \<Rightarrow> (u64, MuxSessionError) result \<times> MuxManagerState" where
  "open_session_begin st =
     (case failed st of
        Some r \<Rightarrow> (Err (ManagerClosed r), st)
      | None \<Rightarrow>
          let sid = next_host_session_id st in
          case checked_add sid 2 of
            None \<Rightarrow> (Err SessionIdExhausted, st)
          | Some n \<Rightarrow> (Ok sid, st\<lparr>next_host_session_id := n,
                                   sessions := (sessions st)(sid \<mapsto> session_new)\<rparr>))"

definition open_session_enqueue ::
  "MuxManagerState \<Rightarrow> u64 \<Rightarrow> MuxSessionKind
     \<Rightarrow> ((unit, MuxSessionError) result \<times> MuxManagerState) attempt" where
  "open_session_enqueue st sid kind =
     (case failed st of
        Some r \<Rightarrow> Ready (Err (ManagerClosed r), host_remove_session st sid)
      | None \<Rightarrow>
          if length (control_queue st) < MAX_CONTROL_QUEUE_FRAMES
          then Ready (Ok (), push_control st (Open sid (metadata_of kind)))
          else Wait)"

text \<open>
  One round of the second wait: \<open>timed_out\<close> is what \<^verbatim>\<open>wait_timeout\<close> returned when the thread
  woke (false in the first round), \<open>expired\<close> whether the deadline has passed.
\<close>

definition open_session_poll ::
  "MuxManagerState \<Rightarrow> u64 \<Rightarrow> nat \<Rightarrow> bool \<Rightarrow> bool
     \<Rightarrow> ((u64, MuxSessionError) result \<times> MuxManagerState) attempt" where
  "open_session_poll st sid timeout timed_out expired =
     (if timed_out \<and> map_option open_state (sessions st sid) = Some Opening
      then Ready (Err (OpenTimeout timeout), timeout_open_session st sid timeout)
      else case failed st of
        Some r \<Rightarrow> Ready (Err (ManagerClosed r), host_remove_session st sid)
      | None \<Rightarrow>
          (case map_option open_state (sessions st sid) of
             Some Opened \<Rightarrow> Ready (Ok sid, st)
           | Some (Rejected r) \<Rightarrow> Ready (Err (SessionRejected r), host_remove_session st sid)
           | Some Opening \<Rightarrow>
               if expired
               then Ready (Err (OpenTimeout timeout), timeout_open_session st sid timeout)
               else Wait
           | None \<Rightarrow> Ready (Err (ManagerClosed (str ''mux session disappeared while opening'')), st)))"

section \<open>Reading, writing, flushing\<close>

text \<open>
  A read that finds data takes it off the session at once and only then waits for room in the
  control queue to grant the credit back: \<open>Taken\<close> is the state in between.
\<close>

datatype 'a read_attempt = ReadWait | ReadDone "(bytes, io_error) result" 'a | Taken bytes 'a

definition host_read :: "MuxManagerState \<Rightarrow> u64 \<Rightarrow> nat \<Rightarrow> MuxManagerState read_attempt" where
  "host_read st sid n =
     (if n = 0 then ReadDone (Ok []) st
      else case failed st of
        Some r \<Rightarrow> ReadDone (Err (BrokenPipe r)) st
      | None \<Rightarrow>
          (case sessions st sid of
             None \<Rightarrow> ReadDone (Ok []) st
           | Some s \<Rightarrow>
               (case reset_reason s of
                  Some r \<Rightarrow> ReadDone (Err (ConnectionReset r)) st
                | None \<Rightarrow>
                    if inbound s \<noteq> []
                    then let copied = take n (inbound s);
                             st = put_session st sid (s\<lparr>inbound := drop n (inbound s)\<rparr>) in
                         if length copied < 2 ^ 32 then Taken copied st
                         else ReadDone (Err InvalidData) st
                    else if remote_fin s
                    then ReadDone (Ok []) (if is_drained s then prune_drained_session st sid else st)
                    else ReadWait)))"

definition host_grant_credit ::
  "MuxManagerState \<Rightarrow> u64 \<Rightarrow> bytes \<Rightarrow> ((bytes, io_error) result \<times> MuxManagerState) attempt" where
  "host_grant_credit st sid copied =
     (if length (control_queue st) \<ge> MAX_CONTROL_QUEUE_FRAMES
      then (case failed st of Some r \<Rightarrow> Ready (Err (BrokenPipe r), st) | None \<Rightarrow> Wait)
      else Ready (Ok copied, push_control st (Window sid (of_nat (length copied)))))"

definition host_write ::
  "MuxManagerState \<Rightarrow> u64 \<Rightarrow> bytes \<Rightarrow> ((nat, io_error) result \<times> MuxManagerState) attempt" where
  "host_write st sid buf =
     (if buf = [] then Ready (Ok 0, st)
      else case failed st of
        Some r \<Rightarrow> Ready (Err (BrokenPipe r), st)
      | None \<Rightarrow>
          (case sessions st sid of
             None \<Rightarrow> Ready (Err (BrokenPipe (str ''mux session no longer exists'')), st)
           | Some s \<Rightarrow>
               (case reset_reason s of
                  Some r \<Rightarrow> Ready (Err (ConnectionReset r), st)
                | None \<Rightarrow>
                    if local_fin s
                    then Ready (Err (BrokenPipe (str ''mux session local side is closed'')), st)
                    else if remote_fin s
                    then Ready (Err (BrokenPipe (str ''mux session remote side is closed'')), st)
                    else if open_state s \<noteq> Opened then Ready (Err WouldBlock, st)
                    else let n = writable s buf in
                         if n > 0 then Ready (Ok n, schedule st sid (queue_outbound s buf n))
                         else Wait)))"

definition host_flush :: "MuxManagerState \<Rightarrow> u64 \<Rightarrow> (unit, io_error) result attempt" where
  "host_flush st sid =
     (case failed st of
        Some r \<Rightarrow> Ready (Err (BrokenPipe r))
      | None \<Rightarrow>
          (case sessions st sid of
             None \<Rightarrow> Ready (Err (BrokenPipe (str ''mux session no longer exists'')))
           | Some s \<Rightarrow>
               (case reset_reason s of
                  Some r \<Rightarrow> Ready (Err (ConnectionReset r))
                | None \<Rightarrow> if outbound_bytes s = 0 then Ready (Ok ()) else Wait)))"

definition reset_session :: "MuxManagerState \<Rightarrow> u64 \<Rightarrow> bytes \<Rightarrow> MuxManagerState" where
  "reset_session st sid r =
     (if failed st \<noteq> None then st
      else case sessions st sid of
        None \<Rightarrow> st
      | Some s \<Rightarrow>
          if length (control_queue st) \<ge> MAX_CONTROL_QUEUE_FRAMES
          then host_fail st (str ''mux control queue was full while resetting session ''
                 @ show_num (unat sid))
          else push_control
                 ((put_session st sid
                     (s\<lparr>outbound := [], outbound_bytes := 0, reset_reason := Some r,
                        local_fin := True, fin_sent := True, scheduled := False\<rparr>))
                    \<lparr>ready_sessions := filter (\<lambda>q. q \<noteq> sid) (ready_sessions st)\<rparr>)
                 (Rst sid r))"

section \<open>The writer and the reader thread\<close>

definition host_next_outgoing :: "MuxManagerState \<Rightarrow> MuxFrame option attempt \<times> MuxManagerState" where
  "host_next_outgoing = next_outgoing_frame prune_drained_session"

definition host_sid_check ::
  "(unit, MuxFrameError) result \<Rightarrow> MuxManagerState \<Rightarrow> ((unit, bytes) result \<times> MuxManagerState)
     \<Rightarrow> (unit, bytes) result \<times> MuxManagerState" where
  "host_sid_check v st k = (case v of Inl e \<Rightarrow> (Err (display_error e), st) | Inr _ \<Rightarrow> k)"

fun handle_incoming_frame ::
  "MuxManagerState \<Rightarrow> MuxFrame \<Rightarrow> (unit, bytes) result \<times> MuxManagerState" where
  "handle_incoming_frame st (Open sid meta) =
     host_sid_check (validate_guest_session_id sid) st
       (if length (control_queue st) \<ge> MAX_CONTROL_QUEUE_FRAMES
        then (Err (str ''mux control queue was full while rejecting guest-opened session ''
                @ show_num (unat sid)), st)
        else (Ok (), push_control st (OpenErr sid
                (str ''guest-opened sessions are not accepted by the Windows host mux manager''))))"
| "handle_incoming_frame st (OpenOk sid c) =
     host_sid_check (validate_host_session_id sid) st
       (case sessions st sid of
          None \<Rightarrow>
            if is_timed_out_open st sid then (Ok (), st)
            else (Err (str ''guest acknowledged unknown mux session '' @ show_num (unat sid)), st)
        | Some s \<Rightarrow>
            if open_state s \<noteq> Opening
            then (Err (str ''guest acknowledged mux session '' @ show_num (unat sid)
                    @ str '' after it was already open''), st)
            else case checked_add_usize (send_credit s) (unat c) of
              None \<Rightarrow> (Err (str ''mux session '' @ show_num (unat sid) @ str '' send credit overflow''),
                        put_session st sid (s\<lparr>open_state := Opened\<rparr>))
            | Some cr \<Rightarrow>
                let st = put_session st sid (s\<lparr>open_state := Opened, send_credit := cr\<rparr>) in
                if length (control_queue st) \<ge> MAX_CONTROL_QUEUE_FRAMES
                then (Err (str ''mux control queue was full while granting initial receive credit for session ''
                        @ show_num (unat sid)), st)
                else (Ok (), push_control st (Window sid (of_nat RECEIVE_QUEUE_BYTES))))"
| "handle_incoming_frame st (OpenErr sid r) =
     host_sid_check (validate_host_session_id sid) st
       (case sessions st sid of
          None \<Rightarrow>
            (case remove_timed_out_open st sid of
               (True, st') \<Rightarrow> (Ok (), st')
             | (False, st') \<Rightarrow>
                 (Err (str ''guest rejected unknown mux session '' @ show_num (unat sid)
                    @ str '': '' @ r), st'))
        | Some s \<Rightarrow> (Ok (), put_session st sid (s\<lparr>open_state := Rejected r\<rparr>)))"
| "handle_incoming_frame st (Data sid d) =
     host_sid_check (validate_host_session_id sid) st
       (case sessions st sid of
          None \<Rightarrow>
            (Err (str ''guest sent '' @ show_num (length d) @ str '' bytes for unknown mux session ''
               @ show_num (unat sid)), st)
        | Some s \<Rightarrow>
            if open_state s \<noteq> Opened
            then (Err (str ''guest sent data for mux session '' @ show_num (unat sid)
                    @ str '' before it was open''), st)
            else let available = RECEIVE_QUEUE_BYTES - length (inbound s) in
                 if length d > available
                 then (Err (str ''guest exceeded mux receive credit for session ''
                         @ show_num (unat sid) @ str '': '' @ show_num (length d)
                         @ str '' bytes with '' @ show_num available @ str '' bytes available''), st)
                 else (Ok (), put_session st sid (s\<lparr>inbound := inbound s @ d\<rparr>)))"
| "handle_incoming_frame st (Window sid c) =
     host_sid_check (validate_host_session_id sid) st
       (case sessions st sid of
          None \<Rightarrow> (Err (str ''guest granted credit for unknown mux session '' @ show_num (unat sid)), st)
        | Some s \<Rightarrow>
            (case checked_add_usize (send_credit s) (unat c) of
               None \<Rightarrow> (Err (str ''mux session '' @ show_num (unat sid) @ str '' send credit overflow''), st)
             | Some cr \<Rightarrow> (Ok (), put_session st sid (s\<lparr>send_credit := cr\<rparr>))))"
| "handle_incoming_frame st (Fin sid) =
     host_sid_check (validate_host_session_id sid) st
       (case sessions st sid of
          None \<Rightarrow> (Err (str ''guest closed unknown mux session '' @ show_num (unat sid)), st)
        | Some s \<Rightarrow>
            (Ok (), prune_drained_session (put_session st sid (s\<lparr>remote_fin := True\<rparr>)) sid))"
| "handle_incoming_frame st (Rst sid r) =
     host_sid_check (validate_host_session_id sid) st
       (case sessions st sid of
          None \<Rightarrow>
            (case remove_timed_out_open st sid of
               (True, st') \<Rightarrow> (Ok (), st')
             | (False, st') \<Rightarrow>
                 (Err (str ''guest reset unknown mux session '' @ show_num (unat sid)
                    @ str '': '' @ r), st'))
        | Some s \<Rightarrow> (Ok (), put_session st sid (s\<lparr>reset_reason := Some r\<rparr>)))"

text \<open>One round of the reader thread on a decoded frame: an error fails the manager and ends the
  thread (the returned flag).\<close>

definition host_receive :: "MuxManagerState \<Rightarrow> MuxFrame \<Rightarrow> bool \<times> MuxManagerState" where
  "host_receive st f =
     (case handle_incoming_frame st f of
        (Inr _, st') \<Rightarrow> (True, st')
      | (Inl r, st') \<Rightarrow> (False, host_fail st' r))"

section \<open>All interleavings with an arbitrary guest\<close>

inductive host_step :: "MuxManagerState \<Rightarrow> MuxManagerState \<Rightarrow> bool" where
  step_open_begin: "open_session_begin st = (r, st') \<Longrightarrow> host_step st st'"
| step_open_enqueue: "open_session_enqueue st sid kind = Ready (r, st') \<Longrightarrow> host_step st st'"
| step_open_poll: "open_session_poll st sid timeout to ex = Ready (r, st') \<Longrightarrow> host_step st st'"
| step_read: "host_read st sid n = ReadDone r st' \<Longrightarrow> host_step st st'"
| step_take: "host_read st sid n = Taken bs st' \<Longrightarrow> host_step st st'"
| step_grant: "host_grant_credit st sid bs = Ready (r, st') \<Longrightarrow> host_step st st'"
| step_write: "host_write st sid buf = Ready (r, st') \<Longrightarrow> host_step st st'"
| step_close: "host_step st (close_session st sid)"
| step_reset: "host_step st (reset_session st sid r)"
| step_send: "host_next_outgoing st = (a, st') \<Longrightarrow> host_step st st'"
| step_receive: "host_receive st f = (b, st') \<Longrightarrow> host_step st st'"
| step_fault: "host_step st (host_fail st r)"

interpretation host_end: mux_endpoint prune_drained_session
  by unfold_locales (auto simp: prune_drained_session_def split: option.splits if_splits)

definition host_inv :: "MuxManagerState \<Rightarrow> bool" where
  "host_inv st \<longleftrightarrow>
     endpoint_ok st \<and>
     length (timed_out_host_opens st) \<le> MAX_TIMED_OUT_OPENS \<and>
     odd (unat (next_host_session_id st)) \<and>
     (\<forall>sid. sessions st sid \<noteq> None \<or> sid \<in> set (ready_sessions st)
        \<longrightarrow> unat sid < unat (next_host_session_id st))"

text \<open>The fields of the manager that the shared operations do not touch.\<close>

lemma host_frame_simps [simp]:
  "next_host_session_id (put_session st sid s) = next_host_session_id st"
  "timed_out_host_opens (put_session st sid s) = timed_out_host_opens st"
  "next_host_session_id (push_control st f) = next_host_session_id st"
  "timed_out_host_opens (push_control st f) = timed_out_host_opens st"
  "next_host_session_id (schedule st sid s) = next_host_session_id st"
  "timed_out_host_opens (schedule st sid s) = timed_out_host_opens st"
  "next_host_session_id (close_session st sid) = next_host_session_id st"
  "timed_out_host_opens (close_session st sid) = timed_out_host_opens st"
  "next_host_session_id (prune_drained_session st sid) = next_host_session_id st"
  "timed_out_host_opens (prune_drained_session st sid) = timed_out_host_opens st"
  "next_host_session_id (host_fail st r) = next_host_session_id st"
  "timed_out_host_opens (host_fail st r) = timed_out_host_opens st"
  "next_host_session_id (host_remove_session st sid) = next_host_session_id st"
  "timed_out_host_opens (host_remove_session st sid) = timed_out_host_opens st"
  "next_host_session_id (unschedule st sid) = next_host_session_id st"
  "timed_out_host_opens (unschedule st sid) = timed_out_host_opens st"
  by (auto simp: put_session_def push_control_def schedule_def close_session_def host_fail_def
      prune_drained_session_def host_remove_session_def unschedule_def split: option.splits)

lemma open_state_updates [simp]:
  "session_ok (s\<lparr>open_state := x\<rparr>) = session_ok s"
  "has_work (s\<lparr>open_state := x\<rparr>) = has_work s"
  by (simp_all add: session_ok_def has_work_def)

lemma host_inv_endpoint: "host_inv st \<Longrightarrow> endpoint_ok st"
  by (simp add: host_inv_def)

text \<open>A change of the sessions' contents or of the queues that adds no session.\<close>

lemma host_inv_mono:
  assumes "host_inv st" and "endpoint_ok st'"
    and "next_host_session_id st' = next_host_session_id st"
    and "length (timed_out_host_opens st') \<le> MAX_TIMED_OUT_OPENS"
    and "\<And>i. sessions st' i \<noteq> None \<Longrightarrow> sessions st i \<noteq> None"
    and "\<And>i. i \<in> set (ready_sessions st') \<Longrightarrow> i \<in> set (ready_sessions st) \<or> sessions st i \<noteq> None"
  shows "host_inv st'"
  using assms unfolding host_inv_def by metis

lemma host_inv_timed_out: "host_inv st \<Longrightarrow> length (timed_out_host_opens st) \<le> MAX_TIMED_OUT_OPENS"
  by (simp add: host_inv_def)

lemma host_inv_init: "host_inv host_new"
  by (simp add: host_inv_def host_new_def endpoint_ok_def sched_at_def)

lemma host_inv_put:
  assumes "host_inv st" and "sessions st sid = Some s" and "session_ok s'"
    and "scheduled s' = scheduled s" and "has_work s' \<longrightarrow> has_work s"
  shows "host_inv (put_session st sid s')"
  by (rule host_inv_mono [OF assms(1) put_session_ok])
    (use assms in \<open>auto simp: host_inv_def split: if_splits\<close>)

lemma host_inv_push:
  "host_inv st \<Longrightarrow> length (control_queue st) < MAX_CONTROL_QUEUE_FRAMES \<Longrightarrow> host_inv (push_control st f)"
  by (rule host_inv_mono [of st, OF _ push_control_ok]) (auto simp: host_inv_def)

lemma host_inv_schedule:
  assumes "host_inv st" and "sessions st sid = Some s" and "session_ok s'"
    and "scheduled s' = scheduled s"
  shows "host_inv (schedule st sid s')"
  by (rule host_inv_mono [OF assms(1) schedule_ok])
    (use assms in \<open>auto simp: host_inv_def split: if_splits\<close>)

lemma host_inv_fail: "host_inv st \<Longrightarrow> host_inv (host_fail st r)"
  by (rule host_inv_mono)
    (auto simp: host_inv_def host_fail_def endpoint_ok_def split: if_splits)

lemma host_inv_remove: "host_inv st \<Longrightarrow> host_inv (host_remove_session st sid)"
  by (rule host_inv_mono)
    (auto simp: host_inv_def host_remove_session_def endpoint_ok_def sched_at_def split: if_splits)

lemma host_inv_prune: "host_inv st \<Longrightarrow> host_inv (prune_drained_session st sid)"
  by (rule host_inv_mono [of st, OF _ host_end.prune_ok [OF host_inv_endpoint]])
    (auto simp: host_inv_def prune_drained_session_def split: option.splits if_splits)

lemma host_inv_record: "host_inv st \<Longrightarrow> host_inv (record_timed_out_open st sid)"
  by (rule host_inv_mono)
    (auto simp: host_inv_def record_timed_out_open_def endpoint_ok_def sched_at_def Let_def
      MAX_TIMED_OUT_OPENS_def)

lemma host_inv_timeout:
  assumes "host_inv st"
  shows "host_inv (timeout_open_session st sid timeout)"
proof -
  have "host_inv (st\<lparr>sessions := (sessions st)(sid := None),
      ready_sessions := filter (\<lambda>q. q \<noteq> sid) (ready_sessions st)\<rparr>)"
    by (rule host_inv_mono [OF assms])
      (use assms in \<open>auto simp: host_inv_def endpoint_ok_def sched_at_def split: if_splits\<close>)
  then show ?thesis
    by (auto simp: timeout_open_session_def Let_def intro!: host_inv_push host_inv_record)
qed

section \<open>Every operation keeps the invariant\<close>

lemma session_new_ok [simp]:
  "session_ok session_new" "\<not> has_work session_new" "\<not> scheduled session_new"
  by (simp_all add: session_new_def session_ok_def has_work_def)

lemma host_inv_open_begin:
  assumes "host_inv st" and "open_session_begin st = (r, st')"
  shows "host_inv st'"
proof (cases "failed st")
  case None
  let ?sid = "next_host_session_id st"
  show ?thesis
  proof (cases "checked_add ?sid 2")
    case None
    with assms \<open>failed st = None\<close> show ?thesis by (simp add: open_session_begin_def)
  next
    case (Some n)
    then have n: "unat n = unat ?sid + 2" by (simp add: checked_add_Some)
    have st': "st' = st\<lparr>next_host_session_id := n, sessions := (sessions st)(?sid \<mapsto> session_new)\<rparr>"
      using assms(2) \<open>failed st = None\<close> Some by (simp add: open_session_begin_def Let_def)
    have "?sid \<notin> set (ready_sessions st)" and "sessions st ?sid = None"
      using assms(1) unfolding host_inv_def by blast+
    then have "endpoint_ok st'"
      using assms(1) by (auto simp: st' host_inv_def endpoint_ok_def sched_at_def
          split: if_splits)
    moreover have "\<forall>i. sessions st' i \<noteq> None \<or> i \<in> set (ready_sessions st') \<longrightarrow> unat i < unat n"
      using assms(1) n by (auto simp: st' host_inv_def split: if_splits)
    ultimately show ?thesis
      using assms(1) n by (simp add: host_inv_def st')
  qed
next
  case Some
  with assms show ?thesis by (simp add: open_session_begin_def)
qed

lemma host_inv_open_enqueue:
  "host_inv st \<Longrightarrow> open_session_enqueue st sid kind = Ready (r, st') \<Longrightarrow> host_inv st'"
  by (auto simp: open_session_enqueue_def intro!: host_inv_push host_inv_remove
      split: option.splits if_splits)

lemma host_inv_open_poll:
  "host_inv st \<Longrightarrow> open_session_poll st sid timeout to ex = Ready (r, st') \<Longrightarrow> host_inv st'"
  by (auto simp: open_session_poll_def intro!: host_inv_timeout host_inv_remove
      split: option.splits if_splits SessionOpenState.splits)

lemma session_ok_take:
  "session_ok s \<Longrightarrow> session_ok (s\<lparr>inbound := drop n (inbound s)\<rparr>)"
  by (auto simp: session_ok_def)

lemma host_inv_read:
  assumes "host_inv st" and "host_read st sid n = ReadDone r st' \<or> host_read st sid n = Taken bs st'"
  shows "host_inv st'"
  using assms host_inv_prune [OF assms(1)]
  by (auto simp: host_read_def Let_def
      intro!: host_inv_put session_ok_take endpoint_ok_session [OF host_inv_endpoint]
      split: option.splits if_splits)

lemma host_inv_grant: "host_inv st \<Longrightarrow> host_grant_credit st sid bs = Ready (r, st') \<Longrightarrow> host_inv st'"
  by (auto simp: host_grant_credit_def intro!: host_inv_push split: option.splits if_splits)

lemma host_inv_write:
  assumes "host_inv st" and "host_write st sid buf = Ready (r, st')"
  shows "host_inv st'"
  using assms endpoint_ok_session [OF host_inv_endpoint [OF assms(1)]]
  by (auto simp: host_write_def Let_def intro!: host_inv_schedule queue_outbound_ok
      split: option.splits if_splits)

lemma host_inv_close: "host_inv st \<Longrightarrow> host_inv (close_session st sid)"
  by (rule host_inv_mono [of st, OF _ close_session_ok [OF host_inv_endpoint]])
    (auto simp: host_inv_def close_session_def split: option.splits if_splits)

lemma session_ok_cleared:
  "session_ok s \<Longrightarrow> session_ok (s\<lparr>outbound := [], outbound_bytes := 0, reset_reason := r,
     local_fin := True, fin_sent := True\<rparr>)"
  by (simp add: session_ok_def)

lemma host_inv_reset: "host_inv st \<Longrightarrow> host_inv (reset_session st sid r)"
proof -
  assume inv: "host_inv st"
  have "host_inv ((put_session st sid
          (s\<lparr>outbound := [], outbound_bytes := 0, reset_reason := Some r, local_fin := True,
             fin_sent := True, scheduled := False\<rparr>))
        \<lparr>ready_sessions := filter (\<lambda>q. q \<noteq> sid) (ready_sessions st)\<rparr>)"
    if "sessions st sid = Some s" for s
    by (rule host_inv_mono [OF inv])
      (use inv that in \<open>auto simp: host_inv_def endpoint_ok_def sched_at_def has_work_def
        session_ok_cleared split: if_splits\<close>)
  with inv show ?thesis
    by (auto simp: reset_session_def intro!: host_inv_push host_inv_fail split: option.splits)
qed

lemma next_ready_ids:
  assumes "sessions (snd (next_ready prune_drained_session rs st)) i \<noteq> None
    \<or> i \<in> set (ready_sessions (snd (next_ready prune_drained_session rs st)))"
  shows "sessions st i \<noteq> None \<or> i \<in> set rs"
  using assms
proof (induction rs st rule: host_end.next_ready_induct)
  case (skip sid rest st)
  then show ?case
    by (simp add: host_end.next_ready_skip unschedule_def del: next_ready.simps(2) split: option.splits if_splits)
      blast
qed (auto simp: host_end.next_ready_data host_end.next_ready_fin prune_drained_session_def
      simp del: next_ready.simps(2) split: if_splits option.splits)

lemma next_ready_host_frame:
  "next_host_session_id (snd (next_ready prune_drained_session rs st)) = next_host_session_id st \<and>
   timed_out_host_opens (snd (next_ready prune_drained_session rs st)) = timed_out_host_opens st"
  by (induction rs st rule: host_end.next_ready_induct)
    (simp_all add: host_end.next_ready_skip host_end.next_ready_data host_end.next_ready_fin
      del: next_ready.simps(2))

lemma host_inv_send:
  assumes "host_inv st" and "host_next_outgoing st = (a, st')"
  shows "host_inv st'"
proof -
  have ok: "endpoint_ok st'"
    using host_end.next_outgoing_ok [OF host_inv_endpoint [OF assms(1)]] assms(2)
    by (simp add: host_next_outgoing_def)
  have "next_host_session_id st' = next_host_session_id st"
    and "timed_out_host_opens st' = timed_out_host_opens st"
    and "\<forall>i. sessions st' i \<noteq> None \<or> i \<in> set (ready_sessions st')
           \<longrightarrow> sessions st i \<noteq> None \<or> i \<in> set (ready_sessions st)"
    using assms(2) next_ready_host_frame [of "ready_sessions st" st]
      next_ready_ids [of "ready_sessions st" st]
    by (auto simp: host_next_outgoing_def next_outgoing_frame_def
        split: if_splits list.splits prod.splits option.splits)
  with ok assms(1) show ?thesis
    by (auto simp: host_inv_def)
qed

lemma host_inv_remove_timed_out:
  "host_inv st \<Longrightarrow> remove_timed_out_open st sid = (b, st') \<Longrightarrow> host_inv st'"
  by (rule host_inv_mono [of st])
    (force simp: remove_timed_out_open_def host_inv_def endpoint_ok_def sched_at_def length_remove1
      split: if_splits)+

lemma host_inv_handle:
  assumes inv: "host_inv st" and h: "handle_incoming_frame st f = (r, st')"
  shows "host_inv st'"
proof -
  have ok: "session_ok s" if "sessions st sid = Some s" for sid s
    using inv that by (rule endpoint_ok_session [OF host_inv_endpoint])
  note splits = option.splits if_splits prod.splits sum.splits bool.splits
  show ?thesis
  proof (cases f)
    case (Data sid d)
    have "session_ok (s\<lparr>inbound := inbound s @ d\<rparr>)"
      if "session_ok s" "length d \<le> RECEIVE_QUEUE_BYTES - length (inbound s)" for s :: SessionState
      using that by (auto simp: session_ok_def)
    with h inv ok show ?thesis
      by (auto simp: Data host_sid_check_def Let_def intro!: host_inv_put split: splits)
  next
    case (Rst sid r)
    with h inv ok show ?thesis
      by (auto simp: host_sid_check_def intro!: host_inv_put intro: host_inv_remove_timed_out split: splits)
  next
    case (OpenErr sid r)
    with h inv ok show ?thesis
      by (auto simp: host_sid_check_def intro!: host_inv_put intro: host_inv_remove_timed_out split: splits)
  qed (use h inv ok in \<open>auto simp: host_sid_check_def Let_def
      intro!: host_inv_put host_inv_push host_inv_prune split: splits\<close>)
qed

lemma host_inv_receive: "host_inv st \<Longrightarrow> host_receive st f = (b, st') \<Longrightarrow> host_inv st'"
  by (auto simp: host_receive_def intro: host_inv_handle host_inv_fail
      split: prod.splits sum.splits)

lemma host_step_inv: "host_step st st' \<Longrightarrow> host_inv st \<Longrightarrow> host_inv st'"
  by (induction rule: host_step.induct)
    (auto intro: host_inv_open_begin host_inv_open_enqueue host_inv_open_poll host_inv_read
      host_inv_grant host_inv_write host_inv_close host_inv_reset host_inv_send host_inv_receive
      host_inv_fail)

interpretation host_safety: safety "\<lambda>st. st = host_new" host_step host_inv
  by unfold_locales (auto intro: host_inv_init host_step_inv)

section \<open>Properties\<close>

abbreviation host_reachable :: "MuxManagerState \<Rightarrow> bool" where
  "host_reachable \<equiv> reachable (\<lambda>st. st = host_new) host_step"

lemma host_reachable_new: "host_reachable host_new"
  by (rule reach_init) simp

text \<open>C18: Whatever frames a guest sends and however the host's threads interleave, the host buffers at
  most one receive window of unread bytes and one send queue of unsent bytes per session, at most
  128 control frames and 1024 timed-out opens, and the byte count of a send queue is exact.\<close>

theorem host_memory_bounded:
  assumes "host_reachable st"
  shows "length (control_queue st) \<le> 128 \<and> length (timed_out_host_opens st) \<le> 1024 \<and>
    (\<forall>sid s. sessions st sid = Some s \<longrightarrow>
       length (inbound s) \<le> 262144 \<and> length (concat (outbound s)) \<le> 262144 \<and>
       outbound_bytes s = length (concat (outbound s)))"
proof -
  have "host_inv st" by (rule host_safety.reachable_inv [OF assms])
  then have "endpoint_ok st" and "length (timed_out_host_opens st) \<le> 1024"
    by (simp_all add: host_inv_def MAX_TIMED_OUT_OPENS_def)
  with endpoint_ok_bounds [of st] show ?thesis by blast
qed

theorem host_memory_bounded_witness:
  "host_reachable host_new \<and> length (control_queue host_new) \<le> 128"
  using host_memory_bounded [OF host_reachable_new] host_reachable_new by simp

text \<open>C23: An open succeeds exactly when the manager has not failed and ids are left. It then hands out
  an id that is odd, not zero, larger than every id in use, and whose session does not exist yet;
  otherwise it says why and changes nothing.\<close>

theorem open_session_begin_fresh:
  assumes "host_reachable st"
  shows "case open_session_begin st of
      (Inr sid, st') \<Rightarrow> failed st = None \<and> unat (next_host_session_id st) < 2 ^ 64 - 2 \<and>
        is_host_session_id sid \<and> sessions st sid = None \<and>
        (\<forall>i. sessions st i \<noteq> None \<longrightarrow> unat i < unat sid) \<and>
        st' = st\<lparr>next_host_session_id := next_host_session_id st + 2, sessions := (sessions st)(sid \<mapsto> session_new)\<rparr>
    | (Inl e, st') \<Rightarrow> st' = st \<and>
        (failed st = None \<and> e = SessionIdExhausted \<and> 2 ^ 64 - 2 \<le> unat (next_host_session_id st) \<or>
         (\<exists>r. failed st = Some r \<and> e = ManagerClosed r))"
proof -
  have inv: "host_inv st" by (rule host_safety.reachable_inv [OF assms])
  have id: "is_host_session_id sid" if "odd (unat sid)" for sid :: u64
  proof -
    have "unat (sid mod 2) = 1" using that by (simp add: unat_mod odd_iff_mod_2_eq_one)
    then have "sid mod 2 = 1" by (metis unat_1 word_unat_eq_iff)
    with that show ?thesis by (auto simp: is_host_session_id_def)
  qed
  have add: "n = x + 2 \<and> unat x < 2 ^ 64 - 2" if "checked_add x 2 = Some n" for x n :: u64
    using that by (auto simp: checked_add_def split: if_splits)
  show ?thesis
    using inv id
    by (auto simp: open_session_begin_def Let_def host_inv_def checked_add_None dest: add split: option.splits)
qed

theorem open_session_begin_fresh_witness:
  "host_reachable host_new \<and> fst (open_session_begin host_new) = Ok 1"
  using open_session_begin_fresh [OF host_reachable_new] host_reachable_new
  by (simp add: open_session_begin_def host_new_def checked_add_def Let_def)

end
