(* ===== verification/Mux_Guest.thy ===== *)
theory Mux_Guest
  imports Mux_Host
begin

text \<open>
  The guest's mux, the \<^verbatim>\<open>GuestMux\<close> part of \<^verbatim>\<open>crates/lsb-guest/src/main.rs\<close>: accepting
  sessions the host opens, reading, writing and closing them, and the handling of each incoming
  frame, with the invariant that every interleaving keeps. The session record is the one shared with the host; the guest has no open state, never
  opens a session itself and refuses every answer to an open.
\<close>

section \<open>State\<close>

type_synonym GuestMuxSessionState = mux_session

record GuestMuxState = "mux_session mux_core" +
  accepted_sessions :: "u64 list"

definition guest_session_new :: GuestMuxSessionState where
  "guest_session_new =
     \<lparr>inbound = [], outbound = [], outbound_bytes = 0, send_credit = 0, remote_fin = False,
      local_fin = False, fin_sent = False, reset_reason = None, scheduled = False\<rparr>"

definition guest_new :: GuestMuxState where
  "guest_new =
     \<lparr>sessions = (\<lambda>_. None), control_queue = [], ready_sessions = [], failed = None,
      accepted_sessions = []\<rparr>"

section \<open>Operations\<close>

definition guest_fail :: "GuestMuxState \<Rightarrow> bytes \<Rightarrow> GuestMuxState" where
  "guest_fail st r =
     (if failed st \<noteq> None then st
      else st\<lparr>sessions := (\<lambda>i. map_option (\<lambda>s. s\<lparr>reset_reason := Some r\<rparr>) (sessions st i)),
              control_queue := [], ready_sessions := [], accepted_sessions := [],
              failed := Some r\<rparr>)"

definition guest_prune_drained_session :: "GuestMuxState \<Rightarrow> u64 \<Rightarrow> GuestMuxState" where
  "guest_prune_drained_session st sid =
     (case sessions st sid of
        Some s \<Rightarrow>
          if is_drained s
          then st\<lparr>sessions := (sessions st)(sid := None),
                  ready_sessions := filter (\<lambda>q. q \<noteq> sid) (ready_sessions st),
                  accepted_sessions := filter (\<lambda>q. q \<noteq> sid) (accepted_sessions st)\<rparr>
          else st
      | None \<Rightarrow> st)"

text \<open>
  One round of \<^verbatim>\<open>accept_session\<close>. A queued id whose session is gone is dropped and the thread
  waits, even if further ids are queued.
\<close>

definition guest_accept_session :: "GuestMuxState \<Rightarrow> u64 option attempt \<times> GuestMuxState" where
  "guest_accept_session st =
     (if failed st \<noteq> None then (Ready None, st)
      else case accepted_sessions st of
             [] \<Rightarrow> (Wait, st)
           | sid # rest \<Rightarrow>
               let st = st\<lparr>accepted_sessions := rest\<rparr> in
               if sessions st sid \<noteq> None then (Ready (Some sid), st) else (Wait, st))"

text \<open>The guest's \<^verbatim>\<open>close_session\<close> is the same code as the host's.\<close>

definition guest_close_session :: "GuestMuxState \<Rightarrow> u64 \<Rightarrow> GuestMuxState" where
  "guest_close_session st sid = close_session st sid"

definition guest_is_remote_closed :: "GuestMuxState \<Rightarrow> u64 \<Rightarrow> bool" where
  "guest_is_remote_closed st sid \<longleftrightarrow>
     failed st \<noteq> None \<or>
     (case sessions st sid of
        None \<Rightarrow> True
      | Some s \<Rightarrow> remote_fin s \<or> reset_reason s \<noteq> None)"

definition guest_read :: "GuestMuxState \<Rightarrow> u64 \<Rightarrow> nat \<Rightarrow> GuestMuxState read_attempt" where
  "guest_read st sid n =
     (if n = 0 then ReadDone (Ok []) st
      else case failed st of
        Some r \<Rightarrow> ReadDone (Err (BrokenPipe r)) st
      | None \<Rightarrow>
          (case sessions st sid of
             None \<Rightarrow> ReadDone (Err (BrokenPipe (str ''mux session no longer exists''))) st
           | Some s \<Rightarrow>
               (case reset_reason s of
                  Some r \<Rightarrow> ReadDone (Err (ConnectionReset r)) st
                | None \<Rightarrow>
                    let copied = take n (inbound s);
                        st = put_session st sid (s\<lparr>inbound := drop n (inbound s)\<rparr>) in
                    if copied = [] \<and> remote_fin s
                    then ReadDone (Ok []) (guest_prune_drained_session st sid)
                    else if copied \<noteq> []
                    then (if length copied < 2 ^ 32 then Taken copied st
                          else ReadDone (Err InvalidData) st)
                    else ReadWait)))"

definition guest_grant_credit ::
  "GuestMuxState \<Rightarrow> u64 \<Rightarrow> bytes \<Rightarrow> ((bytes, io_error) result \<times> GuestMuxState) attempt" where
  "guest_grant_credit st sid copied =
     (if length (control_queue st) \<ge> MAX_CONTROL_QUEUE_FRAMES
      then (case failed st of Some r \<Rightarrow> Ready (Err (BrokenPipe r), st) | None \<Rightarrow> Wait)
      else Ready (Ok copied, push_control st (Window sid (of_nat (length copied)))))"

definition guest_write ::
  "GuestMuxState \<Rightarrow> u64 \<Rightarrow> bytes \<Rightarrow> ((nat, io_error) result \<times> GuestMuxState) attempt" where
  "guest_write st sid buf =
     (if buf = [] then Ready (Ok 0, st)
      else case failed st of
        Some r \<Rightarrow> Ready (Err (BrokenPipe r), st)
      | None \<Rightarrow>
          (case sessions st sid of
             None \<Rightarrow> Ready (Err (BrokenPipe (str ''mux session no longer exists'')), st)
           | Some s \<Rightarrow>
               (case reset_reason s of
                  Some r \<Rightarrow> Ready (Err (ConnectionReset r), st)
                | None \<Rightarrow>
                    if local_fin s
                    then Ready (Err (BrokenPipe (str ''mux session local side is closed'')), st)
                    else if remote_fin s
                    then Ready (Err (BrokenPipe (str ''mux session remote side is closed'')), st)
                    else let n = writable s buf in
                         if n > 0 then Ready (Ok n, schedule st sid (queue_outbound s buf n))
                         else Wait)))"

definition guest_flush :: "GuestMuxState \<Rightarrow> u64 \<Rightarrow> (unit, io_error) result attempt" where
  "guest_flush st sid =
     (case failed st of
        Some r \<Rightarrow> Ready (Err (BrokenPipe r))
      | None \<Rightarrow>
          (case sessions st sid of
             None \<Rightarrow> Ready (Err (BrokenPipe (str ''mux session no longer exists'')))
           | Some s \<Rightarrow>
               (case reset_reason s of
                  Some r \<Rightarrow> Ready (Err (ConnectionReset r))
                | None \<Rightarrow> if outbound_bytes s = 0 then Ready (Ok ()) else Wait)))"

definition guest_next_outgoing :: "GuestMuxState \<Rightarrow> MuxFrame option attempt \<times> GuestMuxState" where
  "guest_next_outgoing = next_outgoing_frame guest_prune_drained_session"

definition guest_mux_metadata_supported :: "bytes \<Rightarrow> bool" where
  "guest_mux_metadata_supported meta \<longleftrightarrow> meta \<in> {str ''exec'', str ''watch'', str ''file''}"

definition guest_sid_check ::
  "u64 \<Rightarrow> GuestMuxState \<Rightarrow> ((unit, bytes) result \<times> GuestMuxState)
     \<Rightarrow> (unit, bytes) result \<times> GuestMuxState" where
  "guest_sid_check sid st k =
     (case validate_host_session_id sid of Inl e \<Rightarrow> (Err (display_error e), st) | Inr _ \<Rightarrow> k)"

fun guest_handle_incoming_frame ::
  "GuestMuxState \<Rightarrow> MuxFrame \<Rightarrow> (unit, bytes) result \<times> GuestMuxState" where
  "guest_handle_incoming_frame st (Open sid meta) =
     guest_sid_check sid st
       (if sessions st sid \<noteq> None
        then (Err (str ''host opened duplicate mux session '' @ show_num (unat sid)), st)
        else if length (control_queue st) \<ge> MAX_CONTROL_QUEUE_FRAMES
        then (Err (str ''mux control queue was full while accepting session ''
                @ show_num (unat sid)), st)
        else if \<not> guest_mux_metadata_supported meta
        then (Ok (), push_control st (OpenErr sid (str ''unsupported mux session kind'')))
        else (Ok (), push_control
                ((put_session st sid guest_session_new)
                   \<lparr>accepted_sessions := accepted_sessions st @ [sid]\<rparr>)
                (OpenOk sid (of_nat RECEIVE_QUEUE_BYTES))))"
| "guest_handle_incoming_frame st (OpenOk sid c) =
     (Err (str ''host sent an unexpected mux session-open response''), st)"
| "guest_handle_incoming_frame st (OpenErr sid r) =
     (Err (str ''host sent an unexpected mux session-open response''), st)"
| "guest_handle_incoming_frame st (Data sid d) =
     guest_sid_check sid st
       (case sessions st sid of
          None \<Rightarrow>
            (Err (str ''host sent '' @ show_num (length d) @ str '' bytes for unknown mux session ''
               @ show_num (unat sid)), st)
        | Some s \<Rightarrow>
            let available = RECEIVE_QUEUE_BYTES - length (inbound s) in
            if length d > available
            then (Err (str ''host exceeded mux receive credit for session ''
                    @ show_num (unat sid) @ str '': '' @ show_num (length d)
                    @ str '' bytes with '' @ show_num available @ str '' bytes available''), st)
            else (Ok (), put_session st sid (s\<lparr>inbound := inbound s @ d\<rparr>)))"
| "guest_handle_incoming_frame st (Window sid c) =
     guest_sid_check sid st
       (case sessions st sid of
          None \<Rightarrow> (Err (str ''host granted credit for unknown mux session '' @ show_num (unat sid)), st)
        | Some s \<Rightarrow>
            (case checked_add_usize (send_credit s) (unat c) of
               None \<Rightarrow> (Err (str ''mux session '' @ show_num (unat sid) @ str '' send credit overflow''), st)
             | Some cr \<Rightarrow> (Ok (), put_session st sid (s\<lparr>send_credit := cr\<rparr>))))"
| "guest_handle_incoming_frame st (Fin sid) =
     guest_sid_check sid st
       (case sessions st sid of
          None \<Rightarrow> (Err (str ''host closed unknown mux session '' @ show_num (unat sid)), st)
        | Some s \<Rightarrow>
            (Ok (), guest_prune_drained_session (put_session st sid (s\<lparr>remote_fin := True\<rparr>)) sid))"
| "guest_handle_incoming_frame st (Rst sid r) =
     guest_sid_check sid st
       (case sessions st sid of
          None \<Rightarrow> (Err (str ''host reset unknown mux session '' @ show_num (unat sid) @ str '': '' @ r), st)
        | Some s \<Rightarrow> (Ok (), put_session st sid (s\<lparr>reset_reason := Some r\<rparr>)))"

definition guest_receive :: "GuestMuxState \<Rightarrow> MuxFrame \<Rightarrow> bool \<times> GuestMuxState" where
  "guest_receive st f =
     (case guest_handle_incoming_frame st f of
        (Inr _, st') \<Rightarrow> (True, st')
      | (Inl r, st') \<Rightarrow> (False, guest_fail st' r))"

interpretation guest_end: mux_endpoint guest_prune_drained_session
  by unfold_locales (auto simp: guest_prune_drained_session_def split: option.splits if_splits)

section \<open>The invariant\<close>

text \<open>As on the host; a session in the ready queue always exists, and the id of every session is
  one a host may choose.\<close>

definition guest_inv :: "GuestMuxState \<Rightarrow> bool" where
  "guest_inv st \<longleftrightarrow>
     endpoint_ok st \<and>
     (\<forall>sid. sid \<in> set (ready_sessions st) \<longrightarrow> sessions st sid \<noteq> None) \<and>
     (\<forall>sid. sessions st sid \<noteq> None \<longrightarrow> is_host_session_id sid)"

inductive guest_step :: "GuestMuxState \<Rightarrow> GuestMuxState \<Rightarrow> bool" where
  gstep_accept: "guest_accept_session st = (a, st') \<Longrightarrow> guest_step st st'"
| gstep_read: "guest_read st sid n = ReadDone r st' \<Longrightarrow> guest_step st st'"
| gstep_take: "guest_read st sid n = Taken bs st' \<Longrightarrow> guest_step st st'"
| gstep_grant: "guest_grant_credit st sid bs = Ready (r, st') \<Longrightarrow> guest_step st st'"
| gstep_write: "guest_write st sid buf = Ready (r, st') \<Longrightarrow> guest_step st st'"
| gstep_close: "guest_step st (guest_close_session st sid)"
| gstep_send: "guest_next_outgoing st = (a, st') \<Longrightarrow> guest_step st st'"
| gstep_receive: "guest_receive st f = (b, st') \<Longrightarrow> guest_step st st'"
| gstep_fault: "guest_step st (guest_fail st r)"

lemma guest_session_new_ok [simp]:
  "session_ok guest_session_new" "\<not> has_work guest_session_new" "\<not> scheduled guest_session_new"
  by (simp_all add: guest_session_new_def session_ok_def has_work_def)

lemma guest_inv_endpoint: "guest_inv st \<Longrightarrow> endpoint_ok st"
  by (simp add: guest_inv_def)

lemma guest_inv_init: "guest_inv guest_new"
  by (simp add: guest_inv_def guest_new_def endpoint_ok_def sched_at_def)

lemma guest_inv_put:
  assumes "guest_inv st" and "sessions st sid = Some s" and "session_ok s'"
    and "scheduled s' = scheduled s" and "has_work s' \<longrightarrow> has_work s"
  shows "guest_inv (put_session st sid s')"
  using assms put_session_ok [OF guest_inv_endpoint [OF assms(1)] assms(2-5)]
  by (auto simp: guest_inv_def split: if_splits)

lemma guest_inv_push:
  "guest_inv st \<Longrightarrow> length (control_queue st) < MAX_CONTROL_QUEUE_FRAMES \<Longrightarrow> guest_inv (push_control st f)"
  by (simp add: guest_inv_def push_control_ok)

lemma guest_inv_schedule:
  assumes "guest_inv st" and "sessions st sid = Some s" and "session_ok s'"
    and "scheduled s' = scheduled s"
  shows "guest_inv (schedule st sid s')"
  using assms schedule_ok [OF guest_inv_endpoint [OF assms(1)] assms(2-4)]
  by (auto simp: guest_inv_def split: if_splits)

lemma guest_inv_fail: "guest_inv st \<Longrightarrow> guest_inv (guest_fail st r)"
  by (auto simp: guest_inv_def guest_fail_def endpoint_ok_def split: if_splits)

lemma guest_inv_prune: "guest_inv st \<Longrightarrow> guest_inv (guest_prune_drained_session st sid)"
  using guest_end.prune_ok [OF guest_inv_endpoint, of st sid]
  by (auto simp: guest_inv_def guest_prune_drained_session_def split: option.splits if_splits)

lemma guest_inv_accepted [simp]: "guest_inv (st\<lparr>accepted_sessions := q\<rparr>) = guest_inv st"
  by (simp add: guest_inv_def endpoint_ok_def sched_at_def)

lemma guest_inv_accept: "guest_inv st \<Longrightarrow> guest_accept_session st = (a, st') \<Longrightarrow> guest_inv st'"
  by (auto simp: guest_accept_session_def Let_def split: if_splits list.splits)

lemma guest_inv_read:
  assumes "guest_inv st" and "guest_read st sid n = ReadDone r st' \<or> guest_read st sid n = Taken bs st'"
  shows "guest_inv st'"
proof -
  have "guest_inv (put_session st sid (s\<lparr>inbound := drop n (inbound s)\<rparr>))"
    if "sessions st sid = Some s" for s
    using assms(1) that
    by (auto intro!: guest_inv_put session_ok_take endpoint_ok_session [OF guest_inv_endpoint])
  with assms show ?thesis
    by (fastforce simp: guest_read_def Let_def intro!: guest_inv_prune split: option.splits if_splits)
qed

lemma guest_inv_grant: "guest_inv st \<Longrightarrow> guest_grant_credit st sid bs = Ready (r, st') \<Longrightarrow> guest_inv st'"
  by (auto simp: guest_grant_credit_def intro!: guest_inv_push split: option.splits if_splits)

lemma guest_inv_write:
  assumes "guest_inv st" and "guest_write st sid buf = Ready (r, st')"
  shows "guest_inv st'"
  using assms endpoint_ok_session [OF guest_inv_endpoint [OF assms(1)]]
  by (auto simp: guest_write_def Let_def intro!: guest_inv_schedule queue_outbound_ok
      split: option.splits if_splits)

lemma guest_inv_close: "guest_inv st \<Longrightarrow> guest_inv (guest_close_session st sid)"
  using close_session_ok [OF guest_inv_endpoint, of st sid]
  by (auto simp: guest_inv_def guest_close_session_def close_session_def split: option.splits if_splits)

lemma next_ready_guest_ids:
  assumes "\<forall>i. i \<in> set rs \<longrightarrow> sessions st i \<noteq> None"
    and "\<forall>i. sessions st i \<noteq> None \<longrightarrow> is_host_session_id i"
    and "st' = snd (next_ready guest_prune_drained_session rs st)"
  shows "(\<forall>i. i \<in> set (ready_sessions st') \<longrightarrow> sessions st' i \<noteq> None) \<and>
         (\<forall>i. sessions st' i \<noteq> None \<longrightarrow> is_host_session_id i)"
  using assms
proof (induction rs st arbitrary: st' rule: guest_end.next_ready_induct)
  case (skip sid rest st)
  have "sessions (unschedule st sid) i \<noteq> None \<longleftrightarrow> sessions st i \<noteq> None" for i
    by (auto simp: unschedule_def split: option.splits)
  with skip.IH [of st'] skip.prems show ?case
    by (simp add: guest_end.next_ready_skip [OF skip.hyps] del: next_ready.simps(2))
qed (auto simp: guest_end.next_ready_data guest_end.next_ready_fin guest_prune_drained_session_def
      simp del: next_ready.simps(2) split: if_splits option.splits)

lemma guest_inv_send:
  assumes "guest_inv st" and "guest_next_outgoing st = (a, st')"
  shows "guest_inv st'"
proof -
  have ok: "endpoint_ok st'"
    using guest_end.next_outgoing_ok [OF guest_inv_endpoint [OF assms(1)]] assms(2)
    by (simp add: guest_next_outgoing_def)
  have "(\<forall>i. i \<in> set (ready_sessions st') \<longrightarrow> sessions st' i \<noteq> None) \<and>
         (\<forall>i. sessions st' i \<noteq> None \<longrightarrow> is_host_session_id i)"
    using assms next_ready_guest_ids [of "ready_sessions st" st]
    by (auto simp: guest_inv_def guest_next_outgoing_def next_outgoing_frame_def
        split: if_splits list.splits prod.splits option.splits)
  with ok show ?thesis by (simp add: guest_inv_def)
qed

lemma guest_inv_insert:
  assumes "guest_inv st" and "sessions st sid = None" and "is_host_session_id sid"
  shows "guest_inv ((put_session st sid guest_session_new)\<lparr>accepted_sessions := q\<rparr>)"
  using assms by (auto simp: guest_inv_def endpoint_ok_def sched_at_def split: if_splits)

lemma validate_host_ok: "validate_host_session_id sid = Ok u \<Longrightarrow> is_host_session_id sid"
  by (simp add: validate_host_session_id_def split: if_splits)

lemma guest_inv_handle:
  assumes inv: "guest_inv st" and h: "guest_handle_incoming_frame st f = (r, st')"
  shows "guest_inv st'"
proof -
  have ok: "session_ok s" if "sessions st sid = Some s" for sid s
    using inv that by (rule endpoint_ok_session [OF guest_inv_endpoint])
  note splits = option.splits if_splits prod.splits sum.splits bool.splits
  show ?thesis
  proof (cases f)
    case (Data sid d)
    have "session_ok (s\<lparr>inbound := inbound s @ d\<rparr>)"
      if "session_ok s" "length d \<le> RECEIVE_QUEUE_BYTES - length (inbound s)" for s :: mux_session
      using that by (auto simp: session_ok_def)
    with h inv ok show ?thesis
      by (auto simp: Data guest_sid_check_def Let_def intro!: guest_inv_put split: splits)
  next
    case (Open sid meta)
    with h inv show ?thesis
      by (auto simp: guest_sid_check_def intro!: guest_inv_push guest_inv_insert
          dest: validate_host_ok split: splits)
  qed (use h inv ok in \<open>auto simp: guest_sid_check_def Let_def
      intro!: guest_inv_put guest_inv_push guest_inv_prune split: splits\<close>)
qed

lemma guest_inv_receive: "guest_inv st \<Longrightarrow> guest_receive st f = (b, st') \<Longrightarrow> guest_inv st'"
  by (auto simp: guest_receive_def intro: guest_inv_handle guest_inv_fail
      split: prod.splits sum.splits)

lemma guest_step_inv: "guest_step st st' \<Longrightarrow> guest_inv st \<Longrightarrow> guest_inv st'"
  by (induction rule: guest_step.induct)
    (auto intro: guest_inv_accept guest_inv_read guest_inv_grant guest_inv_write guest_inv_close
      guest_inv_send guest_inv_receive guest_inv_fail)

end
