(* ===== verification/Mux_Flow.thy ===== *)
theory Mux_Flow
  imports Mux_Guest "HOL-Library.Sublist"
begin

text \<open>
  What one end of the mux does to one session, seen from outside: the bytes on their way out and
  in, the credit it holds and the credit it owes. Every operation of the host and of the guest is
  summarised here by its effect on these views; \<open>Mux_System\<close> puts the two ends and the stream
  between them together and never looks inside an operation again.
\<close>

section \<open>Views\<close>

fun frame_data :: "u64 \<Rightarrow> MuxFrame \<Rightarrow> bytes" where
  "frame_data i (Data sid d) = (if sid = i then d else [])"
| "frame_data i _ = []"

fun frame_credit :: "u64 \<Rightarrow> MuxFrame \<Rightarrow> nat" where
  "frame_credit i (Window sid c) = (if sid = i then unat c else 0)"
| "frame_credit i (OpenOk sid c) = (if sid = i then unat c else 0)"
| "frame_credit i _ = 0"

fun frame_open :: "u64 \<Rightarrow> MuxFrame \<Rightarrow> nat" where
  "frame_open i (Open sid m) = (if sid = i then 1 else 0)"
| "frame_open i _ = 0"

definition wire_data :: "u64 \<Rightarrow> MuxFrame list \<Rightarrow> bytes" where
  "wire_data i fs = concat (map (frame_data i) fs)"

definition wire_credit :: "u64 \<Rightarrow> MuxFrame list \<Rightarrow> nat" where
  "wire_credit i fs = sum_list (map (frame_credit i) fs)"

definition wire_opens :: "u64 \<Rightarrow> MuxFrame list \<Rightarrow> nat" where
  "wire_opens i fs = sum_list (map (frame_open i) fs)"

lemma wire_simps [simp]:
  "wire_data i [] = []" "wire_data i (f # fs) = frame_data i f @ wire_data i fs"
  "wire_data i (fs @ gs) = wire_data i fs @ wire_data i gs"
  "wire_credit i [] = 0" "wire_credit i (f # fs) = frame_credit i f + wire_credit i fs"
  "wire_credit i (fs @ gs) = wire_credit i fs + wire_credit i gs"
  "wire_opens i [] = 0" "wire_opens i (f # fs) = frame_open i f + wire_opens i fs"
  "wire_opens i (fs @ gs) = wire_opens i fs + wire_opens i gs"
  by (simp_all add: wire_data_def wire_credit_def wire_opens_def)

definition tx :: "('a, 'b) mux_state \<Rightarrow> u64 \<Rightarrow> nat" where
  "tx st i = (case sessions st i of None \<Rightarrow> 0 | Some s \<Rightarrow> send_credit s + outbound_bytes s)"

definition outb :: "('a, 'b) mux_state \<Rightarrow> u64 \<Rightarrow> bytes" where
  "outb st i = (case sessions st i of None \<Rightarrow> [] | Some s \<Rightarrow> concat (outbound s))"

definition inb :: "('a, 'b) mux_state \<Rightarrow> u64 \<Rightarrow> bytes" where
  "inb st i = (case sessions st i of None \<Rightarrow> [] | Some s \<Rightarrow> inbound s)"

definition rx :: "('a, 'b) mux_state \<Rightarrow> u64 \<Rightarrow> nat" where
  "rx st i = length (inb st i) + wire_credit i (control_queue st)"

definition present :: "('a, 'b) mux_state \<Rightarrow> u64 \<Rightarrow> bool" where
  "present st i \<longleftrightarrow> failed st = None \<and> sessions st i \<noteq> None"

definition sending :: "('a, 'b) mux_state \<Rightarrow> u64 \<Rightarrow> bool" where
  "sending st i \<longleftrightarrow> failed st = None \<and> (\<exists>s. sessions st i = Some s \<and> reset_reason s = None)"

lemmas view_defs = tx_def outb_def inb_def rx_def present_def sending_def

text \<open>The control queue never holds a data frame.\<close>

definition ctl_plain :: "('a, 'b) mux_state \<Rightarrow> bool" where
  "ctl_plain st \<longleftrightarrow> (\<forall>f \<in> set (control_queue st). \<forall>i. frame_data i f = [])"

text \<open>
  A move of one end that, on session \<open>i\<close>, neither reads nor writes nor exchanges a frame: it may
  only give credit up, drop the tail of what was queued, forget the session or fail.
\<close>

definition quiet :: "('a, 'b) mux_state \<Rightarrow> ('a, 'b) mux_state \<Rightarrow> u64 \<Rightarrow> bool" where
  "quiet st st' i \<longleftrightarrow>
     tx st' i \<le> tx st i \<and> rx st' i \<le> rx st i \<and>
     (present st' i \<longrightarrow> present st i \<and> inb st' i = inb st i) \<and>
     prefix (outb st' i) (outb st i) \<and>
     (sending st' i \<longrightarrow> sending st i \<and> outb st' i = outb st i) \<and>
     (failed st' = None \<longrightarrow> failed st = None) \<and>
     (sessions st' i \<noteq> None \<longrightarrow> sessions st i \<noteq> None)"

lemma quiet_refl [simp]: "quiet st st i"
  by (simp add: quiet_def)

lemma quiet_trans: "quiet a b i \<Longrightarrow> quiet b c i \<Longrightarrow> quiet a c i"
  unfolding quiet_def by (auto intro: order_trans prefix_order.trans)

text \<open>Moves of the fields the views do not read are quiet.\<close>

lemma quiet_sessions:
  assumes "sessions st' i = sessions st i" and "control_queue st' = control_queue st"
    and "failed st' = failed st"
  shows "quiet st st' i"
  using assms by (simp add: quiet_def view_defs)

lemma quiet_removed:
  assumes "sessions st' i = None" and "wire_credit i (control_queue st') \<le> wire_credit i (control_queue st)"
    and "failed st' = None \<longrightarrow> failed st = None"
  shows "quiet st st' i"
  using assms by (simp add: quiet_def view_defs split: option.splits)

text \<open>Writing back a session with the same queues.\<close>

lemma quiet_put:
  assumes "sessions st sid = Some s" and "inbound s' = inbound s" and "outbound s' = outbound s"
    and "outbound_bytes s' = outbound_bytes s" and "send_credit s' \<le> send_credit s"
    and "reset_reason s' = None \<longrightarrow> reset_reason s = None"
  shows "quiet st (put_session st sid s') i"
  using assms by (cases "i = sid") (auto simp: quiet_def view_defs)

lemma quiet_schedule:
  assumes "sessions st sid = Some s" and "inbound s' = inbound s" and "outbound s' = outbound s"
    and "outbound_bytes s' = outbound_bytes s" and "send_credit s' \<le> send_credit s"
    and "reset_reason s' = None \<longrightarrow> reset_reason s = None"
  shows "quiet st (schedule st sid s') i"
  using assms by (cases "i = sid") (auto simp: quiet_def view_defs)

lemma quiet_push: "frame_credit i f = 0 \<Longrightarrow> quiet st (push_control st f) i"
  by (simp add: quiet_def view_defs)

lemma quiet_close: "quiet st (close_session st sid) i"
  by (auto simp: close_session_def intro!: quiet_schedule split: option.splits)

lemma quiet_unschedule: "quiet st (unschedule st sid) i"
  by (auto simp: unschedule_def intro!: quiet_put split: option.splits)

lemma ctl_plain_push [simp]:
  "ctl_plain (push_control st f) \<longleftrightarrow> ctl_plain st \<and> (\<forall>i. frame_data i f = [])"
  by (auto simp: ctl_plain_def)

lemma ctl_plain_same: "control_queue st' = control_queue st \<Longrightarrow> ctl_plain st' = ctl_plain st"
  by (simp add: ctl_plain_def)

lemma ctl_plain_empty: "control_queue st = [] \<Longrightarrow> ctl_plain st"
  by (simp add: ctl_plain_def)

text \<open>A reader takes bytes off the front; a writer queues bytes at the back and pays for them.\<close>

lemma take_view:
  assumes "sessions st sid = Some s" and "st' = put_session st sid (s\<lparr>inbound := drop n (inbound s)\<rparr>)"
  shows "inb st sid = take n (inbound s) @ inb st' sid" "tx st' i = tx st i" "outb st' i = outb st i"
    "i \<noteq> sid \<Longrightarrow> inb st' i = inb st i" "present st' i = present st i" "sending st' i = sending st i"
    "sessions st' i = None \<longleftrightarrow> sessions st i = None"
  using assms by (auto simp: view_defs)

lemma write_view:
  assumes "sessions st sid = Some s" and "n = writable s buf"
    and "st' = schedule st sid (queue_outbound s buf n)"
  shows "outb st' sid = outb st sid @ take n buf" "tx st' i = tx st i" "inb st' i = inb st i"
    "i \<noteq> sid \<Longrightarrow> outb st' i = outb st i" "present st' i = present st i" "sending st' i = sending st i"
    "sessions st' i = None \<longleftrightarrow> sessions st i = None"
proof -
  have "n \<le> send_credit s" using assms(2) writable_bounds(3) by blast
  with assms(1,3) show "outb st' sid = outb st sid @ take n buf" "tx st' i = tx st i"
    "inb st' i = inb st i" "i \<noteq> sid \<Longrightarrow> outb st' i = outb st i" "present st' i = present st i"
    "sending st' i = sending st i" "sessions st' i = None \<longleftrightarrow> sessions st i = None"
    by (auto simp: view_defs queue_outbound_def)
qed

section \<open>The writer's step\<close>

text \<open>
  Picking the next frame moves the frame's bytes from the front of the session's queue and its
  credit from the control queue, and is quiet otherwise.
\<close>

definition emitted :: "MuxFrame \<Rightarrow> ('a, 'b) mux_state \<Rightarrow> ('a, 'b) mux_state \<Rightarrow> u64 \<Rightarrow> bool" where
  "emitted f st st' i \<longleftrightarrow>
     tx st' i + length (frame_data i f) \<le> tx st i \<and>
     rx st' i + frame_credit i f \<le> rx st i \<and>
     wire_opens i (control_queue st') + frame_open i f = wire_opens i (control_queue st) \<and>
     (present st' i \<longrightarrow> present st i \<and> inb st' i = inb st i) \<and>
     outb st i = frame_data i f @ outb st' i \<and>
     (sending st' i \<longrightarrow> sending st i) \<and>
     failed st' = None \<and> failed st = None \<and>
     (sessions st' i \<noteq> None \<longrightarrow> sessions st i \<noteq> None)"

context mux_endpoint
begin

lemma prune_quiet: "quiet st (prune st sid) i"
proof (cases "\<exists>s. sessions st sid = Some s \<and> is_drained s")
  case True
  then obtain s where s: "sessions st sid = Some s" "is_drained s" by blast
  show ?thesis
  proof (cases "i = sid")
    case True
    with s show ?thesis
      by (intro quiet_removed) (simp_all add: prune_drained prune_control prune_failed)
  next
    case False
    with s show ?thesis
      by (intro quiet_sessions) (simp_all add: prune_drained prune_control prune_failed)
  qed
next
  case False
  then have "prune st sid = st" using prune_not_drained by blast
  then show ?thesis by simp
qed

lemma prune_outb: "outb (prune st sid) i = outb st i"
proof (cases "\<exists>s. sessions st sid = Some s \<and> is_drained s")
  case True
  then obtain s where "sessions st sid = Some s" "is_drained s" by blast
  then show ?thesis by (auto simp: outb_def prune_drained is_drained_def)
next
  case False
  then have "prune st sid = st" using prune_not_drained by blast
  then show ?thesis by simp
qed

lemma emitted_quiet:
  "quiet a b i \<Longrightarrow> emitted f b c i \<Longrightarrow> outb b i = outb a i \<Longrightarrow> control_queue b = control_queue a
     \<Longrightarrow> emitted f a c i"
  by (auto simp: quiet_def emitted_def)

lemma unschedule_outb: "outb (unschedule st sid) i = outb st i"
  by (auto simp: outb_def unschedule_def split: option.splits)

lemma next_ready_emitted:
  assumes "next_ready prune rs st = (Some f, st')" and "failed st = None"
    and "\<forall>sid s. sessions st sid = Some s \<longrightarrow> session_ok s"
  shows "emitted f st st' i"
  using assms
proof (induction rs st rule: next_ready_induct)
  case (skip sid rest st)
  have "\<forall>j s. sessions (unschedule st sid) j = Some s \<longrightarrow> session_ok s"
    using skip.prems(3) by (auto simp: unschedule_def split: option.splits if_splits)
  with skip have "emitted f (unschedule st sid) st' i"
    by (simp add: next_ready_skip del: next_ready.simps(2))
  then show ?case
    using emitted_quiet [OF quiet_unschedule [of st sid i]] by (simp add: unschedule_outb)
next
  case (data sid rest st s b bs)
  let ?s = "s\<lparr>outbound := bs, outbound_bytes := outbound_bytes s - length b\<rparr>"
  have "session_ok s" using data by blast
  with data(2) have b: "length b \<le> outbound_bytes s" by (simp add: session_ok_def)
  have f: "f = Data sid b" and st': "sessions st' sid = Some (?s\<lparr>scheduled := scheduled s \<and> has_work ?s\<rparr>) \<or>
      sessions st' sid = Some ?s" "\<forall>j. j \<noteq> sid \<longrightarrow> sessions st' j = sessions st j"
      "control_queue st' = control_queue st" "failed st' = None"
    using data.prems(1,2) next_ready_data [OF data(1,2) refl, of rest]
    by (auto simp del: next_ready.simps(2) split: if_splits)
  show ?case
    using data(1,2) data.prems(2) b st'
    by (cases "i = sid") (auto simp: f emitted_def view_defs)
next
  case (fin sid rest st s)
  let ?mid = "(put_session st sid (s\<lparr>fin_sent := True, scheduled := False\<rparr>))\<lparr>ready_sessions := rest\<rparr>"
  have "quiet st (put_session st sid (s\<lparr>fin_sent := True, scheduled := False\<rparr>)) i"
    using fin by (intro quiet_put) auto
  then have "quiet st ?mid i"
    by (rule quiet_trans) (simp add: quiet_sessions)
  then have "quiet st (prune ?mid sid) i"
    by (rule quiet_trans) (rule prune_quiet)
  moreover have "outb (prune ?mid sid) i = outb st i"
    using fin(1,2) unfolding prune_outb by (simp add: outb_def)
  ultimately show ?case
    using fin by (auto simp: next_ready_fin emitted_def quiet_def prune_failed prune_control
        simp del: next_ready.simps(2))
qed simp

lemma next_ready_quiet:
  assumes "next_ready prune rs st = (None, st')"
  shows "quiet st st' i"
  using assms
proof (induction rs st rule: next_ready_induct)
  case (Nil st)
  then show ?case by (auto intro: quiet_sessions)
next
  case (skip sid rest st)
  then have "quiet (unschedule st sid) st' i"
    by (simp add: next_ready_skip del: next_ready.simps(2))
  then show ?case by (rule quiet_trans [OF quiet_unschedule])
qed (auto simp: next_ready_data next_ready_fin simp del: next_ready.simps(2))

lemma next_outgoing_emitted:
  assumes "next_outgoing_frame prune st = (Ready (Some f), st')" and "endpoint_ok st" and "ctl_plain st"
  shows "emitted f st st' i" and "ctl_plain st'"
proof -
  have ok: "failed st = None" using assms(1) by (auto simp: next_outgoing_frame_def split: if_splits)
  have s: "\<forall>sid s. sessions st sid = Some s \<longrightarrow> session_ok s"
    using assms(2) by (simp add: endpoint_ok_def)
  consider (ctl) fs where "control_queue st = f # fs" "st' = st\<lparr>control_queue := fs\<rparr>"
    | (ready) "control_queue st = []" "next_ready prune (ready_sessions st) st = (Some f, st')"
    using assms(1) ok
    by (auto simp: next_outgoing_frame_def split: list.splits prod.splits option.splits)
  then show "emitted f st st' i" and "ctl_plain st'"
  proof (atomize(full), cases)
    case ctl
    with ok assms(3) show "emitted f st st' i \<and> ctl_plain st'"
      by (auto simp: emitted_def view_defs ctl_plain_def)
  next
    case ready
    have "control_queue st' = []"
      using ready next_ready_frame [of "ready_sessions st" st] by simp
    with next_ready_emitted [OF ready(2) ok s] show "emitted f st st' i \<and> ctl_plain st'"
      by (simp add: ctl_plain_empty)
  qed
qed

lemma next_outgoing_wait:
  assumes "next_outgoing_frame prune st = (Wait, st')"
  shows "quiet st st' i" and "control_queue st' = control_queue st"
  using assms next_ready_quiet [of "ready_sessions st" st st' i]
    next_ready_frame [of "ready_sessions st" st]
  by (auto simp: next_outgoing_frame_def split: if_splits list.splits prod.splits option.splits)

end

section \<open>The host's operations\<close>

text \<open>The calls of the host's threads that are neither a read of data, a grant, a write nor an
  exchange of frames, and that create no session.\<close>

inductive host_local :: "MuxManagerState \<Rightarrow> MuxManagerState \<Rightarrow> bool" where
  hl_poll: "open_session_poll st sid timeout to ex = Ready (r, st') \<Longrightarrow> host_local st st'"
| hl_read: "host_read st sid n = ReadDone r st' \<Longrightarrow> host_local st st'"
| hl_close: "host_local st (close_session st sid)"
| hl_reset: "host_local st (reset_session st sid r)"
| hl_idle: "host_next_outgoing st = (Wait, st') \<Longrightarrow> host_local st st'"
| hl_fail: "host_local st (host_fail st r)"

lemma quiet_host_fail: "quiet st (host_fail st r) i"
  by (auto simp: host_fail_def quiet_def view_defs split: option.splits)

lemma quiet_host_remove: "quiet st (host_remove_session st sid) i"
  by (cases "i = sid") (auto simp: host_remove_session_def intro: quiet_sessions quiet_removed)

lemma host_remove_views [simp]:
  "control_queue (host_remove_session st sid) = control_queue st"
  "ctl_plain (host_remove_session st sid) = ctl_plain st"
  by (simp_all add: host_remove_session_def ctl_plain_def)

lemma timeout_open_views:
  "sessions (timeout_open_session st sid t) = (sessions st)(sid := None)"
  "failed (timeout_open_session st sid t) = failed st"
  "wire_credit i (control_queue (timeout_open_session st sid t)) = wire_credit i (control_queue st)"
  "wire_opens i (control_queue (timeout_open_session st sid t)) = wire_opens i (control_queue st)"
  "next_host_session_id (timeout_open_session st sid t) = next_host_session_id st"
  "ctl_plain (timeout_open_session st sid t) = ctl_plain st"
  by (auto simp: timeout_open_session_def record_timed_out_open_def Let_def ctl_plain_def)

lemma quiet_timeout: "quiet st (timeout_open_session st sid t) i"
  by (auto simp: quiet_def view_defs timeout_open_views split: option.splits)

lemma quiet_reset: "quiet st (reset_session st sid r) i"
proof -
  have "quiet st (push_control ((put_session st sid
          (s\<lparr>outbound := [], outbound_bytes := 0, reset_reason := Some r, local_fin := True,
             fin_sent := True, scheduled := False\<rparr>))\<lparr>ready_sessions := q\<rparr>) (Rst sid r)) i"
    if "sessions st sid = Some s" for s q
    using that by (cases "i = sid") (auto simp: quiet_def view_defs)
  then show ?thesis
    by (auto simp: reset_session_def quiet_host_fail split: option.splits)
qed

text \<open>A read that fails after taking bytes would lose them; the receive window rules it out.\<close>

lemma quiet_host_read:
  assumes "host_read st sid n = ReadDone r st'" and "host_inv st"
  shows "quiet st st' i"
proof -
  have "length (take n (inbound s)) < 2 ^ 32" if "sessions st sid = Some s" for s
    using endpoint_ok_session [OF host_inv_endpoint [OF assms(2)] that]
    by (auto simp: session_ok_def RECEIVE_QUEUE_BYTES_def)
  with assms(1) have "st' = st \<or> st' = prune_drained_session st sid"
    by (fastforce simp: host_read_def Let_def split: option.splits if_splits)
  then show ?thesis by (auto intro: host_end.prune_quiet)
qed

lemma host_local_quiet:
  assumes "host_local st st'" and "host_inv st"
  shows "quiet st st' i"
  using assms(1)
proof cases
  case (hl_poll sid timeout to ex r)
  then show ?thesis
    by (auto simp: open_session_poll_def quiet_timeout quiet_host_remove
        split: option.splits SessionOpenState.splits if_splits)
next
  case (hl_read sid n r)
  then show ?thesis by (rule quiet_host_read) (rule assms(2))
next
  case hl_idle
  then show ?thesis unfolding host_next_outgoing_def by (rule host_end.next_outgoing_wait)
qed (simp_all add: quiet_close quiet_reset quiet_host_fail)

text \<open>They send no Open, leave the id counter alone and never reopen a session.\<close>

lemma host_prune_control [simp]:
  "control_queue (prune_drained_session st sid) = control_queue st"
  by (rule host_end.prune_control)

lemma host_local_frame:
  assumes "host_local st st'"
  shows "wire_opens i (control_queue st') \<le> wire_opens i (control_queue st)"
    and "ctl_plain st \<Longrightarrow> ctl_plain st'" and "next_host_session_id st' = next_host_session_id st"
proof -
  have "wire_opens i (control_queue st') \<le> wire_opens i (control_queue st) \<and>
    (ctl_plain st \<longrightarrow> ctl_plain st') \<and> next_host_session_id st' = next_host_session_id st"
    using assms
  proof cases
    case (hl_poll sid timeout to ex r)
    then show ?thesis
      by (auto simp: open_session_poll_def timeout_open_views
          split: option.splits SessionOpenState.splits if_splits)
  next
    case (hl_read sid n r)
    then show ?thesis
      by (auto simp: host_read_def Let_def ctl_plain_def split: option.splits if_splits)
  next
    case (hl_close sid)
    then show ?thesis
      by (auto simp: close_session_def ctl_plain_def split: option.splits)
  next
    case (hl_reset sid r)
    then show ?thesis
      by (auto simp: reset_session_def host_fail_def ctl_plain_def split: option.splits)
  next
    case hl_idle
    then show ?thesis
      using next_ready_host_frame [of "ready_sessions st" st]
        host_end.next_ready_frame [of "ready_sessions st" st]
      by (auto simp: host_next_outgoing_def next_outgoing_frame_def ctl_plain_def
          split: if_splits list.splits prod.splits option.splits)
  next
    case (hl_fail r)
    then show ?thesis by (auto simp: host_fail_def ctl_plain_def)
  qed
  then show "wire_opens i (control_queue st') \<le> wire_opens i (control_queue st)"
    and "ctl_plain st \<Longrightarrow> ctl_plain st'" and "next_host_session_id st' = next_host_session_id st"
    by auto
qed

text \<open>A session that has left the still_opening state never returns to it.\<close>

definition still_opening :: "MuxManagerState \<Rightarrow> u64 \<Rightarrow> bool" where
  "still_opening st i \<longleftrightarrow> (\<exists>s. sessions st i = Some s \<and> open_state s = Opening)"

lemma opening_put [simp]:
  "still_opening (put_session st sid s) i = (if i = sid then open_state s = Opening else still_opening st i)"
  by (simp add: still_opening_def)

lemma opening_updates [simp]:
  "still_opening (push_control st f) i = still_opening st i"
  "still_opening (st\<lparr>ready_sessions := q\<rparr>) i = still_opening st i"
  "still_opening (st\<lparr>control_queue := cq\<rparr>) i = still_opening st i"
  "still_opening (st\<lparr>timed_out_host_opens := ids\<rparr>) i = still_opening st i"
  "still_opening (schedule st sid s) i = (if i = sid then open_state s = Opening else still_opening st i)"
  "still_opening (unschedule st sid) i = still_opening st i"
  "still_opening (host_fail st r) i = still_opening st i"
  "still_opening (host_remove_session st sid) i = (i \<noteq> sid \<and> still_opening st i)"
  "still_opening (timeout_open_session st sid t) i = (i \<noteq> sid \<and> still_opening st i)"
  by (auto simp: still_opening_def unschedule_def host_fail_def host_remove_session_def timeout_open_views
      split: option.splits)

lemma opening_prune: "still_opening (prune_drained_session st sid) i \<Longrightarrow> still_opening st i"
  by (auto simp: still_opening_def prune_drained_session_def split: option.splits if_splits)

lemma opening_None: "sessions st i = None \<Longrightarrow> \<not> still_opening st i"
  by (simp add: still_opening_def)

lemma opening_at: "sessions st i = Some s \<Longrightarrow> still_opening st i \<longleftrightarrow> open_state s = Opening"
  by (simp add: still_opening_def)

lemma opening_next_ready:
  "still_opening (snd (next_ready prune_drained_session rs st)) i \<Longrightarrow> still_opening st i"
proof (induction rs st rule: host_end.next_ready_induct)
  case (skip sid rest st)
  then show ?case by (simp add: host_end.next_ready_skip [OF skip.hyps] del: next_ready.simps(2))
next
  case (data sid rest st s b bs)
  then show ?case
    by (auto simp: host_end.next_ready_data opening_at simp del: next_ready.simps(2) split: if_splits)
next
  case (fin sid rest st s)
  then show ?case
    by (auto simp: host_end.next_ready_fin opening_at simp del: next_ready.simps(2)
        dest!: opening_prune split: if_splits)
qed simp

lemma opening_next_outgoing:
  "host_next_outgoing st = (a, st') \<Longrightarrow> still_opening st' i \<Longrightarrow> still_opening st i"
  using opening_next_ready [of "ready_sessions st" st i]
  by (auto simp: host_next_outgoing_def next_outgoing_frame_def
      split: if_splits list.splits prod.splits option.splits)

lemma host_local_opening:
  assumes "host_local st st'" and "still_opening st' i"
  shows "still_opening st i"
  using assms(1)
proof cases
  case (hl_poll sid timeout to ex r)
  with assms(2) show ?thesis
    by (auto simp: open_session_poll_def split: option.splits SessionOpenState.splits if_splits)
next
  case (hl_read sid n r)
  with assms(2) show ?thesis
    by (auto simp: host_read_def Let_def opening_at dest: opening_prune split: option.splits if_splits)
next
  case (hl_close sid)
  with assms(2) show ?thesis
    by (auto simp: close_session_def opening_at split: option.splits if_splits)
next
  case (hl_reset sid r)
  with assms(2) show ?thesis
    by (auto simp: reset_session_def opening_at split: option.splits if_splits)
next
  case hl_idle
  then show ?thesis using assms(2) by (rule opening_next_outgoing)
qed (use assms(2) in simp)

text \<open>Reads of data, grants, writes.\<close>

lemma host_takeD:
  assumes "host_read st sid n = Taken bs st'"
  obtains s where "failed st = None" "sessions st sid = Some s" "bs = take n (inbound s)"
    "st' = put_session st sid (s\<lparr>inbound := drop n (inbound s)\<rparr>)"
  using assms by (auto simp: host_read_def Let_def split: option.splits if_splits)

lemma host_grantD:
  assumes "host_grant_credit st sid bs = Ready (r, st')"
  obtains "st' = push_control st (Window sid (of_nat (length bs)))" | "st' = st"
  using assms by (auto simp: host_grant_credit_def split: option.splits if_splits)

lemma host_writeD:
  assumes "host_write st sid buf = Ready (r, st')"
  obtains (written) s where "failed st = None" "sessions st sid = Some s" "reset_reason s = None"
      "0 < writable s buf" "r = Ok (writable s buf)"
      "st' = schedule st sid (queue_outbound s buf (writable s buf))"
  | (idle) "st' = st" "\<And>n. r = Ok n \<Longrightarrow> n = 0"
  using assms by (auto simp: host_write_def Let_def split: option.splits if_splits)

section \<open>Receiving a frame\<close>

text \<open>
  The other half of \<open>emitted\<close>: the frame's bytes join the session's inbound queue, its credit the
  send credit; \<open>g\<close> is the credit the receiver grants in return.
\<close>

definition absorbed :: "nat \<Rightarrow> MuxFrame \<Rightarrow> ('a, 'b) mux_state \<Rightarrow> ('a, 'b) mux_state \<Rightarrow> u64 \<Rightarrow> bool" where
  "absorbed g f st st' i \<longleftrightarrow>
     tx st' i \<le> tx st i + frame_credit i f \<and>
     rx st' i \<le> rx st i + length (frame_data i f) + g \<and>
     (present st' i \<longrightarrow> present st i \<and> inb st' i = inb st i @ frame_data i f) \<and>
     prefix (outb st' i) (outb st i) \<and>
     (sending st' i \<longrightarrow> sending st i \<and> outb st' i = outb st i) \<and>
     (failed st' = None \<longrightarrow> failed st = None) \<and>
     (sessions st' i \<noteq> None \<longrightarrow> sessions st i \<noteq> None)"

lemma absorbed_quiet: "quiet st st' i \<Longrightarrow> frame_data i f = [] \<Longrightarrow> absorbed g f st st' i"
  by (auto simp: quiet_def absorbed_def)

lemma absorbed_failed: "quiet st st' i \<Longrightarrow> failed st' \<noteq> None \<Longrightarrow> absorbed g f st st' i"
  by (auto simp: quiet_def absorbed_def view_defs)

lemma absorbed_then_quiet:
  assumes "absorbed g f a b i" and "quiet b c i"
  shows "absorbed g f a c i"
  using assms by (auto simp: absorbed_def quiet_def intro: order_trans prefix_order.trans)

lemma absorbed_push:
  assumes "absorbed 0 f st st' i" and "frame_credit i h \<le> g"
  shows "absorbed g f st (push_control st' h) i"
  using assms by (auto simp: absorbed_def view_defs)

lemma absorbed_data:
  "sessions st sid = Some s \<Longrightarrow>
     absorbed 0 (Data sid d) st (put_session st sid (s\<lparr>inbound := inbound s @ d\<rparr>)) i"
  by (cases "i = sid") (auto simp: absorbed_def view_defs)

lemma absorbed_window:
  assumes "sessions st sid = Some s" and "inbound s' = inbound s" and "outbound s' = outbound s"
    and "outbound_bytes s' = outbound_bytes s" and "send_credit s' \<le> send_credit s + unat c"
    and "reset_reason s' = None \<longrightarrow> reset_reason s = None" and "f \<in> {Window sid c, OpenOk sid c}"
  shows "absorbed 0 f st (put_session st sid s') i"
  using assms by (cases "i = sid") (auto simp: absorbed_def view_defs)

lemma checked_add_usizeD: "checked_add_usize a b = Some c \<Longrightarrow> c = a + b"
  by (simp add: checked_add_usize_def split: if_splits)

lemma quiet_remove_timed_out:
  "remove_timed_out_open st sid = (b, st') \<Longrightarrow> quiet st st' i"
  by (auto simp: remove_timed_out_open_def intro: quiet_sessions split: if_splits)

text \<open>What the host grants on receiving a frame: the window, when the frame opens the session.\<close>

definition host_grants :: "MuxManagerState \<Rightarrow> MuxFrame \<Rightarrow> u64 \<Rightarrow> nat" where
  "host_grants st f i =
     (if still_opening st i \<and> (\<exists>c. f = OpenOk i c) then RECEIVE_QUEUE_BYTES else 0)"

lemma host_handle_absorbed:
  assumes "handle_incoming_frame st f = (Inr u, st')"
  shows "absorbed (host_grants st f i) f st st' i"
proof (cases f)
  case (Open sid m)
  with assms have "quiet st st' i"
    by (auto simp: host_sid_check_def intro!: quiet_push split: sum.splits if_splits)
  with Open show ?thesis by (auto intro: absorbed_quiet)
next
  case (OpenOk sid c)
  show ?thesis
  proof (cases "sessions st sid")
    case None
    with assms OpenOk have "st' = st"
      by (auto simp: host_sid_check_def split: sum.splits if_splits)
    with OpenOk show ?thesis by (auto intro: absorbed_quiet)
  next
    case (Some s)
    with assms OpenOk obtain cr where cr: "cr = send_credit s + unat c" and op: "open_state s = Opening"
      and st': "st' = push_control (put_session st sid (s\<lparr>open_state := Opened, send_credit := cr\<rparr>))
        (Window sid (of_nat RECEIVE_QUEUE_BYTES))"
      by (auto simp: host_sid_check_def Let_def dest!: checked_add_usizeD
          split: sum.splits if_splits option.splits)
    have "absorbed 0 f st (put_session st sid (s\<lparr>open_state := Opened, send_credit := cr\<rparr>)) i"
      by (rule absorbed_window [OF Some]) (auto simp: cr OpenOk)
    then show ?thesis
      unfolding st' using Some op
      by (rule_tac absorbed_push) (auto simp: OpenOk host_grants_def opening_at RECEIVE_QUEUE_BYTES_def)
  qed
next
  case (Data sid d)
  with assms obtain s where "sessions st sid = Some s"
      and st': "st' = put_session st sid (s\<lparr>inbound := inbound s @ d\<rparr>)"
    by (auto simp: host_sid_check_def Let_def split: sum.splits option.splits if_splits)
  then show ?thesis by (simp add: Data host_grants_def absorbed_data)
next
  case (Window sid c)
  with assms obtain s where s: "sessions st sid = Some s"
      and st': "st' = put_session st sid (s\<lparr>send_credit := send_credit s + unat c\<rparr>)"
    by (auto simp: host_sid_check_def Let_def dest!: checked_add_usizeD
        split: sum.splits option.splits if_splits)
  then show ?thesis
    by (auto simp: Window host_grants_def intro!: absorbed_window)
next
  case (OpenErr sid r)
  with assms have "quiet st st' i"
    by (auto simp: host_sid_check_def intro!: quiet_put intro: quiet_remove_timed_out
        split: sum.splits option.splits prod.splits bool.splits)
  with OpenErr show ?thesis by (auto intro: absorbed_quiet)
next
  case (Fin sid)
  with assms obtain s where "sessions st sid = Some s"
      "st' = prune_drained_session (put_session st sid (s\<lparr>remote_fin := True\<rparr>)) sid"
    by (auto simp: host_sid_check_def split: sum.splits option.splits)
  then have "quiet st st' i"
    by (auto intro!: quiet_trans [OF quiet_put host_end.prune_quiet])
  with Fin show ?thesis by (auto intro: absorbed_quiet)
next
  case (Rst sid r)
  with assms have "quiet st st' i"
    by (auto simp: host_sid_check_def intro!: quiet_put intro: quiet_remove_timed_out
        split: sum.splits option.splits prod.splits bool.splits)
  with Rst show ?thesis by (auto intro: absorbed_quiet)
qed

lemma host_handle_error:
  assumes "handle_incoming_frame st f = (Inl e, st')"
  shows "quiet st st' i \<or> absorbed 0 f st st' i"
proof (cases f)
  case (OpenOk sid c)
  show ?thesis
  proof (cases "sessions st sid")
    case None
    with assms OpenOk have "st' = st"
      by (auto simp: host_sid_check_def split: sum.splits if_splits)
    then show ?thesis by simp
  next
    case (Some s)
    with assms OpenOk consider "st' = st" | "st' = put_session st sid (s\<lparr>open_state := Opened\<rparr>)"
      | "st' = put_session st sid (s\<lparr>open_state := Opened, send_credit := send_credit s + unat c\<rparr>)"
      by (auto simp: host_sid_check_def Let_def dest!: checked_add_usizeD
          split: sum.splits if_splits option.splits)
    then show ?thesis
    proof cases
      case 2
      with Some show ?thesis by (auto intro!: quiet_put)
    next
      case 3
      with Some OpenOk show ?thesis by (auto intro!: absorbed_window [of st sid s])
    qed simp
  qed
qed (use assms in \<open>auto simp: host_sid_check_def Let_def intro: quiet_remove_timed_out
    split: sum.splits option.splits prod.splits bool.splits if_splits\<close>)

lemma host_receive_absorbed:
  assumes "host_receive st f = (b, st')"
  shows "absorbed (if b then host_grants st f i else 0) f st st' i"
proof (cases "handle_incoming_frame st f")
  case (Pair r st1)
  show ?thesis
  proof (cases r)
    case (Inl e)
    with assms Pair have st': "st' = host_fail st1 e" and "\<not> b" by (simp_all add: host_receive_def)
    then have "failed st' \<noteq> None" by (simp add: host_fail_def)
    moreover have "quiet st st1 i \<or> absorbed 0 f st st1 i"
      using Pair Inl by (simp add: host_handle_error)
    ultimately show ?thesis
      using quiet_host_fail [of st1 e i] \<open>\<not> b\<close> unfolding st'
      by (auto intro: absorbed_failed quiet_trans absorbed_then_quiet)
  next
    case (Inr u)
    with assms Pair show ?thesis
      by (auto simp: host_receive_def intro: host_handle_absorbed)
  qed
qed

lemma host_receive_frame:
  assumes "host_receive st f = (b, st')"
  shows "ctl_plain st \<Longrightarrow> ctl_plain st'"
    and "wire_opens i (control_queue st') \<le> wire_opens i (control_queue st)"
    and "next_host_session_id st' = next_host_session_id st"
    and "still_opening st' i \<Longrightarrow> still_opening st i \<and> \<not> (\<exists>c. f = OpenOk i c \<and> b)"
proof -
  have fail: "ctl_plain st1 \<longrightarrow> ctl_plain (host_fail st1 e)"
    "wire_opens i (control_queue (host_fail st1 e)) \<le> wire_opens i (control_queue st1)" for st1 e
    by (auto simp: host_fail_def ctl_plain_def)
  obtain r st1 where h: "handle_incoming_frame st f = (r, st1)" by fastforce
  have "(ctl_plain st \<longrightarrow> ctl_plain st1) \<and>
    wire_opens i (control_queue st1) \<le> wire_opens i (control_queue st) \<and>
    next_host_session_id st1 = next_host_session_id st \<and>
    (still_opening st1 i \<longrightarrow> still_opening st i \<and> \<not> (\<exists>c. f = OpenOk i c \<and> \<not> isl r))"
    using h
    by (cases f)
      (auto simp: host_sid_check_def Let_def remove_timed_out_open_def ctl_plain_def opening_at opening_None
        dest!: opening_prune split: sum.splits option.splits prod.splits bool.splits if_splits)
  then show "ctl_plain st \<Longrightarrow> ctl_plain st'"
    and "wire_opens i (control_queue st') \<le> wire_opens i (control_queue st)"
    and "next_host_session_id st' = next_host_session_id st"
    and "still_opening st' i \<Longrightarrow> still_opening st i \<and> \<not> (\<exists>c. f = OpenOk i c \<and> b)"
    using assms h fail [of st1]
    by (auto simp: host_receive_def intro: order_trans split: sum.splits)
qed

section \<open>The guest's operations\<close>

inductive guest_local :: "GuestMuxState \<Rightarrow> GuestMuxState \<Rightarrow> bool" where
  gl_accept: "guest_accept_session st = (a, st') \<Longrightarrow> guest_local st st'"
| gl_read: "guest_read st sid n = ReadDone r st' \<Longrightarrow> guest_local st st'"
| gl_close: "guest_local st (guest_close_session st sid)"
| gl_idle: "guest_next_outgoing st = (Wait, st') \<Longrightarrow> guest_local st st'"
| gl_fail: "guest_local st (guest_fail st r)"

lemma quiet_guest_fail: "quiet st (guest_fail st r) i"
  by (auto simp: guest_fail_def quiet_def view_defs split: option.splits)

lemma guest_read_done:
  assumes "guest_read st sid n = ReadDone r st'" and "guest_inv st"
  shows "quiet st st' i" and "control_queue st' = control_queue st"
proof -
  have "length (take n (inbound s)) < 2 ^ 32" if "sessions st sid = Some s" for s
    using endpoint_ok_session [OF guest_inv_endpoint [OF assms(2)] that]
    by (auto simp: session_ok_def RECEIVE_QUEUE_BYTES_def)
  with assms(1) have "st' = st \<or>
      (\<exists>s. sessions st sid = Some s \<and> take n (inbound s) = [] \<and> n \<noteq> 0 \<and>
         st' = guest_prune_drained_session (put_session st sid (s\<lparr>inbound := drop n (inbound s)\<rparr>)) sid)"
    by (fastforce simp: guest_read_def Let_def split: option.splits if_splits)
  then show "quiet st st' i" and "control_queue st' = control_queue st"
    by (auto simp: guest_end.prune_control intro!: quiet_trans [OF quiet_put guest_end.prune_quiet])
qed

lemma guest_local_quiet:
  assumes "guest_local st st'" and "guest_inv st"
  shows "quiet st st' i" and "ctl_plain st \<Longrightarrow> ctl_plain st'"
proof -
  have "quiet st st' i \<and> (control_queue st' = control_queue st \<or> control_queue st' = [])"
    using assms(1)
  proof cases
    case (gl_accept a)
    then have "sessions st' = sessions st \<and> control_queue st' = control_queue st \<and> failed st' = failed st"
      by (auto simp: guest_accept_session_def Let_def split: if_splits list.splits)
    then show ?thesis by (auto intro: quiet_sessions)
  next
    case (gl_read sid n r)
    with assms(2) show ?thesis using guest_read_done by blast
  next
    case (gl_close sid)
    moreover have "control_queue (close_session st sid) = control_queue st"
      by (auto simp: close_session_def split: option.splits)
    ultimately show ?thesis by (simp add: guest_close_session_def quiet_close)
  next
    case gl_idle
    then show ?thesis
      unfolding guest_next_outgoing_def using guest_end.next_outgoing_wait by blast
  next
    case (gl_fail r)
    then show ?thesis by (auto simp: quiet_guest_fail) (auto simp: guest_fail_def)
  qed
  then show "quiet st st' i" and "ctl_plain st \<Longrightarrow> ctl_plain st'"
    by (auto simp: ctl_plain_def)
qed

lemma guest_takeD:
  assumes "guest_read st sid n = Taken bs st'"
  obtains s where "failed st = None" "sessions st sid = Some s" "bs = take n (inbound s)"
    "st' = put_session st sid (s\<lparr>inbound := drop n (inbound s)\<rparr>)"
  using assms by (auto simp: guest_read_def Let_def split: option.splits if_splits)

lemma guest_grantD:
  assumes "guest_grant_credit st sid bs = Ready (r, st')"
  obtains "st' = push_control st (Window sid (of_nat (length bs)))" | "st' = st"
  using assms by (auto simp: guest_grant_credit_def split: option.splits if_splits)

lemma guest_writeD:
  assumes "guest_write st sid buf = Ready (r, st')"
  obtains (written) s where "failed st = None" "sessions st sid = Some s" "reset_reason s = None"
      "0 < writable s buf" "r = Ok (writable s buf)"
      "st' = schedule st sid (queue_outbound s buf (writable s buf))"
  | (idle) "st' = st" "\<And>n. r = Ok n \<Longrightarrow> n = 0"
  using assms by (auto simp: guest_write_def Let_def split: option.splits if_splits)

lemma guest_handle_error: "guest_handle_incoming_frame st f = (Inl e, st') \<Longrightarrow> st' = st"
  by (cases f) (auto simp: guest_sid_check_def Let_def split: sum.splits option.splits if_splits)

text \<open>Everything but an Open for the session itself is absorbed without a grant.\<close>

lemma guest_handle_absorbed:
  assumes "guest_handle_incoming_frame st f = (Inr u, st')" and "frame_open i f = 0"
  shows "absorbed 0 f st st' i"
proof (cases f)
  case (Open sid m)
  with assms have "quiet st st' i"
    by (auto simp: guest_sid_check_def quiet_def view_defs guest_session_new_def
        split: sum.splits if_splits)
  with Open show ?thesis by (auto intro: absorbed_quiet)
next
  case (Data sid d)
  with assms obtain s where "sessions st sid = Some s"
      and st': "st' = put_session st sid (s\<lparr>inbound := inbound s @ d\<rparr>)"
    by (auto simp: guest_sid_check_def Let_def split: sum.splits option.splits if_splits)
  then show ?thesis by (simp add: Data absorbed_data)
next
  case (Window sid c)
  with assms obtain s where s: "sessions st sid = Some s"
      and st': "st' = put_session st sid (s\<lparr>send_credit := send_credit s + unat c\<rparr>)"
    by (auto simp: guest_sid_check_def Let_def dest!: checked_add_usizeD
        split: sum.splits option.splits if_splits)
  then show ?thesis
    by (auto simp: Window intro!: absorbed_window)
next
  case (Fin sid)
  with assms obtain s where "sessions st sid = Some s"
      "st' = guest_prune_drained_session (put_session st sid (s\<lparr>remote_fin := True\<rparr>)) sid"
    by (auto simp: guest_sid_check_def split: sum.splits option.splits)
  then have "quiet st st' i"
    by (auto intro!: quiet_trans [OF quiet_put guest_end.prune_quiet])
  with Fin show ?thesis by (auto intro: absorbed_quiet)
next
  case (Rst sid r)
  with assms have "quiet st st' i"
    by (auto simp: guest_sid_check_def intro!: quiet_put split: sum.splits option.splits)
  with Rst show ?thesis by (auto intro: absorbed_quiet)
qed (use assms in auto)

lemma guest_receive_absorbed:
  assumes "guest_receive st f = (b, st')" and "frame_open i f = 0"
  shows "absorbed 0 f st st' i"
proof (cases "guest_handle_incoming_frame st f")
  case (Pair r st1)
  show ?thesis
  proof (cases r)
    case (Inl e)
    with assms Pair have "st' = guest_fail st e"
      by (auto simp: guest_receive_def dest!: guest_handle_error)
    then show ?thesis
      by (auto intro!: absorbed_failed quiet_guest_fail) (simp add: guest_fail_def split: if_splits)
  next
    case (Inr u)
    with assms Pair show ?thesis
      by (auto simp: guest_receive_def intro: guest_handle_absorbed)
  qed
qed

text \<open>An Open creates the session, if at all, empty and with one window of credit for the host.\<close>

lemma guest_receive_open:
  assumes "guest_receive st f = (b, st')" and "frame_open i f \<noteq> 0" and "sessions st i = None"
  shows "tx st' i = 0" "outb st' i = []" "inb st' i = []"
    "rx st' i \<le> rx st i + RECEIVE_QUEUE_BYTES" "failed st' = None \<Longrightarrow> failed st = None"
proof -
  obtain m where f: "f = Open i m" using assms(2) by (cases f) (auto split: if_splits)
  obtain r st1 where h: "guest_handle_incoming_frame st f = (r, st1)" by fastforce
  have "tx st' i = 0 \<and> outb st' i = [] \<and> inb st' i = [] \<and>
    rx st' i \<le> rx st i + RECEIVE_QUEUE_BYTES \<and> (failed st' = None \<longrightarrow> failed st = None)"
    using assms h
    by (auto simp: f guest_receive_def guest_sid_check_def guest_fail_def view_defs
        guest_session_new_def RECEIVE_QUEUE_BYTES_def split: sum.splits if_splits)
  then show "tx st' i = 0" "outb st' i = []" "inb st' i = []"
    "rx st' i \<le> rx st i + RECEIVE_QUEUE_BYTES" "failed st' = None \<Longrightarrow> failed st = None"
    by auto
qed

lemma guest_receive_plain:
  assumes "guest_receive st f = (b, st')" and "ctl_plain st"
  shows "ctl_plain st'"
proof -
  obtain r st1 where h: "guest_handle_incoming_frame st f = (r, st1)" by fastforce
  with assms(2) have "ctl_plain st1"
    by (cases f) (auto simp: guest_sid_check_def Let_def guest_end.prune_control ctl_plain_def
        split: sum.splits option.splits if_splits)
  with assms(1) h show ?thesis
    by (auto simp: guest_receive_def guest_fail_def ctl_plain_empty split: sum.splits)
qed

end
