(* ===== verification/Mux_System.thy ===== *)
theory Mux_System
  imports Mux_Flow
begin

text \<open>
  The host's and the guest's mux together, with the ordered stream of frames between them: every
  interleaving of their reader, writer and client threads, with faults of the stream at any
  point. Ghost fields record what clients wrote and what they have read. The invariant accounts for every
  byte of credit and of data in flight; from it neither end can ever overrun the other's receive
  window, and what a client reads is a prefix of what the other end's client wrote.
\<close>

section \<open>The system\<close>

text \<open>
  A frame that the writer thread has taken from the state but not yet written is in \<open>h_out\<close> or
  \<open>g_out\<close>; \<open>h2g\<close> and \<open>g2h\<close> are the stream. \<open>begun\<close> lists the opens that have an id but have not
  queued their frame, \<open>h_pending\<close> and \<open>g_pending\<close> the reads that have taken bytes and not yet
  granted the credit back. The flags say whether a reader or writer thread still runs.
\<close>

record mux_system =
  host :: MuxManagerState
  guest :: GuestMuxState
  h_out :: "MuxFrame option"
  g_out :: "MuxFrame option"
  h2g :: "MuxFrame list"
  g2h :: "MuxFrame list"
  h_reader :: bool
  h_writer :: bool
  g_reader :: bool
  g_writer :: bool
  begun :: "u64 list"
  h_pending :: "(u64 \<times> bytes) list"
  g_pending :: "(u64 \<times> bytes) list"
  h_written :: "u64 \<Rightarrow> bytes"
  g_taken :: "u64 \<Rightarrow> bytes"
  g_written :: "u64 \<Rightarrow> bytes"
  h_taken :: "u64 \<Rightarrow> bytes"

definition system_new :: mux_system where
  "system_new =
     \<lparr>host = host_new, guest = guest_new, h_out = None, g_out = None, h2g = [], g2h = [],
      h_reader = True, h_writer = True, g_reader = True, g_writer = True,
      begun = [], h_pending = [], g_pending = [],
      h_written = (\<lambda>_. []), g_taken = (\<lambda>_. []), g_written = (\<lambda>_. []), h_taken = (\<lambda>_. [])\<rparr>"

definition wrote :: "(nat, io_error) result \<Rightarrow> bytes \<Rightarrow> bytes" where
  "wrote r buf = (case r of Inr n \<Rightarrow> take n buf | Inl _ \<Rightarrow> [])"

text \<open>
  The steps. A client may call any operation on any session id at any time. The writer thread
  takes a frame, then writes it; a frame that does not encode or a failing write loses the frame,
  fails the manager and ends the thread. The reader thread ends on the first error.
\<close>

inductive mux_step :: "mux_system \<Rightarrow> mux_system \<Rightarrow> bool" where
  h_begin: "open_session_begin (host s) = (Inr sid, h) \<Longrightarrow>
     mux_step s (s\<lparr>host := h, begun := sid # begun s\<rparr>)"
| h_enqueue: "sid \<in> set (begun s) \<Longrightarrow> open_session_enqueue (host s) sid kind = Ready (r, h) \<Longrightarrow>
     mux_step s (s\<lparr>host := h, begun := remove1 sid (begun s)\<rparr>)"
| h_local: "host_local (host s) h \<Longrightarrow> mux_step s (s\<lparr>host := h\<rparr>)"
| h_take: "host_read (host s) sid n = Taken bs h \<Longrightarrow>
     mux_step s (s\<lparr>host := h, h_pending := (sid, bs) # h_pending s,
                   h_taken := (h_taken s)(sid := h_taken s sid @ bs)\<rparr>)"
| h_grant: "(sid, bs) \<in> set (h_pending s) \<Longrightarrow> host_grant_credit (host s) sid bs = Ready (r, h) \<Longrightarrow>
     mux_step s (s\<lparr>host := h, h_pending := remove1 (sid, bs) (h_pending s)\<rparr>)"
| h_write: "host_write (host s) sid buf = Ready (r, h) \<Longrightarrow>
     mux_step s (s\<lparr>host := h, h_written := (h_written s)(sid := h_written s sid @ wrote r buf)\<rparr>)"
| h_pop: "h_writer s \<Longrightarrow> h_out s = None \<Longrightarrow> host_next_outgoing (host s) = (Ready (Some f), h) \<Longrightarrow>
     mux_step s (s\<lparr>host := h, h_out := Some f\<rparr>)"
| h_put: "h_out s = Some f \<Longrightarrow> encode_frame f = Inr e \<Longrightarrow>
     mux_step s (s\<lparr>h2g := h2g s @ [f], h_out := None\<rparr>)"
| h_write_fault: "h_out s = Some f \<Longrightarrow>
     mux_step s (s\<lparr>host := host_fail (host s) msg, h_out := None, h_writer := False\<rparr>)"
| h_receive: "h_reader s \<Longrightarrow> g2h s = f # fs \<Longrightarrow> host_receive (host s) f = (b, h) \<Longrightarrow>
     mux_step s (s\<lparr>host := h, g2h := fs, h_reader := b\<rparr>)"
| h_read_fault: "h_reader s \<Longrightarrow>
     mux_step s (s\<lparr>host := host_fail (host s) msg, h_reader := False\<rparr>)"
| g_local: "guest_local (guest s) g \<Longrightarrow> mux_step s (s\<lparr>guest := g\<rparr>)"
| g_take: "guest_read (guest s) sid n = Taken bs g \<Longrightarrow>
     mux_step s (s\<lparr>guest := g, g_pending := (sid, bs) # g_pending s,
                   g_taken := (g_taken s)(sid := g_taken s sid @ bs)\<rparr>)"
| g_grant: "(sid, bs) \<in> set (g_pending s) \<Longrightarrow> guest_grant_credit (guest s) sid bs = Ready (r, g) \<Longrightarrow>
     mux_step s (s\<lparr>guest := g, g_pending := remove1 (sid, bs) (g_pending s)\<rparr>)"
| g_write: "guest_write (guest s) sid buf = Ready (r, g) \<Longrightarrow>
     mux_step s (s\<lparr>guest := g, g_written := (g_written s)(sid := g_written s sid @ wrote r buf)\<rparr>)"
| g_pop: "g_writer s \<Longrightarrow> g_out s = None \<Longrightarrow> guest_next_outgoing (guest s) = (Ready (Some f), g) \<Longrightarrow>
     mux_step s (s\<lparr>guest := g, g_out := Some f\<rparr>)"
| g_put: "g_out s = Some f \<Longrightarrow> encode_frame f = Inr e \<Longrightarrow>
     mux_step s (s\<lparr>g2h := g2h s @ [f], g_out := None\<rparr>)"
| g_write_fault: "g_out s = Some f \<Longrightarrow>
     mux_step s (s\<lparr>guest := guest_fail (guest s) msg, g_out := None, g_writer := False\<rparr>)"
| g_receive: "g_reader s \<Longrightarrow> h2g s = f # fs \<Longrightarrow> guest_receive (guest s) f = (b, g) \<Longrightarrow>
     mux_step s (s\<lparr>guest := g, h2g := fs, g_reader := b\<rparr>)"
| g_read_fault: "g_reader s \<Longrightarrow>
     mux_step s (s\<lparr>guest := guest_fail (guest s) msg, g_reader := False\<rparr>)"

section \<open>Accounting\<close>

definition h_pipe :: "mux_system \<Rightarrow> MuxFrame list" where
  "h_pipe s = h2g s @ (case h_out s of None \<Rightarrow> [] | Some f \<Rightarrow> [f])"

definition g_pipe :: "mux_system \<Rightarrow> MuxFrame list" where
  "g_pipe s = g2h s @ (case g_out s of None \<Rightarrow> [] | Some f \<Rightarrow> [f])"

definition pend :: "(u64 \<times> bytes) list \<Rightarrow> u64 \<Rightarrow> nat" where
  "pend ps i = sum_list (map (\<lambda>(sid, bs). if sid = i then length bs else 0) ps)"

text \<open>The credit of a session in one direction, wherever it is: held by the sender, spent on bytes
  still queued, on the wire or unread, read and about to be granted back, or on its way back.\<close>

definition flow_hg :: "mux_system \<Rightarrow> u64 \<Rightarrow> nat" where
  "flow_hg s i = tx (host s) i + length (wire_data i (h_pipe s)) + rx (guest s) i
     + pend (g_pending s) i + wire_credit i (g_pipe s)"

definition flow_gh :: "mux_system \<Rightarrow> u64 \<Rightarrow> nat" where
  "flow_gh s i = tx (guest s) i + length (wire_data i (g_pipe s)) + rx (host s) i
     + pend (h_pending s) i + wire_credit i (h_pipe s)"

text \<open>An id is fresh until the host hands it out, and unopened until the guest has seen its Open.\<close>

definition fresh :: "mux_system \<Rightarrow> u64 \<Rightarrow> bool" where
  "fresh s i \<longleftrightarrow> unat (next_host_session_id (host s)) \<le> unat i"

definition requests :: "mux_system \<Rightarrow> u64 \<Rightarrow> nat" where
  "requests s i = count_list (begun s) i + wire_opens i (control_queue (host s)) + wire_opens i (h_pipe s)"

definition unopened :: "mux_system \<Rightarrow> u64 \<Rightarrow> bool" where
  "unopened s i \<longleftrightarrow> fresh s i \<or> 0 < requests s i"

text \<open>
  One direction of one session: what was taken, what is unread, on the wire and queued, and what
  was written. As long as the receiver keeps the session nothing is lost between the reader and
  the wire; as long as the sender accepts writes nothing is lost at all.
\<close>

definition stream_ok ::
  "bytes \<Rightarrow> bytes \<Rightarrow> bytes \<Rightarrow> bytes \<Rightarrow> bytes \<Rightarrow> bool \<Rightarrow> bool \<Rightarrow> bool \<Rightarrow> bool" where
  "stream_ok taken unread wire queued written receiving alive accepting \<longleftrightarrow>
     prefix taken written \<and>
     (receiving \<longrightarrow> prefix (taken @ unread @ wire) written \<and>
        (alive \<longrightarrow> prefix (taken @ unread @ wire @ queued) written \<and>
           (accepting \<longrightarrow> taken @ unread @ wire @ queued = written)))"

definition inv_opens :: "mux_system \<Rightarrow> u64 \<Rightarrow> bool" where
  "inv_opens s i \<longleftrightarrow>
     requests s i \<le> 1 \<and> (fresh s i \<longrightarrow> requests s i = 0) \<and>
     (unopened s i \<longrightarrow> sessions (guest s) i = None)"

definition inv_flow_hg :: "mux_system \<Rightarrow> u64 \<Rightarrow> bool" where
  "inv_flow_hg s i \<longleftrightarrow> flow_hg s i \<le> RECEIVE_QUEUE_BYTES \<and> (unopened s i \<longrightarrow> flow_hg s i = 0)"

definition inv_flow_gh :: "mux_system \<Rightarrow> u64 \<Rightarrow> bool" where
  "inv_flow_gh s i \<longleftrightarrow>
     flow_gh s i \<le> RECEIVE_QUEUE_BYTES \<and>
     (fresh s i \<or> still_opening (host s) i \<longrightarrow> flow_gh s i = 0)"

definition inv_stream_hg :: "mux_system \<Rightarrow> u64 \<Rightarrow> bool" where
  "inv_stream_hg s i \<longleftrightarrow>
     stream_ok (g_taken s i) (inb (guest s) i) (wire_data i (h_pipe s)) (outb (host s) i) (h_written s i)
       (failed (guest s) = None \<and> (unopened s i \<or> present (guest s) i))
       (failed (host s) = None)
       (failed (host s) = None \<and> (fresh s i \<or> sending (host s) i))"

definition inv_stream_gh :: "mux_system \<Rightarrow> u64 \<Rightarrow> bool" where
  "inv_stream_gh s i \<longleftrightarrow>
     stream_ok (h_taken s i) (inb (host s) i) (wire_data i (g_pipe s)) (outb (guest s) i) (g_written s i)
       (failed (host s) = None \<and> (fresh s i \<or> present (host s) i))
       (failed (guest s) = None)
       (failed (guest s) = None \<and> (unopened s i \<or> sending (guest s) i))"

definition inv_ends :: "mux_system \<Rightarrow> bool" where
  "inv_ends s \<longleftrightarrow> host_inv (host s) \<and> guest_inv (guest s) \<and> ctl_plain (host s) \<and> ctl_plain (guest s)"

definition inv_at :: "mux_system \<Rightarrow> u64 \<Rightarrow> bool" where
  "inv_at s i \<longleftrightarrow>
     inv_opens s i \<and> inv_flow_hg s i \<and> inv_flow_gh s i \<and> inv_stream_hg s i \<and> inv_stream_gh s i"

definition mux_system_inv :: "mux_system \<Rightarrow> bool" where
  "mux_system_inv s \<longleftrightarrow> inv_ends s \<and> (\<forall>i. inv_at s i)"

section \<open>Moves of a stream\<close>

lemma stream_quiet:
  assumes "stream_ok t u w q wr rc al ac" and "rc' \<Longrightarrow> rc \<and> u' = u" and "al' \<Longrightarrow> al"
    and "prefix q' q" and "ac' \<Longrightarrow> ac \<and> q' = q"
  shows "stream_ok t u' w q' wr rc' al' ac'"
proof -
  have "prefix (t @ u @ w @ q') (t @ u @ w @ q)" using assms(4) by simp
  with assms show ?thesis unfolding stream_ok_def by (metis prefix_order.trans)
qed

lemma stream_write:
  "stream_ok t u w q wr rc al ac \<Longrightarrow> ac \<Longrightarrow> stream_ok t u w (q @ x) (wr @ x) rc al ac"
  by (auto simp: stream_ok_def intro: prefix_prefix)

lemma prefix_cut:
  "prefix (a @ b @ c @ d) wr \<Longrightarrow> prefix (a @ b @ c) wr"
  "prefix (a @ b @ c) wr \<Longrightarrow> prefix (a @ b) wr"
  by (metis append.assoc append_prefixD)+

lemma stream_send:
  assumes "stream_ok t u w (b @ q) wr rc al ac" and "al" and "rc' \<Longrightarrow> rc" and "ac' \<Longrightarrow> ac"
  shows "stream_ok t u (w @ b) q wr rc' al' ac'"
proof -
  have "prefix (t @ u @ w @ b @ q) wr \<Longrightarrow> prefix (t @ u @ w @ b) wr"
    by (metis append.assoc append_prefixD)
  with assms show ?thesis by (auto simp: stream_ok_def)
qed

lemma stream_lose:
  assumes "stream_ok t u (w @ b) q wr rc al ac" and "rc' \<Longrightarrow> rc" and "\<not> al'"
  shows "stream_ok t u w q' wr rc' al' ac'"
  using assms by (auto simp: stream_ok_def intro: prefix_cut)

lemma stream_receive:
  assumes "stream_ok t u (b @ w) q wr rc al ac" and "rc' \<Longrightarrow> rc \<and> u' = u @ b"
  shows "stream_ok t u' w q wr rc' al ac"
  using assms by (auto simp: stream_ok_def)

lemma stream_take:
  assumes "stream_ok t (x @ u) w q wr rc al ac" and "rc"
  shows "stream_ok (t @ x) u w q wr rc al ac"
  using assms by (auto simp: stream_ok_def intro: prefix_cut)

lemma pend_simps [simp]:
  "pend [] i = 0"
  "pend ((sid, bs) # ps) i = (if sid = i then length bs else 0) + pend ps i"
  by (simp_all add: pend_def)

lemma pend_remove1:
  "(sid, bs) \<in> set ps \<Longrightarrow> pend ps i = (if sid = i then length bs else 0) + pend (remove1 (sid, bs) ps) i"
  by (induction ps) auto

lemma count_list_remove1:
  "x \<in> set xs \<Longrightarrow> count_list xs i = (if x = i then 1 else 0) + count_list (remove1 x xs) i"
  by (induction xs) auto

lemmas inv_at_defs = inv_at_def inv_opens_def inv_flow_hg_def inv_flow_gh_def inv_stream_hg_def
  inv_stream_gh_def

lemmas sys_defs = flow_hg_def flow_gh_def fresh_def requests_def unopened_def h_pipe_def g_pipe_def

section \<open>Quiet steps\<close>

lemma host_fresh_None: "host_inv (host s) \<Longrightarrow> fresh s i \<Longrightarrow> sessions (host s) i = None"
  by (auto simp: host_inv_def fresh_def)

lemma view_None:
  "sessions st i = None \<Longrightarrow> inb st i = []" "sessions st i = None \<Longrightarrow> outb st i = []"
  "sessions st i = None \<Longrightarrow> \<not> present st i" "sessions st i = None \<Longrightarrow> \<not> sending st i"
  by (simp_all add: view_defs)

text \<open>A quiet move of the host, with the opens in progress possibly moved on.\<close>

lemma inv_at_host_quiet:
  assumes inv: "inv_at s i" and hi: "host_inv (host s)" and q: "quiet (host s) h i"
    and s': "s' = s\<lparr>host := h, begun := bg, h_out := ho, h_reader := rd, h_writer := wt\<rparr>"
    and r: "requests s' i \<le> requests s i"
    and nx: "next_host_session_id h = next_host_session_id (host s)"
    and op: "still_opening h i \<Longrightarrow> still_opening (host s) i"
    and ho: "ho = h_out s \<or> ho = None \<and> failed h \<noteq> None"
  shows "inv_at s' i"
proof -
  have eq: "host s' = h" "guest s' = guest s" "g_pipe s' = g_pipe s" "g_pending s' = g_pending s"
    "h_pending s' = h_pending s" "g_taken s' = g_taken s" "h_taken s' = h_taken s"
    "g_written s' = g_written s" "h_written s' = h_written s"
    by (simp_all add: s' g_pipe_def)
  have fr: "fresh s' i = fresh s i" by (simp add: eq fresh_def nx)
  have fn: "inb h i = inb (host s) i" "outb h i = outb (host s) i" if "fresh s i"
    using host_fresh_None [OF hi that] q by (auto simp: quiet_def view_None)
  have un: "unopened s' i \<Longrightarrow> unopened s i" using r fr by (auto simp: unopened_def)
  obtain lost where lost: "h_pipe s = h_pipe s' @ lost" "failed h = None \<Longrightarrow> lost = []"
    using ho by (auto simp: h_pipe_def s')
  have hg: "flow_hg s' i \<le> flow_hg s i" and gh: "flow_gh s' i \<le> flow_gh s i"
    using q lost by (simp_all add: flow_hg_def flow_gh_def quiet_def eq)
  have st: "inv_stream_hg s i" "inv_stream_gh s i" using inv by (simp_all add: inv_at_def)
  have "inv_opens s' i"
    using inv r un fr by (auto simp: inv_at_defs eq)
  moreover have "inv_flow_hg s' i"
    using inv hg un by (auto simp: inv_at_defs)
  moreover have "inv_flow_gh s' i"
    using inv gh fr op by (auto simp: inv_at_defs eq)
  moreover have "inv_stream_hg s' i"
  proof (cases "failed h = None")
    case True
    then have same: "h_pipe s' = h_pipe s" using lost by simp
    from st(1) show ?thesis
      unfolding inv_stream_hg_def eq same
      by (elim stream_quiet) (use q un fr fn in \<open>auto simp: quiet_def\<close>)
  next
    case False
    from st(1) show ?thesis
      unfolding inv_stream_hg_def lost(1) wire_simps eq
      by (elim stream_lose) (use False un in auto)
  qed
  moreover from st(2) have "inv_stream_gh s' i"
    unfolding inv_stream_gh_def eq
    by (elim stream_quiet) (use q un fr fn in \<open>auto simp: quiet_def\<close>)
  ultimately show ?thesis by (simp add: inv_at_def)
qed

text \<open>A quiet move of the guest.\<close>

lemma inv_at_guest_quiet:
  assumes inv: "inv_at s i" and q: "quiet (guest s) g i"
    and s': "s' = s\<lparr>guest := g, g_out := go, g_reader := rd, g_writer := wt\<rparr>"
    and go: "go = g_out s \<or> go = None \<and> failed g \<noteq> None"
  shows "inv_at s' i"
proof -
  have eq: "host s' = host s" "guest s' = g" "h_pipe s' = h_pipe s" "g_pending s' = g_pending s"
    "h_pending s' = h_pending s" "g_taken s' = g_taken s" "h_taken s' = h_taken s"
    "g_written s' = g_written s" "h_written s' = h_written s" "fresh s' i = fresh s i"
    "requests s' i = requests s i" "unopened s' i = unopened s i"
    by (simp_all add: s' sys_defs)
  have un: "inb g i = inb (guest s) i \<and> outb g i = outb (guest s) i" if "unopened s i"
    using inv q that by (auto simp: inv_at_defs quiet_def view_None)
  obtain lost where lost: "g_pipe s = g_pipe s' @ lost" "failed g = None \<Longrightarrow> lost = []"
    using go by (auto simp: g_pipe_def s')
  have hg: "flow_hg s' i \<le> flow_hg s i" and gh: "flow_gh s' i \<le> flow_gh s i"
    using q lost by (simp_all add: flow_hg_def flow_gh_def quiet_def eq)
  have st: "inv_stream_hg s i" "inv_stream_gh s i" using inv by (simp_all add: inv_at_def)
  have "inv_opens s' i"
    using inv q by (auto simp: inv_at_defs eq quiet_def)
  moreover have "inv_flow_hg s' i"
    using inv hg by (auto simp: inv_at_defs eq)
  moreover have "inv_flow_gh s' i"
    using inv gh by (auto simp: inv_at_defs eq)
  moreover have "inv_stream_gh s' i"
  proof (cases "failed g = None")
    case True
    then have same: "g_pipe s' = g_pipe s" using lost by simp
    from st(2) show ?thesis
      unfolding inv_stream_gh_def eq same
      by (elim stream_quiet) (use q un in \<open>auto simp: quiet_def\<close>)
  next
    case False
    from st(2) show ?thesis
      unfolding inv_stream_gh_def lost(1) wire_simps eq
      by (elim stream_lose) (use False in auto)
  qed
  moreover from st(1) have "inv_stream_hg s' i"
    unfolding inv_stream_hg_def eq
    by (elim stream_quiet) (use q un in \<open>auto simp: quiet_def\<close>)
  ultimately show ?thesis by (simp add: inv_at_def)
qed

section \<open>The host's steps\<close>

lemma fun_upd_id: "s\<lparr>host := h\<rparr> = s\<lparr>host := h, begun := begun s, h_out := h_out s,
    h_reader := h_reader s, h_writer := h_writer s\<rparr>"
  by simp

lemma step_h_local:
  assumes "mux_system_inv s" and "host_local (host s) h"
  shows "inv_at (s\<lparr>host := h\<rparr>) i"
proof (rule inv_at_host_quiet [OF _ _ host_local_quiet [OF assms(2)] fun_upd_id])
  show "requests (s\<lparr>host := h\<rparr>) i \<le> requests s i"
    using host_local_frame(1) [OF assms(2), of i] by (simp add: requests_def h_pipe_def)
qed (use assms host_local_frame(3) [OF assms(2)] host_local_opening [OF assms(2)] in
    \<open>auto simp: mux_system_inv_def inv_ends_def\<close>)

lemma step_h_begin:
  assumes inv: "mux_system_inv s" and b: "open_session_begin (host s) = (Inr sid, h)"
  shows "inv_at (s\<lparr>host := h, begun := sid # begun s\<rparr>) i"
proof -
  define s' where "s' = s\<lparr>host := h, begun := sid # begun s\<rparr>"
  have hi: "host_inv (host s)" and at: "inv_at s i" using inv by (simp_all add: mux_system_inv_def inv_ends_def)
  obtain n where sid: "sid = next_host_session_id (host s)" and n: "unat n = unat sid + 2"
    and h: "h = (host s)\<lparr>next_host_session_id := n, sessions := (sessions (host s))(sid \<mapsto> session_new)\<rparr>"
    and f: "failed (host s) = None"
    using b by (auto simp: open_session_begin_def Let_def checked_add_Some split: option.splits)
  have frs: "fresh s sid" by (simp add: fresh_def sid)
  have none: "sessions (host s) sid = None" by (rule host_fresh_None [OF hi frs])
  have eq: "guest s' = guest s" "g_pipe s' = g_pipe s" "h_pipe s' = h_pipe s"
    "g_pending s' = g_pending s" "h_pending s' = h_pending s" "g_taken s' = g_taken s"
    "h_taken s' = h_taken s" "g_written s' = g_written s" "h_written s' = h_written s"
    "failed (host s') = None" "requests s' i = (if i = sid then 1 else 0) + requests s i"
    by (simp_all add: s'_def g_pipe_def h_pipe_def requests_def h f)
  have view: "tx (host s') i = tx (host s) i" "rx (host s') i = rx (host s) i"
    "inb (host s') i = inb (host s) i" "outb (host s') i = outb (host s) i"
    "present (host s') i \<longleftrightarrow> present (host s) i \<or> i = sid"
    "sending (host s') i \<longleftrightarrow> sending (host s) i \<or> i = sid"
    "still_opening (host s') i \<longleftrightarrow> still_opening (host s) i \<or> i = sid"
    using none f by (auto simp: s'_def h view_defs session_new_def still_opening_def)
  have fr: "fresh s' i \<Longrightarrow> fresh s i \<and> i \<noteq> sid" using n by (auto simp: fresh_def s'_def h sid)
  have un: "unopened s' i \<Longrightarrow> unopened s i"
    using fr frs by (auto simp: unopened_def eq split: if_splits)
  have flows: "flow_hg s' i = flow_hg s i" "flow_gh s' i = flow_gh s i"
    by (simp_all add: flow_hg_def flow_gh_def eq view)
  have "inv_opens s' i" using at un fr frs by (auto simp: inv_at_defs eq)
  moreover have "inv_flow_hg s' i" "inv_flow_gh s' i"
    using at un fr frs by (auto simp: inv_at_defs flows view)
  moreover have "inv_stream_hg s' i"
    using at unfolding inv_at_def inv_stream_hg_def eq view
    by (elim conjE stream_quiet) (use un fr frs f in auto)
  moreover have "inv_stream_gh s' i"
    using at unfolding inv_at_def inv_stream_gh_def eq view
    by (elim conjE stream_quiet) (use un fr frs f in auto)
  ultimately show ?thesis by (simp add: inv_at_def s'_def)
qed

lemma step_h_enqueue:
  assumes inv: "mux_system_inv s" and b: "sid \<in> set (begun s)"
    and e: "open_session_enqueue (host s) sid kind = Ready (r, h)"
  shows "inv_at (s\<lparr>host := h, begun := remove1 sid (begun s)\<rparr>) i"
proof (rule inv_at_host_quiet [where bg = "remove1 sid (begun s)" and ho = "h_out s"
      and rd = "h_reader s" and wt = "h_writer s"])
  show "quiet (host s) h i"
    using e by (auto simp: open_session_enqueue_def intro: quiet_push quiet_host_remove
        split: option.splits if_splits)
  show "requests (s\<lparr>host := h, begun := remove1 sid (begun s)\<rparr>) i \<le> requests s i"
    using e count_list_remove1 [OF b, of i]
    by (auto simp: requests_def h_pipe_def open_session_enqueue_def split: option.splits if_splits)
  show "next_host_session_id h = next_host_session_id (host s)"
    using e by (auto simp: open_session_enqueue_def split: option.splits if_splits)
  show "still_opening h i \<Longrightarrow> still_opening (host s) i"
    using e by (auto simp: open_session_enqueue_def split: option.splits if_splits)
qed (use inv in \<open>auto simp: mux_system_inv_def inv_ends_def\<close>)

text \<open>The failures of the stream are quiet; a frame in the writer's hands is lost.\<close>

lemma host_fail_requests:
  "wire_opens i (control_queue (host_fail h m)) \<le> wire_opens i (control_queue h)"
  "failed (host_fail h m) \<noteq> None"
  by (auto simp: host_fail_def)

lemma step_h_write_fault:
  assumes "mux_system_inv s" and "h_out s = Some f"
  shows "inv_at (s\<lparr>host := host_fail (host s) m, h_out := None, h_writer := False\<rparr>) i"
  by (rule inv_at_host_quiet [where s = s and h = "host_fail (host s) m" and bg = "begun s" and ho = None and rd = "h_reader s" and wt = False])
    (use assms host_fail_requests(1) [of i "host s" m] in
      \<open>auto simp: mux_system_inv_def inv_ends_def quiet_host_fail requests_def h_pipe_def
        host_fail_requests(2)\<close>)

lemma step_h_read_fault:
  assumes "mux_system_inv s"
  shows "inv_at (s\<lparr>host := host_fail (host s) m, h_reader := False\<rparr>) i"
  by (rule inv_at_host_quiet [where s = s and h = "host_fail (host s) m" and bg = "begun s" and ho = "h_out s" and rd = False
        and wt = "h_writer s"])
    (use assms host_fail_requests(1) [of i "host s" m] in
      \<open>auto simp: mux_system_inv_def inv_ends_def quiet_host_fail requests_def h_pipe_def\<close>)

lemma step_h_take:
  assumes inv: "mux_system_inv s" and t: "host_read (host s) sid n = Taken bs h"
  shows "inv_at (s\<lparr>host := h, h_pending := (sid, bs) # h_pending s,
            h_taken := (h_taken s)(sid := h_taken s sid @ bs)\<rparr>) i"
proof -
  define s' where "s' = s\<lparr>host := h, h_pending := (sid, bs) # h_pending s,
            h_taken := (h_taken s)(sid := h_taken s sid @ bs)\<rparr>"
  have at: "inv_at s i" using inv by (simp add: mux_system_inv_def)
  obtain x where x: "failed (host s) = None" "sessions (host s) sid = Some x" "bs = take n (inbound x)"
    "h = put_session (host s) sid (x\<lparr>inbound := drop n (inbound x)\<rparr>)"
    using t by (rule host_takeD)
  note tv = take_view [OF x(2,4)]
  have eq: "host s' = h" "guest s' = guest s" "g_pipe s' = g_pipe s" "h_pipe s' = h_pipe s"
    "g_pending s' = g_pending s" "g_taken s' = g_taken s" "g_written s' = g_written s"
    "h_written s' = h_written s" "requests s' j = requests s j" "fresh s' j = fresh s j"
    "unopened s' j = unopened s j" "failed h = None" "control_queue h = control_queue (host s)" for j
    by (simp_all add: s'_def sys_defs x)
  have op: "still_opening h i = still_opening (host s) i" using x by (auto simp: opening_at)
  have "rx h i + pend (h_pending s') i = rx (host s) i + pend (h_pending s) i"
    using tv(1,4) [of] by (cases "i = sid") (auto simp: rx_def eq s'_def x(3))
  then have flows: "flow_hg s' i = flow_hg s i" "flow_gh s' i = flow_gh s i"
    by (simp_all add: flow_hg_def flow_gh_def eq tv(2))
  have "inv_opens s' i" "inv_flow_hg s' i" "inv_flow_gh s' i" "inv_stream_hg s' i"
    using at x(1) by (simp_all add: inv_at_defs eq flows op tv(3,6))
  moreover have "inv_stream_gh s' i"
  proof (cases "i = sid")
    case True
    have "present (host s) sid" using x by (simp add: present_def)
    with at show ?thesis
      by (simp add: inv_at_def inv_stream_gh_def True eq tv(1,5) x(1))
        (simp add: s'_def x(3) stream_take)
  next
    case False
    with at x(1) show ?thesis
      by (simp add: inv_at_def inv_stream_gh_def eq tv(4,5)) (simp add: s'_def)
  qed
  ultimately show ?thesis by (simp add: inv_at_def s'_def)
qed

lemma unat_of_nat_le: "unat (of_nat n :: u32) \<le> n"
  by (simp add: unat_of_nat)

lemma push_views [simp]:
  "tx (push_control st f) i = tx st i" "inb (push_control st f) i = inb st i"
  "outb (push_control st f) i = outb st i" "present (push_control st f) i = present st i"
  "sending (push_control st f) i = sending st i"
  "rx (push_control st f) i = rx st i + frame_credit i f"
  by (simp_all add: view_defs)

lemma step_h_grant:
  assumes inv: "mux_system_inv s" and p: "(sid, bs) \<in> set (h_pending s)"
    and g: "host_grant_credit (host s) sid bs = Ready (r, h)"
  shows "inv_at (s\<lparr>host := h, h_pending := remove1 (sid, bs) (h_pending s)\<rparr>) i"
proof -
  define s' where "s' = s\<lparr>host := h, h_pending := remove1 (sid, bs) (h_pending s)\<rparr>"
  have at: "inv_at s i" using inv by (simp add: mux_system_inv_def)
  have h: "tx h i = tx (host s) i" "inb h i = inb (host s) i" "outb h i = outb (host s) i"
    "present h i = present (host s) i" "sending h i = sending (host s) i"
    "still_opening h i = still_opening (host s) i" "failed h = failed (host s)"
    "next_host_session_id h = next_host_session_id (host s)"
    "wire_opens i (control_queue h) = wire_opens i (control_queue (host s))"
    "rx h i \<le> rx (host s) i + (if sid = i then length bs else 0)"
    using g by (auto elim!: host_grantD simp: unat_of_nat_le)
  have eq: "host s' = h" "guest s' = guest s" "g_pipe s' = g_pipe s" "h_pipe s' = h_pipe s"
    "g_pending s' = g_pending s" "g_taken s' = g_taken s" "g_written s' = g_written s"
    "h_written s' = h_written s" "h_taken s' = h_taken s" "requests s' i = requests s i"
    "fresh s' i = fresh s i" "unopened s' i = unopened s i"
    "h_pending s' = remove1 (sid, bs) (h_pending s)"
    by (simp_all add: s'_def sys_defs h)
  have flows: "flow_hg s' i = flow_hg s i" "flow_gh s' i \<le> flow_gh s i"
    using h(10) pend_remove1 [OF p, of i]
    by (auto simp: flow_hg_def flow_gh_def eq h)
  show ?thesis
    using at flows by (auto simp: inv_at_defs eq h s'_def [symmetric])
qed

lemma step_h_write:
  assumes inv: "mux_system_inv s" and w: "host_write (host s) sid buf = Ready (r, h)"
  shows "inv_at (s\<lparr>host := h, h_written := (h_written s)(sid := h_written s sid @ wrote r buf)\<rparr>) i"
proof (rule host_writeD [OF w])
  assume idle: "h = host s" "\<And>n. r = Ok n \<Longrightarrow> n = 0"
  then have "wrote r buf = []" by (cases r) (auto simp: wrote_def)
  with inv show ?thesis unfolding idle(1) by (simp add: mux_system_inv_def)
next
  fix x
  assume written: "failed (host s) = None" "sessions (host s) sid = Some x" "reset_reason x = None"
      "0 < writable x buf" "r = Ok (writable x buf)"
      "h = schedule (host s) sid (queue_outbound x buf (writable x buf))"
  define s' where "s' = s\<lparr>host := h, h_written := (h_written s)(sid := h_written s sid @ wrote r buf)\<rparr>"
  have at: "inv_at s i" using inv by (simp add: mux_system_inv_def)
  note wv = write_view [OF written(2) refl written(6)]
  have h: "failed h = None" "next_host_session_id h = next_host_session_id (host s)"
    "control_queue h = control_queue (host s)" "still_opening h i = still_opening (host s) i"
    using written by (auto simp: opening_at queue_outbound_def)
  have eq: "host s' = h" "guest s' = guest s" "g_pipe s' = g_pipe s" "h_pipe s' = h_pipe s"
    "g_pending s' = g_pending s" "h_pending s' = h_pending s" "g_taken s' = g_taken s"
    "g_written s' = g_written s" "h_taken s' = h_taken s" "requests s' j = requests s j"
    "fresh s' j = fresh s j" "unopened s' j = unopened s j" for j
    by (simp_all add: s'_def sys_defs h)
  have flows: "flow_hg s' i = flow_hg s i" "flow_gh s' i = flow_gh s i"
    by (simp_all add: flow_hg_def flow_gh_def eq h wv(2,3) rx_def)
  have "inv_opens s' i" "inv_flow_hg s' i" "inv_flow_gh s' i" "inv_stream_gh s' i"
    using at by (simp_all add: inv_at_defs eq flows h wv(3,5) written(1))
  moreover have "inv_stream_hg s' i"
  proof (cases "i = sid")
    case True
    have "sending (host s) sid" using written by (auto simp: sending_def)
    with at show ?thesis
      by (simp add: inv_at_def inv_stream_hg_def True eq h wv(1,6) written(1))
        (simp add: s'_def written(5) wrote_def stream_write)
  next
    case False
    with at show ?thesis
      by (simp add: inv_at_def inv_stream_hg_def eq h wv(4,6) written(1)) (simp add: s'_def)
  qed
  ultimately show ?thesis by (simp add: inv_at_def s'_def)
qed

lemma step_h_put:
  assumes "mux_system_inv s" and "h_out s = Some f"
  shows "inv_at (s\<lparr>h2g := h2g s @ [f], h_out := None\<rparr>) i"
proof -
  define s' where "s' = s\<lparr>h2g := h2g s @ [f], h_out := None\<rparr>"
  have pipe: "h_pipe s' = h_pipe s" using assms(2) by (simp add: s'_def h_pipe_def)
  have eq: "host s' = host s" "guest s' = guest s" "g_pipe s' = g_pipe s"
    "g_pending s' = g_pending s" "h_pending s' = h_pending s" "g_taken s' = g_taken s"
    "g_written s' = g_written s" "h_taken s' = h_taken s" "h_written s' = h_written s"
    "begun s' = begun s"
    by (simp_all add: s'_def g_pipe_def)
  have "inv_at s' i = inv_at s i"
    by (simp add: inv_at_defs flow_hg_def flow_gh_def fresh_def requests_def unopened_def eq pipe)
  with assms(1) show ?thesis by (simp add: mux_system_inv_def s'_def)
qed

lemma host_next_outgoing_id:
  "host_next_outgoing st = (a, st') \<Longrightarrow> next_host_session_id st' = next_host_session_id st"
  using next_ready_host_frame [of "ready_sessions st" st]
  by (auto simp: host_next_outgoing_def next_outgoing_frame_def
      split: if_splits list.splits prod.splits option.splits)

lemma step_h_pop:
  assumes inv: "mux_system_inv s" and out: "h_out s = None"
    and p: "host_next_outgoing (host s) = (Ready (Some f), h)"
  shows "inv_at (s\<lparr>host := h, h_out := Some f\<rparr>) i"
proof -
  define s' where "s' = s\<lparr>host := h, h_out := Some f\<rparr>"
  have hi: "host_inv (host s)" and pl: "ctl_plain (host s)" and at: "inv_at s i"
    using inv by (simp_all add: mux_system_inv_def inv_ends_def)
  have em: "emitted f (host s) h i"
    using host_end.next_outgoing_emitted(1) [OF _ host_inv_endpoint [OF hi] pl] p
    by (simp add: host_next_outgoing_def)
  have eq: "host s' = h" "guest s' = guest s" "g_pipe s' = g_pipe s" "h_pipe s' = h_pipe s @ [f]"
    "g_pending s' = g_pending s" "h_pending s' = h_pending s" "g_taken s' = g_taken s"
    "g_written s' = g_written s" "h_taken s' = h_taken s" "h_written s' = h_written s"
    "fresh s' i = fresh s i" "requests s' i = requests s i"
    using em by (simp_all add: s'_def sys_defs out host_next_outgoing_id [OF p] emitted_def)
  then have un: "unopened s' i = unopened s i" by (simp add: unopened_def)
  have op: "still_opening h i \<Longrightarrow> still_opening (host s) i" by (rule opening_next_outgoing [OF p])
  have flows: "flow_hg s' i \<le> flow_hg s i" "flow_gh s' i \<le> flow_gh s i"
    using em by (simp_all add: flow_hg_def flow_gh_def eq emitted_def)
  have none: "inb h i = inb (host s) i" if "fresh s i"
    using host_fresh_None [OF hi that] em by (simp add: emitted_def view_None)
  have "inv_opens s' i" "inv_flow_hg s' i" "inv_flow_gh s' i"
    using at flows op by (auto simp: inv_at_defs eq un)
  moreover have "inv_stream_hg s' i"
  proof -
    have o: "outb (host s) i = frame_data i f @ outb h i" using em by (simp add: emitted_def)
    from at show ?thesis
      unfolding inv_at_def inv_stream_hg_def eq un o wire_simps append_Nil2
      by (elim conjE stream_send) (use em in \<open>auto simp: emitted_def\<close>)
  qed
  moreover have "inv_stream_gh s' i"
    using at unfolding inv_at_def inv_stream_gh_def eq un
    by (elim conjE stream_quiet) (use em none in \<open>auto simp: emitted_def\<close>)
  ultimately show ?thesis by (simp add: inv_at_def s'_def)
qed

lemma step_h_receive:
  assumes inv: "mux_system_inv s" and w: "g2h s = f # fs" and rc: "host_receive (host s) f = (b, h)"
  shows "inv_at (s\<lparr>host := h, g2h := fs, h_reader := b\<rparr>) i"
proof -
  define s' where "s' = s\<lparr>host := h, g2h := fs, h_reader := b\<rparr>"
  have hi: "host_inv (host s)" and at: "inv_at s i"
    using inv by (simp_all add: mux_system_inv_def inv_ends_def)
  note fr = host_receive_frame [OF rc]
  have ab: "absorbed (if b then host_grants (host s) f i else 0) f (host s) h i"
    by (rule host_receive_absorbed [OF rc])
  have eq: "host s' = h" "guest s' = guest s" "g_pipe s = f # g_pipe s'" "h_pipe s' = h_pipe s"
    "g_pending s' = g_pending s" "h_pending s' = h_pending s" "g_taken s' = g_taken s"
    "g_written s' = g_written s" "h_taken s' = h_taken s" "h_written s' = h_written s"
    "fresh s' i = fresh s i" "requests s' i \<le> requests s i"
    using w fr(2) [of i] by (simp_all add: s'_def sys_defs fr(3))
  then have un: "unopened s' i \<Longrightarrow> unopened s i" by (auto simp: unopened_def)
  have none: "sessions h i = None" "sessions (host s) i = None" "\<not> still_opening (host s) i" if "fresh s i"
    using host_fresh_None [OF hi that] ab by (auto simp: absorbed_def opening_None)
  have "flow_hg s' i \<le> flow_hg s i" 
    using ab by (simp add: flow_hg_def eq absorbed_def)
  moreover have "flow_gh s' i \<le> flow_gh s i + (if b then host_grants (host s) f i else 0)"
    using ab by (simp add: flow_gh_def eq absorbed_def)
  ultimately have "inv_flow_hg s' i" "inv_flow_gh s' i"
    using at un none fr(4) [of i] by (auto simp: inv_at_defs eq host_grants_def split: if_splits)
  moreover have "inv_opens s' i"
    using at un eq(12) by (auto simp: inv_at_defs eq(1-11))
  moreover have "inv_stream_hg s' i"
    using at unfolding inv_at_def inv_stream_hg_def eq(1,2,4-11)
    by (elim conjE stream_quiet) (use ab un none in \<open>auto simp: absorbed_def view_None\<close>)
  moreover have "inv_stream_gh s' i"
  proof -
    have "stream_ok (h_taken s i) (inb h i) (wire_data i (g_pipe s')) (outb (guest s) i) (g_written s i)
       (failed h = None \<and> (present h i \<or> fresh s i \<and> frame_data i f = [])) (failed (guest s) = None)
       (failed (guest s) = None \<and> (unopened s i \<or> sending (guest s) i))"
      using at unfolding inv_at_def inv_stream_gh_def eq(3) wire_simps
      by (elim conjE stream_receive) (use ab none in \<open>auto simp: absorbed_def view_None\<close>)
    moreover have "frame_data i f = []" if "fresh s i"
      using at that by (auto simp: inv_at_defs flow_gh_def eq(3))
    ultimately show ?thesis
      unfolding inv_stream_gh_def eq(1,2,4-11)
      by (elim stream_quiet) (use un in auto)
  qed
  ultimately show ?thesis by (simp add: inv_at_def s'_def)
qed

section \<open>The guest's steps\<close>

lemma step_g_local:
  assumes "mux_system_inv s" and "guest_local (guest s) g"
  shows "inv_at (s\<lparr>guest := g\<rparr>) i"
  by (rule inv_at_guest_quiet [where s = s and g = g and go = "g_out s" and rd = "g_reader s"
        and wt = "g_writer s"])
    (use assms guest_local_quiet(1) [OF assms(2)] in \<open>auto simp: mux_system_inv_def inv_ends_def\<close>)

lemma guest_fail_failed: "failed (guest_fail g m) \<noteq> None"
  by (simp add: guest_fail_def)

lemma step_g_write_fault:
  assumes "mux_system_inv s"
  shows "inv_at (s\<lparr>guest := guest_fail (guest s) m, g_out := None, g_writer := False\<rparr>) i"
  by (rule inv_at_guest_quiet [where s = s and g = "guest_fail (guest s) m" and go = None
        and rd = "g_reader s" and wt = False])
    (use assms guest_fail_failed in \<open>auto simp: mux_system_inv_def quiet_guest_fail\<close>)

lemma step_g_read_fault:
  assumes "mux_system_inv s"
  shows "inv_at (s\<lparr>guest := guest_fail (guest s) m, g_reader := False\<rparr>) i"
  by (rule inv_at_guest_quiet [where s = s and g = "guest_fail (guest s) m" and go = "g_out s"
        and rd = False and wt = "g_writer s"])
    (use assms in \<open>auto simp: mux_system_inv_def quiet_guest_fail\<close>)

lemma step_g_take:
  assumes inv: "mux_system_inv s" and t: "guest_read (guest s) sid n = Taken bs g"
  shows "inv_at (s\<lparr>guest := g, g_pending := (sid, bs) # g_pending s,
            g_taken := (g_taken s)(sid := g_taken s sid @ bs)\<rparr>) i"
proof -
  define s' where "s' = s\<lparr>guest := g, g_pending := (sid, bs) # g_pending s,
            g_taken := (g_taken s)(sid := g_taken s sid @ bs)\<rparr>"
  have at: "inv_at s i" using inv by (simp add: mux_system_inv_def)
  obtain x where x: "failed (guest s) = None" "sessions (guest s) sid = Some x" "bs = take n (inbound x)"
    "g = put_session (guest s) sid (x\<lparr>inbound := drop n (inbound x)\<rparr>)"
    using t by (rule guest_takeD)
  note tv = take_view [OF x(2,4)]
  have eq: "host s' = host s" "guest s' = g" "g_pipe s' = g_pipe s" "h_pipe s' = h_pipe s"
    "h_pending s' = h_pending s" "h_taken s' = h_taken s" "g_written s' = g_written s"
    "h_written s' = h_written s" "requests s' j = requests s j" "fresh s' j = fresh s j"
    "unopened s' j = unopened s j" "failed g = None" "control_queue g = control_queue (guest s)" for j
    by (simp_all add: s'_def sys_defs x)
  have "rx g i + pend (g_pending s') i = rx (guest s) i + pend (g_pending s) i"
    using tv(1,4) [of] by (cases "i = sid") (auto simp: rx_def eq s'_def x(3))
  then have flows: "flow_hg s' i = flow_hg s i" "flow_gh s' i = flow_gh s i"
    by (simp_all add: flow_hg_def flow_gh_def eq tv(2))
  have "inv_opens s' i" "inv_flow_hg s' i" "inv_flow_gh s' i" "inv_stream_gh s' i"
    using at x(1) tv(7) [of i] by (auto simp: inv_at_defs eq flows tv(3,6))
  moreover have "inv_stream_hg s' i"
  proof (cases "i = sid")
    case True
    have "present (guest s) sid" using x by (simp add: present_def)
    with at show ?thesis
      by (simp add: inv_at_def inv_stream_hg_def True eq tv(1,5) x(1))
        (simp add: s'_def x(3) stream_take)
  next
    case False
    with at x(1) show ?thesis
      by (simp add: inv_at_def inv_stream_hg_def eq tv(4,5)) (simp add: s'_def)
  qed
  ultimately show ?thesis by (simp add: inv_at_def s'_def)
qed

lemma step_g_grant:
  assumes inv: "mux_system_inv s" and p: "(sid, bs) \<in> set (g_pending s)"
    and g: "guest_grant_credit (guest s) sid bs = Ready (r, g)"
  shows "inv_at (s\<lparr>guest := g, g_pending := remove1 (sid, bs) (g_pending s)\<rparr>) i"
proof -
  define s' where "s' = s\<lparr>guest := g, g_pending := remove1 (sid, bs) (g_pending s)\<rparr>"
  have at: "inv_at s i" using inv by (simp add: mux_system_inv_def)
  have h: "tx g i = tx (guest s) i" "inb g i = inb (guest s) i" "outb g i = outb (guest s) i"
    "present g i = present (guest s) i" "sending g i = sending (guest s) i" "failed g = failed (guest s)"
    "sessions g = sessions (guest s)"
    "rx g i \<le> rx (guest s) i + (if sid = i then length bs else 0)"
    using g by (auto elim!: guest_grantD simp: unat_of_nat_le)
  have eq: "host s' = host s" "guest s' = g" "g_pipe s' = g_pipe s" "h_pipe s' = h_pipe s"
    "h_pending s' = h_pending s" "g_taken s' = g_taken s" "g_written s' = g_written s"
    "h_written s' = h_written s" "h_taken s' = h_taken s" "requests s' i = requests s i"
    "fresh s' i = fresh s i" "unopened s' i = unopened s i"
    "g_pending s' = remove1 (sid, bs) (g_pending s)"
    by (simp_all add: s'_def sys_defs)
  have flows: "flow_gh s' i = flow_gh s i" "flow_hg s' i \<le> flow_hg s i"
    using h(8) pend_remove1 [OF p, of i]
    by (auto simp: flow_hg_def flow_gh_def eq h)
  show ?thesis
    using at flows by (auto simp: inv_at_defs eq h s'_def [symmetric])
qed

lemma step_g_write:
  assumes inv: "mux_system_inv s" and w: "guest_write (guest s) sid buf = Ready (r, g)"
  shows "inv_at (s\<lparr>guest := g, g_written := (g_written s)(sid := g_written s sid @ wrote r buf)\<rparr>) i"
proof (rule guest_writeD [OF w])
  assume idle: "g = guest s" "\<And>n. r = Ok n \<Longrightarrow> n = 0"
  then have "wrote r buf = []" by (cases r) (auto simp: wrote_def)
  with inv show ?thesis unfolding idle(1) by (simp add: mux_system_inv_def)
next
  fix x
  assume written: "failed (guest s) = None" "sessions (guest s) sid = Some x" "reset_reason x = None"
      "0 < writable x buf" "r = Ok (writable x buf)"
      "g = schedule (guest s) sid (queue_outbound x buf (writable x buf))"
  define s' where "s' = s\<lparr>guest := g, g_written := (g_written s)(sid := g_written s sid @ wrote r buf)\<rparr>"
  have at: "inv_at s i" using inv by (simp add: mux_system_inv_def)
  note wv = write_view [OF written(2) refl written(6)]
  have h: "failed g = None" "control_queue g = control_queue (guest s)"
    using written by auto
  have eq: "host s' = host s" "guest s' = g" "g_pipe s' = g_pipe s" "h_pipe s' = h_pipe s"
    "g_pending s' = g_pending s" "h_pending s' = h_pending s" "g_taken s' = g_taken s"
    "h_written s' = h_written s" "h_taken s' = h_taken s" "requests s' j = requests s j"
    "fresh s' j = fresh s j" "unopened s' j = unopened s j" for j
    by (simp_all add: s'_def sys_defs)
  have flows: "flow_hg s' i = flow_hg s i" "flow_gh s' i = flow_gh s i"
    by (simp_all add: flow_hg_def flow_gh_def eq h wv(2,3) rx_def)
  have "inv_opens s' i" "inv_flow_hg s' i" "inv_flow_gh s' i" "inv_stream_hg s' i"
    using at wv(7) [of i] by (auto simp: inv_at_defs eq flows h wv(3,5) written(1))
  moreover have "inv_stream_gh s' i"
  proof (cases "i = sid")
    case True
    have "sending (guest s) sid" using written by (auto simp: sending_def)
    with at show ?thesis
      by (simp add: inv_at_def inv_stream_gh_def True eq h wv(1,6) written(1))
        (simp add: s'_def written(5) wrote_def stream_write)
  next
    case False
    with at show ?thesis
      by (simp add: inv_at_def inv_stream_gh_def eq h wv(4,6) written(1)) (simp add: s'_def)
  qed
  ultimately show ?thesis by (simp add: inv_at_def s'_def)
qed

lemma step_g_put:
  assumes "mux_system_inv s" and "g_out s = Some f"
  shows "inv_at (s\<lparr>g2h := g2h s @ [f], g_out := None\<rparr>) i"
proof -
  define s' where "s' = s\<lparr>g2h := g2h s @ [f], g_out := None\<rparr>"
  have pipe: "g_pipe s' = g_pipe s" using assms(2) by (simp add: s'_def g_pipe_def)
  have eq: "host s' = host s" "guest s' = guest s" "h_pipe s' = h_pipe s"
    "g_pending s' = g_pending s" "h_pending s' = h_pending s" "g_taken s' = g_taken s"
    "g_written s' = g_written s" "h_taken s' = h_taken s" "h_written s' = h_written s"
    "begun s' = begun s"
    by (simp_all add: s'_def h_pipe_def)
  have "inv_at s' i = inv_at s i"
    by (simp add: inv_at_defs flow_hg_def flow_gh_def fresh_def requests_def unopened_def eq pipe)
  with assms(1) show ?thesis by (simp add: mux_system_inv_def s'_def)
qed

lemma step_g_pop:
  assumes inv: "mux_system_inv s" and out: "g_out s = None"
    and p: "guest_next_outgoing (guest s) = (Ready (Some f), g)"
  shows "inv_at (s\<lparr>guest := g, g_out := Some f\<rparr>) i"
proof -
  define s' where "s' = s\<lparr>guest := g, g_out := Some f\<rparr>"
  have gi: "guest_inv (guest s)" and pl: "ctl_plain (guest s)" and at: "inv_at s i"
    using inv by (simp_all add: mux_system_inv_def inv_ends_def)
  have em: "emitted f (guest s) g i"
    using guest_end.next_outgoing_emitted(1) [OF _ guest_inv_endpoint [OF gi] pl] p
    by (simp add: guest_next_outgoing_def)
  have eq: "host s' = host s" "guest s' = g" "g_pipe s' = g_pipe s @ [f]" "h_pipe s' = h_pipe s"
    "g_pending s' = g_pending s" "h_pending s' = h_pending s" "g_taken s' = g_taken s"
    "g_written s' = g_written s" "h_taken s' = h_taken s" "h_written s' = h_written s"
    "fresh s' i = fresh s i" "requests s' i = requests s i" "unopened s' i = unopened s i"
    by (simp_all add: s'_def sys_defs out)
  have flows: "flow_hg s' i \<le> flow_hg s i" "flow_gh s' i \<le> flow_gh s i"
    using em by (simp_all add: flow_hg_def flow_gh_def eq emitted_def)
  have none: "inb g i = inb (guest s) i" if "unopened s i"
    using at that em by (auto simp: emitted_def view_None inv_at_defs)
  have "inv_opens s' i" "inv_flow_hg s' i" "inv_flow_gh s' i"
    using at flows em by (auto simp: inv_at_defs eq emitted_def)
  moreover have "inv_stream_gh s' i"
  proof -
    have o: "outb (guest s) i = frame_data i f @ outb g i" using em by (simp add: emitted_def)
    from at show ?thesis
      unfolding inv_at_def inv_stream_gh_def eq o wire_simps append_Nil2
      by (elim conjE stream_send) (use em in \<open>auto simp: emitted_def\<close>)
  qed
  moreover have "inv_stream_hg s' i"
    using at unfolding inv_at_def inv_stream_hg_def eq
    by (elim conjE stream_quiet) (use em none in \<open>auto simp: emitted_def\<close>)
  ultimately show ?thesis by (simp add: inv_at_def s'_def)
qed

text \<open>The guest receives the Open of session \<open>i\<close>: the only step that puts a window of credit for the
  host into the system, on a session without any.\<close>

lemma step_g_receive_open:
  assumes inv: "mux_system_inv s" and w: "h2g s = f # fs" and rc: "guest_receive (guest s) f = (b, g)"
    and op: "frame_open i f \<noteq> 0"
  shows "inv_at (s\<lparr>guest := g, h2g := fs, g_reader := b\<rparr>) i"
proof -
  define s' where "s' = s\<lparr>guest := g, h2g := fs, g_reader := b\<rparr>"
  have at: "inv_at s i" using inv by (simp add: mux_system_inv_def)
  have eq: "host s' = host s" "guest s' = g" "g_pipe s' = g_pipe s" "h_pipe s = f # h_pipe s'"
    "g_pending s' = g_pending s" "h_pending s' = h_pending s" "g_taken s' = g_taken s"
    "g_written s' = g_written s" "h_taken s' = h_taken s" "h_written s' = h_written s"
    "fresh s' i = fresh s i" "begun s' = begun s"
    using w by (simp_all add: s'_def h_pipe_def g_pipe_def fresh_def)
  have f: "frame_data i f = []" "frame_credit i f = 0"
    using op by (cases f; simp)+
  have rq: "0 < requests s i" using op by (auto simp: requests_def eq)
  then have un: "unopened s i" "\<not> fresh s i" using at by (auto simp: unopened_def inv_at_defs)
  have rq': "requests s' i = 0"
    using at op by (auto simp: inv_at_defs requests_def eq)
  with un have un': "\<not> unopened s' i" by (simp add: unopened_def eq)
  have none: "sessions (guest s) i = None" using at un by (simp add: inv_at_defs)
  note g = guest_receive_open [OF rc op none]
  have "flow_hg s' i \<le> flow_hg s i + RECEIVE_QUEUE_BYTES" "flow_gh s' i \<le> flow_gh s i"
    using g by (simp_all add: flow_hg_def flow_gh_def eq f)
  then have "inv_opens s' i" "inv_flow_hg s' i" "inv_flow_gh s' i"
    using at un un' rq' by (auto simp: inv_at_defs eq)
  moreover have "inv_stream_hg s' i"
    using at unfolding inv_at_def inv_stream_hg_def eq(1-3,5-12)
    by (elim conjE stream_quiet [of _ _ "wire_data i (h_pipe s')"])
      (use un un' g none in \<open>auto simp: eq(4) f view_None elim: stream_quiet\<close>)
  moreover have "inv_stream_gh s' i"
    using at unfolding inv_at_def inv_stream_gh_def eq(1-3,5-12)
    by (elim conjE stream_quiet) (use un un' g none in \<open>auto simp: view_None\<close>)
  ultimately show ?thesis by (simp add: inv_at_def s'_def)
qed

lemma step_g_receive_other:
  assumes inv: "mux_system_inv s" and w: "h2g s = f # fs" and rc: "guest_receive (guest s) f = (b, g)"
    and op: "frame_open i f = 0"
  shows "inv_at (s\<lparr>guest := g, h2g := fs, g_reader := b\<rparr>) i"
proof -
  define s' where "s' = s\<lparr>guest := g, h2g := fs, g_reader := b\<rparr>"
  have at: "inv_at s i" using inv by (simp add: mux_system_inv_def)
  have ab: "absorbed 0 f (guest s) g i" by (rule guest_receive_absorbed [OF rc op])
  have eq: "host s' = host s" "guest s' = g" "g_pipe s' = g_pipe s" "h_pipe s = f # h_pipe s'"
    "g_pending s' = g_pending s" "h_pending s' = h_pending s" "g_taken s' = g_taken s"
    "g_written s' = g_written s" "h_taken s' = h_taken s" "h_written s' = h_written s"
    "fresh s' i = fresh s i" "requests s' i = requests s i"
    using w op by (simp_all add: s'_def sys_defs)
  then have un: "unopened s' i = unopened s i" by (simp add: unopened_def)
  have none: "sessions g i = None" "sessions (guest s) i = None" "frame_data i f = []" if "unopened s i"
    using at that ab by (auto simp: absorbed_def inv_at_defs flow_hg_def eq(4))
  have "flow_hg s' i \<le> flow_hg s i" "flow_gh s' i \<le> flow_gh s i"
    using ab by (simp_all add: flow_hg_def flow_gh_def eq absorbed_def)
  then have "inv_opens s' i" "inv_flow_hg s' i" "inv_flow_gh s' i"
    using at none by (auto simp: inv_at_defs eq(1-3,5-12) un)
  moreover have "inv_stream_hg s' i"
    using at unfolding inv_at_def inv_stream_hg_def eq wire_simps un
    by (elim conjE stream_receive) (use ab none in \<open>auto simp: absorbed_def view_None\<close>)
  moreover have "inv_stream_gh s' i"
    using at unfolding inv_at_def inv_stream_gh_def eq(1-3,5-12) un
    by (elim conjE stream_quiet) (use ab none in \<open>auto simp: absorbed_def view_None\<close>)
  ultimately show ?thesis by (simp add: inv_at_def s'_def)
qed

section \<open>The invariant of the system\<close>

lemma ctl_plain_ops:
  "ctl_plain (put_session st sid x) = ctl_plain st"
  "ctl_plain (schedule st sid x) = ctl_plain st"
  "ctl_plain h \<Longrightarrow> ctl_plain (host_fail h m)"
  "ctl_plain g \<Longrightarrow> ctl_plain (guest_fail g m)"
  by (simp_all add: ctl_plain_def host_fail_def guest_fail_def)

lemma open_plain:
  "open_session_begin h = (r, h') \<Longrightarrow> ctl_plain h \<Longrightarrow> ctl_plain h'"
  "open_session_enqueue h sid kind = Ready (q, h') \<Longrightarrow> ctl_plain h \<Longrightarrow> ctl_plain h'"
  by (auto simp: open_session_begin_def open_session_enqueue_def Let_def split: option.splits if_splits)
    (simp add: ctl_plain_def)

lemma host_op_plain:
  "host_read h sid n = Taken bs h' \<Longrightarrow> ctl_plain h \<Longrightarrow> ctl_plain h'"
  "host_grant_credit h sid bs = Ready (r, h') \<Longrightarrow> ctl_plain h \<Longrightarrow> ctl_plain h'"
  "host_write h sid buf = Ready (q, h') \<Longrightarrow> ctl_plain h \<Longrightarrow> ctl_plain h'"
  by (auto elim!: host_takeD host_grantD host_writeD simp: ctl_plain_ops)

lemma guest_op_plain:
  "guest_read g sid n = Taken bs g' \<Longrightarrow> ctl_plain g \<Longrightarrow> ctl_plain g'"
  "guest_grant_credit g sid bs = Ready (r, g') \<Longrightarrow> ctl_plain g \<Longrightarrow> ctl_plain g'"
  "guest_write g sid buf = Ready (q, g') \<Longrightarrow> ctl_plain g \<Longrightarrow> ctl_plain g'"
  by (auto elim!: guest_takeD guest_grantD guest_writeD simp: ctl_plain_ops)

lemma mux_step_ends:
  assumes "mux_step s s'" and "mux_system_inv s"
  shows "inv_ends s'"
proof -
  have e: "host_inv (host s)" "guest_inv (guest s)" "ctl_plain (host s)" "ctl_plain (guest s)"
    using assms(2) by (simp_all add: mux_system_inv_def inv_ends_def)
  have host: "host_step (host s) (host s') \<or> host s' = host s"
    and guest: "guest_step (guest s) (guest s') \<or> guest s' = guest s"
    using assms(1)
    by (cases; auto intro: host_step.intros guest_step.intros elim!: host_local.cases guest_local.cases)+
  have "ctl_plain (host s') \<and> ctl_plain (guest s')"
    using assms(1)
  proof cases
    case (h_pop f h)
    then show ?thesis
      using host_end.next_outgoing_emitted(2) [OF _ host_inv_endpoint [OF e(1)] e(3)] e(4)
      by (simp add: host_next_outgoing_def)
  next
    case (g_pop f g)
    then show ?thesis
      using guest_end.next_outgoing_emitted(2) [OF _ guest_inv_endpoint [OF e(2)] e(4)] e(3)
      by (simp add: guest_next_outgoing_def)
  qed (use e in \<open>simp_all add: ctl_plain_ops open_plain host_op_plain guest_op_plain
      host_local_frame(2) host_receive_frame(1) guest_local_quiet(2) guest_receive_plain\<close>)
  with host guest e show ?thesis
    by (auto simp: inv_ends_def intro: host_step_inv guest_step_inv)
qed

lemma mux_step_inv:
  assumes "mux_step s s'" and "mux_system_inv s"
  shows "mux_system_inv s'"
proof -
  have "inv_at s' i" for i
    using assms(1)
  proof cases
    case (g_receive f fs b g)
    with assms(2) show ?thesis
      by (cases "frame_open i f = 0") (simp_all add: step_g_receive_open step_g_receive_other)
  qed (use assms(2) in \<open>simp_all add: step_h_begin step_h_enqueue step_h_local step_h_take step_h_grant
      step_h_write step_h_pop step_h_put step_h_write_fault step_h_receive step_h_read_fault
      step_g_local step_g_take step_g_grant step_g_write step_g_pop step_g_put step_g_write_fault
      step_g_read_fault\<close>)
  with mux_step_ends [OF assms] show ?thesis by (simp add: mux_system_inv_def)
qed

lemma mux_system_inv_init: "mux_system_inv system_new"
  by (simp add: mux_system_inv_def inv_ends_def host_inv_init guest_inv_init inv_at_defs sys_defs
      system_new_def ctl_plain_def stream_ok_def)
    (simp add: host_new_def guest_new_def view_defs still_opening_def)

interpretation system_safety: safety "\<lambda>s. s = system_new" mux_step mux_system_inv
  by unfold_locales (auto intro: mux_system_inv_init mux_step_inv)

section \<open>Properties\<close>

abbreviation system_reachable :: "mux_system \<Rightarrow> bool" where
  "system_reachable \<equiv> reachable (\<lambda>s. s = system_new) mux_step"

lemma system_reachable_new: "system_reachable system_new"
  by (rule reach_init) simp

lemma system_reachable_at: "system_reachable s \<Longrightarrow> inv_at s i"
  using system_safety.reachable_inv by (auto simp: mux_system_inv_def)

text \<open>C10: Flow control never overruns a receive window: whenever a data frame is next on the stream
  and its session exists at the receiver, the bytes fit into what the window has left, in both
  directions and in every interleaving, faults of the stream included.\<close>

theorem mux_window_never_exceeded:
  assumes "system_reachable s"
  shows "(\<forall>i d fs x. h2g s = Data i d # fs \<and> sessions (guest s) i = Some x \<longrightarrow>
            length d \<le> RECEIVE_QUEUE_BYTES - length (inbound x)) \<and>
         (\<forall>i d fs x. g2h s = Data i d # fs \<and> sessions (host s) i = Some x \<longrightarrow>
            length d \<le> RECEIVE_QUEUE_BYTES - length (inbound x))"
proof -
  have f: "flow_hg s i \<le> RECEIVE_QUEUE_BYTES" "flow_gh s i \<le> RECEIVE_QUEUE_BYTES" for i
    using system_reachable_at [OF assms, of i] by (simp_all add: inv_at_defs)
  have "length d \<le> RECEIVE_QUEUE_BYTES - length (inbound x)"
    if "h2g s = Data i d # fs" "sessions (guest s) i = Some x" for i d fs x
    using f(1) [of i] that by (simp add: flow_hg_def h_pipe_def rx_def inb_def)
  moreover have "length d \<le> RECEIVE_QUEUE_BYTES - length (inbound x)"
    if "g2h s = Data i d # fs" "sessions (host s) i = Some x" for i d fs x
    using f(2) [of i] that by (simp add: flow_gh_def g_pipe_def rx_def inb_def)
  ultimately show ?thesis by blast
qed

text \<open>C22: The credit a sender holds for a session never exceeds one window, so a grant never overflows
  the counter.\<close>

theorem mux_credit_never_overflows:
  assumes "system_reachable s"
  shows "(\<forall>i c fs x. g2h s = Window i c # fs \<and> sessions (host s) i = Some x \<longrightarrow>
            checked_add_usize (send_credit x) (unat c) = Some (send_credit x + unat c) \<and>
            send_credit x + unat c \<le> RECEIVE_QUEUE_BYTES) \<and>
         (\<forall>i c fs x. h2g s = Window i c # fs \<and> sessions (guest s) i = Some x \<longrightarrow>
            checked_add_usize (send_credit x) (unat c) = Some (send_credit x + unat c) \<and>
            send_credit x + unat c \<le> RECEIVE_QUEUE_BYTES)"
proof -
  have f: "flow_hg s i \<le> RECEIVE_QUEUE_BYTES" "flow_gh s i \<le> RECEIVE_QUEUE_BYTES" for i
    using system_reachable_at [OF assms, of i] by (simp_all add: inv_at_defs)
  have "send_credit x + unat c \<le> RECEIVE_QUEUE_BYTES"
    if "g2h s = Window i c # fs" "sessions (host s) i = Some x" for i c fs x
    using f(1) [of i] that by (simp add: flow_hg_def g_pipe_def tx_def)
  moreover have "send_credit x + unat c \<le> RECEIVE_QUEUE_BYTES"
    if "h2g s = Window i c # fs" "sessions (guest s) i = Some x" for i c fs x
    using f(2) [of i] that by (simp add: flow_gh_def h_pipe_def tx_def)
  moreover have "RECEIVE_QUEUE_BYTES \<le> usize_max"
    by (simp add: RECEIVE_QUEUE_BYTES_def usize_max_def)
  ultimately show ?thesis
    by (fastforce simp: checked_add_usize_def)
qed

text \<open>C1: What a client has read from a session is a prefix of what the client at the other end has
  written to it, in both directions and in every interleaving: no byte is lost, duplicated,
  reordered or mixed up between sessions in the middle of a stream.\<close>

theorem mux_stream_integrity:
  assumes "system_reachable s"
  shows "prefix (g_taken s i) (h_written s i) \<and> prefix (h_taken s i) (g_written s i)"
  using system_reachable_at [OF assms, of i] by (simp add: inv_at_defs stream_ok_def)

text \<open>C16: While neither manager has failed and both ends have the session, nothing is lost that an end wrote
  whose session was not reset: the bytes written are those read at the other end, then those unread there,
  then those on the wire, then those still queued, in this order.\<close>

theorem mux_stream_complete:
  assumes "system_reachable s" and "failed (host s) = None" and "failed (guest s) = None"
    and "sessions (host s) i = Some x" and "sessions (guest s) i = Some y"
  shows "(reset_reason x = None \<longrightarrow>
            h_written s i = g_taken s i @ inbound y @ wire_data i (h_pipe s) @ concat (outbound x)) \<and>
         (reset_reason y = None \<longrightarrow>
            g_written s i = h_taken s i @ inbound x @ wire_data i (g_pipe s) @ concat (outbound y))"
  using system_reachable_at [OF assms(1), of i] assms(2-5)
  by (auto simp: inv_at_defs stream_ok_def present_def sending_def inb_def outb_def)

section \<open>A run\<close>

text \<open>
  A session is opened, accepted, given its window, and two bytes are written to it and are on the
  stream; it shows that the hypotheses of the properties above occur.
\<close>

lemmas run_simps =
  system_new_def host_new_def guest_new_def session_new_def guest_session_new_def
  host_next_outgoing_def guest_next_outgoing_def next_outgoing_frame_def
  put_session_def push_control_def schedule_def writable_def queue_outbound_def
  MAX_CONTROL_QUEUE_FRAMES_def RECEIVE_QUEUE_BYTES_def SEND_QUEUE_BYTES_def MAX_DATA_LEN_def
  validate_host_session_id_def is_host_session_id_def

definition run_host :: "SessionState \<Rightarrow> MuxFrame list \<Rightarrow> u64 list \<Rightarrow> MuxManagerState" where
  "run_host s q rs = \<lparr>sessions = [1 \<mapsto> s], control_queue = q, ready_sessions = rs, failed = None,
     next_host_session_id = 3, timed_out_host_opens = []\<rparr>"

definition run_guest :: "mux_session \<Rightarrow> MuxFrame list \<Rightarrow> GuestMuxState" where
  "run_guest s q = \<lparr>sessions = [1 \<mapsto> s], control_queue = q, ready_sessions = [], failed = None,
     accepted_sessions = [1]\<rparr>"

lemma system_reach: "system_reachable s \<Longrightarrow> mux_step s t \<Longrightarrow> system_reachable t"
  by (rule reach_step)

lemma run_open:
  "system_reachable (system_new\<lparr>host := run_host session_new [] [],
     guest := run_guest guest_session_new [OpenOk 1 262144]\<rparr>)"
proof -
  let ?o = "Open 1 (str ''exec'')"
  let ?s1 = "system_new\<lparr>host := run_host session_new [] [], begun := [1]\<rparr>"
  let ?s2 = "system_new\<lparr>host := run_host session_new [?o] []\<rparr>"
  let ?s3 = "system_new\<lparr>host := run_host session_new [] [], h_out := Some ?o\<rparr>"
  let ?s4 = "system_new\<lparr>host := run_host session_new [] [], h2g := [?o]\<rparr>"
  have 1: "mux_step system_new ?s1"
    using h_begin [of system_new 1 "run_host session_new [] []"]
    by (simp add: open_session_begin_def run_host_def run_simps checked_add_def Let_def)
  have 2: "mux_step ?s1 ?s2"
    using h_enqueue [of 1 ?s1 Exec "Ok ()" "run_host session_new [?o] []"]
    by (simp add: open_session_enqueue_def run_host_def run_simps)
  have 3: "mux_step ?s2 ?s3"
    using h_pop [of ?s2 ?o "run_host session_new [] []"]
    by (simp add: run_host_def run_simps)
  have 4: "mux_step ?s3 ?s4"
    using h_put [of ?s3 ?o] by (simp add: mux_validate_defs run_simps mux_consts str_def)
  have 5: "mux_step ?s4 (system_new\<lparr>host := run_host session_new [] [],
     guest := run_guest guest_session_new [OpenOk 1 262144]\<rparr>)"
    using g_receive [of ?s4 ?o "[]" True "run_guest guest_session_new [OpenOk 1 262144]"]
    by (simp add: guest_receive_def guest_sid_check_def guest_mux_metadata_supported_def
        run_guest_def run_simps)
  show ?thesis
    by (rule system_reach [OF system_reach [OF system_reach [OF system_reach [OF system_reach [OF
            system_reachable_new 1] 2] 3] 4] 5])
qed

abbreviation run_opened :: "nat \<Rightarrow> bytes list \<Rightarrow> SessionState" where
  "run_opened cr q \<equiv> session_new\<lparr>open_state := Opened, send_credit := cr, outbound := q,
     outbound_bytes := sum_list (map length q), scheduled := (q \<noteq> [])\<rparr>"

abbreviation run_state :: "SessionState \<Rightarrow> MuxFrame list \<Rightarrow> u64 list \<Rightarrow> nat \<Rightarrow> MuxFrame list \<Rightarrow> mux_system" where
  "run_state x q rs cr wire \<equiv> system_new\<lparr>host := run_host x q rs,
     guest := run_guest (guest_session_new\<lparr>send_credit := cr\<rparr>) [], h2g := wire\<rparr>"

lemma run_window:
  "system_reachable (run_state (run_opened 262144 []) [] [] 0 [Window 1 262144])"
proof -
  let ?ok = "OpenOk 1 262144" and ?w = "Window 1 262144"
  let ?s0 = "system_new\<lparr>host := run_host session_new [] [], guest := run_guest guest_session_new [?ok]\<rparr>"
  let ?s1 = "system_new\<lparr>host := run_host session_new [] [], guest := run_guest guest_session_new [],
     g_out := Some ?ok\<rparr>"
  let ?s2 = "system_new\<lparr>host := run_host session_new [] [], guest := run_guest guest_session_new [],
     g2h := [?ok]\<rparr>"
  let ?s3 = "run_state (run_opened 262144 []) [?w] [] 0 []"
  let ?s4 = "(run_state (run_opened 262144 []) [] [] 0 [])\<lparr>h_out := Some ?w\<rparr>"
  let ?s5 = "run_state (run_opened 262144 []) [] [] 0 [?w]"
  have 1: "mux_step ?s0 ?s1"
    using g_pop [of ?s0 ?ok "run_guest guest_session_new []"] by (simp add: run_guest_def run_simps)
  have 2: "mux_step ?s1 ?s2"
    using g_put [of ?s1 ?ok] by (simp add: mux_validate_defs run_simps)
  have 3: "mux_step ?s2 ?s3"
    using h_receive [of ?s2 ?ok "[]" True "run_host (run_opened 262144 []) [?w] []"]
    by (simp add: host_receive_def host_sid_check_def run_host_def run_guest_def run_simps Let_def
        checked_add_usize_def usize_max_def)
  have 4: "mux_step ?s3 ?s4"
    using h_pop [of ?s3 ?w "run_host (run_opened 262144 []) [] []"] by (simp add: run_host_def run_simps)
  have 5: "mux_step ?s4 ?s5"
    using h_put [of ?s4 ?w] by (simp add: mux_validate_defs run_simps)
  show ?thesis
    by (rule system_reach [OF system_reach [OF system_reach [OF system_reach [OF system_reach [OF
            run_open 1] 2] 3] 4] 5])
qed

lemma run_accept: "system_reachable (run_state (run_opened 262144 []) [] [] 262144 [])"
proof -
  let ?s = "run_state (run_opened 262144 []) [] [] 0 [Window 1 262144]"
  have "mux_step ?s (run_state (run_opened 262144 []) [] [] 262144 [])"
    using g_receive [of ?s "Window 1 262144" "[]" True "run_guest (guest_session_new\<lparr>send_credit := 262144\<rparr>) []"]
    by (simp add: guest_receive_def guest_sid_check_def run_guest_def run_simps
        checked_add_usize_def usize_max_def)
  with run_window show ?thesis by (rule system_reach)
qed

abbreviation run_data_state :: mux_system where
  "run_data_state \<equiv> (run_state (run_opened 262142 []) [] [] 262144 [Data 1 [104, 105]])
     \<lparr>h_written := (\<lambda>_. [])(1 := [104, 105])\<rparr>"

lemma run_data:
  "system_reachable run_data_state"
proof -
  let ?d = "Data 1 [104, 105]" and ?w = "(\<lambda>_. [])(1 := [104, 105 :: byte]) :: u64 \<Rightarrow> bytes"
  let ?s0 = "run_state (run_opened 262144 []) [] [] 262144 []"
  let ?s1 = "(run_state (run_opened 262142 [[104, 105]]) [] [1] 262144 [])\<lparr>h_written := ?w\<rparr>"
  let ?s2 = "(run_state (run_opened 262142 []) [] [] 262144 [])\<lparr>h_written := ?w, h_out := Some ?d\<rparr>"
  have 1: "mux_step ?s0 ?s1"
    using h_write [of ?s0 1 "[104, 105]" "Ok 2" "run_host (run_opened 262142 [[104, 105]]) [] [1]"]
    by (simp add: host_write_def run_host_def run_simps wrote_def Let_def)
  have 2: "mux_step ?s1 ?s2"
    using h_pop [of ?s1 ?d "run_host (run_opened 262142 []) [] []"]
    by (simp add: run_host_def run_simps Let_def)
  have 3: "mux_step ?s2 run_data_state"
    using h_put [of ?s2 ?d] by (simp add: mux_validate_defs run_simps)
  show ?thesis
    by (rule system_reach [OF system_reach [OF system_reach [OF run_accept 1] 2] 3])
qed


lemma run_taken: "\<exists>s. system_reachable s \<and> g_taken s 1 = [104] \<and> h_written s 1 = [104, 105]"
proof -
  let ?g1 = "run_guest (guest_session_new\<lparr>send_credit := 262144, inbound := [104, 105]\<rparr>) []"
  let ?g2 = "run_guest (guest_session_new\<lparr>send_credit := 262144, inbound := [105]\<rparr>) []"
  let ?s1 = "run_data_state\<lparr>guest := ?g1, h2g := []\<rparr>"
  let ?s2 = "?s1\<lparr>guest := ?g2, g_pending := [(1, [104])], g_taken := (\<lambda>_. [])(1 := [104])\<rparr>"
  have 1: "mux_step run_data_state ?s1"
    using g_receive [of run_data_state "Data 1 [104, 105]" "[]" True ?g1]
    by (simp add: guest_receive_def guest_sid_check_def run_guest_def run_simps)
  have 2: "mux_step ?s1 ?s2"
    using g_take [of ?s1 1 1 "[104]" ?g2]
    by (simp add: guest_read_def run_guest_def run_simps Let_def)
  show ?thesis
    using system_reach [OF system_reach [OF run_data 1] 2] by (intro exI [of _ ?s2]) simp
qed

theorem mux_window_never_exceeded_witness:
  "\<exists>s x. system_reachable s \<and> h2g s = [Data 1 [104, 105]] \<and> sessions (guest s) 1 = Some x \<and>
     length [104, 105 :: byte] \<le> RECEIVE_QUEUE_BYTES - length (inbound x)"
proof -
  have "sessions (guest run_data_state) 1 = Some (guest_session_new\<lparr>send_credit := 262144\<rparr>)"
    by (simp add: run_guest_def)
  moreover have "h2g run_data_state = [Data 1 [104, 105]]" by simp
  ultimately show ?thesis
    using run_data mux_window_never_exceeded [OF run_data] by blast
qed

theorem mux_credit_never_overflows_witness:
  "\<exists>s x. system_reachable s \<and> h2g s = [Window 1 262144] \<and> sessions (guest s) 1 = Some x \<and>
     send_credit x + 262144 \<le> RECEIVE_QUEUE_BYTES"
proof -
  let ?s = "run_state (run_opened 262144 []) [] [] 0 [Window 1 262144]"
  have "sessions (guest ?s) 1 = Some (guest_session_new\<lparr>send_credit := 0\<rparr>)"
    by (simp add: run_guest_def)
  moreover have "h2g ?s = [Window 1 262144]" by simp
  ultimately have "send_credit (guest_session_new\<lparr>send_credit := 0\<rparr>) + unat (262144 :: u32) \<le> RECEIVE_QUEUE_BYTES"
    using mux_credit_never_overflows [OF run_window] by blast
  with \<open>sessions (guest ?s) 1 = _\<close> \<open>h2g ?s = _\<close> run_window show ?thesis by fastforce
qed

theorem mux_stream_integrity_witness:
  "\<exists>s. system_reachable s \<and> g_taken s 1 = [104] \<and> prefix (g_taken s 1) (h_written s 1)"
  using run_taken mux_stream_integrity by blast

theorem mux_stream_complete_witness:
  "\<exists>s x y. system_reachable s \<and> failed (host s) = None \<and> failed (guest s) = None \<and>
     sessions (host s) 1 = Some x \<and> sessions (guest s) 1 = Some y \<and> reset_reason x = None \<and>
     h_written s 1 = g_taken s 1 @ inbound y @ wire_data 1 (h_pipe s) @ concat (outbound x)"
proof -
  have "failed (host run_data_state) = None" "failed (guest run_data_state) = None"
    "sessions (host run_data_state) 1 = Some (run_opened 262142 [])"
    "sessions (guest run_data_state) 1 = Some (guest_session_new\<lparr>send_credit := 262144\<rparr>)"
    "reset_reason (run_opened 262142 []) = None"
    by (simp_all add: run_host_def run_guest_def session_new_def)
  with run_data mux_stream_complete [OF run_data this(1-4)] show ?thesis by blast
qed

text \<open>C24: A guest that answers an open after the host has given up on it brings the whole manager
  down: the host tolerates the late OpenOk, but when the guest's handler sees the reset and closes
  the session, the FIN it sends is for an unknown session and fails every session of the host.\<close>

theorem late_accept_fails_host:
  "\<exists>h1 h2 h3 h4 h5 g1 g2 g3 g4 g5 rst.
     open_session_begin host_new = (Ok 1, h1) \<and>
     open_session_enqueue h1 1 Exec = Ready (Ok (), h2) \<and>
     host_next_outgoing h2 = (Ready (Some (Open 1 (str ''exec''))), h3) \<and>
     guest_receive guest_new (Open 1 (str ''exec'')) = (True, g1) \<and>
     guest_next_outgoing g1 = (Ready (Some (OpenOk 1 262144)), g2) \<and>
     open_session_poll h3 1 SESSION_OPEN_TIMEOUT True True = Ready (Err (OpenTimeout SESSION_OPEN_TIMEOUT), h4) \<and>
     host_next_outgoing h4 = (Ready (Some (Rst 1 rst)), h5) \<and>
     host_receive h5 (OpenOk 1 262144) = (True, h5) \<and> failed h5 = None \<and>
     guest_accept_session g2 = (Ready (Some 1), g3) \<and>
     guest_receive g3 (Rst 1 rst) = (True, g4) \<and>
     guest_next_outgoing (guest_close_session g4 1) = (Ready (Some (Fin 1)), g5) \<and>
     host_receive h5 (Fin 1)
       = (False, host_fail h5 (str ''guest closed unknown mux session 1''))"
proof -
  let ?msg = "str ''host timed out after '' @ show_num SESSION_OPEN_TIMEOUT
     @ str '' ms waiting for guest to accept mux session''"
  let ?h = "\<lambda>q. \<lparr>sessions = Map.empty, control_queue = q, ready_sessions = [], failed = None,
     next_host_session_id = 3, timed_out_host_opens = [1]\<rparr> :: MuxManagerState"
  let ?g = "run_guest guest_session_new []"
  let ?g3 = "?g\<lparr>accepted_sessions := []\<rparr>"
  let ?x = "guest_session_new\<lparr>reset_reason := Some ?msg\<rparr>"
  let ?g4 = "?g3\<lparr>sessions := [1 \<mapsto> ?x]\<rparr>"
  have open_steps: "open_session_begin host_new = (Ok 1, run_host session_new [] [])"
    "open_session_enqueue (run_host session_new [] []) 1 Exec
       = Ready (Ok (), run_host session_new [Open 1 (str ''exec'')] [])"
    "host_next_outgoing (run_host session_new [Open 1 (str ''exec'')] [])
       = (Ready (Some (Open 1 (str ''exec''))), run_host session_new [] [])"
    by (simp_all add: open_session_begin_def open_session_enqueue_def run_host_def run_simps
        checked_add_def Let_def)
  have guest_steps: "guest_receive guest_new (Open 1 (str ''exec''))
       = (True, run_guest guest_session_new [OpenOk 1 262144])"
    "guest_next_outgoing (run_guest guest_session_new [OpenOk 1 262144]) = (Ready (Some (OpenOk 1 262144)), ?g)"
    "guest_accept_session ?g = (Ready (Some 1), ?g3)"
    "guest_receive ?g3 (Rst 1 ?msg) = (True, ?g4)"
    by (simp_all add: guest_receive_def guest_sid_check_def guest_mux_metadata_supported_def
        guest_accept_session_def run_guest_def run_simps Let_def)
  have close: "guest_next_outgoing (guest_close_session ?g4 1) = (Ready (Some (Fin 1)),
      ?g3\<lparr>sessions := [1 \<mapsto> ?x\<lparr>local_fin := True, fin_sent := True\<rparr>]\<rparr>)"
    by (simp add: guest_close_session_def close_session_def run_guest_def run_simps is_drained_def Let_def)
  have "of_char (char_of (49 :: nat)) = (49 :: byte)" by code_simp
  then have one: "str ''guest closed unknown mux session '' @ show_num (Suc 0)
      = str ''guest closed unknown mux session 1''"
    by (simp add: show_num_def str_def show_dec.simps)
  have host_steps: "open_session_poll (run_host session_new [] []) 1 SESSION_OPEN_TIMEOUT True True
       = Ready (Err (OpenTimeout SESSION_OPEN_TIMEOUT), ?h [Rst 1 ?msg])"
    "host_next_outgoing (?h [Rst 1 ?msg]) = (Ready (Some (Rst 1 ?msg)), ?h [])"
    "host_receive (?h []) (OpenOk 1 262144) = (True, ?h [])"
    "host_receive (?h []) (Fin 1) = (False, host_fail (?h []) (str ''guest closed unknown mux session 1''))"
    by (simp_all add: open_session_poll_def timeout_open_session_def record_timed_out_open_def
        run_host_def run_simps Let_def MAX_TIMED_OUT_OPENS_def host_receive_def host_sid_check_def
        is_timed_out_open_def one)
  show ?thesis
    using open_steps guest_steps close host_steps by (intro exI conjI) (assumption | simp)+
qed

end
