(* ===== verification/Mux_Wakeup.thy ===== *)
theory Mux_Wakeup
  imports Mux_Guest
begin

text \<open>
  The writer threads of both ends, asleep on the condition variable of their manager until an operation
  calls \<^verbatim>\<open>notify_all\<close>. Every operation of \<open>Mux_Host\<close> and \<open>Mux_Guest\<close> comes with the condition under which its
  code notifies; an error of the reader thread is reported by a second critical section, as in the code. No
  wakeup is lost: a writer that sleeps has nothing to send.
\<close>

section \<open>A thread on a condition variable\<close>

text \<open>
  The flag says that the writer sleeps. An operation wakes it if it notifies; the writer tries to take a
  frame only when awake and sleeps when it has to wait; it may also wake for no reason.
\<close>

inductive wake_step ::
    "('s \<Rightarrow> bool \<Rightarrow> 's \<Rightarrow> bool) \<Rightarrow> ('s \<Rightarrow> 'f attempt \<times> 's) \<Rightarrow> 's \<times> bool \<Rightarrow> 's \<times> bool \<Rightarrow> bool"
  for op :: "'s \<Rightarrow> bool \<Rightarrow> 's \<Rightarrow> bool" and next_frame :: "'s \<Rightarrow> 'f attempt \<times> 's"
where
  wake_op: "op st notifies st' \<Longrightarrow> wake_step op next_frame (st, asleep) (st', asleep \<and> \<not> notifies)"
| wake_wait: "next_frame st = (Wait, st') \<Longrightarrow> wake_step op next_frame (st, False) (st', True)"
| wake_frame: "next_frame st = (Ready r, st') \<Longrightarrow> wake_step op next_frame (st, False) (st', False)"
| wake_spurious: "wake_step op next_frame (st, True) (st, False)"

lemma op_wakes: "op st True st' \<Longrightarrow> wake_step op next_frame (st, asleep) (st', False)"
  using wake_op [of op st True st' next_frame asleep] by simp

lemma op_lets_sleep: "op st False st' \<Longrightarrow> wake_step op next_frame (st, asleep) (st', asleep)"
  using wake_op [of op st False st' next_frame asleep] by simp

locale notified_writer =
  fixes new :: 's and op :: "'s \<Rightarrow> bool \<Rightarrow> 's \<Rightarrow> bool" and next_frame :: "'s \<Rightarrow> 'f attempt \<times> 's"
    and ok :: "'s \<Rightarrow> bool" and nothing_to_send :: "'s \<Rightarrow> bool"
  assumes ok_new: "ok new"
    and ok_op: "op st notifies st' \<Longrightarrow> ok st \<Longrightarrow> ok st'"
    and ok_next: "next_frame st = (a, st') \<Longrightarrow> ok st \<Longrightarrow> ok st'"
    and silent_op: "op st False st' \<Longrightarrow> ok st \<Longrightarrow> nothing_to_send st \<Longrightarrow> nothing_to_send st'"
    and wait_next: "next_frame st = (Wait, st') \<Longrightarrow> ok st \<Longrightarrow> nothing_to_send st'"
begin

sublocale waking: safety "\<lambda>s. s = (new, False)" "wake_step op next_frame"
    "\<lambda>s. ok (fst s) \<and> (snd s \<longrightarrow> nothing_to_send (fst s))"
proof
  fix s s' assume "wake_step op next_frame s s'" and "ok (fst s) \<and> (snd s \<longrightarrow> nothing_to_send (fst s))"
  then show "ok (fst s') \<and> (snd s' \<longrightarrow> nothing_to_send (fst s'))"
    by cases (auto intro: ok_op ok_next silent_op wait_next)
qed (simp add: ok_new)

lemma sleeping_writer:
  assumes "reachable (\<lambda>s. s = (new, False)) (wake_step op next_frame) (st, asleep)"
  shows "ok st" and "asleep \<Longrightarrow> nothing_to_send st"
  using waking.reachable_inv [OF assms] by simp_all

end

section \<open>Nothing to send\<close>

definition idle :: "('a, 'b) mux_state \<Rightarrow> bool" where
  "idle st \<longleftrightarrow>
     failed st = None \<and> control_queue st = [] \<and> (\<forall>sid s. sessions st sid = Some s \<longrightarrow> \<not> has_work s)"

lemma idle_put:
  "idle st \<Longrightarrow> sessions st sid = Some s \<Longrightarrow> (has_work s' \<Longrightarrow> has_work s) \<Longrightarrow> idle (put_session st sid s')"
  by (auto simp: idle_def)

lemma has_work_fields [simp]:
  "has_work (s\<lparr>inbound := q\<rparr>) = has_work s" "has_work (s\<lparr>send_credit := c\<rparr>) = has_work s"
  "has_work (s\<lparr>scheduled := b\<rparr>) = has_work s"
  by (simp_all add: has_work_def)

lemma unscheduled_work:
  assumes "unscheduled x = unscheduled y" and "x = Some s" and "has_work s"
  shows "\<exists>s'. y = Some s' \<and> has_work s'"
proof -
  obtain s' where s': "y = Some s'" "s\<lparr>scheduled := False\<rparr> = s'\<lparr>scheduled := False\<rparr>"
    using assms(1,2) by (cases y) auto
  have "has_work (s'\<lparr>scheduled := False\<rparr>)" using assms(3) s'(2) [symmetric] by simp
  with s'(1) show ?thesis by simp
qed

context mux_endpoint
begin

lemma next_ready_idle:
  "fst (next_ready prune rs st) = None \<Longrightarrow> failed (snd (next_ready prune rs st)) = failed st
     \<and> control_queue (snd (next_ready prune rs st)) = control_queue st
     \<and> unscheduled (sessions (snd (next_ready prune rs st)) i) = unscheduled (sessions st i)"
  by (induction rs st rule: next_ready_induct)
     (simp_all add: next_ready_skip next_ready_data next_ready_fin del: next_ready.simps(2))

lemma wait_idle:
  assumes "next_outgoing_frame prune st = (Wait, st')" and ok: "endpoint_ok st"
  shows "idle st'"
proof -
  have live: "failed st = None" and ctrl: "control_queue st = []"
    and st': "next_ready prune (ready_sessions st) st = (None, st')"
    using assms(1) by (auto simp: next_outgoing_frame_def split: if_splits list.splits prod.splits option.splits)
  have "\<not> has_work s" if "sessions st sid = Some s" for sid s
    using next_outgoing_progress [OF ok live] assms(1) that by (auto simp del: next_ready.simps)
  moreover have "failed st' = failed st" "control_queue st' = control_queue st"
    "unscheduled (sessions st' i) = unscheduled (sessions st i)" for i
    using next_ready_idle [of "ready_sessions st" st i] st' by simp_all
  ultimately show ?thesis using live ctrl unscheduled_work unfolding idle_def by metis
qed

end

section \<open>The host\<close>

text \<open>When \<^verbatim>\<open>read\<close>, \<^verbatim>\<open>close_session\<close> and \<^verbatim>\<open>reset_session\<close> notify, and when the handler of a frame does.\<close>

definition host_read_notifies :: "MuxManagerState \<Rightarrow> u64 \<Rightarrow> nat \<Rightarrow> bool" where
  "host_read_notifies st sid n \<longleftrightarrow>
     n \<noteq> 0 \<and> failed st = None \<and>
     (case sessions st sid of
        None \<Rightarrow> False
      | Some s \<Rightarrow> reset_reason s = None \<and> inbound s = [] \<and> remote_fin s \<and> is_drained s)"

definition close_notifies :: "('a, 'b) mux_state \<Rightarrow> u64 \<Rightarrow> bool" where
  "close_notifies st sid \<longleftrightarrow>
     failed st = None \<and> (case sessions st sid of None \<Rightarrow> False | Some s \<Rightarrow> \<not> local_fin s)"

definition reset_notifies :: "MuxManagerState \<Rightarrow> u64 \<Rightarrow> bool" where
  "reset_notifies st sid \<longleftrightarrow> failed st = None \<and> sessions st sid \<noteq> None"

fun frame_notifies :: "('a, 'b) mux_state \<Rightarrow> MuxFrame \<Rightarrow> bool" where
  "frame_notifies st (Open sid meta) = True"
| "frame_notifies st (OpenOk sid c) = (sessions st sid \<noteq> None)"
| "frame_notifies st (OpenErr sid r) = (sessions st sid \<noteq> None)"
| "frame_notifies st (Data sid d) = True"
| "frame_notifies st (Window sid c) = True"
| "frame_notifies st (Fin sid) = True"
| "frame_notifies st (Rst sid r) = (sessions st sid \<noteq> None)"

fun is_open_timeout :: "('x, MuxSessionError) result \<Rightarrow> bool" where
  "is_open_timeout (Inl (OpenTimeout t)) = True"
| "is_open_timeout _ = False"

inductive host_op :: "MuxManagerState \<Rightarrow> bool \<Rightarrow> MuxManagerState \<Rightarrow> bool" where
  op_open_begin: "open_session_begin st = (r, st') \<Longrightarrow> host_op st False st'"
| op_open_enqueue: "open_session_enqueue st sid kind = Ready (r, st') \<Longrightarrow> host_op st (is_ok r) st'"
| op_open_poll: "open_session_poll st sid timeout to ex = Ready (r, st') \<Longrightarrow> host_op st (is_open_timeout r) st'"
| op_read: "host_read st sid n = ReadDone r st' \<Longrightarrow> host_op st (host_read_notifies st sid n) st'"
| op_take: "host_read st sid n = Taken bs st' \<Longrightarrow> host_op st False st'"
| op_grant: "host_grant_credit st sid bs = Ready (r, st') \<Longrightarrow> host_op st (is_ok r) st'"
| op_write: "host_write st sid buf = Ready (r, st') \<Longrightarrow> host_op st (buf \<noteq> [] \<and> is_ok r) st'"
| op_close: "host_op st (close_notifies st sid) (close_session st sid)"
| op_reset: "host_op st (reset_notifies st sid) (reset_session st sid r)"
| op_receive: "handle_incoming_frame st f = (r, st') \<Longrightarrow> host_op st (is_ok r \<and> frame_notifies st f) st'"
| op_fail: "host_op st True (host_fail st r)"

lemma host_op_inv: "host_op st n st' \<Longrightarrow> host_inv st \<Longrightarrow> host_inv st'"
  by (induction rule: host_op.induct)
     (auto intro: host_inv_open_begin host_inv_open_enqueue host_inv_open_poll host_inv_read
        host_inv_grant host_inv_write host_inv_close host_inv_reset host_inv_handle host_inv_fail)

lemma session_new_idle [simp]: "\<not> has_work session_new"
  by (simp add: session_new_def has_work_def)

lemma idle_open_begin: "open_session_begin st = (r, st') \<Longrightarrow> idle st \<Longrightarrow> idle st'"
  by (auto simp: open_session_begin_def idle_def Let_def split: option.splits if_splits)

lemma idle_open_poll:
  "open_session_poll st sid timeout to ex = Ready (r, st') \<Longrightarrow> \<not> is_open_timeout r \<Longrightarrow> idle st \<Longrightarrow> idle st'"
  by (auto simp: open_session_poll_def idle_def host_remove_session_def
      split: option.splits if_splits SessionOpenState.splits)

lemma idle_host_read:
  assumes "idle st"
  shows "host_read st sid n = ReadDone r st' \<Longrightarrow> \<not> host_read_notifies st sid n \<Longrightarrow> idle st'"
    and "host_read st sid n = Taken bs st' \<Longrightarrow> idle st'"
  using assms
  by (auto simp: host_read_def host_read_notifies_def Let_def intro: idle_put split: option.splits if_splits)

lemma idle_handle:
  assumes "handle_incoming_frame st f = (r, st')" and "\<not> (is_ok r \<and> frame_notifies st f)" and "idle st"
  shows "idle st'"
proof -
  have other: "idle (st\<lparr>timed_out_host_opens := q\<rparr>)" for q using assms(3) by (simp add: idle_def)
  show ?thesis
    using assms other
    by (cases f) (auto simp: host_sid_check_def Let_def remove_timed_out_open_def intro: idle_put
        split: option.splits if_splits sum.splits prod.splits bool.splits)
qed

lemma host_op_silent: "host_op st False st' \<Longrightarrow> idle st \<Longrightarrow> idle st'"
proof (induction st False st' rule: host_op.induct)
  case (op_open_enqueue st sid kind r st')
  then show ?case by (auto simp: open_session_enqueue_def idle_def split: option.splits if_splits)
next
  case (op_grant st sid bs r st')
  then show ?case by (auto simp: host_grant_credit_def split: option.splits if_splits)
next
  case (op_write st sid buf r st')
  then show ?case by (auto simp: host_write_def Let_def split: option.splits if_splits)
next
  case (op_close st sid)
  then show ?case by (auto simp: close_session_def close_notifies_def split: option.splits if_splits)
next
  case (op_reset st sid r)
  then show ?case by (auto simp: reset_session_def reset_notifies_def split: option.splits if_splits)
qed (auto intro: idle_open_begin idle_open_poll idle_host_read idle_handle)

interpretation host_writer: notified_writer host_new host_op host_next_outgoing host_inv idle
proof
  show "host_inv host_new" by (rule host_inv_init)
  show "host_inv st'" if "host_op st notifies st'" "host_inv st" for st notifies st'
    by (rule host_op_inv [OF that])
  show "host_inv st'" if "host_next_outgoing st = (a, st')" "host_inv st" for st a st'
    by (rule host_inv_send [OF that(2,1)])
  show "idle st'" if "host_op st False st'" "host_inv st" "idle st" for st st'
    by (rule host_op_silent [OF that(1,3)])
  show "idle st'" if "host_next_outgoing st = (Wait, st')" "host_inv st" for st st'
    using that host_end.wait_idle [OF _ host_inv_endpoint] by (simp add: host_next_outgoing_def)
qed

section \<open>The guest\<close>

definition guest_read_notifies :: "GuestMuxState \<Rightarrow> u64 \<Rightarrow> nat \<Rightarrow> bool" where
  "guest_read_notifies st sid n \<longleftrightarrow>
     n \<noteq> 0 \<and> failed st = None \<and>
     (case sessions st sid of
        None \<Rightarrow> False
      | Some s \<Rightarrow> reset_reason s = None \<and> inbound s = [] \<and> remote_fin s)"

inductive guest_op :: "GuestMuxState \<Rightarrow> bool \<Rightarrow> GuestMuxState \<Rightarrow> bool" where
  gop_accept: "guest_accept_session st = (a, st') \<Longrightarrow> guest_op st False st'"
| gop_read: "guest_read st sid n = ReadDone r st' \<Longrightarrow> guest_op st (guest_read_notifies st sid n) st'"
| gop_take: "guest_read st sid n = Taken bs st' \<Longrightarrow> guest_op st False st'"
| gop_grant: "guest_grant_credit st sid bs = Ready (r, st') \<Longrightarrow> guest_op st (is_ok r) st'"
| gop_write: "guest_write st sid buf = Ready (r, st') \<Longrightarrow> guest_op st (buf \<noteq> [] \<and> is_ok r) st'"
| gop_close: "guest_op st (close_notifies st sid) (guest_close_session st sid)"
| gop_receive: "guest_handle_incoming_frame st f = (r, st') \<Longrightarrow> guest_op st (is_ok r) st'"
| gop_fail: "guest_op st True (guest_fail st r)"

lemma guest_op_inv: "guest_op st n st' \<Longrightarrow> guest_inv st \<Longrightarrow> guest_inv st'"
  by (induction rule: guest_op.induct)
     (auto intro: guest_inv_accept guest_inv_read guest_inv_grant guest_inv_write guest_inv_close
        guest_inv_handle guest_inv_fail)

lemma idle_guest_read:
  assumes "idle st"
  shows "guest_read st sid n = ReadDone r st' \<Longrightarrow> \<not> guest_read_notifies st sid n \<Longrightarrow> idle st'"
    and "guest_read st sid n = Taken bs st' \<Longrightarrow> idle st'"
  using assms
  by (auto simp: guest_read_def guest_read_notifies_def Let_def intro: idle_put split: option.splits if_splits)

lemma guest_op_silent: "guest_op st False st' \<Longrightarrow> idle st \<Longrightarrow> idle st'"
proof (induction st False st' rule: guest_op.induct)
  case (gop_accept st a st')
  then show ?case by (auto simp: guest_accept_session_def idle_def Let_def split: if_splits list.splits)
next
  case (gop_grant st sid bs r st')
  then show ?case by (auto simp: guest_grant_credit_def split: option.splits if_splits)
next
  case (gop_write st sid buf r st')
  then show ?case by (auto simp: guest_write_def Let_def split: option.splits if_splits)
next
  case (gop_close st sid)
  then show ?case by (auto simp: guest_close_session_def close_session_def close_notifies_def split: option.splits if_splits)
next
  case (gop_receive st f r st')
  then show ?case
    by (cases f) (auto simp: guest_sid_check_def Let_def split: option.splits if_splits sum.splits)
qed (auto intro: idle_guest_read)

interpretation guest_writer: notified_writer guest_new guest_op guest_next_outgoing guest_inv idle
proof
  show "guest_inv guest_new" by (rule guest_inv_init)
  show "guest_inv st'" if "guest_op st notifies st'" "guest_inv st" for st notifies st'
    by (rule guest_op_inv [OF that])
  show "guest_inv st'" if "guest_next_outgoing st = (a, st')" "guest_inv st" for st a st'
    by (rule guest_inv_send [OF that(2,1)])
  show "idle st'" if "guest_op st False st'" "guest_inv st" "idle st" for st st'
    by (rule guest_op_silent [OF that(1,3)])
  show "idle st'" if "guest_next_outgoing st = (Wait, st')" "guest_inv st" for st st'
    using that guest_end.wait_idle [OF _ guest_inv_endpoint] by (simp add: guest_next_outgoing_def)
qed

section \<open>Properties\<close>

text \<open>C21: No wakeup of the host's writer is lost. Whatever frames a guest sends and however the threads
  interleave, when a control frame is queued, a session has bytes or a FIN to send, or the manager has failed,
  then the writer does not sleep, and its next round returns a frame, or ends the thread after a failure.\<close>

theorem host_writer_misses_no_work:
  assumes "reachable (\<lambda>s. s = (host_new, False)) (wake_step host_op host_next_outgoing) (st, asleep)"
    and "failed st \<noteq> None \<or> control_queue st \<noteq> [] \<or>
      (\<exists>sid s. sessions st sid = Some s \<and> (outbound s \<noteq> [] \<or> (local_fin s \<and> \<not> fin_sent s)))"
  shows "\<not> asleep \<and> (if failed st = None then \<exists>f. fst (host_next_outgoing st) = Ready (Some f)
    else fst (host_next_outgoing st) = Ready None)"
proof -
  note writer = host_writer.sleeping_writer [OF assms(1)]
  have "\<not> asleep" using writer(2) assms(2) by (auto simp: idle_def has_work_def)
  moreover have "\<exists>f. fst (host_next_outgoing st) = Ready (Some f)" if "failed st = None"
    unfolding host_next_outgoing_def
    by (rule host_end.next_outgoing_progress [OF host_inv_endpoint [OF writer(1)] that])
       (use assms(2) that in \<open>auto simp: has_work_def\<close>)
  ultimately show ?thesis by (simp add: host_next_outgoing_def next_outgoing_frame_def)
qed

theorem host_writer_misses_no_work_witness:
  "\<exists>st. reachable (\<lambda>s. s = (host_new, False)) (wake_step host_op host_next_outgoing) (host_new, True)
     \<and> reachable (\<lambda>s. s = (host_new, False)) (wake_step host_op host_next_outgoing) (st, False)
     \<and> control_queue st = [Open 1 (metadata_of Exec)] \<and> (\<exists>f. fst (host_next_outgoing st) = Ready (Some f))"
proof -
  let ?R = "reachable (\<lambda>s. s = (host_new, False)) (wake_step host_op host_next_outgoing)"
  let ?st1 = "snd (open_session_begin host_new)"
  let ?st = "push_control ?st1 (Open 1 (metadata_of Exec))"
  have "host_next_outgoing host_new = (Wait, host_new)"
    by (simp add: host_next_outgoing_def next_outgoing_frame_def host_new_def)
  moreover have "?R (host_new, False)" by (rule reach_init) simp
  ultimately have r0: "?R (host_new, True)" by (blast intro: reach_step wake_wait)
  have "host_op host_new False ?st1" by (rule op_open_begin [where r = "Inr 1"])
      (simp add: open_session_begin_def host_new_def checked_add_def Let_def)
  then have "wake_step host_op host_next_outgoing (host_new, True) (?st1, True)" by (rule op_lets_sleep)
  with r0 have r1: "?R (?st1, True)" by (rule reach_step)
  have "open_session_enqueue ?st1 1 Exec = Ready (Ok (), ?st)"
    by (simp add: open_session_begin_def open_session_enqueue_def host_new_def checked_add_def Let_def
        MAX_CONTROL_QUEUE_FRAMES_def)
  then have "host_op ?st1 True ?st" by (auto dest: op_open_enqueue)
  then have "wake_step host_op host_next_outgoing (?st1, True) (?st, False)" by (rule op_wakes)
  with r1 have r: "?R (?st, False)" by (rule reach_step)
  have "failed ?st = None" and q: "control_queue ?st = [Open 1 (metadata_of Exec)]"
    by (simp_all add: open_session_begin_def host_new_def checked_add_def Let_def)
  then have "\<exists>f. fst (host_next_outgoing ?st) = Ready (Some f)"
    using host_writer_misses_no_work [OF r] by (metis list.distinct(1))
  with r0 r q show ?thesis by blast
qed

text \<open>C20: The guest's mux, against any host: bounded queues, sessions only under ids a host may choose, and no
  wakeup of the writer lost: when it has a control frame, bytes or a FIN to send, or the mux has failed, it does
  not sleep, and its next round returns a frame, or ends the thread after a failure.\<close>

theorem guest_mux_sound:
  assumes "reachable (\<lambda>s. s = (guest_new, False)) (wake_step guest_op guest_next_outgoing) (st, asleep)"
  shows "length (control_queue st) \<le> 128 \<and>
    (\<forall>sid s. sessions st sid = Some s \<longrightarrow>
       is_host_session_id sid \<and> length (inbound s) \<le> 262144 \<and>
       length (concat (outbound s)) \<le> 262144 \<and> outbound_bytes s = length (concat (outbound s))) \<and>
    (failed st = None \<and> (control_queue st \<noteq> [] \<or> (\<exists>sid s. sessions st sid = Some s \<and> has_work s)) \<longrightarrow>
       \<not> asleep \<and> (\<exists>f. fst (guest_next_outgoing st) = Ready (Some f))) \<and>
    (failed st \<noteq> None \<longrightarrow> \<not> asleep \<and> fst (guest_next_outgoing st) = Ready None)"
proof -
  note writer = guest_writer.sleeping_writer [OF assms]
  have "failed st = None \<and> (control_queue st \<noteq> [] \<or> (\<exists>sid s. sessions st sid = Some s \<and> has_work s)) \<longrightarrow>
       \<not> asleep \<and> (\<exists>f. fst (guest_next_outgoing st) = Ready (Some f))"
    unfolding guest_next_outgoing_def
    using guest_end.next_outgoing_progress [OF guest_inv_endpoint [OF writer(1)]] writer(2) by (auto simp: idle_def)
  moreover have "failed st \<noteq> None \<longrightarrow> \<not> asleep \<and> fst (guest_next_outgoing st) = Ready None"
    using writer(2) by (auto simp: idle_def guest_next_outgoing_def next_outgoing_frame_def)
  moreover have "is_host_session_id sid" if "sessions st sid = Some s" for sid s
    using writer(1) that by (simp add: guest_inv_def)
  ultimately show ?thesis
    using endpoint_ok_bounds [OF guest_inv_endpoint [OF writer(1)]] by blast
qed

theorem guest_mux_sound_witness:
  "\<exists>st s f. reachable (\<lambda>s. s = (guest_new, False)) (wake_step guest_op guest_next_outgoing) (guest_new, True)
     \<and> reachable (\<lambda>s. s = (guest_new, False)) (wake_step guest_op guest_next_outgoing) (st, False)
     \<and> sessions st 1 = Some s \<and> length (inbound s) \<le> 262144 \<and> is_host_session_id 1
     \<and> control_queue st \<noteq> [] \<and> fst (guest_next_outgoing st) = Ready (Some f)"
proof -
  let ?R = "reachable (\<lambda>s. s = (guest_new, False)) (wake_step guest_op guest_next_outgoing)"
  have "guest_next_outgoing guest_new = (Wait, guest_new)"
    by (simp add: guest_next_outgoing_def next_outgoing_frame_def guest_new_def)
  moreover have "?R (guest_new, False)" by (rule reach_init) simp
  ultimately have r0: "?R (guest_new, True)" by (blast intro: reach_step wake_wait)
  obtain st where st: "guest_handle_incoming_frame guest_new (Open 1 (str ''exec'')) = (Ok (), st)"
      "sessions st 1 = Some guest_session_new" "control_queue st \<noteq> []" "failed st = None"
    by (simp add: guest_sid_check_def validate_host_session_id_def is_host_session_id_def guest_new_def
        MAX_CONTROL_QUEUE_FRAMES_def guest_mux_metadata_supported_def)
  have "guest_op guest_new True st" using gop_receive [OF st(1)] by simp
  then have "wake_step guest_op guest_next_outgoing (guest_new, True) (st, False)" by (rule op_wakes)
  with r0 have r: "?R (st, False)" by (rule reach_step)
  with r0 st guest_mux_sound [OF r] show ?thesis by blast
qed

end
