(* ===== verification/Rust_Map.thy ===== *)
theory Rust_Map
  imports LSB_Prelude "HOL-Library.AList" "HOL-Library.Multiset"
begin

text \<open>
  \<^verbatim>\<open>HashMap\<close> as the source uses it. A map the code iterates over is the association list of its
  entries in some order, updated with \<^const>\<open>AList.update\<close> and \<^const>\<open>AList.delete\<close>; a map of
  counters the code only reads and updates by key is a partial function. What the components count
  in a map is a multiset of its entries.
\<close>

type_synonym ('k, 'v) hash_map = "('k \<times> 'v) list"

abbreviation hm_wf :: "('k, 'v) hash_map \<Rightarrow> bool" where
  "hm_wf m \<equiv> distinct (map fst m)"

lemma hm_lookup_mem: "hm_wf m \<Longrightarrow> map_of m k = Some v \<longleftrightarrow> (k, v) \<in> set m"
  by (simp add: map_of_eq_Some_iff)

lemma hm_delete_absent: "map_of m k = None \<Longrightarrow> AList.delete k m = m"
  by (force simp: AList.delete_eq map_of_eq_None_iff filter_id_conv)

lemma hm_update_absent: "map_of m k = None \<Longrightarrow> AList.update k v m = m @ [(k, v)]"
  by (induction m) auto

lemma hm_delete_lookup: "map_of (AList.delete k m) = (map_of m)(k := None)"
  by (rule AList.delete_conv')

lemma hm_update_lookup: "map_of (AList.update k v m) = (map_of m)(k \<mapsto> v)"
  by (rule AList.update_conv')

lemma hm_wf_update [simp]: "hm_wf m \<Longrightarrow> hm_wf (AList.update k v m)"
  by (rule AList.distinct_update)

lemma hm_wf_delete [simp]: "hm_wf m \<Longrightarrow> hm_wf (AList.delete k m)"
  by (rule AList.distinct_delete)

text \<open>The multiset of the entries of a map, and how the operations change it.\<close>

lemma hm_mset_split:
  "hm_wf m \<Longrightarrow> map_of m k = Some v \<Longrightarrow> mset m = add_mset (k, v) (mset (AList.delete k m))"
proof (induction m)
  case (Cons p m)
  obtain a b where p: "p = (a, b)" by (cases p)
  show ?case
  proof (cases "a = k")
    case True
    with Cons.prems have "map_of m k = None" by (simp add: p map_of_eq_None_iff)
    with Cons.prems True show ?thesis by (simp add: p hm_delete_absent)
  next
    case False
    with Cons show ?thesis by (simp add: p)
  qed
qed simp

lemma hm_mset_update:
  assumes "hm_wf m"
  shows "mset (AList.update k v m) = add_mset (k, v) (mset (AList.delete k m))"
proof -
  have "mset (AList.delete k (AList.update k v m)) = mset (AList.delete k m)"
    by (induction m) auto
  then show ?thesis
    using hm_mset_split [of "AList.update k v m" k v] assms by (simp add: hm_update_lookup)
qed

lemma hm_update_delete_mset:
  assumes "hm_wf m" and "map_of m k = Some v"
  shows "mset (AList.update k v' m) + {#(k, v)#} = add_mset (k, v') (mset m)"
  using assms by (simp add: hm_mset_update hm_mset_split)

text \<open>A value that every key of a map has been mapped to.\<close>

lemma hm_map_values_lookup: "map_of (map (\<lambda>(k, v). (k, f v)) m) k = map_option f (map_of m k)"
  by (induction m) auto

lemma hm_map_values_keys [simp]: "map fst (map (\<lambda>(k, v). (k, f v)) m) = map fst m"
  by (induction m) auto

lemma hm_wf_filter [simp]: "hm_wf m \<Longrightarrow> hm_wf (filter P m)"
  by (rule distinct_map_filter)

lemma hm_filter_lookup: "hm_wf m \<Longrightarrow> map_of (filter P m) k = Some v \<Longrightarrow> map_of m k = Some v"
  using hm_lookup_mem [of "filter P m" k v] hm_lookup_mem [of m k v] by (simp add: distinct_map_filter)

text \<open>\<^verbatim>\<open>counts.get(key).copied().unwrap_or(0)\<close>.\<close>

definition count_of :: "('k \<rightharpoonup> 'v::zero) \<Rightarrow> 'k \<Rightarrow> 'v" where
  "count_of m k = (case m k of None \<Rightarrow> 0 | Some n \<Rightarrow> n)"

lemma count_of_upd [simp]: "count_of (m(k \<mapsto> v)) k' = (if k' = k then v else count_of m k')"
  by (simp add: count_of_def)

lemma count_of_remove [simp]: "count_of (m(k := None)) k' = (if k' = k then 0 else count_of m k')"
  by (simp add: count_of_def)

lemma count_of_empty [simp]: "count_of Map.empty k = 0"
  by (simp add: count_of_def)

end
