(* ===== verification/Rust_Text.thy ===== *)
theory Rust_Text
  imports LSB_Prelude
begin

text \<open>
  The operations of Rust's \<^verbatim>\<open>str\<close> that the validators use: the characters of a UTF-8 string,
  \<^verbatim>\<open>char::is_control\<close> and \<^verbatim>\<open>char::is_whitespace\<close>, \<^verbatim>\<open>trim\<close>, \<^verbatim>\<open>split\<close>, \<^verbatim>\<open>contains\<close>,
  \<^verbatim>\<open>is_char_boundary\<close> and the parsing of hexadecimal digits.
\<close>

section \<open>Characters\<close>

text \<open>The code points of a valid UTF-8 string; the value on other byte lists is of no interest.\<close>

fun utf8_chars :: "bytes \<Rightarrow> nat list" where
  "utf8_chars [] = []"
| "utf8_chars (b # bs) =
     (if unat b < 128 then unat b # utf8_chars bs
      else if unat b < 224 then
        (case bs of c1 # r \<Rightarrow> ((unat b - 192) * 64 + (unat c1 - 128)) # utf8_chars r | _ \<Rightarrow> [])
      else if unat b < 240 then
        (case bs of c1 # c2 # r \<Rightarrow>
           (((unat b - 224) * 64 + (unat c1 - 128)) * 64 + (unat c2 - 128)) # utf8_chars r
         | _ \<Rightarrow> [])
      else
        (case bs of c1 # c2 # c3 # r \<Rightarrow>
           ((((unat b - 240) * 64 + (unat c1 - 128)) * 64 + (unat c2 - 128)) * 64 + (unat c3 - 128))
             # utf8_chars r
         | _ \<Rightarrow> []))"

text \<open>The general category Cc and the property \<^verbatim>\<open>White_Space\<close> of Unicode.\<close>

definition is_control :: "nat \<Rightarrow> bool" where
  "is_control c \<longleftrightarrow> c \<le> 31 \<or> (127 \<le> c \<and> c \<le> 159)"

definition is_whitespace :: "nat \<Rightarrow> bool" where
  "is_whitespace c \<longleftrightarrow>
     (9 \<le> c \<and> c \<le> 13) \<or> (0x2000 \<le> c \<and> c \<le> 0x200A) \<or>
     c \<in> {0x20, 0x85, 0xA0, 0x1680, 0x2028, 0x2029, 0x202F, 0x205F, 0x3000}"

definition str_trim :: "bytes \<Rightarrow> nat list" where
  "str_trim s = rev (dropWhile is_whitespace (rev (dropWhile is_whitespace (utf8_chars s))))"

section \<open>Searching and splitting\<close>

fun contains_bytes :: "bytes \<Rightarrow> bytes \<Rightarrow> bool" where
  "contains_bytes pat [] = (pat = [])"
| "contains_bytes pat (b # bs) = (prefix pat (b # bs) \<or> contains_bytes pat bs)"

definition starts_with :: "bytes \<Rightarrow> bytes \<Rightarrow> bool" where
  "starts_with s pat = prefix pat s"

definition ends_with :: "bytes \<Rightarrow> bytes \<Rightarrow> bool" where
  "ends_with s pat = suffix pat s"

fun split_on :: "byte \<Rightarrow> bytes \<Rightarrow> bytes list" where
  "split_on c [] = [[]]"
| "split_on c (b # bs) =
     (if b = c then [] # split_on c bs
      else (case split_on c bs of p # ps \<Rightarrow> (b # p) # ps | [] \<Rightarrow> [[b]]))"

fun join_with :: "byte \<Rightarrow> bytes list \<Rightarrow> bytes" where
  "join_with c [] = []"
| "join_with c [p] = p"
| "join_with c (p # q # ps) = p @ c # join_with c (q # ps)"

lemma split_on_nonempty [simp]: "split_on c bs \<noteq> []"
  by (induction bs) (auto split: list.splits)

lemma join_split: "join_with c (split_on c bs) = bs"
proof (induction bs)
  case (Cons b bs)
  obtain p ps where "split_on c bs = p # ps" by (cases "split_on c bs") auto
  with Cons show ?case by (cases ps) auto
qed simp

lemma split_on_parts: "p \<in> set (split_on c bs) \<Longrightarrow> c \<notin> set p"
proof (induction bs arbitrary: p)
  case (Cons b bs)
  obtain q qs where "split_on c bs = q # qs" by (cases "split_on c bs") auto
  with Cons show ?case by (auto split: if_splits)
qed simp

lemma split_on_append: "c \<notin> set p \<Longrightarrow> split_on c (p @ c # bs) = p # split_on c bs"
  by (induction p) auto

lemma split_on_single: "c \<notin> set p \<Longrightarrow> split_on c p = [p]"
  by (induction p) auto

lemma split_join: "ps \<noteq> [] \<Longrightarrow> \<forall>p \<in> set ps. c \<notin> set p \<Longrightarrow> split_on c (join_with c ps) = ps"
  by (induction ps rule: join_with.induct) (auto simp: split_on_append split_on_single)

lemma contains_single: "contains_bytes [c] bs \<longleftrightarrow> c \<in> set bs"
  by (induction bs) auto

lemma contains_bytes_append: "contains_bytes pat (xs @ pat @ ys)"
proof (induction xs)
  case Nil
  have "prefix pat (pat @ ys)" by simp
  then show ?case by (cases "pat @ ys") (auto simp del: append_prefixD)
next
  case (Cons x xs)
  then show ?case by simp
qed

lemma contains_bytesD: "contains_bytes pat bs \<Longrightarrow> \<exists>xs ys. bs = xs @ pat @ ys"
proof (induction bs)
  case (Cons b bs)
  from Cons.prems show ?case
  proof (cases "prefix pat (b # bs)")
    case True
    then show ?thesis by (auto simp: prefix_def intro: exI [of _ "[]"])
  next
    case False
    with Cons obtain xs ys where "bs = xs @ pat @ ys" by auto
    then show ?thesis by (auto intro: exI [of _ "b # xs"])
  qed
qed simp

section \<open>Cutting a string at a character boundary\<close>

definition is_char_boundary :: "bytes \<Rightarrow> nat \<Rightarrow> bool" where
  "is_char_boundary s n \<longleftrightarrow>
     n = 0 \<or> n = length s \<or> (n < length s \<and> \<not> in_range 128 191 (s ! n))"

text \<open>The loop that moves an index back to a boundary, and the cut there.\<close>

fun boundary_before :: "bytes \<Rightarrow> nat \<Rightarrow> nat" where
  "boundary_before s 0 = 0"
| "boundary_before s (Suc n) = (if is_char_boundary s (Suc n) then Suc n else boundary_before s n)"

lemma boundary_before_le: "boundary_before s n \<le> n"
  by (induction n) (auto intro: le_SucI)

lemma boundary_before_boundary: "is_char_boundary s (boundary_before s n)"
  by (induction n) (auto simp: is_char_boundary_def)

text \<open>A valid string is a first character, whose bytes after the first are continuation bytes, and a
  valid rest.\<close>

lemma utf8_first_char:
  assumes "utf8_valid s" and "s \<noteq> []"
  obtains ch r where "s = ch @ r" and "ch \<noteq> []" and "utf8_valid r"
    and "list_all (in_range 128 191) (tl ch)" and "\<And>t. utf8_valid (ch @ t) = utf8_valid t"
proof (cases s)
  case Nil
  with assms(2) show ?thesis by simp
next
  case (Cons b bs)
  have sub: "in_range 160 191 c \<Longrightarrow> in_range 128 191 c" "in_range 128 159 c \<Longrightarrow> in_range 128 191 c"
    "in_range 144 191 c \<Longrightarrow> in_range 128 191 c" "in_range 128 143 c \<Longrightarrow> in_range 128 191 c" for c
    by (auto simp: in_range_def)
  consider (one) "in_range 0 127 b" | (two) "\<not> in_range 0 127 b" "in_range 194 223 b"
    | (three) "\<not> in_range 0 127 b" "\<not> in_range 194 223 b" "in_range 224 239 b"
    | (four) "\<not> in_range 0 127 b" "\<not> in_range 194 223 b" "\<not> in_range 224 239 b" "in_range 240 244 b"
    using assms(1) Cons by (auto split: if_splits)
  then show ?thesis
  proof cases
    case one
    with assms(1) Cons show ?thesis by (intro that [of "[b]" bs]) auto
  next
    case two
    with assms(1) Cons obtain c r where "bs = c # r" "in_range 128 191 c" "utf8_valid r"
      by (auto split: list.splits)
    with two Cons show ?thesis by (intro that [of "[b, c]" r]) auto
  next
    case three
    with assms(1) Cons obtain c d r where "bs = c # d # r" "in_range 128 191 d" "utf8_valid r"
        "if unat b = 224 then in_range 160 191 c else if unat b = 237 then in_range 128 159 c
         else in_range 128 191 c"
      by (auto split: list.splits)
    with three Cons show ?thesis
      by (intro that [of "[b, c, d]" r]) (auto split: if_splits intro: sub)
  next
    case four
    with assms(1) Cons obtain c d e r where "bs = c # d # e # r" "in_range 128 191 d"
        "in_range 128 191 e" "utf8_valid r"
        "if unat b = 240 then in_range 144 191 c else if unat b = 244 then in_range 128 143 c
         else in_range 128 191 c"
      by (auto split: list.splits)
    with four Cons show ?thesis
      by (intro that [of "[b, c, d, e]" r]) (auto split: if_splits intro: sub)
  qed
qed

lemma utf8_valid_take:
  "utf8_valid s \<Longrightarrow> is_char_boundary s n \<Longrightarrow> utf8_valid (take n s)"
proof (induction "length s" arbitrary: s n rule: less_induct)
  case less
  show ?case
  proof (cases "s = [] \<or> n = 0")
    case False
    then obtain ch r where s: "s = ch @ r" "ch \<noteq> []" "utf8_valid r"
      and cont: "list_all (in_range 128 191) (tl ch)" and val: "\<And>t. utf8_valid (ch @ t) = utf8_valid t"
      using utf8_first_char [OF less.prems(1)] by metis
    have "length ch \<le> n"
    proof (rule ccontr)
      assume "\<not> length ch \<le> n"
      with False have "s ! n = tl ch ! (n - 1)" "n - 1 < length (tl ch)"
        using s(1) by (auto simp: nth_append nth_tl)
      with cont have "in_range 128 191 (s ! n)" by (auto simp: list_all_length)
      with less.prems(2) False s(1) \<open>\<not> length ch \<le> n\<close> show False by (auto simp: is_char_boundary_def)
    qed
    then have "is_char_boundary r (n - length ch)"
      using less.prems(2) s by (auto simp: is_char_boundary_def nth_append)
    with less.hyps [of r] s have "utf8_valid (take (n - length ch) r)" by simp
    with val s(1) \<open>length ch \<le> n\<close> show ?thesis by simp
  qed auto
qed

end
