(* ===== verification/Service_Proto.thy ===== *)
theory Service_Proto
  imports Wire_Frame Rust_Text
begin

text \<open>
  The framing of the service protocol between a client and the Windows service,
  \<^verbatim>\<open>crates/lsb-service-proto/src\<close>: the 32-byte frame header and frames (\<^verbatim>\<open>frame.rs\<close>), sequenced
  stream payloads, version negotiation and hexadecimal numbers (\<^verbatim>\<open>version.rs\<close>), error codes and
  bounded messages (\<^verbatim>\<open>error.rs\<close>) and the limits (\<^verbatim>\<open>limits.rs\<close>). The header's decoder is shown to
  be the inverse of its encoder, and the frames interpret the stream interface of \<open>Wire_Frame\<close>.
\<close>

section \<open>Limits\<close>

definition HEADER_LEN :: nat where "HEADER_LEN = 32"
definition MAX_CONTROL_PAYLOAD :: nat where "MAX_CONTROL_PAYLOAD = 256 * 1024"
definition MAX_STREAM_PAYLOAD :: nat where "MAX_STREAM_PAYLOAD = 64 * 1024"
definition STREAM_SEQUENCE_LEN :: nat where "STREAM_SEQUENCE_LEN = 8"
definition MAX_FILE_TRANSFER_BYTES :: nat where "MAX_FILE_TRANSFER_BYTES = 64 * 1024 * 1024"
definition MAX_JSON_DEPTH :: nat where "MAX_JSON_DEPTH = 32"
definition MAX_STRING_LEN :: nat where "MAX_STRING_LEN = 32 * 1024"

lemmas service_limits =
  HEADER_LEN_def MAX_CONTROL_PAYLOAD_def MAX_STREAM_PAYLOAD_def STREAM_SEQUENCE_LEN_def
  MAX_FILE_TRANSFER_BYTES_def MAX_JSON_DEPTH_def MAX_STRING_LEN_def

section \<open>Errors\<close>

datatype ProtocolError =
    InvalidMagic
  | InvalidHeaderVersion
  | InvalidKind
  | InvalidFlags
  | MessageTooLarge
  | TruncatedFrame
  | InvalidUtf8
  | JsonTooDeep
  | InvalidJson
  | InvalidVersionRange
  | IncompatibleProtocol

datatype ErrorCode =
    AccessDenied | ClientNotTrusted | ServerNotTrusted | ServiceUnavailable | ServiceDraining
  | Code_IncompatibleProtocol | LedgerSchemaIncompatible | Code_ProtocolError | InvalidRequest
  | InvalidSequence | Code_MessageTooLarge | DuplicateRequest | RequestNotActive | ResourceNotFound
  | QuotaExceeded | Code_DeadlineExceeded | Code_Cancelled | CancellationTooLate | OutputLimit
  | OutputBackpressure | PathPolicyDenied | PathChanged | MountPathBecameUnsafe | MountConflict
  | MountUnavailable | MountInvalid | MountLimitExceeded | CheckpointUnsupported
  | StartResultExpired | NetworkPolicyDenied | PortIsolationUnavailable | BundleInvalid
  | InternalError

fun error_code_as_str :: "ErrorCode \<Rightarrow> string" where
  "error_code_as_str AccessDenied = ''ACCESS_DENIED''"
| "error_code_as_str ClientNotTrusted = ''CLIENT_NOT_TRUSTED''"
| "error_code_as_str ServerNotTrusted = ''SERVER_NOT_TRUSTED''"
| "error_code_as_str ServiceUnavailable = ''SERVICE_UNAVAILABLE''"
| "error_code_as_str ServiceDraining = ''SERVICE_DRAINING''"
| "error_code_as_str Code_IncompatibleProtocol = ''INCOMPATIBLE_PROTOCOL''"
| "error_code_as_str LedgerSchemaIncompatible = ''LEDGER_SCHEMA_INCOMPATIBLE''"
| "error_code_as_str Code_ProtocolError = ''PROTOCOL_ERROR''"
| "error_code_as_str InvalidRequest = ''INVALID_REQUEST''"
| "error_code_as_str InvalidSequence = ''INVALID_SEQUENCE''"
| "error_code_as_str Code_MessageTooLarge = ''MESSAGE_TOO_LARGE''"
| "error_code_as_str DuplicateRequest = ''DUPLICATE_REQUEST''"
| "error_code_as_str RequestNotActive = ''REQUEST_NOT_ACTIVE''"
| "error_code_as_str ResourceNotFound = ''RESOURCE_NOT_FOUND''"
| "error_code_as_str QuotaExceeded = ''QUOTA_EXCEEDED''"
| "error_code_as_str Code_DeadlineExceeded = ''DEADLINE_EXCEEDED''"
| "error_code_as_str Code_Cancelled = ''CANCELLED''"
| "error_code_as_str CancellationTooLate = ''CANCELLATION_TOO_LATE''"
| "error_code_as_str OutputLimit = ''OUTPUT_LIMIT''"
| "error_code_as_str OutputBackpressure = ''OUTPUT_BACKPRESSURE''"
| "error_code_as_str PathPolicyDenied = ''PATH_POLICY_DENIED''"
| "error_code_as_str PathChanged = ''PATH_CHANGED''"
| "error_code_as_str MountPathBecameUnsafe = ''MOUNT_PATH_BECAME_UNSAFE''"
| "error_code_as_str MountConflict = ''MOUNT_CONFLICT''"
| "error_code_as_str MountUnavailable = ''MOUNT_UNAVAILABLE''"
| "error_code_as_str MountInvalid = ''MOUNT_INVALID''"
| "error_code_as_str MountLimitExceeded = ''MOUNT_LIMIT_EXCEEDED''"
| "error_code_as_str CheckpointUnsupported = ''CHECKPOINT_UNSUPPORTED''"
| "error_code_as_str StartResultExpired = ''START_RESULT_EXPIRED''"
| "error_code_as_str NetworkPolicyDenied = ''NETWORK_POLICY_DENIED''"
| "error_code_as_str PortIsolationUnavailable = ''PORT_ISOLATION_UNAVAILABLE''"
| "error_code_as_str BundleInvalid = ''BUNDLE_INVALID''"
| "error_code_as_str InternalError = ''INTERNAL_ERROR''"

record ErrorEnvelope =
  env_code :: ErrorCode
  env_message :: bytes
  retryable :: bool
  retry_after_ms :: "u32 option"
  correlation_id :: bytes

definition safe_text :: "ErrorCode \<Rightarrow> string \<times> bool" where
  "safe_text code =
     (case code of
        ServiceUnavailable \<Rightarrow> (''The LocalSandbox service is unavailable.'', True)
      | ServiceDraining \<Rightarrow> (''The LocalSandbox service is stopping.'', True)
      | Code_IncompatibleProtocol \<Rightarrow> (''SeaWork and LocalSandbox require an update.'', False)
      | PortIsolationUnavailable \<Rightarrow> (''Isolated host ports are unavailable.'', False)
      | CheckpointUnsupported \<Rightarrow>
          (''Sandbox checkpoints are not supported by the SeaWork service. Start a new sandbox without 'from'.'', False)
      | StartResultExpired \<Rightarrow>
          (''The original sandbox start is unavailable on this connection and cannot be adopted. If its connection closed, it was cleaned up. Start again with a new instanceId.'', False)
      | CancellationTooLate \<Rightarrow>
          (''The operation has crossed its commit point and will return its actual result.'', False)
      | AccessDenied \<Rightarrow> (''Access was denied.'', False)
      | ClientNotTrusted \<Rightarrow> (''Access was denied.'', False)
      | InvalidRequest \<Rightarrow> (''The request was invalid.'', False)
      | Code_ProtocolError \<Rightarrow> (''The request was invalid.'', False)
      | MountInvalid \<Rightarrow> (''The mount tree is invalid.'', False)
      | MountLimitExceeded \<Rightarrow> (''The mount tree exceeds service limits.'', False)
      | _ \<Rightarrow> (''The LocalSandbox operation failed.'', False))"

definition safe_envelope :: "ErrorCode \<Rightarrow> bytes \<Rightarrow> ErrorEnvelope" where
  "safe_envelope code correlation =
     \<lparr>env_code = code, env_message = str (fst (safe_text code)), retryable = snd (safe_text code),
      retry_after_ms = None, correlation_id = correlation\<rparr>"

definition bounded_message :: "bytes \<Rightarrow> bytes" where
  "bounded_message msg =
     (let msg = concat (map (\<lambda>b. if b = 0 then str ''<nul>'' else [b]) msg) in
      if length msg \<le> MAX_STRING_LEN then msg
      else take (boundary_before msg MAX_STRING_LEN) msg)"

text \<open>The assertion on the code makes the call panic: the result is \<open>None\<close>.\<close>

definition mount_failure :: "ErrorCode \<Rightarrow> bytes \<Rightarrow> bytes \<Rightarrow> ErrorEnvelope option" where
  "mount_failure code msg correlation =
     (if code \<in> {MountUnavailable, MountInvalid, MountLimitExceeded}
      then Some \<lparr>env_code = code, env_message = bounded_message msg, retryable = False,
                 retry_after_ms = None, correlation_id = correlation\<rparr>
      else None)"

section \<open>Versions\<close>

record ProtocolVersion =
  v_major :: u16
  v_minor :: u16

record ProtocolRange =
  r_major :: u16
  min_minor :: u16
  max_minor :: u16

definition SUPPORTED :: ProtocolRange where
  "SUPPORTED = \<lparr>r_major = 1, min_minor = 0, max_minor = 8\<rparr>"

definition validate_range :: "ProtocolRange \<Rightarrow> (ProtocolRange, ProtocolError) result" where
  "validate_range r = (if min_minor r > max_minor r then Err InvalidVersionRange else Ok r)"

definition negotiate :: "ProtocolRange \<Rightarrow> ProtocolRange \<Rightarrow> (ProtocolVersion, ProtocolError) result" where
  "negotiate service client =
     and_then (validate_range service) (\<lambda>_.
     and_then (validate_range client) (\<lambda>_.
       if r_major service \<noteq> r_major client then Err IncompatibleProtocol
       else let mn = max (min_minor service) (min_minor client);
                mx = min (max_minor service) (max_minor client) in
            if mn > mx then Err IncompatibleProtocol
            else Ok \<lparr>v_major = r_major service, v_minor = mx\<rparr>))"

section \<open>Hexadecimal numbers\<close>

text \<open>\<^verbatim>\<open>{:0nx}\<close> on a number of at most \<open>4 * n\<close> bits, and \<^verbatim>\<open>from_str_radix(.., 16)\<close> on hexadecimal
  digits.\<close>

fun hex_fixed :: "nat \<Rightarrow> nat \<Rightarrow> bytes" where
  "hex_fixed 0 v = []"
| "hex_fixed (Suc n) v = hex_fixed n (v div 16) @ [hex_digit (v mod 16)]"

definition hex_number :: "bytes \<Rightarrow> nat" where
  "hex_number bs = foldl (\<lambda>acc b. acc * 16 + hex_value b) 0 bs"

definition hex_u64_display :: "u64 \<Rightarrow> bytes" where
  "hex_u64_display x = hex_fixed 16 (unat x)"

definition hex_u64_deserialize :: "bytes \<Rightarrow> u64 option" where
  "hex_u64_deserialize value =
     (if \<not> is_lower_hex value 16 then None else Some (of_nat (hex_number value)))"

section \<open>Frames\<close>

definition MAGIC :: bytes where "MAGIC = str ''LSBS''"
definition HEADER_VERSION :: byte where "HEADER_VERSION = 1"

definition encode_stream_payload :: "u64 \<Rightarrow> bytes \<Rightarrow> (bytes, ProtocolError) result" where
  "encode_stream_payload sequence bs =
     (if length bs + STREAM_SEQUENCE_LEN > MAX_STREAM_PAYLOAD then Err MessageTooLarge
      else Ok (to_le_bytes 8 sequence @ bs))"

definition decode_stream_payload :: "bytes \<Rightarrow> (u64 \<times> bytes, ProtocolError) result" where
  "decode_stream_payload p =
     (if length p < STREAM_SEQUENCE_LEN \<or> length p > MAX_STREAM_PAYLOAD then Err TruncatedFrame
      else Ok (from_le_bytes (take STREAM_SEQUENCE_LEN p), drop STREAM_SEQUENCE_LEN p))"

datatype FrameKind =
    Hello_Frame | Request_Frame | Response_Frame | Event_Frame | StreamData_Frame
  | WindowUpdate_Frame | Cancel_Frame | Close_Frame

fun kind_byte :: "FrameKind \<Rightarrow> byte" where
  "kind_byte Hello_Frame = 1"
| "kind_byte Request_Frame = 2"
| "kind_byte Response_Frame = 3"
| "kind_byte Event_Frame = 4"
| "kind_byte StreamData_Frame = 5"
| "kind_byte WindowUpdate_Frame = 6"
| "kind_byte Cancel_Frame = 7"
| "kind_byte Close_Frame = 8"

definition kind_try_from :: "byte \<Rightarrow> (FrameKind, ProtocolError) result" where
  "kind_try_from v =
     (if v = 1 then Ok Hello_Frame
      else if v = 2 then Ok Request_Frame
      else if v = 3 then Ok Response_Frame
      else if v = 4 then Ok Event_Frame
      else if v = 5 then Ok StreamData_Frame
      else if v = 6 then Ok WindowUpdate_Frame
      else if v = 7 then Ok Cancel_Frame
      else if v = 8 then Ok Close_Frame
      else Err InvalidKind)"

record Correlation =
  high :: u64
  low :: u64

record FrameHeader =
  kind :: FrameKind
  flags :: u16
  protocol :: ProtocolVersion
  payload_len :: u32
  correlation :: Correlation

definition validate_header :: "FrameHeader \<Rightarrow> (unit, ProtocolError) result" where
  "validate_header h =
     (if flags h \<noteq> 0 then Err InvalidFlags
      else let maximum = (if kind h = StreamData_Frame then MAX_STREAM_PAYLOAD else MAX_CONTROL_PAYLOAD) in
           if unat (payload_len h) > maximum then Err MessageTooLarge else Ok ())"

definition encode_header :: "FrameHeader \<Rightarrow> (bytes, ProtocolError) result" where
  "encode_header h =
     and_then (validate_header h) (\<lambda>_.
       Ok (MAGIC @ [HEADER_VERSION, kind_byte (kind h)] @ to_le_bytes 2 (flags h)
           @ to_le_bytes 2 (v_major (protocol h)) @ to_le_bytes 2 (v_minor (protocol h))
           @ to_le_bytes 4 (payload_len h)
           @ to_le_bytes 8 (high (correlation h)) @ to_le_bytes 8 (low (correlation h))))"

text \<open>The slice \<^verbatim>\<open>bytes[a..b]\<close>; the decoder's argument is an array of 32 bytes.\<close>

definition slice :: "nat \<Rightarrow> nat \<Rightarrow> bytes \<Rightarrow> bytes" where
  "slice a b bs = take (b - a) (drop a bs)"

definition decode_header :: "bytes \<Rightarrow> (FrameHeader, ProtocolError) result" where
  "decode_header bs =
     (if slice 0 4 bs \<noteq> MAGIC then Err InvalidMagic
      else if bs ! 4 \<noteq> HEADER_VERSION then Err InvalidHeaderVersion
      else and_then (kind_try_from (bs ! 5)) (\<lambda>k.
        let h = \<lparr>kind = k, flags = from_le_bytes (slice 6 8 bs),
                 protocol = \<lparr>v_major = from_le_bytes (slice 8 10 bs),
                             v_minor = from_le_bytes (slice 10 12 bs)\<rparr>,
                 payload_len = from_le_bytes (slice 12 16 bs),
                 correlation = \<lparr>high = from_le_bytes (slice 16 24 bs),
                                low = from_le_bytes (slice 24 32 bs)\<rparr>\<rparr> in
        and_then (validate_header h) (\<lambda>_. Ok h)))"

record Frame =
  header :: FrameHeader
  frame_payload :: bytes

definition write_to :: "Frame \<Rightarrow> writer \<Rightarrow> (writer, io_error) result" where
  "write_to f w =
     (if length (frame_payload f) \<noteq> unat (payload_len (header f)) then Err InvalidInput
      else case encode_header (header f) of
        Inl _ \<Rightarrow> Err InvalidInput
      | Inr h \<Rightarrow> and_then (write_all w h) (\<lambda>w. write_all w (frame_payload f)))"

definition read_from :: "reader \<Rightarrow> (Frame \<times> reader, ProtocolError) result" where
  "read_from r =
     (case read_exact r HEADER_LEN of
        Inl _ \<Rightarrow> Err TruncatedFrame
      | Inr (header_bytes, r) \<Rightarrow>
          and_then (decode_header header_bytes) (\<lambda>h.
            case read_exact r (unat (payload_len h)) of
              Inl _ \<Rightarrow> Err TruncatedFrame
            | Inr (p, r) \<Rightarrow> Ok (\<lparr>header = h, frame_payload = p\<rparr>, r)))"

section \<open>The header\<close>

lemma slice_append:
  assumes "a \<le> b" and "b \<le> c"
  shows "slice a b bs @ slice b c bs = slice a c bs"
proof -
  obtain k l where "b = a + k" "c = a + k + l"
    using assms by (auto simp: le_iff_add)
  then show ?thesis by (simp add: slice_def take_add add.commute)
qed

lemma slice_nth: "i < length bs \<Longrightarrow> slice i (Suc i) bs = [bs ! i]"
  by (simp add: slice_def take_Suc_conv_app_nth Cons_nth_drop_Suc [symmetric])

lemma length_slice [simp]: "b \<le> length bs \<Longrightarrow> length (slice a b bs) = b - a"
  by (simp add: slice_def)

lemma kind_codec: "kind_try_from v = Ok k \<longleftrightarrow> v = kind_byte k"
  by (cases k) (auto simp: kind_try_from_def split: if_splits)

lemma slices32:
  assumes "length bs = 32"
  shows "bs = slice 0 4 bs @ [bs ! 4, bs ! 5] @ slice 6 8 bs @ slice 8 10 bs @ slice 10 12 bs
           @ slice 12 16 bs @ slice 16 24 bs @ slice 24 32 bs"
proof -
  have "[bs ! 4, bs ! 5] = slice 4 6 bs"
    using slice_append [of 4 5 6 bs] slice_nth [of 4 bs] slice_nth [of 5 bs] assms by simp
  moreover have "bs = slice 0 32 bs" using assms by (simp add: slice_def)
  ultimately show ?thesis
    by (simp add: slice_append)
qed

lemma encode_header_length: "encode_header h = Ok bs \<Longrightarrow> length bs = 32"
  by (auto simp: encode_header_def and_then_Ok_iff MAGIC_def)

lemma encode_header_slices:
  assumes "length m = 4" "length a = 2" "length b = 2" "length c = 2" "length d = 4" "length e = 8" "length f = 8"
    and "bs = m @ [x, y] @ a @ b @ c @ d @ e @ f"
  shows "slice 0 4 bs = m" "bs ! 4 = x" "bs ! 5 = y" "slice 6 8 bs = a" "slice 8 10 bs = b"
    "slice 10 12 bs = c" "slice 12 16 bs = d" "slice 16 24 bs = e" "slice 24 32 bs = f"
  using assms by (simp_all add: slice_def nth_append)

lemma decode_encode_header:
  assumes "encode_header h = Ok bs"
  shows "decode_header bs = Ok h"
proof -
  let ?c = "correlation h" and ?v = "protocol h"
  have v: "validate_header h = Ok ()"
    and bs: "bs = MAGIC @ [HEADER_VERSION, kind_byte (kind h)] @ to_le_bytes 2 (flags h)
      @ to_le_bytes 2 (v_major ?v) @ to_le_bytes 2 (v_minor ?v) @ to_le_bytes 4 (payload_len h)
      @ to_le_bytes 8 (high ?c) @ to_le_bytes 8 (low ?c)"
    using assms by (auto simp: encode_header_def and_then_Ok_iff)
  have sl: "slice 0 4 bs = MAGIC" "bs ! 4 = HEADER_VERSION" "bs ! 5 = kind_byte (kind h)"
    "slice 6 8 bs = to_le_bytes 2 (flags h)" "slice 8 10 bs = to_le_bytes 2 (v_major ?v)"
    "slice 10 12 bs = to_le_bytes 2 (v_minor ?v)" "slice 12 16 bs = to_le_bytes 4 (payload_len h)"
    "slice 16 24 bs = to_le_bytes 8 (high ?c)" "slice 24 32 bs = to_le_bytes 8 (low ?c)"
    using encode_header_slices [OF _ _ _ _ _ _ _ bs] by (simp_all add: MAGIC_def)
  have "kind_try_from (kind_byte (kind h)) = Ok (kind h)" by (simp add: kind_codec)
  with v sl show ?thesis
    by (cases h, cases "protocol h", cases "correlation h") (simp add: decode_header_def Let_def)
qed

lemma encode_decode_header:
  assumes "decode_header bs = Ok h" and "length bs = 32"
  shows "encode_header h = Ok bs"
proof -
  have "slice 0 4 bs = MAGIC" "bs ! 4 = HEADER_VERSION" "bs ! 5 = kind_byte (kind h)"
    "validate_header h = Ok ()" "flags h = from_le_bytes (slice 6 8 bs)"
    "v_major (protocol h) = from_le_bytes (slice 8 10 bs)"
    "v_minor (protocol h) = from_le_bytes (slice 10 12 bs)"
    "payload_len h = from_le_bytes (slice 12 16 bs)"
    "high (correlation h) = from_le_bytes (slice 16 24 bs)"
    "low (correlation h) = from_le_bytes (slice 24 32 bs)"
    using assms(1)
    by (auto simp: decode_header_def and_then_Ok_iff Let_def kind_codec split: if_splits)
  moreover have "to_le_bytes 2 (from_le_bytes (slice 6 8 bs) :: u16) = slice 6 8 bs"
    "to_le_bytes 2 (from_le_bytes (slice 8 10 bs) :: u16) = slice 8 10 bs"
    "to_le_bytes 2 (from_le_bytes (slice 10 12 bs) :: u16) = slice 10 12 bs"
    "to_le_bytes 4 (from_le_bytes (slice 12 16 bs) :: u32) = slice 12 16 bs"
    "to_le_bytes 8 (from_le_bytes (slice 16 24 bs) :: u64) = slice 16 24 bs"
    "to_le_bytes 8 (from_le_bytes (slice 24 32 bs) :: u64) = slice 24 32 bs"
    using assms(2) by (simp_all add: le16.enc_dec le32.enc_dec le64.enc_dec)
  ultimately show ?thesis
    using slices32 [OF assms(2)] by (simp add: encode_header_def)
qed

section \<open>Frames on a stream\<close>

definition frame_wf :: "Frame \<Rightarrow> bool" where
  "frame_wf f \<longleftrightarrow>
     validate_header (header f) = Ok () \<and> length (frame_payload f) = unat (payload_len (header f))"

definition put_frame :: "Frame \<Rightarrow> bytes" where
  "put_frame f = (case write_to f \<lparr>wr_data = [], wr_fail = None\<rparr> of Inr w \<Rightarrow> wr_data w | Inl _ \<Rightarrow> [])"

definition get_frame :: "bytes \<Rightarrow> (Frame \<times> bytes) option" where
  "get_frame bs =
     (case read_from \<lparr>rd_data = bs, rd_fail = None\<rparr> of Inr (f, r) \<Rightarrow> Some (f, rd_data r) | Inl _ \<Rightarrow> None)"

lemma frame_wf_encode: "frame_wf f \<Longrightarrow> \<exists>h. encode_header (header f) = Ok h"
  by (simp add: frame_wf_def encode_header_def)

lemma write_to_Ok:
  assumes "wr_fail w = None"
  shows "(\<exists>w'. write_to f w = Ok w') \<longleftrightarrow> frame_wf f"
  using assms
  by (auto simp: write_to_def frame_wf_def encode_header_def write_all_def and_then_def
      split: sum.splits)

lemma put_frame_wf:
  "frame_wf f \<Longrightarrow> encode_header (header f) = Ok h \<Longrightarrow> put_frame f = h @ frame_payload f"
  by (simp add: put_frame_def write_to_def frame_wf_def write_all_def)

interpretation service_wire: stream_codec put_frame get_frame frame_wf
proof
  fix f r
  assume wf: "frame_wf f"
  then obtain h where h: "encode_header (header f) = Ok h" using frame_wf_encode by blast
  then have "length h = 32" and "decode_header h = Ok (header f)"
    by (simp_all add: encode_header_length decode_encode_header)
  with wf show "get_frame (put_frame f @ r) = Some (f, r)"
    by (simp add: put_frame_wf [OF wf h] get_frame_def read_from_def read_exact_def HEADER_LEN_def
        frame_wf_def)
next
  show "get_frame [] = None"
    by (simp add: get_frame_def read_from_def read_exact_def HEADER_LEN_def)
qed

section \<open>Numbers and messages\<close>

lemma hex_number_snoc: "hex_number (bs @ [b]) = hex_number bs * 16 + hex_value b"
  by (simp add: hex_number_def)

lemma length_hex_fixed [simp]: "length (hex_fixed n v) = n"
  by (induction n arbitrary: v) auto

lemma hex_fixed_digits: "list_all is_hex_digit (hex_fixed n v)"
  by (induction n arbitrary: v) (auto simp: is_hex_digit_hex_digit)

lemma hex_number_fixed: "hex_number (hex_fixed n v) = v mod 16 ^ n"
proof (induction n arbitrary: v)
  case (Suc n)
  then show ?case by (simp add: hex_number_snoc mod_mult2_eq mult.commute)
qed (simp add: hex_number_def)

lemma hex_fixed_number:
  "list_all is_hex_digit bs \<Longrightarrow> hex_fixed (length bs) (hex_number bs) = bs"
proof (induction bs rule: rev_induct)
  case (snoc b bs)
  then have "hex_value b < 16" by (simp add: hex_value_bound)
  with snoc show ?case by (simp add: hex_number_snoc)
qed simp

lemma hex_number_bound: "list_all is_hex_digit bs \<Longrightarrow> hex_number bs < 16 ^ length bs"
proof (induction bs rule: rev_induct)
  case (snoc b bs)
  then have "hex_value b < 16" by (simp add: hex_value_bound)
  with snoc show ?case by (simp add: hex_number_snoc)
qed (simp add: hex_number_def)

lemma replace_nul_valid:
  "utf8_valid s \<Longrightarrow> utf8_valid (concat (map (\<lambda>b. if b = 0 then str ''<nul>'' else [b]) s))"
proof (induction "length s" arbitrary: s rule: less_induct)
  case less
  let ?f = "\<lambda>b. if b = 0 then str ''<nul>'' else [b] :: bytes"
  show ?case
  proof (cases "s = []")
    case False
    obtain ch r where s: "s = ch @ r" "ch \<noteq> []" "utf8_valid r"
      and cont: "list_all (in_range 128 191) (tl ch)" and val: "\<And>t. utf8_valid (ch @ t) = utf8_valid t"
      using utf8_first_char [OF less.prems False] by metis
    have IH: "utf8_valid (concat (map ?f r))" using less.hyps [of r] s by simp
    obtain b t where ch: "ch = b # t" using s(2) by (cases ch) auto
    have t: "concat (map ?f t) = t"
    proof -
      have "0 \<notin> set t" using cont by (auto simp: ch in_range_def list_all_iff)
      then show ?thesis by (induction t) auto
    qed
    show ?thesis
    proof (cases "b = 0")
      case True
      have "t = []"
      proof (rule ccontr)
        assume "t \<noteq> []"
        then obtain c u where "t = c # u" by (cases t) auto
        with cont val [of "[]"] True show False by (auto simp: ch in_range_def)
      qed
      moreover have "is_ascii (str ''<nul>'')" by (simp add: is_ascii_def str_def)
      ultimately show ?thesis
        using IH by (simp add: s(1) ch True utf8_valid_ascii_append)
    next
      case False
      with IH val t show ?thesis by (simp add: s(1) ch)
    qed
  qed simp
qed

section \<open>Properties\<close>

text \<open>C31: The frame header is decoded by the exact inverse of its encoder: 32 bytes decode to a header
  if and only if the header encodes to these bytes.\<close>

theorem header_codec_inverse:
  "length bs = 32 \<and> decode_header bs = Ok h \<longleftrightarrow> encode_header h = Ok bs"
  using decode_encode_header encode_decode_header encode_header_length by blast

text \<open>C32: Frames whose header is valid and matches the payload are read back one by one from the bytes
  written for them, and these are the frames the writer accepts.\<close>

theorem service_frame_stream_roundtrip:
  assumes "list_all (\<lambda>f. \<exists>w. write_to f \<lparr>wr_data = [], wr_fail = None\<rparr> = Ok w) fs"
  shows "get_many get_frame (length fs) (concat (map put_frame fs) @ rest) = Some (fs, rest)"
proof (rule service_wire.get_many_put)
  show "list_all frame_wf fs"
    using assms write_to_Ok [of "\<lparr>wr_data = [], wr_fail = None\<rparr>"] by (simp add: list_all_iff)
qed

theorem service_frame_stream_roundtrip_witness:
  "\<exists>f w. write_to f \<lparr>wr_data = [], wr_fail = None\<rparr> = Ok w \<and> frame_payload f = [1, 2, 3] \<and>
     get_many get_frame 1 (put_frame f @ [9]) = Some ([f], [9])"
proof -
  let ?f = "\<lparr>header = \<lparr>kind = Request_Frame, flags = 0, protocol = \<lparr>v_major = 1, v_minor = 1\<rparr>,
     payload_len = 3, correlation = \<lparr>high = 7, low = 9\<rparr>\<rparr>, frame_payload = [1, 2, 3]\<rparr>"
  have "frame_wf ?f" by (simp add: frame_wf_def validate_header_def service_limits)
  then obtain w where w: "write_to ?f \<lparr>wr_data = [], wr_fail = None\<rparr> = Ok w"
    using write_to_Ok [of "\<lparr>wr_data = [], wr_fail = None\<rparr>"] by auto
  with service_frame_stream_roundtrip [of "[?f]" "[9]"]
  have "get_many get_frame 1 (put_frame ?f @ [9]) = Some ([?f], [9])" by simp
  with w show ?thesis by fastforce
qed

text \<open>C33: Negotiation picks the highest minor version both sides support, and fails only if a range is
  empty, the majors differ, or the ranges do not meet.\<close>

theorem negotiate_highest_mutual:
  "negotiate s c = Ok v \<longleftrightarrow>
     min_minor s \<le> max_minor s \<and> min_minor c \<le> max_minor c \<and>
     v_major v = r_major s \<and> v_major v = r_major c \<and>
     v_minor v \<in> {min_minor s..max_minor s} \<inter> {min_minor c..max_minor c} \<and>
     (\<forall>m \<in> {min_minor s..max_minor s} \<inter> {min_minor c..max_minor c}. m \<le> v_minor v)"
  (is "?l \<longleftrightarrow> ?r")
proof
  assume ?l
  then show ?r
    by (auto simp: negotiate_def validate_range_def Let_def max_def min_def split: if_splits)
next
  assume r: ?r
  let ?mx = "min (max_minor s) (max_minor c)"
  have "?mx \<in> {min_minor s..max_minor s} \<inter> {min_minor c..max_minor c}"
    using r by (auto simp: min_def)
  with r have "?mx \<le> v_minor v" by blast
  moreover have "v_minor v \<le> ?mx" using r by simp
  ultimately have "v_minor v = ?mx" by simp
  moreover have "\<not> max (min_minor s) (min_minor c) > ?mx" using r by (auto simp: not_less)
  ultimately show ?l
    using r by (cases v) (auto simp: negotiate_def validate_range_def Let_def)
qed

theorem negotiate_highest_mutual_witness:
  "negotiate SUPPORTED \<lparr>r_major = 1, min_minor = 1, max_minor = 2\<rparr> = Ok \<lparr>v_major = 1, v_minor = 2\<rparr>"
  unfolding negotiate_highest_mutual by (simp add: SUPPORTED_def)

text \<open>A 64-bit number is read back from its 16 lowercase hexadecimal digits, and nothing else is
  accepted for it.\<close>

theorem hex_u64_roundtrip:
  "hex_u64_deserialize s = Some x \<longleftrightarrow> s = hex_u64_display x"
proof
  assume "hex_u64_deserialize s = Some x"
  then have hex: "list_all is_hex_digit s" "length s = 16" and x: "x = of_nat (hex_number s)"
    by (auto simp: hex_u64_deserialize_def is_lower_hex_def split: if_splits)
  from hex have "hex_number s < 16 ^ 16" using hex_number_bound [of s] by simp
  then have "unat x = hex_number s" by (simp add: x unat_of_nat)
  with hex hex_fixed_number [of s] show "s = hex_u64_display x" by (simp add: hex_u64_display_def)
next
  assume "s = hex_u64_display x"
  then show "hex_u64_deserialize s = Some x"
    using unat_bound [of x]
    by (simp add: hex_u64_deserialize_def hex_u64_display_def is_lower_hex_def hex_fixed_digits
        hex_number_fixed)
qed

text \<open>A message passed on to a client is at most 32 KiB long, holds no NUL, and is valid UTF-8 if
  the original was.\<close>

theorem bounded_message_safe:
  "length (bounded_message m) \<le> 32768 \<and> 0 \<notin> set (bounded_message m) \<and>
   (utf8_valid m \<longrightarrow> utf8_valid (bounded_message m))"
proof -
  let ?m = "concat (map (\<lambda>b. if b = 0 then str ''<nul>'' else [b]) m)"
  have nul: "0 \<notin> set ?m" by (auto simp: str_def split: if_splits)
  have "length (take (boundary_before ?m MAX_STRING_LEN) ?m) \<le> MAX_STRING_LEN"
    using boundary_before_le [of ?m MAX_STRING_LEN] by simp
  moreover have "utf8_valid (take (boundary_before ?m MAX_STRING_LEN) ?m)" if "utf8_valid m"
    using utf8_valid_take [OF replace_nul_valid [OF that] boundary_before_boundary] .
  ultimately show ?thesis
    using nul replace_nul_valid [of m]
    by (auto simp: bounded_message_def Let_def MAX_STRING_LEN_def dest: in_set_takeD)
qed

theorem bounded_message_safe_witness:
  "utf8_valid [65, 0, 66] \<and> utf8_valid (bounded_message [65, 0, 66]) \<and>
   bounded_message [65, 0, 66] = str ''A<nul>B''"
  using bounded_message_safe [of "[65, 0, 66]"]
  by (simp add: bounded_message_def MAX_STRING_LEN_def str_def in_range_def)

end
