(* ===== verification/Session_Control.thy ===== *)
theory Session_Control
  imports Rust_Map Service_Proto
begin

text \<open>
  The small state machines the service's session manager is built from, in
  \<^verbatim>\<open>crates/lsb-seawork-service/src\<close>: resource handles (\<^verbatim>\<open>session/handle.rs\<close>), cancellation tokens
  (\<^verbatim>\<open>session/cancel.rs\<close>) and the admission controller with its active-use leases
  (\<^verbatim>\<open>admission.rs\<close>). The operating system's random number generator is an argument: the 16 bytes
  it returns, or its failure. A token and the controller are single atomic cells, so the operations
  of concurrent threads are a sequence of operations.
\<close>

section \<open>Resource handles\<close>

type_synonym ResourceHandle = bytes

datatype handle_error = GenerateHandle | ZeroHandle | MalformedHandle

definition handle_random :: "bytes option \<Rightarrow> (ResourceHandle, handle_error) result" where
  "handle_random fill =
     (case fill of
        None \<Rightarrow> Err GenerateHandle
      | Some bs \<Rightarrow> if bs = replicate 16 0 then Err ZeroHandle else Ok bs)"

fun hex_pairs :: "bytes \<Rightarrow> bytes" where
  "hex_pairs (a # b # rest) = of_nat (hex_value a * 16 + hex_value b) # hex_pairs rest"
| "hex_pairs _ = []"

definition handle_parse :: "bytes \<Rightarrow> (ResourceHandle, handle_error) result" where
  "handle_parse value =
     (if \<not> is_lower_hex value 32 then Err MalformedHandle
      else if hex_pairs value = replicate 16 0 then Err ZeroHandle
      else Ok (hex_pairs value))"

definition handle_display :: "ResourceHandle \<Rightarrow> bytes" where
  "handle_display h = concat (map (\<lambda>b. hex_fixed 2 (unat b)) h)"

section \<open>Cancellation tokens\<close>

definition ACTIVE :: byte where "ACTIVE = 0"
definition CANCELLED :: byte where "CANCELLED = 1"
definition DEADLINE_EXCEEDED :: byte where "DEADLINE_EXCEEDED = 2"
definition COMMITTING :: byte where "COMMITTING = 3"

lemmas token_states = ACTIVE_def CANCELLED_def DEADLINE_EXCEEDED_def COMMITTING_def

datatype CancelOutcome = Requested | AlreadyRequested | TooLate

datatype CancellationReason = Cancelled | DeadlineExceeded

type_synonym CancellationToken = byte

text \<open>\<^verbatim>\<open>compare_exchange\<close>: the new value of the cell and the value found there when the exchange
  fails. A state that is none of the four constants makes the code panic: the result is \<open>None\<close>.\<close>

definition compare_exchange :: "byte \<Rightarrow> byte \<Rightarrow> byte \<Rightarrow> byte \<times> (unit, byte) result" where
  "compare_exchange cell current new =
     (if cell = current then (new, Ok ()) else (cell, Err cell))"

definition request_token :: "byte \<Rightarrow> CancellationToken \<Rightarrow> (CancellationToken \<times> CancelOutcome) option" where
  "request_token requested t =
     (case compare_exchange t ACTIVE requested of
        (t, Inr _) \<Rightarrow> Some (t, Requested)
      | (t, Inl found) \<Rightarrow>
          if found = COMMITTING then Some (t, TooLate)
          else if found = CANCELLED \<or> found = DEADLINE_EXCEEDED then Some (t, AlreadyRequested)
          else None)"

definition cancel_token :: "CancellationToken \<Rightarrow> (CancellationToken \<times> CancelOutcome) option" where
  "cancel_token = request_token CANCELLED"

definition expire_token :: "CancellationToken \<Rightarrow> (CancellationToken \<times> CancelOutcome) option" where
  "expire_token = request_token DEADLINE_EXCEEDED"

definition begin_commit :: "CancellationToken \<Rightarrow> (CancellationToken \<times> bool) option" where
  "begin_commit t =
     (case compare_exchange t ACTIVE COMMITTING of
        (t, Inr _) \<Rightarrow> Some (t, True)
      | (t, Inl found) \<Rightarrow>
          if found = COMMITTING then Some (t, True)
          else if found = CANCELLED \<or> found = DEADLINE_EXCEEDED then Some (t, False)
          else None)"

definition is_committing :: "CancellationToken \<Rightarrow> bool" where
  "is_committing t \<longleftrightarrow> t = COMMITTING"

definition is_cancelled :: "CancellationToken \<Rightarrow> bool" where
  "is_cancelled t \<longleftrightarrow> t = CANCELLED \<or> t = DEADLINE_EXCEEDED"

definition cancellation_reason :: "CancellationToken \<Rightarrow> CancellationReason option option" where
  "cancellation_reason t =
     (if t = CANCELLED then Some (Some Cancelled)
      else if t = DEADLINE_EXCEEDED then Some (Some DeadlineExceeded)
      else if t = ACTIVE \<or> t = COMMITTING then Some None
      else None)"

definition check_token :: "CancellationToken \<Rightarrow> (unit, CancellationReason) result option" where
  "check_token t =
     (case cancellation_reason t of
        None \<Rightarrow> None
      | Some (Some reason) \<Rightarrow> Some (Err reason)
      | Some None \<Rightarrow> Some (Ok ()))"

text \<open>The threads that share a token: a client cancels, a timer expires it, a worker commits.\<close>

datatype token_op = Cancel_Op | Expire_Op | Commit_Op

datatype token_answer = Outcome CancelOutcome | May_Commit bool

fun token_step :: "token_op \<Rightarrow> CancellationToken \<Rightarrow> (CancellationToken \<times> token_answer) option" where
  "token_step Cancel_Op t = map_option (\<lambda>(t, r). (t, Outcome r)) (cancel_token t)"
| "token_step Expire_Op t = map_option (\<lambda>(t, r). (t, Outcome r)) (expire_token t)"
| "token_step Commit_Op t = map_option (\<lambda>(t, r). (t, May_Commit r)) (begin_commit t)"

fun token_run :: "token_op list \<Rightarrow> CancellationToken \<Rightarrow> (CancellationToken \<times> token_answer list) option" where
  "token_run [] t = Some (t, [])"
| "token_run (op # ops) t =
     (case token_step op t of
        None \<Rightarrow> None
      | Some (t, a) \<Rightarrow> (case token_run ops t of None \<Rightarrow> None | Some (t, as) \<Rightarrow> Some (t, a # as)))"

section \<open>The admission controller\<close>

datatype AdmissionState =
    Open | UpdateWaitingForIdle | UpdateSealed | ActivationPending | Uninstalling | Quarantined

record admission =
  admission_state :: AdmissionState
  active_use_count :: u32

datatype admission_error =
    AdmissionsSealed | ActiveUseOverflow | NotAvailableForUpdate | NotAvailableForSealing
  | ActivationRequiresSeal | NotAvailableForUninstall | ActiveUseAtRestore | LeftUpdateWaiting
  | UpdateWaitCancelled

definition admission_new :: "bool \<Rightarrow> admission" where
  "admission_new initially_open =
     \<lparr>admission_state = (if initially_open then Open else Quarantined), active_use_count = 0\<rparr>"

definition accepts_work :: "admission \<Rightarrow> bool" where
  "accepts_work a \<longleftrightarrow> admission_state a = Open \<or> admission_state a = UpdateWaitingForIdle"

text \<open>A lease is a value the caller owns; taking one counts it.\<close>

definition reserve_active_use :: "admission \<Rightarrow> (admission, admission_error) result" where
  "reserve_active_use a =
     (if \<not> (admission_state a = Open \<or> admission_state a = UpdateWaitingForIdle) then Err AdmissionsSealed
      else case checked_add (active_use_count a) 1 of
        None \<Rightarrow> Err ActiveUseOverflow
      | Some n \<Rightarrow> Ok (a\<lparr>active_use_count := n\<rparr>))"

definition begin_update_waiting :: "admission \<Rightarrow> (admission \<times> AdmissionState, admission_error) result" where
  "begin_update_waiting a =
     and_then
       (if admission_state a = Open \<or> admission_state a = UpdateWaitingForIdle
        then Ok (a\<lparr>admission_state :=
                    (if active_use_count a = 0 then UpdateSealed else UpdateWaitingForIdle)\<rparr>)
        else if admission_state a = UpdateSealed then Ok a
        else Err NotAvailableForUpdate) (\<lambda>a. Ok (a, admission_state a))"

definition try_seal_if_idle :: "admission \<Rightarrow> (admission \<times> bool, admission_error) result" where
  "try_seal_if_idle a =
     (if admission_state a = Open \<and> active_use_count a = 0
      then Ok (a\<lparr>admission_state := UpdateSealed\<rparr>, True)
      else if admission_state a = Open then Ok (a, False)
      else if admission_state a = UpdateSealed \<and> active_use_count a = 0 then Ok (a, True)
      else Err NotAvailableForSealing)"

definition mark_activation_pending :: "admission \<Rightarrow> (admission, admission_error) result" where
  "mark_activation_pending a =
     (if admission_state a \<noteq> UpdateSealed \<or> active_use_count a \<noteq> 0 then Err ActivationRequiresSeal
      else Ok (a\<lparr>admission_state := ActivationPending\<rparr>))"

definition reopen :: "bool \<Rightarrow> admission \<Rightarrow> admission" where
  "reopen allowed a = a\<lparr>admission_state := (if allowed then Open else Quarantined)\<rparr>"

definition begin_uninstall :: "admission \<Rightarrow> (admission, admission_error) result" where
  "begin_uninstall a =
     (if \<not> (admission_state a = Open \<or> admission_state a = Uninstalling) then Err NotAvailableForUninstall
      else Ok (a\<lparr>admission_state := Uninstalling\<rparr>))"

definition restore_uninstalling :: "admission \<Rightarrow> (admission, admission_error) result" where
  "restore_uninstalling a =
     (if active_use_count a \<noteq> 0 then Err ActiveUseAtRestore
      else Ok (a\<lparr>admission_state := Uninstalling\<rparr>))"

definition quarantine :: "admission \<Rightarrow> admission" where
  "quarantine a = a\<lparr>admission_state := Quarantined\<rparr>"

text \<open>One round of the waiting loop: \<open>None\<close> when it sleeps and looks again.\<close>

definition wait_until_update_sealed :: "bool \<Rightarrow> admission \<Rightarrow> (unit, admission_error) result option" where
  "wait_until_update_sealed shutdown a =
     (if admission_state a = UpdateSealed \<and> active_use_count a = 0 then Some (Ok ())
      else if admission_state a \<noteq> UpdateWaitingForIdle then Some (Err LeftUpdateWaiting)
      else if shutdown then Some (Err UpdateWaitCancelled)
      else None)"

text \<open>Dropping a lease. Ownership makes the drop happen once; the \<^verbatim>\<open>released\<close> flag guards it again.\<close>

definition release_active_use :: "admission \<Rightarrow> admission" where
  "release_active_use a =
     (let n = saturating_sub (active_use_count a) 1 in
      a\<lparr>active_use_count := n,
        admission_state :=
          (if n = 0 \<and> admission_state a = UpdateWaitingForIdle then UpdateSealed else admission_state a)\<rparr>)"

section \<open>A handle and its text\<close>

lemma hex_fixed_two: "hex_fixed 2 n = [hex_digit (n div 16 mod 16), hex_digit (n mod 16)]"
  by (simp add: numeral_2_eq_2)

lemma byte_of_digits:
  "of_nat (hex_value (hex_digit (unat b div 16 mod 16)) * 16 + hex_value (hex_digit (unat b mod 16))) = (b :: byte)"
proof -
  have "unat b div 16 < 16" using unat_bound [of b] by (simp add: less_mult_imp_div_less)
  then have "unat b div 16 mod 16 = unat b div 16" by (rule mod_less)
  moreover have "hex_value (hex_digit (unat b div 16 mod 16)) = unat b div 16 mod 16"
    "hex_value (hex_digit (unat b mod 16)) = unat b mod 16"
    by (rule hex_value_hex_digit; simp)+
  ultimately have "hex_value (hex_digit (unat b div 16 mod 16)) * 16 + hex_value (hex_digit (unat b mod 16)) = unat b"
    by (simp only: div_mult_mod_eq)
  then show ?thesis by (simp only: of_nat_unat ucast_id)
qed

lemma digits_of_byte:
  assumes "is_hex_digit x" and "is_hex_digit y"
  shows "hex_fixed 2 (unat (of_nat (hex_value x * 16 + hex_value y) :: byte)) = [x, y]"
proof -
  have x: "hex_value x < 16" and y: "hex_value y < 16" using assms by (auto intro: hex_value_bound)
  then have "unat (of_nat (hex_value x * 16 + hex_value y) :: byte) = hex_value x * 16 + hex_value y"
    by (simp only: unat_of_nat take_bit_nat_def) simp
  moreover have "(hex_value x * 16 + hex_value y) div 16 mod 16 = hex_value x"
    "(hex_value x * 16 + hex_value y) mod 16 = hex_value y"
    using x y by simp_all
  ultimately show ?thesis using assms by (simp only: hex_fixed_two hex_digit_hex_value)
qed

lemma hex_pairs_display: "hex_pairs (handle_display h) = h"
  by (induction h) (simp_all add: handle_display_def hex_fixed_two byte_of_digits
      del: of_nat_add of_nat_mult hex_value_hex_digit)

lemma display_hex_pairs:
  "list_all is_hex_digit s \<Longrightarrow> even (length s) \<Longrightarrow> handle_display (hex_pairs s) = s"
  by (induction s rule: hex_pairs.induct)
     (simp_all add: handle_display_def digits_of_byte del: of_nat_add of_nat_mult)

lemma display_is_hex: "list_all is_hex_digit (handle_display h)"
  by (induction h) (simp_all add: handle_display_def hex_fixed_two)

lemma length_display: "length (handle_display h) = 2 * length h"
  by (induction h) (simp_all add: handle_display_def hex_fixed_two)

lemma length_hex_pairs: "length (hex_pairs s) = length s div 2"
  by (induction s rule: hex_pairs.induct) auto

text \<open>C35: A resource handle and its 32 lowercase hexadecimal digits determine each other: parsing
  accepts exactly the printed forms of the non-zero 16-byte handles.\<close>
theorem handle_text_roundtrip:
  "handle_parse s = Ok h \<longleftrightarrow> length h = 16 \<and> h \<noteq> replicate 16 0 \<and> s = handle_display h"
proof
  assume "handle_parse s = Ok h"
  then show "length h = 16 \<and> h \<noteq> replicate 16 0 \<and> s = handle_display h"
    by (auto simp: handle_parse_def is_lower_hex_def display_hex_pairs length_hex_pairs split: if_splits)
next
  assume "length h = 16 \<and> h \<noteq> replicate 16 0 \<and> s = handle_display h"
  then show "handle_parse s = Ok h"
    by (simp add: handle_parse_def is_lower_hex_def hex_pairs_display display_is_hex length_display)
qed

section \<open>The race for a token\<close>

definition token_decided :: "token_op \<Rightarrow> CancellationToken" where
  "token_decided op = (case op of Cancel_Op \<Rightarrow> CANCELLED | Expire_Op \<Rightarrow> DEADLINE_EXCEEDED | Commit_Op \<Rightarrow> COMMITTING)"

definition winner_answer :: "token_op \<Rightarrow> token_answer" where
  "winner_answer op = (if op = Commit_Op then May_Commit True else Outcome Requested)"

definition later_answer :: "token_op \<Rightarrow> token_op \<Rightarrow> token_answer" where
  "later_answer winner op =
     (if op = Commit_Op then May_Commit (winner = Commit_Op)
      else Outcome (if winner = Commit_Op then TooLate else AlreadyRequested))"

lemmas token_defs =
  cancel_token_def expire_token_def begin_commit_def request_token_def compare_exchange_def token_states

lemma token_step_active: "token_step op ACTIVE = Some (token_decided op, winner_answer op)"
  by (cases op) (simp_all add: token_defs token_decided_def winner_answer_def)

lemma token_step_decided:
  "token_step op (token_decided winner) = Some (token_decided winner, later_answer winner op)"
  by (cases op; cases winner) (simp_all add: token_defs token_decided_def later_answer_def)

lemma token_run_decided:
  "token_run ops (token_decided winner) = Some (token_decided winner, map (later_answer winner) ops)"
  by (induction ops) (simp_all add: token_step_decided)

text \<open>C34: Among the threads racing for a fresh token the first one wins for good. If it is a commit,
  every commit may proceed and every cancellation or expiry is too late; if it is a cancellation or
  an expiry, no commit may proceed, later requests learn that one was made, and the reported reason
  stays that of the winner. No sequence of operations reaches the code's panics.\<close>
theorem token_first_wins:
  "token_run (winner # ops) ACTIVE =
     Some (token_decided winner, winner_answer winner # map (later_answer winner) ops)
   \<and> check_token (token_decided winner) =
     Some (case winner of Cancel_Op \<Rightarrow> Err Cancelled | Expire_Op \<Rightarrow> Err DeadlineExceeded | Commit_Op \<Rightarrow> Ok ())"
proof
  show "token_run (winner # ops) ACTIVE =
      Some (token_decided winner, winner_answer winner # map (later_answer winner) ops)"
    by (simp add: token_step_active token_run_decided del: token_step.simps)
qed (cases winner; simp add: token_decided_def check_token_def cancellation_reason_def token_states)

section \<open>What the admission controller keeps\<close>

definition admission_inv :: "admission \<Rightarrow> bool" where
  "admission_inv a \<longleftrightarrow>
     (admission_state a \<in> {UpdateSealed, ActivationPending} \<longrightarrow> active_use_count a = 0) \<and>
     (admission_state a = UpdateWaitingForIdle \<longrightarrow> active_use_count a \<noteq> 0)"

lemma admission_inv_new [simp]: "admission_inv (admission_new b)"
  by (simp add: admission_inv_def admission_new_def)

lemma reserve_active_use_Ok:
  assumes "reserve_active_use a = Ok a'"
  shows "unat (active_use_count a') = unat (active_use_count a) + 1"
    and "admission_inv a \<Longrightarrow> admission_inv a'"
    and "admission_state a' = admission_state a"
proof -
  from assms obtain n where "checked_add (active_use_count a) 1 = Some n"
    and a': "a' = a\<lparr>active_use_count := n\<rparr>" and st: "admission_state a = Open \<or> admission_state a = UpdateWaitingForIdle"
    by (auto simp: reserve_active_use_def split: if_splits option.splits)
  then have n: "unat n = unat (active_use_count a) + 1" by (simp add: checked_add_Some)
  then have "n \<noteq> 0" by auto
  with a' st n show "unat (active_use_count a') = unat (active_use_count a) + 1"
    "admission_inv a \<Longrightarrow> admission_inv a'" "admission_state a' = admission_state a"
    by (auto simp: admission_inv_def)
qed

lemma release_active_use_effect:
  assumes "admission_inv a" and "active_use_count a \<noteq> 0"
  shows "unat (active_use_count (release_active_use a)) = unat (active_use_count a) - 1"
    and "admission_inv (release_active_use a)"
  using assms by (auto simp: release_active_use_def Let_def unat_saturating_sub admission_inv_def)

lemma reserve_release:
  assumes "admission_inv a" and "reserve_active_use a = Ok a'"
  shows "admission_inv (release_active_use a')"
    and "unat (active_use_count (release_active_use a')) = unat (active_use_count a)"
proof -
  note a' = reserve_active_use_Ok [OF assms(2)]
  then have "active_use_count a' \<noteq> 0" by auto
  with release_active_use_effect [of a'] a' assms(1)
  show "admission_inv (release_active_use a')"
    "unat (active_use_count (release_active_use a')) = unat (active_use_count a)" by auto
qed

text \<open>The operations of the updater and the uninstaller on the controller.\<close>

inductive admission_control :: "admission \<Rightarrow> admission \<Rightarrow> bool" where
  begin_update: "begin_update_waiting a = Ok (a', st) \<Longrightarrow> admission_control a a'"
| try_seal: "try_seal_if_idle a = Ok (a', sealed) \<Longrightarrow> admission_control a a'"
| activate: "mark_activation_pending a = Ok a' \<Longrightarrow> admission_control a a'"
| reopen_to: "admission_control a (reopen allowed a)"
| uninstall: "begin_uninstall a = Ok a' \<Longrightarrow> admission_control a a'"
| restore: "restore_uninstalling a = Ok a' \<Longrightarrow> admission_control a a'"
| quarantine_now: "admission_control a (quarantine a)"

lemma admission_control_keeps:
  assumes "admission_control a a'"
  shows "active_use_count a' = active_use_count a" and "admission_inv a \<Longrightarrow> admission_inv a'"
  using assms
  by (induction rule: admission_control.induct)
     (auto simp: begin_update_waiting_def try_seal_if_idle_def mark_activation_pending_def reopen_def
        begin_uninstall_def restore_uninstalling_def quarantine_def admission_inv_def
        split: if_splits)

end
