(* ===== verification/Session_Quota.thy ===== *)
theory Session_Quota
  imports Session_Control
begin

text \<open>
  The quota book of the service, \<^verbatim>\<open>crates/lsb-seawork-service/src/session/quota.rs\<close>: counters of
  connections, sandboxes with their resources, guest processes and watches, in total, by user, by
  connection and by sandbox. The abstract side is a ledger, the multisets of what has been granted;
  \<open>book_ok\<close> relates the two, and every operation of the book is shown to implement the operation
  of the ledger.
\<close>

section \<open>The book\<close>

definition SANDBOX_MEMORY_OVERHEAD_MIB :: u32 where "SANDBOX_MEMORY_OVERHEAD_MIB = 2 * 1024"

record ClientIdentityKey =
  user_sid :: bytes
  logon_sid :: bytes
  authentication_luid :: u64
  identity_session :: u32

record QuotaLimits =
  connections_global :: nat
  connections_per_user :: nat
  sandboxes_global :: nat
  sandboxes_per_user :: nat
  sandboxes_per_connection :: nat
  cpus_per_user :: u16
  cpus_global :: u16
  memory_mib_per_user :: u32
  memory_mib_global :: u32
  disk_mib_per_user :: u32
  disk_mib_global :: u32
  processes_global :: nat
  processes_per_user :: nat
  processes_per_sandbox :: nat
  watches_global :: nat
  watches_per_user :: nat
  watches_per_sandbox :: nat

definition default_limits :: QuotaLimits where
  "default_limits =
     \<lparr>connections_global = 32, connections_per_user = 4, sandboxes_global = 8, sandboxes_per_user = 4,
      sandboxes_per_connection = 2, cpus_per_user = 8, cpus_global = 16, memory_mib_per_user = 8 * 1024,
      memory_mib_global = 24 * 1024, disk_mib_per_user = 64 * 1024, disk_mib_global = 128 * 1024,
      processes_global = 256, processes_per_user = 128, processes_per_sandbox = 64,
      watches_global = 512, watches_per_user = 128, watches_per_sandbox = 64\<rparr>"

datatype QuotaError =
    GlobalConnections | UserConnections | GlobalSandboxes | UserSandboxes | ConnectionSandboxes
  | SandboxResourcesExceeded | UserCpus | GlobalCpus | UserMemory | GlobalMemory | UserDisk | GlobalDisk
  | GlobalProcesses | UserProcesses | SandboxProcesses | GlobalWatches | UserWatches | SandboxWatches

fun quota_error_message :: "QuotaError \<Rightarrow> string" where
  "quota_error_message GlobalConnections = ''global connection quota exceeded''"
| "quota_error_message UserConnections = ''per-user connection quota exceeded''"
| "quota_error_message GlobalSandboxes = ''global sandbox quota exceeded''"
| "quota_error_message UserSandboxes = ''per-user sandbox quota exceeded''"
| "quota_error_message ConnectionSandboxes = ''per-connection sandbox quota exceeded''"
| "quota_error_message SandboxResourcesExceeded = ''per-sandbox resource quota exceeded''"
| "quota_error_message UserCpus = ''per-user vCPU quota exceeded''"
| "quota_error_message GlobalCpus = ''global vCPU quota exceeded''"
| "quota_error_message UserMemory = ''per-user memory quota exceeded''"
| "quota_error_message GlobalMemory = ''global memory quota exceeded''"
| "quota_error_message UserDisk = ''per-user virtual disk quota exceeded''"
| "quota_error_message GlobalDisk = ''global virtual disk quota exceeded''"
| "quota_error_message GlobalProcesses = ''global guest process quota exceeded''"
| "quota_error_message UserProcesses = ''per-user guest process quota exceeded''"
| "quota_error_message SandboxProcesses = ''per-sandbox guest process quota exceeded''"
| "quota_error_message GlobalWatches = ''global watch quota exceeded''"
| "quota_error_message UserWatches = ''per-user watch quota exceeded''"
| "quota_error_message SandboxWatches = ''per-sandbox watch quota exceeded''"

record SandboxResources =
  res_cpus :: u16
  res_memory_mib :: u32
  res_disk_mib :: u32

definition default_resources :: SandboxResources where
  "default_resources = \<lparr>res_cpus = 0, res_memory_mib = 0, res_disk_mib = 0\<rparr>"

record QuotaBook =
  limits :: QuotaLimits
  connections :: nat
  connections_by_user :: "bytes \<rightharpoonup> nat"
  sandboxes_total :: nat
  sandboxes_by_user :: "bytes \<rightharpoonup> nat"
  sandboxes_by_connection :: "ResourceHandle \<rightharpoonup> nat"
  sandbox_resources :: "ResourceHandle \<rightharpoonup> SandboxResources"
  cpus :: u16
  cpus_by_user :: "bytes \<rightharpoonup> u16"
  memory_mib :: u32
  memory_mib_by_user :: "bytes \<rightharpoonup> u32"
  disk_mib :: u32
  disk_mib_by_user :: "bytes \<rightharpoonup> u32"
  processes_total :: nat
  processes_by_user :: "bytes \<rightharpoonup> nat"
  processes_by_sandbox :: "ResourceHandle \<rightharpoonup> nat"
  watches_total :: nat
  watches_by_user :: "bytes \<rightharpoonup> nat"
  watches_by_sandbox :: "ResourceHandle \<rightharpoonup> nat"

definition quota_new :: "QuotaLimits \<Rightarrow> QuotaBook" where
  "quota_new lim =
     \<lparr>limits = lim, connections = 0, connections_by_user = Map.empty, sandboxes_total = 0,
      sandboxes_by_user = Map.empty, sandboxes_by_connection = Map.empty, sandbox_resources = Map.empty,
      cpus = 0, cpus_by_user = Map.empty, memory_mib = 0, memory_mib_by_user = Map.empty,
      disk_mib = 0, disk_mib_by_user = Map.empty, processes_total = 0, processes_by_user = Map.empty,
      processes_by_sandbox = Map.empty, watches_total = 0, watches_by_user = Map.empty,
      watches_by_sandbox = Map.empty\<rparr>"

text \<open>\<^verbatim>\<open>*counts.entry(key).or_default() += 1\<close>, and the two helpers that count down. The subtraction of
  \<open>decrement_by\<close> is the plain one, which wraps in a release build and panics in a debug build.\<close>

definition increment :: "'k \<Rightarrow> ('k \<rightharpoonup> nat) \<Rightarrow> ('k \<rightharpoonup> nat)" where
  "increment k counts = counts(k \<mapsto> count_of counts k + 1)"

definition decrement :: "'k \<Rightarrow> ('k \<rightharpoonup> nat) \<Rightarrow> ('k \<rightharpoonup> nat)" where
  "decrement k counts =
     (case counts k of
        None \<Rightarrow> counts
      | Some n \<Rightarrow> if n - 1 = 0 then counts(k := None) else counts(k \<mapsto> n - 1))"

definition decrement_by :: "'k \<Rightarrow> 'a::len word \<Rightarrow> ('k \<rightharpoonup> 'a word) \<Rightarrow> ('k \<rightharpoonup> 'a word)" where
  "decrement_by k amount counts =
     (case counts k of
        None \<Rightarrow> counts
      | Some n \<Rightarrow> if n - amount = 0 then counts(k := None) else counts(k \<mapsto> n - amount))"

definition reserve_connection :: "ClientIdentityKey \<Rightarrow> QuotaBook \<Rightarrow> (QuotaBook, QuotaError) result" where
  "reserve_connection ident q =
     (if connections q \<ge> connections_global (limits q) then Err GlobalConnections
      else if count_of (connections_by_user q) (user_sid ident) \<ge> connections_per_user (limits q)
      then Err UserConnections
      else Ok (q\<lparr>connections := connections q + 1,
                connections_by_user := increment (user_sid ident) (connections_by_user q)\<rparr>))"

definition release_connection :: "ClientIdentityKey \<Rightarrow> QuotaBook \<Rightarrow> QuotaBook" where
  "release_connection ident q =
     q\<lparr>connections := connections q - 1,
       connections_by_user := decrement (user_sid ident) (connections_by_user q)\<rparr>"

definition ok_or :: "'a option \<Rightarrow> 'e \<Rightarrow> ('a, 'e) result" where
  "ok_or x e = (case x of None \<Rightarrow> Err e | Some v \<Rightarrow> Ok v)"

definition accounted_memory :: "SandboxResources \<Rightarrow> (u32, QuotaError) result" where
  "accounted_memory resources =
     (if resources = default_resources then Ok 0
      else ok_or (checked_add (res_memory_mib resources) SANDBOX_MEMORY_OVERHEAD_MIB) GlobalMemory)"

definition reserve_sandbox ::
    "ResourceHandle \<Rightarrow> ResourceHandle \<Rightarrow> ClientIdentityKey \<Rightarrow> SandboxResources \<Rightarrow> QuotaBook \<Rightarrow> (QuotaBook, QuotaError) result" where
  "reserve_sandbox connection sandbox ident resources q =
     (let user = user_sid ident in
      and_then (ensure (sandboxes_total q < sandboxes_global (limits q)) GlobalSandboxes) (\<lambda>_.
      and_then (ensure (count_of (sandboxes_by_user q) user < sandboxes_per_user (limits q)) UserSandboxes) (\<lambda>_.
      and_then (ensure (count_of (sandboxes_by_connection q) connection < sandboxes_per_connection (limits q))
                  ConnectionSandboxes) (\<lambda>_.
      and_then (ensure (\<not> (sandbox_resources q sandbox \<noteq> None \<or> res_cpus resources > 8
                     \<or> res_memory_mib resources > 8 * 1024 \<or> res_disk_mib resources > 32 * 1024
                     \<or> (resources \<noteq> default_resources \<and> (res_cpus resources = 0
                         \<or> res_memory_mib resources < 512 \<or> res_disk_mib resources < 1024))))
                  SandboxResourcesExceeded) (\<lambda>_.
      and_then (ok_or (checked_add (count_of (cpus_by_user q) user) (res_cpus resources)) UserCpus) (\<lambda>next_user_cpus.
      and_then (ok_or (checked_add (cpus q) (res_cpus resources)) GlobalCpus) (\<lambda>next_cpus.
      and_then (ensure (next_user_cpus \<le> cpus_per_user (limits q)) UserCpus) (\<lambda>_.
      and_then (ensure (next_cpus \<le> cpus_global (limits q)) GlobalCpus) (\<lambda>_.
      and_then (ok_or (checked_add (count_of (memory_mib_by_user q) user) (res_memory_mib resources)) UserMemory) (\<lambda>next_user_memory.
      and_then (accounted_memory resources) (\<lambda>accounted_memory.
      and_then (ok_or (checked_add (memory_mib q) accounted_memory) GlobalMemory) (\<lambda>next_memory.
      and_then (ensure (next_user_memory \<le> memory_mib_per_user (limits q)) UserMemory) (\<lambda>_.
      and_then (ensure (next_memory \<le> memory_mib_global (limits q)) GlobalMemory) (\<lambda>_.
      and_then (ok_or (checked_add (count_of (disk_mib_by_user q) user) (res_disk_mib resources)) UserDisk) (\<lambda>next_user_disk.
      and_then (ok_or (checked_add (disk_mib q) (res_disk_mib resources)) GlobalDisk) (\<lambda>next_disk.
      and_then (ensure (next_user_disk \<le> disk_mib_per_user (limits q)) UserDisk) (\<lambda>_.
      and_then (ensure (next_disk \<le> disk_mib_global (limits q)) GlobalDisk) (\<lambda>_.
        Ok (q\<lparr>sandboxes_total := sandboxes_total q + 1,
              sandboxes_by_user := increment user (sandboxes_by_user q),
              sandboxes_by_connection := increment connection (sandboxes_by_connection q),
              sandbox_resources := (sandbox_resources q)(sandbox \<mapsto> resources),
              cpus := next_cpus,
              cpus_by_user := (cpus_by_user q)(user \<mapsto> next_user_cpus),
              memory_mib := next_memory,
              memory_mib_by_user := (memory_mib_by_user q)(user \<mapsto> next_user_memory),
              disk_mib := next_disk,
              disk_mib_by_user := (disk_mib_by_user q)(user \<mapsto> next_user_disk)\<rparr>)))))))))))))))))))"

definition release_sandbox ::
    "ResourceHandle \<Rightarrow> ResourceHandle \<Rightarrow> ClientIdentityKey \<Rightarrow> QuotaBook \<Rightarrow> QuotaBook" where
  "release_sandbox connection sandbox ident q =
     (case sandbox_resources q sandbox of
        None \<Rightarrow> q
      | Some resources \<Rightarrow>
          let user = user_sid ident;
              accounted_memory = (if resources = default_resources then 0
                                  else saturating_add (res_memory_mib resources) SANDBOX_MEMORY_OVERHEAD_MIB) in
          q\<lparr>sandbox_resources := (sandbox_resources q)(sandbox := None),
            sandboxes_total := sandboxes_total q - 1,
            sandboxes_by_user := decrement user (sandboxes_by_user q),
            sandboxes_by_connection := decrement connection (sandboxes_by_connection q),
            cpus := saturating_sub (cpus q) (res_cpus resources),
            cpus_by_user := decrement_by user (res_cpus resources) (cpus_by_user q),
            memory_mib := saturating_sub (memory_mib q) accounted_memory,
            memory_mib_by_user := decrement_by user (res_memory_mib resources) (memory_mib_by_user q),
            disk_mib := saturating_sub (disk_mib q) (res_disk_mib resources),
            disk_mib_by_user := decrement_by user (res_disk_mib resources) (disk_mib_by_user q)\<rparr>)"

definition reserve_process :: "ResourceHandle \<Rightarrow> ClientIdentityKey \<Rightarrow> QuotaBook \<Rightarrow> (QuotaBook, QuotaError) result" where
  "reserve_process sandbox ident q =
     (if processes_total q \<ge> processes_global (limits q) then Err GlobalProcesses
      else if count_of (processes_by_user q) (user_sid ident) \<ge> processes_per_user (limits q) then Err UserProcesses
      else if count_of (processes_by_sandbox q) sandbox \<ge> processes_per_sandbox (limits q) then Err SandboxProcesses
      else Ok (q\<lparr>processes_total := processes_total q + 1,
                processes_by_user := increment (user_sid ident) (processes_by_user q),
                processes_by_sandbox := increment sandbox (processes_by_sandbox q)\<rparr>))"

definition release_process :: "ResourceHandle \<Rightarrow> ClientIdentityKey \<Rightarrow> QuotaBook \<Rightarrow> QuotaBook" where
  "release_process sandbox ident q =
     q\<lparr>processes_total := processes_total q - 1,
       processes_by_user := decrement (user_sid ident) (processes_by_user q),
       processes_by_sandbox := decrement sandbox (processes_by_sandbox q)\<rparr>"

definition reserve_watch :: "ResourceHandle \<Rightarrow> ClientIdentityKey \<Rightarrow> QuotaBook \<Rightarrow> (QuotaBook, QuotaError) result" where
  "reserve_watch sandbox ident q =
     (if watches_total q \<ge> watches_global (limits q) then Err GlobalWatches
      else if count_of (watches_by_user q) (user_sid ident) \<ge> watches_per_user (limits q) then Err UserWatches
      else if count_of (watches_by_sandbox q) sandbox \<ge> watches_per_sandbox (limits q) then Err SandboxWatches
      else Ok (q\<lparr>watches_total := watches_total q + 1,
                watches_by_user := increment (user_sid ident) (watches_by_user q),
                watches_by_sandbox := increment sandbox (watches_by_sandbox q)\<rparr>))"

definition release_watch :: "ResourceHandle \<Rightarrow> ClientIdentityKey \<Rightarrow> QuotaBook \<Rightarrow> QuotaBook" where
  "release_watch sandbox ident q =
     q\<lparr>watches_total := watches_total q - 1,
       watches_by_user := decrement (user_sid ident) (watches_by_user q),
       watches_by_sandbox := decrement sandbox (watches_by_sandbox q)\<rparr>"

definition quota_totals :: "QuotaBook \<Rightarrow> nat \<times> nat" where
  "quota_totals q = (connections q, sandboxes_total q)"

section \<open>The ledger of what has been granted\<close>

record box =
  box_id :: ResourceHandle
  box_connection :: ResourceHandle
  box_user :: bytes
  box_resources :: SandboxResources

record ledger =
  l_connections :: "bytes multiset"
  l_boxes :: "box multiset"
  l_processes :: "(ResourceHandle \<times> bytes) multiset"
  l_watches :: "(ResourceHandle \<times> bytes) multiset"

definition empty_ledger :: ledger where
  "empty_ledger = \<lparr>l_connections = {#}, l_boxes = {#}, l_processes = {#}, l_watches = {#}\<rparr>"

text \<open>The memory a sandbox takes on the host: the guest's and the overhead of the VM process.\<close>

definition accounted :: "SandboxResources \<Rightarrow> nat" where
  "accounted r = (if r = default_resources then 0 else unat (res_memory_mib r) + 2048)"

abbreviation boxes_of :: "bytes \<Rightarrow> box multiset \<Rightarrow> box multiset" where
  "boxes_of u M \<equiv> filter_mset (\<lambda>b. box_user b = u) M"

abbreviation boxes_on :: "ResourceHandle \<Rightarrow> box multiset \<Rightarrow> box multiset" where
  "boxes_on c M \<equiv> filter_mset (\<lambda>b. box_connection b = c) M"

definition total_cpus :: "box multiset \<Rightarrow> nat" where
  "total_cpus M = (\<Sum>b \<in># M. unat (res_cpus (box_resources b)))"

definition total_memory :: "box multiset \<Rightarrow> nat" where
  "total_memory M = (\<Sum>b \<in># M. unat (res_memory_mib (box_resources b)))"

definition total_accounted :: "box multiset \<Rightarrow> nat" where
  "total_accounted M = (\<Sum>b \<in># M. accounted (box_resources b))"

definition total_disk :: "box multiset \<Rightarrow> nat" where
  "total_disk M = (\<Sum>b \<in># M. unat (res_disk_mib (box_resources b)))"

lemma totals_simps [simp]:
  "total_cpus {#} = 0" "total_cpus (add_mset b M) = unat (res_cpus (box_resources b)) + total_cpus M"
  "total_memory {#} = 0" "total_memory (add_mset b M) = unat (res_memory_mib (box_resources b)) + total_memory M"
  "total_accounted {#} = 0" "total_accounted (add_mset b M) = accounted (box_resources b) + total_accounted M"
  "total_disk {#} = 0" "total_disk (add_mset b M) = unat (res_disk_mib (box_resources b)) + total_disk M"
  by (simp_all add: total_cpus_def total_memory_def total_accounted_def total_disk_def)

text \<open>A ledger is within the limits of a book.\<close>

definition boxes_within :: "QuotaLimits \<Rightarrow> box multiset \<Rightarrow> bool" where
  "boxes_within lim M \<longleftrightarrow>
     size M \<le> sandboxes_global lim \<and> total_cpus M \<le> unat (cpus_global lim) \<and>
     total_accounted M \<le> unat (memory_mib_global lim) \<and> total_disk M \<le> unat (disk_mib_global lim) \<and>
     (\<forall>c. size (boxes_on c M) \<le> sandboxes_per_connection lim) \<and>
     (\<forall>u. size (boxes_of u M) \<le> sandboxes_per_user lim \<and>
          total_cpus (boxes_of u M) \<le> unat (cpus_per_user lim) \<and>
          total_memory (boxes_of u M) \<le> unat (memory_mib_per_user lim) \<and>
          total_disk (boxes_of u M) \<le> unat (disk_mib_per_user lim))"

definition scoped_within :: "nat \<Rightarrow> nat \<Rightarrow> nat \<Rightarrow> (ResourceHandle \<times> bytes) multiset \<Rightarrow> bool" where
  "scoped_within global per_user per_sandbox M \<longleftrightarrow>
     size M \<le> global \<and> (\<forall>u. size (filter_mset (\<lambda>p. snd p = u) M) \<le> per_user) \<and>
     (\<forall>b. size (filter_mset (\<lambda>p. fst p = b) M) \<le> per_sandbox)"

definition ledger_within :: "QuotaLimits \<Rightarrow> ledger \<Rightarrow> bool" where
  "ledger_within lim L \<longleftrightarrow>
     size (l_connections L) \<le> connections_global lim \<and>
     (\<forall>u. count (l_connections L) u \<le> connections_per_user lim) \<and>
     boxes_within lim (l_boxes L) \<and>
     scoped_within (processes_global lim) (processes_per_user lim) (processes_per_sandbox lim) (l_processes L) \<and>
     scoped_within (watches_global lim) (watches_per_user lim) (watches_per_sandbox lim) (l_watches L)"

section \<open>The book represents a ledger\<close>

definition boxes_ok :: "QuotaBook \<Rightarrow> box multiset \<Rightarrow> bool" where
  "boxes_ok q M \<longleftrightarrow>
     sandboxes_total q = size M \<and>
     (\<forall>u. count_of (sandboxes_by_user q) u = size (boxes_of u M)) \<and>
     (\<forall>c. count_of (sandboxes_by_connection q) c = size (boxes_on c M)) \<and>
     (\<forall>b \<in># M. sandbox_resources q (box_id b) = Some (box_resources b)) \<and>
     (\<forall>h. h \<notin> box_id ` set_mset M \<longrightarrow> sandbox_resources q h = None) \<and>
     (\<forall>h. size (filter_mset (\<lambda>b. box_id b = h) M) \<le> 1) \<and>
     unat (cpus q) = total_cpus M \<and> (\<forall>u. unat (count_of (cpus_by_user q) u) = total_cpus (boxes_of u M)) \<and>
     unat (memory_mib q) = total_accounted M \<and>
     (\<forall>u. unat (count_of (memory_mib_by_user q) u) = total_memory (boxes_of u M)) \<and>
     unat (disk_mib q) = total_disk M \<and> (\<forall>u. unat (count_of (disk_mib_by_user q) u) = total_disk (boxes_of u M)) \<and>
     (\<forall>b \<in># M. unat (res_memory_mib (box_resources b)) \<le> 8192)"

definition scoped_ok ::
    "nat \<Rightarrow> (bytes \<rightharpoonup> nat) \<Rightarrow> (ResourceHandle \<rightharpoonup> nat) \<Rightarrow> (ResourceHandle \<times> bytes) multiset \<Rightarrow> bool" where
  "scoped_ok n by_user by_sandbox M \<longleftrightarrow>
     n = size M \<and> (\<forall>u. count_of by_user u = size (filter_mset (\<lambda>p. snd p = u) M)) \<and>
     (\<forall>b. count_of by_sandbox b = size (filter_mset (\<lambda>p. fst p = b) M))"

definition book_ok :: "QuotaBook \<Rightarrow> ledger \<Rightarrow> bool" where
  "book_ok q L \<longleftrightarrow>
     connections q = size (l_connections L) \<and>
     (\<forall>u. count_of (connections_by_user q) u = count (l_connections L) u) \<and>
     boxes_ok q (l_boxes L) \<and>
     scoped_ok (processes_total q) (processes_by_user q) (processes_by_sandbox q) (l_processes L) \<and>
     scoped_ok (watches_total q) (watches_by_user q) (watches_by_sandbox q) (l_watches L) \<and>
     ledger_within (limits q) L"

lemma book_ok_new: "book_ok (quota_new lim) empty_ledger"
  by (simp add: book_ok_def quota_new_def empty_ledger_def boxes_ok_def scoped_ok_def ledger_within_def
      boxes_within_def scoped_within_def)

section \<open>Counters\<close>

lemma count_of_increment: "count_of (increment k m) j = (if j = k then count_of m j + 1 else count_of m j)"
  by (simp add: increment_def)

lemma count_of_decrement: "count_of (decrement k m) j = (if j = k then count_of m j - 1 else count_of m j)"
  by (auto simp: decrement_def count_of_def split: option.splits)

lemma count_of_decrement_by:
  assumes "unat a \<le> unat (count_of m k)"
  shows "unat (count_of (decrement_by k a m) j) =
    (if j = k then unat (count_of m j) - unat a else unat (count_of m j))"
proof (cases "m k")
  case None
  with assms show ?thesis by (simp add: decrement_by_def count_of_def)
next
  case (Some n)
  with assms have "unat (n - a) = unat n - unat a" by (intro unat_sub_le) (simp add: count_of_def)
  then show ?thesis using Some by (auto simp: decrement_by_def count_of_def split: if_splits)
qed

lemmas counter_simps = count_of_increment count_of_decrement

text \<open>What is within the limits stays so when something is released.\<close>

lemma totals_mono:
  assumes "M \<subseteq># N"
  shows "total_cpus M \<le> total_cpus N" "total_memory M \<le> total_memory N"
    "total_disk M \<le> total_disk N" "total_accounted M \<le> total_accounted N"
proof -
  obtain K where "N = M + K" using assms by (metis mset_subset_eq_exists_conv)
  then show "total_cpus M \<le> total_cpus N" "total_memory M \<le> total_memory N"
    "total_disk M \<le> total_disk N" "total_accounted M \<le> total_accounted N"
    by (simp_all add: total_cpus_def total_memory_def total_disk_def total_accounted_def)
qed

lemma boxes_within_mono:
  assumes "boxes_within lim N" and "M \<subseteq># N"
  shows "boxes_within lim M"
proof -
  have "boxes_of u M \<subseteq># boxes_of u N" "boxes_on c M \<subseteq># boxes_on c N" for u c
    using assms(2) by (rule multiset_filter_mono)+
  then show ?thesis
    using assms unfolding boxes_within_def by (meson size_mset_mono totals_mono order_trans)
qed

lemma scoped_within_mono:
  assumes "scoped_within g u b N" and "M \<subseteq># N"
  shows "scoped_within g u b M"
  using assms unfolding scoped_within_def
  by (meson multiset_filter_mono size_mset_mono order_trans)

lemma count_mono: "M \<subseteq># N \<Longrightarrow> count M x \<le> count N x"
  by (simp add: subseteq_mset_def)

lemma ledger_within_mono:
  assumes "ledger_within lim L" and "l_connections L' \<subseteq># l_connections L" and "l_boxes L' \<subseteq># l_boxes L"
    and "l_processes L' \<subseteq># l_processes L" and "l_watches L' \<subseteq># l_watches L"
  shows "ledger_within lim L'"
  using assms unfolding ledger_within_def
  by (meson boxes_within_mono scoped_within_mono size_mset_mono count_mono order_trans)

section \<open>Connections\<close>

lemma boxes_ok_connections [simp]:
  "boxes_ok (q\<lparr>connections := n, connections_by_user := m\<rparr>) M = boxes_ok q M"
  by (simp add: boxes_ok_def)

lemma reserve_connection_ok:
  assumes "book_ok q L" and "reserve_connection ident q = Ok q'"
  shows "book_ok q' (L\<lparr>l_connections := add_mset (user_sid ident) (l_connections L)\<rparr>)"
  using assms
  by (auto simp: reserve_connection_def book_ok_def ledger_within_def counter_simps split: if_splits)

lemma release_connection_ok:
  assumes "book_ok q L" and "l_connections L = add_mset (user_sid ident) C"
  shows "book_ok (release_connection ident q) (L\<lparr>l_connections := C\<rparr>)"
proof -
  have "ledger_within (limits q) (L\<lparr>l_connections := C\<rparr>)"
    using assms by (auto simp: book_ok_def intro: ledger_within_mono)
  with assms show ?thesis
    by (auto simp: release_connection_def book_ok_def counter_simps)
qed

section \<open>Processes and watches\<close>

text \<open>
  Guest processes and watches are counted in the same way. The contract of such a resource: what is
  held of it in a ledger, and that reserving and releasing change exactly that.
\<close>

locale scoped_resource =
  fixes held :: "ledger \<Rightarrow> (ResourceHandle \<times> bytes) multiset"
    and put :: "(ResourceHandle \<times> bytes) multiset \<Rightarrow> ledger \<Rightarrow> ledger"
    and reserve :: "ResourceHandle \<Rightarrow> ClientIdentityKey \<Rightarrow> QuotaBook \<Rightarrow> (QuotaBook, QuotaError) result"
    and release :: "ResourceHandle \<Rightarrow> ClientIdentityKey \<Rightarrow> QuotaBook \<Rightarrow> QuotaBook"
  assumes held_put: "held (put M L) = M"
    and put_put: "put M (put N L) = put M L"
    and put_held: "put (held L) L = L"
    and reserve_ok: "book_ok q L \<Longrightarrow> reserve b ident q = Ok q' \<Longrightarrow>
        book_ok q' (put (add_mset (b, user_sid ident) (held L)) L)"
    and release_ok: "book_ok q L \<Longrightarrow> held L = add_mset (b, user_sid ident) M \<Longrightarrow>
        book_ok (release b ident q) (put M L)"
begin

text \<open>Releasing what a list of sandboxes holds for one user.\<close>

lemma release_all_ok:
  assumes "book_ok q L" and "held L = mset (map (\<lambda>b. (b, user_sid ident)) bs) + M"
  shows "book_ok (fold (\<lambda>b. release b ident) bs q) (put M L)"
  using assms
proof (induction bs arbitrary: q L)
  case Nil
  then have "M = held L" by simp
  with Nil show ?case by (simp add: put_held)
next
  case (Cons b bs)
  let ?L = "put (mset (map (\<lambda>b. (b, user_sid ident)) bs) + M) L"
  have "book_ok (release b ident q) ?L" using Cons.prems by (intro release_ok) auto
  from Cons.IH [OF this] show ?case by (simp add: held_put put_put)
qed

end

lemma scoped_ok_add:
  assumes "scoped_ok n us bs M"
  shows "scoped_ok (n + 1) (increment u us) (increment b bs) (add_mset (b, u) M)"
  using assms by (auto simp: scoped_ok_def counter_simps)

lemma scoped_ok_remove:
  assumes "scoped_ok n us bs (add_mset (b, u) M)"
  shows "scoped_ok (n - 1) (decrement u us) (decrement b bs) M"
  using assms by (auto simp: scoped_ok_def counter_simps)

lemma scoped_within_add:
  assumes "scoped_ok n us bs M" and "scoped_within g pu pb M" and "n < g"
    and "count_of us u < pu" and "count_of bs b < pb"
  shows "scoped_within g pu pb (add_mset (b, u) M)"
  using assms by (auto simp: scoped_ok_def scoped_within_def)

lemma boxes_ok_scoped [simp]:
  "boxes_ok (q\<lparr>processes_total := n, processes_by_user := m, processes_by_sandbox := k\<rparr>) M = boxes_ok q M"
  "boxes_ok (q\<lparr>watches_total := n, watches_by_user := m, watches_by_sandbox := k\<rparr>) M = boxes_ok q M"
  by (simp_all add: boxes_ok_def)

interpretation process_quota: scoped_resource l_processes "\<lambda>M L. L\<lparr>l_processes := M\<rparr>" reserve_process release_process
proof
  fix q L b ident q'
  assume "book_ok q L" and "reserve_process b ident q = Ok q'"
  then show "book_ok q' (L\<lparr>l_processes := add_mset (b, user_sid ident) (l_processes L)\<rparr>)"
    by (auto simp: reserve_process_def book_ok_def ledger_within_def scoped_ok_add [simplified]
        intro!: scoped_within_add split: if_splits)
next
  fix q L b M and ident :: ClientIdentityKey
  assume ok: "book_ok q L" and held: "l_processes L = add_mset (b, user_sid ident) M"
  then have "ledger_within (limits q) (L\<lparr>l_processes := M\<rparr>)"
    by (auto simp: book_ok_def intro: ledger_within_mono)
  with ok held show "book_ok (release_process b ident q) (L\<lparr>l_processes := M\<rparr>)"
    by (auto simp: release_process_def book_ok_def intro: scoped_ok_remove [simplified])
qed simp_all

interpretation watch_quota: scoped_resource l_watches "\<lambda>M L. L\<lparr>l_watches := M\<rparr>" reserve_watch release_watch
proof
  fix q L b ident q'
  assume "book_ok q L" and "reserve_watch b ident q = Ok q'"
  then show "book_ok q' (L\<lparr>l_watches := add_mset (b, user_sid ident) (l_watches L)\<rparr>)"
    by (auto simp: reserve_watch_def book_ok_def ledger_within_def scoped_ok_add [simplified]
        intro!: scoped_within_add split: if_splits)
next
  fix q L b M and ident :: ClientIdentityKey
  assume ok: "book_ok q L" and held: "l_watches L = add_mset (b, user_sid ident) M"
  then have "ledger_within (limits q) (L\<lparr>l_watches := M\<rparr>)"
    by (auto simp: book_ok_def intro: ledger_within_mono)
  with ok held show "book_ok (release_watch b ident q) (L\<lparr>l_watches := M\<rparr>)"
    by (auto simp: release_watch_def book_ok_def intro: scoped_ok_remove [simplified])
qed simp_all

section \<open>Sandboxes\<close>

definition new_box :: "ResourceHandle \<Rightarrow> ResourceHandle \<Rightarrow> ClientIdentityKey \<Rightarrow> SandboxResources \<Rightarrow> box" where
  "new_box connection sandbox ident r =
     \<lparr>box_id = sandbox, box_connection = connection, box_user = user_sid ident, box_resources = r\<rparr>"

lemma new_box_simps [simp]:
  "box_id (new_box c h ident r) = h" "box_connection (new_box c h ident r) = c"
  "box_user (new_box c h ident r) = user_sid ident" "box_resources (new_box c h ident r) = r"
  by (simp_all add: new_box_def)

text \<open>The resources one sandbox may have; test resources take none.\<close>

definition resources_sane :: "SandboxResources \<Rightarrow> bool" where
  "resources_sane r \<longleftrightarrow>
     r = default_resources \<or>
     (1 \<le> unat (res_cpus r) \<and> unat (res_cpus r) \<le> 8 \<and> 512 \<le> unat (res_memory_mib r) \<and>
      unat (res_memory_mib r) \<le> 8192 \<and> 1024 \<le> unat (res_disk_mib r) \<and> unat (res_disk_mib r) \<le> 32768)"

lemma resources_test:
  "\<not> (res_cpus r > 8 \<or> res_memory_mib r > 8 * 1024 \<or> res_disk_mib r > 32 * 1024
      \<or> (r \<noteq> default_resources \<and> (res_cpus r = 0 \<or> res_memory_mib r < 512 \<or> res_disk_mib r < 1024)))
   \<longleftrightarrow> resources_sane r"
proof (cases "r = default_resources")
  case True
  then show ?thesis by (simp add: resources_sane_def default_resources_def)
next
  case False
  have "res_cpus r = 0 \<longleftrightarrow> \<not> 1 \<le> unat (res_cpus r)" using unat_eq_zero [of "res_cpus r"] by linarith
  with False show ?thesis by (auto simp: resources_sane_def word_less_nat_alt)
qed

lemma ok_or_Ok [simp]: "ok_or x e = Ok v \<longleftrightarrow> x = Some v"
  by (simp add: ok_or_def split: option.splits)

text \<open>The accounted memory of a sandbox fits 32 bits.\<close>

lemma memory_with_overhead:
  assumes "unat (res_memory_mib r) \<le> 8192"
  shows "checked_add (res_memory_mib r) SANDBOX_MEMORY_OVERHEAD_MIB = Some (res_memory_mib r + 2048)"
    and "saturating_add (res_memory_mib r) SANDBOX_MEMORY_OVERHEAD_MIB = res_memory_mib r + 2048"
    and "unat (res_memory_mib r + 2048) = unat (res_memory_mib r) + 2048"
proof -
  show *: "checked_add (res_memory_mib r) SANDBOX_MEMORY_OVERHEAD_MIB = Some (res_memory_mib r + 2048)"
    using assms by (simp add: checked_add_def SANDBOX_MEMORY_OVERHEAD_MIB_def)
  then show "saturating_add (res_memory_mib r) SANDBOX_MEMORY_OVERHEAD_MIB = res_memory_mib r + 2048"
    by (simp add: saturating_add_def)
  show "unat (res_memory_mib r + 2048) = unat (res_memory_mib r) + 2048"
    using * by (simp add: checked_add_Some SANDBOX_MEMORY_OVERHEAD_MIB_def)
qed

lemma sane_memory: "resources_sane r \<Longrightarrow> unat (res_memory_mib r) \<le> 8192"
  by (auto simp: resources_sane_def default_resources_def)

text \<open>The successful reservation, with the values it computes.\<close>

lemma reserve_sandbox_OkD:
  assumes "reserve_sandbox c h ident r q = Ok q'"
  obtains nuc nc num nm nud nd where
    "sandboxes_total q < sandboxes_global (limits q)"
    "count_of (sandboxes_by_user q) (user_sid ident) < sandboxes_per_user (limits q)"
    "count_of (sandboxes_by_connection q) c < sandboxes_per_connection (limits q)"
    "sandbox_resources q h = None" "resources_sane r"
    "unat nuc = unat (count_of (cpus_by_user q) (user_sid ident)) + unat (res_cpus r)"
    "unat nc = unat (cpus q) + unat (res_cpus r)"
    "unat nuc \<le> unat (cpus_per_user (limits q))" "unat nc \<le> unat (cpus_global (limits q))"
    "unat num = unat (count_of (memory_mib_by_user q) (user_sid ident)) + unat (res_memory_mib r)"
    "unat nm = unat (memory_mib q) + accounted r"
    "unat num \<le> unat (memory_mib_per_user (limits q))" "unat nm \<le> unat (memory_mib_global (limits q))"
    "unat nud = unat (count_of (disk_mib_by_user q) (user_sid ident)) + unat (res_disk_mib r)"
    "unat nd = unat (disk_mib q) + unat (res_disk_mib r)"
    "unat nud \<le> unat (disk_mib_per_user (limits q))" "unat nd \<le> unat (disk_mib_global (limits q))"
    "q' = q\<lparr>sandboxes_total := sandboxes_total q + 1,
            sandboxes_by_user := increment (user_sid ident) (sandboxes_by_user q),
            sandboxes_by_connection := increment c (sandboxes_by_connection q),
            sandbox_resources := (sandbox_resources q)(h \<mapsto> r),
            cpus := nc, cpus_by_user := (cpus_by_user q)(user_sid ident \<mapsto> nuc),
            memory_mib := nm, memory_mib_by_user := (memory_mib_by_user q)(user_sid ident \<mapsto> num),
            disk_mib := nd, disk_mib_by_user := (disk_mib_by_user q)(user_sid ident \<mapsto> nud)\<rparr>"
proof -
  have sane: "resources_sane r" and mem: "unat (res_memory_mib r) \<le> 8192"
    using assms sane_memory [of r]
    by (auto simp: reserve_sandbox_def Let_def and_then_Ok_iff ensure_Ok_iff simp flip: resources_test)
  have acc: "accounted_memory r = Ok (of_nat (accounted r))" "unat (of_nat (accounted r) :: u32) = accounted r"
    using memory_with_overhead [OF mem] mem
    by (simp_all add: accounted_memory_def ok_or_def accounted_def unat_of_nat take_bit_nat_def)
  from assms show thesis
    unfolding reserve_sandbox_def Let_def acc(1)
    apply (simp only: and_then_Ok_iff ensure_Ok_iff ok_or_Ok checked_add_Some word_le_nat_alt acc(2) sum.inject
        ex_simps simp_thms)
    apply (elim exE conjE)
    subgoal for nuc nc num nm nud nd by (rule that [of nuc nc num nm nud nd]; simp add: sane)
    done
qed

lemma reserve_sandbox_fresh:
  assumes "book_ok q L" and "reserve_sandbox c h ident r q = Ok q'"
  shows "h \<notin> box_id ` set_mset (l_boxes L)" and "resources_sane r"
proof -
  from assms(2) have "sandbox_resources q h = None" and "resources_sane r"
    by (auto elim: reserve_sandbox_OkD)
  with assms(1) show "h \<notin> box_id ` set_mset (l_boxes L)" and "resources_sane r"
    by (force simp: book_ok_def boxes_ok_def)+
qed

lemma reserve_sandbox_ok:
  assumes ok: "book_ok q L" and reserve: "reserve_sandbox c h ident r q = Ok q'"
  shows "book_ok q' (L\<lparr>l_boxes := add_mset (new_box c h ident r) (l_boxes L)\<rparr>)"
  using reserve
proof (rule reserve_sandbox_OkD)
  fix nuc nc num nm nud nd
  let ?b = "new_box c h ident r" and ?M = "l_boxes L"
  have M: "boxes_ok q ?M" "boxes_within (limits q) ?M" using ok by (simp_all add: book_ok_def ledger_within_def)
  have fresh: "\<forall>b \<in># ?M. box_id b \<noteq> h" using reserve_sandbox_fresh [OF ok reserve] by auto
  then have none: "filter_mset (\<lambda>b. box_id b = h) ?M = {#}" by simp
  assume 1: "sandboxes_total q < sandboxes_global (limits q)"
    "count_of (sandboxes_by_user q) (user_sid ident) < sandboxes_per_user (limits q)"
    "count_of (sandboxes_by_connection q) c < sandboxes_per_connection (limits q)"
    "sandbox_resources q h = None" "resources_sane r"
    "unat nuc = unat (count_of (cpus_by_user q) (user_sid ident)) + unat (res_cpus r)"
    "unat nc = unat (cpus q) + unat (res_cpus r)"
    "unat nuc \<le> unat (cpus_per_user (limits q))" "unat nc \<le> unat (cpus_global (limits q))"
    "unat num = unat (count_of (memory_mib_by_user q) (user_sid ident)) + unat (res_memory_mib r)"
    "unat nm = unat (memory_mib q) + accounted r"
    "unat num \<le> unat (memory_mib_per_user (limits q))" "unat nm \<le> unat (memory_mib_global (limits q))"
    "unat nud = unat (count_of (disk_mib_by_user q) (user_sid ident)) + unat (res_disk_mib r)"
    "unat nd = unat (disk_mib q) + unat (res_disk_mib r)"
    "unat nud \<le> unat (disk_mib_per_user (limits q))" "unat nd \<le> unat (disk_mib_global (limits q))"
    "q' = q\<lparr>sandboxes_total := sandboxes_total q + 1,
            sandboxes_by_user := increment (user_sid ident) (sandboxes_by_user q),
            sandboxes_by_connection := increment c (sandboxes_by_connection q),
            sandbox_resources := (sandbox_resources q)(h \<mapsto> r),
            cpus := nc, cpus_by_user := (cpus_by_user q)(user_sid ident \<mapsto> nuc),
            memory_mib := nm, memory_mib_by_user := (memory_mib_by_user q)(user_sid ident \<mapsto> num),
            disk_mib := nd, disk_mib_by_user := (disk_mib_by_user q)(user_sid ident \<mapsto> nud)\<rparr>"
  have "boxes_ok q' (add_mset ?b ?M)"
    using 1 M fresh none by (auto simp: boxes_ok_def counter_simps sane_memory)
  moreover have "boxes_within (limits q) (add_mset ?b ?M)"
    using 1 M by (auto simp: boxes_within_def boxes_ok_def)
  ultimately show ?thesis
    using ok 1(18) by (simp add: book_ok_def ledger_within_def)
qed

lemma release_sandbox_absent: "sandbox_resources q h = None \<Longrightarrow> release_sandbox c h ident q = q"
  by (simp add: release_sandbox_def)

lemma boxes_ok_lookup:
  assumes "boxes_ok q M"
  shows "sandbox_resources q h = None \<longleftrightarrow> h \<notin> box_id ` set_mset M"
  using assms by (force simp: boxes_ok_def)

lemma boxes_ok_remove:
  assumes ok: "boxes_ok q (add_mset b M)" and ident: "user_sid ident = box_user b"
  shows "boxes_ok (release_sandbox (box_connection b) (box_id b) ident q) M"
proof -
  let ?r = "box_resources b" and ?u = "box_user b"
  have r: "sandbox_resources q (box_id b) = Some ?r" and mem: "unat (res_memory_mib ?r) \<le> 8192"
    and cpu: "unat (res_cpus ?r) \<le> unat (count_of (cpus_by_user q) ?u)"
    and mib: "unat (res_memory_mib ?r) \<le> unat (count_of (memory_mib_by_user q) ?u)"
    and disk: "unat (res_disk_mib ?r) \<le> unat (count_of (disk_mib_by_user q) ?u)"
    using ok by (simp_all add: boxes_ok_def)
  from ok have "size (filter_mset (\<lambda>x. box_id x = box_id b) (add_mset b M)) \<le> 1"
    unfolding boxes_ok_def by blast
  then have fresh: "\<forall>x \<in># M. box_id x \<noteq> box_id b" by simp
  have acc: "unat (if ?r = default_resources then 0
      else saturating_add (res_memory_mib ?r) SANDBOX_MEMORY_OVERHEAD_MIB) = accounted ?r"
    using memory_with_overhead [OF mem] by (simp add: accounted_def)
  have "size (filter_mset (\<lambda>x. box_id x = h) (add_mset b M)) \<le> 1" for h
    using ok unfolding boxes_ok_def by blast
  then have le1: "size (filter_mset (\<lambda>x. box_id x = h) M) \<le> 1" for h
    by (metis filter_mset_add_mset size_add_mset Suc_leD)
  show ?thesis
    unfolding boxes_ok_def release_sandbox_def r option.case Let_def ident
    using ok fresh le1 acc
    by (auto simp: boxes_ok_def counter_simps count_of_decrement_by cpu mib disk unat_saturating_sub)
qed

lemma release_sandbox_same [simp]:
  "limits (release_sandbox c h ident q) = limits q"
  "connections (release_sandbox c h ident q) = connections q"
  "connections_by_user (release_sandbox c h ident q) = connections_by_user q"
  "processes_total (release_sandbox c h ident q) = processes_total q"
  "processes_by_user (release_sandbox c h ident q) = processes_by_user q"
  "processes_by_sandbox (release_sandbox c h ident q) = processes_by_sandbox q"
  "watches_total (release_sandbox c h ident q) = watches_total q"
  "watches_by_user (release_sandbox c h ident q) = watches_by_user q"
  "watches_by_sandbox (release_sandbox c h ident q) = watches_by_sandbox q"
  by (simp_all add: release_sandbox_def Let_def split: option.splits)

lemma release_sandbox_ok:
  assumes ok: "book_ok q L" and b: "l_boxes L = add_mset b M" and ident: "user_sid ident = box_user b"
  shows "book_ok (release_sandbox (box_connection b) (box_id b) ident q) (L\<lparr>l_boxes := M\<rparr>)"
proof -
  have "ledger_within (limits q) (L\<lparr>l_boxes := M\<rparr>)"
    using ok b by (auto simp: book_ok_def intro: ledger_within_mono)
  moreover have "boxes_ok (release_sandbox (box_connection b) (box_id b) ident q) M"
    using ok b ident by (intro boxes_ok_remove) (simp_all add: book_ok_def)
  ultimately show ?thesis using ok by (simp add: book_ok_def)
qed

section \<open>The book refuses only what does not fit\<close>

definition grantable :: "QuotaLimits \<Rightarrow> ledger \<Rightarrow> box \<Rightarrow> bool" where
  "grantable lim L b \<longleftrightarrow>
     box_id b \<notin> box_id ` set_mset (l_boxes L) \<and> resources_sane (box_resources b) \<and>
     boxes_within lim (add_mset b (l_boxes L))"

lemma checked_add_fits:
  fixes x y lim :: "'a::len word"
  assumes "unat x + unat y \<le> unat lim"
  shows "checked_add x y = Some (x + y)" and "x + y \<le> lim"
proof -
  have "unat x + unat y < 2 ^ LENGTH('a)" using assms unat_bound [of lim] by linarith
  then show *: "checked_add x y = Some (x + y)" by (simp add: checked_add_def)
  with assms show "x + y \<le> lim" by (simp add: checked_add_Some word_le_nat_alt)
qed

lemma boxes_within_new:
  assumes "boxes_within lim (add_mset (new_box c h ident r) M)"
  shows "size M < sandboxes_global lim" "size (boxes_on c M) < sandboxes_per_connection lim"
    "size (boxes_of (user_sid ident) M) < sandboxes_per_user lim"
    "total_cpus M + unat (res_cpus r) \<le> unat (cpus_global lim)"
    "total_accounted M + accounted r \<le> unat (memory_mib_global lim)"
    "total_disk M + unat (res_disk_mib r) \<le> unat (disk_mib_global lim)"
    "total_cpus (boxes_of (user_sid ident) M) + unat (res_cpus r) \<le> unat (cpus_per_user lim)"
    "total_memory (boxes_of (user_sid ident) M) + unat (res_memory_mib r) \<le> unat (memory_mib_per_user lim)"
    "total_disk (boxes_of (user_sid ident) M) + unat (res_disk_mib r) \<le> unat (disk_mib_per_user lim)"
proof -
  let ?N = "add_mset (new_box c h ident r) M" and ?u = "user_sid ident"
  have "size ?N \<le> sandboxes_global lim \<and> total_cpus ?N \<le> unat (cpus_global lim) \<and>
     total_accounted ?N \<le> unat (memory_mib_global lim) \<and> total_disk ?N \<le> unat (disk_mib_global lim) \<and>
     size (boxes_on c ?N) \<le> sandboxes_per_connection lim \<and> size (boxes_of ?u ?N) \<le> sandboxes_per_user lim \<and>
     total_cpus (boxes_of ?u ?N) \<le> unat (cpus_per_user lim) \<and>
     total_memory (boxes_of ?u ?N) \<le> unat (memory_mib_per_user lim) \<and>
     total_disk (boxes_of ?u ?N) \<le> unat (disk_mib_per_user lim)"
    using assms unfolding boxes_within_def by blast
  then show "size M < sandboxes_global lim" "size (boxes_on c M) < sandboxes_per_connection lim"
    "size (boxes_of ?u M) < sandboxes_per_user lim"
    "total_cpus M + unat (res_cpus r) \<le> unat (cpus_global lim)"
    "total_accounted M + accounted r \<le> unat (memory_mib_global lim)"
    "total_disk M + unat (res_disk_mib r) \<le> unat (disk_mib_global lim)"
    "total_cpus (boxes_of ?u M) + unat (res_cpus r) \<le> unat (cpus_per_user lim)"
    "total_memory (boxes_of ?u M) + unat (res_memory_mib r) \<le> unat (memory_mib_per_user lim)"
    "total_disk (boxes_of ?u M) + unat (res_disk_mib r) \<le> unat (disk_mib_per_user lim)"
    by (simp_all add: add.commute)
qed

lemma reserve_sandbox_grantable:
  assumes ok: "book_ok q L" and grant: "grantable (limits q) L (new_box c h ident r)"
  shows "\<exists>q'. reserve_sandbox c h ident r q = Ok q'"
proof -
  let ?lim = "limits q" and ?u = "user_sid ident" and ?M = "l_boxes L"
  have M: "boxes_ok q ?M" using ok by (simp add: book_ok_def)
  have W: "boxes_within ?lim (add_mset (new_box c h ident r) ?M)" and sane: "resources_sane r"
    and fresh: "sandbox_resources q h = None"
    using grant boxes_ok_lookup [OF M] by (auto simp: grantable_def)
  have acc: "accounted_memory r = Ok (of_nat (accounted r))" "unat (of_nat (accounted r) :: u32) = accounted r"
    using memory_with_overhead [of r] sane_memory [OF sane]
    by (simp_all add: accounted_memory_def ok_or_def accounted_def unat_of_nat take_bit_nat_def)
  have reps: "sandboxes_total q = size ?M" "count_of (sandboxes_by_user q) ?u = size (boxes_of ?u ?M)"
    "count_of (sandboxes_by_connection q) c = size (boxes_on c ?M)" "unat (cpus q) = total_cpus ?M"
    "unat (memory_mib q) = total_accounted ?M" "unat (disk_mib q) = total_disk ?M"
    "unat (count_of (cpus_by_user q) ?u) = total_cpus (boxes_of ?u ?M)"
    "unat (count_of (memory_mib_by_user q) ?u) = total_memory (boxes_of ?u ?M)"
    "unat (count_of (disk_mib_by_user q) ?u) = total_disk (boxes_of ?u ?M)"
    using M unfolding boxes_ok_def by blast+
  note w = boxes_within_new [OF W]
  have sums: "unat (count_of (cpus_by_user q) ?u) + unat (res_cpus r) \<le> unat (cpus_per_user ?lim)"
    "unat (count_of (memory_mib_by_user q) ?u) + unat (res_memory_mib r) \<le> unat (memory_mib_per_user ?lim)"
    "unat (count_of (disk_mib_by_user q) ?u) + unat (res_disk_mib r) \<le> unat (disk_mib_per_user ?lim)"
    "unat (cpus q) + unat (res_cpus r) \<le> unat (cpus_global ?lim)"
    "unat (memory_mib q) + unat (of_nat (accounted r) :: u32) \<le> unat (memory_mib_global ?lim)"
    "unat (disk_mib q) + unat (res_disk_mib r) \<le> unat (disk_mib_global ?lim)"
    using w by (simp_all only: reps acc)
  show ?thesis
    using sane fresh w(1-3)
    by (simp add: reserve_sandbox_def Let_def acc(1) ok_or_def ensure_def sums [THEN checked_add_fits(1)]
        sums [THEN checked_add_fits(2)] reps(1-3) flip: resources_test)
qed

text \<open>C13: The quota book implements the ledger of granted sandboxes. A reservation is accepted exactly
  when the handle is new, the resources are admissible for one sandbox and the ledger with the new
  sandbox is within every limit (counts, CPUs, memory with the per-VM overhead, disk; in total, by
  user and by connection), and then the book represents that ledger; a refused reservation leaves the
  book as it was.\<close>
theorem reserve_sandbox_refines_ledger:
  assumes "book_ok q L"
  shows "case reserve_sandbox c h ident r q of
      Inr q' \<Rightarrow> grantable (limits q) L (new_box c h ident r) \<and>
                book_ok q' (L\<lparr>l_boxes := add_mset (new_box c h ident r) (l_boxes L)\<rparr>)
    | Inl e \<Rightarrow> \<not> grantable (limits q) L (new_box c h ident r)"
proof (cases "reserve_sandbox c h ident r q")
  case (Inl e)
  then show ?thesis using reserve_sandbox_grantable [OF assms, of c h ident r] by auto
next
  case (Inr q')
  have "limits q' = limits q" using Inr by (auto elim: reserve_sandbox_OkD)
  moreover note reserve_sandbox_ok [OF assms Inr]
  ultimately have "boxes_within (limits q) (add_mset (new_box c h ident r) (l_boxes L))"
    by (simp add: book_ok_def ledger_within_def)
  then show ?thesis
    using Inr reserve_sandbox_fresh [OF assms Inr] reserve_sandbox_ok [OF assms Inr] by (simp add: grantable_def)
qed

theorem reserve_sandbox_refines_ledger_witness:
  "case reserve_sandbox [1] [2] \<lparr>user_sid = [7], logon_sid = [], authentication_luid = 0, identity_session = 0\<rparr>
       \<lparr>res_cpus = 2, res_memory_mib = 1024, res_disk_mib = 2048\<rparr> (quota_new default_limits) of
      Inr q' \<Rightarrow> cpus q' = 2 \<and> memory_mib q' = 3072
    | Inl e \<Rightarrow> False"
  using reserve_sandbox_refines_ledger [OF book_ok_new [of default_limits],
      of "[1]" "[2]" "\<lparr>user_sid = [7], logon_sid = [], authentication_luid = 0, identity_session = 0\<rparr>"
         "\<lparr>res_cpus = 2, res_memory_mib = 1024, res_disk_mib = 2048\<rparr>"]
  by (simp add: reserve_sandbox_def quota_new_def default_limits_def default_resources_def checked_add_def
      ok_or_def accounted_memory_def SANDBOX_MEMORY_OVERHEAD_MIB_def ensure_def Let_def)

end
