(* ===== verification/Session_Manager.thy ===== *)
theory Session_Manager
  imports Session_Quota
begin

text \<open>
  The session manager of the service, \<^verbatim>\<open>crates/lsb-seawork-service/src/session/manager.rs\<close> (the
  Windows build): client sessions with their sandboxes, guest processes and watches, the quota book,
  the records that make a sandbox start repeatable, and the admission controller. An operation that
  calls the engine between two critical sections is a pair of definitions, one for each critical
  section. Time is a number of seconds, an argument of the operations that read the clock; the
  results of the engine (a started VM, process or watch) and random bytes are arguments too. Virtual
  machines, processes and watches themselves are opaque names. A lease of the admission controller
  is owned by the slot it was taken for, and is dropped with it.
\<close>

section \<open>State\<close>

type_synonym ManagedVm = nat
type_synonym ManagedProcess = nat
type_synonym ManagedWatch = nat

definition MAX_RETIRED_HANDLES :: nat where "MAX_RETIRED_HANDLES = 4096"
definition RETIRED_HANDLE_TTL :: nat where "RETIRED_HANDLE_TTL = 10 * 60"
definition MAX_START_REPLAY_RECORDS :: nat where "MAX_START_REPLAY_RECORDS = 4096"
definition START_REPLAY_TTL :: nat where "START_REPLAY_TTL = 10 * 60"

record GuestProcessResource =
  process_id :: ResourceHandle
  process_sandbox :: ResourceHandle
  stdout_stream :: ResourceHandle
  stderr_stream :: ResourceHandle

record WatchResource =
  watch_id :: ResourceHandle
  watch_sandbox :: ResourceHandle
  watch_path :: bytes

record SandboxSlot =
  vm :: "ManagedVm option"

record TestResource =
  test_value :: bytes

datatype ProcessSlot =
    Preparing_Process GuestProcessResource
  | Running_Process GuestProcessResource ManagedProcess

fun process_resource :: "ProcessSlot \<Rightarrow> GuestProcessResource" where
  "process_resource (Preparing_Process r) = r"
| "process_resource (Running_Process r p) = r"

fun process_controller :: "ProcessSlot \<Rightarrow> ManagedProcess option" where
  "process_controller (Preparing_Process r) = None"
| "process_controller (Running_Process r p) = Some p"

datatype WatchSlot =
    Preparing_Watch WatchResource
  | Running_Watch WatchResource ManagedWatch

fun watch_resource :: "WatchSlot \<Rightarrow> WatchResource" where
  "watch_resource (Preparing_Watch r) = r"
| "watch_resource (Running_Watch r w) = r"

fun watch_controller :: "WatchSlot \<Rightarrow> ManagedWatch option" where
  "watch_controller (Preparing_Watch r) = None"
| "watch_controller (Running_Watch r w) = Some w"

record Session =
  identity :: ClientIdentityKey
  cancellation :: CancellationToken
  test_resources :: "(ResourceHandle, TestResource) hash_map"
  sandboxes :: "(ResourceHandle, SandboxSlot) hash_map"
  processes :: "(ResourceHandle, ProcessSlot) hash_map"
  watches :: "(ResourceHandle, WatchSlot) hash_map"
  retired :: "(nat \<times> ResourceHandle) list"

record SelectedMount =
  selected_guest_path :: bytes
  selected_backend :: bytes

datatype StartReplayState =
    Replay_Preparing
  | Replay_Running ResourceHandle "SelectedMount list"
  | Replay_Retired

record StartReplayRecord =
  replay_session :: ResourceHandle
  replay_state :: StartReplayState
  updated_at :: nat

datatype StartReplayDecision =
    Begin
  | InProgress
  | Replay ResourceHandle "SelectedMount list"
  | Expired
  | CapacityExceeded

type_synonym StartReplayKey = "ClientIdentityKey \<times> bytes"

record SessionManager =
  sessions :: "(ResourceHandle, Session) hash_map"
  quotas :: QuotaBook
  start_replays :: "(StartReplayKey, StartReplayRecord) hash_map"
  admissions :: admission

datatype manager_error =
    Quota_Error QuotaError
  | Admission_Error admission_error
  | Handle_Error handle_error
  | No_Unique_Handle
  | Resource_Not_Found
  | Reservation_Unavailable
  | Session_Closed
  | Session_Changed
  | Sandbox_Preparing
  | Process_Preparing
  | Watch_Preparing
  | Engine_Error bytes

text \<open>An operation leaves a state behind whether it fails or not.\<close>

type_synonym 'a manager_op = "SessionManager \<times> ('a, manager_error) result"

definition manager_new :: "QuotaLimits \<Rightarrow> admission \<Rightarrow> SessionManager" where
  "manager_new lim adm = \<lparr>sessions = [], quotas = quota_new lim, start_replays = [], admissions = adm\<rparr>"

section \<open>Sessions\<close>

text \<open>Up to eight draws; \<open>rnd i\<close> is what the random number generator returns when \<open>i\<close> draws are left.\<close>

primrec unique_from :: "nat \<Rightarrow> (nat \<Rightarrow> bytes option) \<Rightarrow> (ResourceHandle, 'a) hash_map \<Rightarrow> (ResourceHandle, manager_error) result" where
  "unique_from 0 rnd m = Err No_Unique_Handle"
| "unique_from (Suc n) rnd m =
     (case handle_random (rnd n) of
        Inl e \<Rightarrow> Err (Handle_Error e)
      | Inr h \<Rightarrow> if map_of m h = None then Ok h else unique_from n rnd m)"

definition unique_handle :: "(nat \<Rightarrow> bytes option) \<Rightarrow> (ResourceHandle, 'a) hash_map \<Rightarrow> (ResourceHandle, manager_error) result" where
  "unique_handle rnd m = unique_from 8 rnd m"

definition new_session :: "ClientIdentityKey \<Rightarrow> Session" where
  "new_session ident =
     \<lparr>identity = ident, cancellation = ACTIVE, test_resources = [], sandboxes = [], processes = [],
      watches = [], retired = []\<rparr>"

definition open_session :: "ClientIdentityKey \<Rightarrow> (nat \<Rightarrow> bytes option) \<Rightarrow> SessionManager \<Rightarrow> ResourceHandle manager_op" where
  "open_session ident rnd m =
     (case reserve_connection ident (quotas m) of
        Inl e \<Rightarrow> (m, Err (Quota_Error e))
      | Inr q \<Rightarrow>
          let m = m\<lparr>quotas := q\<rparr> in
          (case unique_handle rnd (sessions m) of
             Inl e \<Rightarrow> (m, Err e)
           | Inr sid \<Rightarrow> (m\<lparr>sessions := AList.update sid (new_session ident) (sessions m)\<rparr>, Ok sid)))"

definition retire_session_replays ::
    "ResourceHandle \<Rightarrow> nat \<Rightarrow> (StartReplayKey, StartReplayRecord) hash_map \<Rightarrow> (StartReplayKey, StartReplayRecord) hash_map" where
  "retire_session_replays sid now rs =
     map (\<lambda>(k, r). (k, if replay_session r = sid
                       then r\<lparr>replay_state := Replay_Retired, updated_at := now\<rparr> else r)) rs"

text \<open>The first half of \<^verbatim>\<open>close\<close>: the session leaves the manager with everything it holds and its
  reservations are given back.\<close>

definition close_detach ::
    "ResourceHandle \<Rightarrow> ClientIdentityKey \<Rightarrow> nat \<Rightarrow> SessionManager \<Rightarrow> SessionManager \<times> Session option" where
  "close_detach sid ident now m =
     (case map_of (sessions m) sid of
        None \<Rightarrow> (m, None)
      | Some s \<Rightarrow>
          if identity s \<noteq> ident then (m, None)
          else
            let handles = map fst (test_resources s) @ map fst (sandboxes s);
                q = fold (\<lambda>h. release_sandbox sid h ident) handles (quotas m);
                q = fold (\<lambda>p. release_process (process_sandbox (process_resource p)) ident)
                      (map snd (processes s)) q;
                q = fold (\<lambda>w. release_watch (watch_sandbox (watch_resource w)) ident)
                      (map snd (watches s)) q;
                q = release_connection ident q in
            (m\<lparr>start_replays := retire_session_replays sid now (start_replays m),
               sessions := AList.delete sid (sessions m), quotas := q\<rparr>, Some s))"

text \<open>The second half, on the detached session: the test resources go first, then the processes and
  watches are stopped and the VMs, and only then the session's token is cancelled. What is left of
  the session is dropped, and with it the leases of its sandboxes.\<close>

definition clear_test_resources :: "Session \<Rightarrow> Session" where
  "clear_test_resources s = s\<lparr>test_resources := []\<rparr>"

definition close_teardown :: "Session \<Rightarrow> (Session \<times> ManagedProcess list \<times> ManagedWatch list \<times> ManagedVm list) option" where
  "close_teardown s =
     (let kills = List.map_filter (process_controller \<circ> snd) (processes s);
          stops = List.map_filter (watch_controller \<circ> snd) (watches s);
          vms = List.map_filter (vm \<circ> snd) (sandboxes s);
          s = s\<lparr>sandboxes := map (\<lambda>(h, slot). (h, slot\<lparr>vm := None\<rparr>)) (sandboxes s)\<rparr> in
      map_option (\<lambda>(t, _). (s\<lparr>cancellation := t\<rparr>, kills, stops, vms)) (cancel_token (cancellation s)))"

primrec drop_leases :: "nat \<Rightarrow> admission \<Rightarrow> admission" where
  "drop_leases 0 a = a"
| "drop_leases (Suc n) a = drop_leases n (release_active_use a)"

text \<open>The whole of \<^verbatim>\<open>close\<close> when no other thread interferes; the panic of an invalid token is
  \<open>None\<close>.\<close>

definition close_session ::
    "ResourceHandle \<Rightarrow> ClientIdentityKey \<Rightarrow> nat \<Rightarrow> SessionManager \<Rightarrow> (SessionManager \<times> bool) option" where
  "close_session sid ident now m =
     (case close_detach sid ident now m of
        (m, None) \<Rightarrow> Some (m, False)
      | (m, Some s) \<Rightarrow>
          (case close_teardown (clear_test_resources s) of
             None \<Rightarrow> None
           | Some (s', _) \<Rightarrow>
               Some (m\<lparr>admissions := drop_leases (length (sandboxes s')) (drop_leases (length (test_resources s)) (admissions m))\<rparr>, True)))"

fun drain_list ::
    "(ResourceHandle \<times> ClientIdentityKey) list \<Rightarrow> nat \<Rightarrow> SessionManager \<Rightarrow> nat \<Rightarrow> (SessionManager \<times> nat) option" where
  "drain_list [] now m drained = Some (m, drained)"
| "drain_list ((sid, ident) # rest) now m drained =
     (case close_session sid ident now m of
        None \<Rightarrow> None
      | Some (m, closed) \<Rightarrow> drain_list rest now m (if closed then drained + 1 else drained))"

definition drain_all :: "nat \<Rightarrow> SessionManager \<Rightarrow> (SessionManager \<times> nat) option" where
  "drain_all now m = drain_list (map (\<lambda>(sid, s). (sid, identity s)) (sessions m)) now m 0"

definition manager_is_empty :: "SessionManager \<Rightarrow> bool" where
  "manager_is_empty m \<longleftrightarrow> sessions m = []"

definition owned_session :: "ResourceHandle \<Rightarrow> ClientIdentityKey \<Rightarrow> SessionManager \<Rightarrow> Session option" where
  "owned_session sid ident m =
     (case map_of (sessions m) sid of
        None \<Rightarrow> None
      | Some s \<Rightarrow> if identity s = ident then Some s else None)"

definition session_cancellation :: "ResourceHandle \<Rightarrow> ClientIdentityKey \<Rightarrow> SessionManager \<Rightarrow> CancellationToken option" where
  "session_cancellation sid ident m = map_option cancellation (owned_session sid ident m)"

definition put_in :: "ResourceHandle \<Rightarrow> Session \<Rightarrow> SessionManager \<Rightarrow> SessionManager" where
  "put_in sid s m = m\<lparr>sessions := AList.update sid s (sessions m)\<rparr>"

definition manager_counts :: "SessionManager \<Rightarrow> nat \<times> nat" where
  "manager_counts m = quota_totals (quotas m)"

section \<open>Retired handles and test resources\<close>

fun prune_retired_at :: "nat \<Rightarrow> (nat \<times> ResourceHandle) list \<Rightarrow> (nat \<times> ResourceHandle) list" where
  "prune_retired_at now [] = []"
| "prune_retired_at now ((created, h) # rest) =
     (if now - created > RETIRED_HANDLE_TTL then prune_retired_at now rest else (created, h) # rest)"

definition retire :: "nat \<Rightarrow> ResourceHandle \<Rightarrow> Session \<Rightarrow> Session" where
  "retire now h s =
     (let rs = retired s @ [(now, h)] in
      s\<lparr>retired := (if length rs > MAX_RETIRED_HANDLES then tl rs else rs)\<rparr>)"

definition is_retired :: "ResourceHandle \<Rightarrow> Session \<Rightarrow> bool" where
  "is_retired h s \<longleftrightarrow> list_ex (\<lambda>(_, r). r = h) (retired s)"

text \<open>What \<^verbatim>\<open>create_test_resource\<close> and \<^verbatim>\<open>reserve_managed_vm\<close> do alike: take a lease, draw a handle,
  reserve the sandbox. The lease is dropped on the error paths.\<close>

definition reserve_slot ::
    "ResourceHandle \<Rightarrow> ClientIdentityKey \<Rightarrow> SandboxResources \<Rightarrow> bytes option \<Rightarrow> SessionManager \<Rightarrow> ResourceHandle manager_op" where
  "reserve_slot sid ident resources fill m =
     (case reserve_active_use (admissions m) of
        Inl e \<Rightarrow> (m, Err (Admission_Error e))
      | Inr a \<Rightarrow>
          (case handle_random fill of
             Inl e \<Rightarrow> (m\<lparr>admissions := release_active_use a\<rparr>, Err (Handle_Error e))
           | Inr h \<Rightarrow>
               (case reserve_sandbox sid h ident resources (quotas m) of
                  Inl e \<Rightarrow> (m\<lparr>admissions := release_active_use a\<rparr>, Err (Quota_Error e))
                | Inr q \<Rightarrow> (m\<lparr>admissions := a, quotas := q\<rparr>, Ok h))))"

definition create_test_resource ::
    "ResourceHandle \<Rightarrow> ClientIdentityKey \<Rightarrow> bytes \<Rightarrow> bytes option \<Rightarrow> SessionManager \<Rightarrow> ResourceHandle manager_op" where
  "create_test_resource sid ident val fill m =
     (case owned_session sid ident m of
        None \<Rightarrow> (m, Err Resource_Not_Found)
      | Some s \<Rightarrow>
          (case reserve_slot sid ident default_resources fill m of
             (m, Inl e) \<Rightarrow> (m, Err e)
           | (m, Inr h) \<Rightarrow>
               (put_in sid (s\<lparr>test_resources := AList.update h \<lparr>test_value = val\<rparr> (test_resources s)\<rparr>) m, Ok h)))"

definition get_test_resource :: "ResourceHandle \<Rightarrow> ClientIdentityKey \<Rightarrow> ResourceHandle \<Rightarrow> SessionManager \<Rightarrow> bytes option" where
  "get_test_resource sid ident h m =
     (case owned_session sid ident m of
        None \<Rightarrow> None
      | Some s \<Rightarrow> map_option test_value (map_of (test_resources s) h))"

definition close_test_resource ::
    "ResourceHandle \<Rightarrow> ClientIdentityKey \<Rightarrow> ResourceHandle \<Rightarrow> nat \<Rightarrow> SessionManager \<Rightarrow> bool manager_op" where
  "close_test_resource sid ident h now m =
     (case map_of (sessions m) sid of
        None \<Rightarrow> (m, Err Resource_Not_Found)
      | Some s \<Rightarrow>
          if identity s \<noteq> ident then (m, Ok False)
          else
            let s = s\<lparr>retired := prune_retired_at now (retired s)\<rparr>; m = put_in sid s m in
            if is_retired h s then (m, Ok True)
            else (case map_of (test_resources s) h of
                None \<Rightarrow> (m, Ok False)
              | Some _ \<Rightarrow>
                  let s = retire now h (s\<lparr>test_resources := AList.delete h (test_resources s)\<rparr>);
                      m = put_in sid s m in
                  (m\<lparr>admissions := release_active_use (admissions m),
                     quotas := release_sandbox sid h ident (quotas m)\<rparr>, Ok True)))"

section \<open>Repeatable starts\<close>

definition prune_start_replays_at ::
    "nat \<Rightarrow> (StartReplayKey, StartReplayRecord) hash_map \<Rightarrow> (StartReplayKey, StartReplayRecord) hash_map" where
  "prune_start_replays_at now rs =
     filter (\<lambda>(_, r). replay_state r \<noteq> Replay_Retired \<or> now - updated_at r \<le> START_REPLAY_TTL) rs"

definition replay_decision :: "ResourceHandle \<Rightarrow> StartReplayRecord \<Rightarrow> StartReplayDecision" where
  "replay_decision sid r =
     (case replay_state r of
        Replay_Preparing \<Rightarrow> if replay_session r = sid then InProgress else Expired
      | Replay_Running sandbox ms \<Rightarrow> if replay_session r = sid then Replay sandbox ms else Expired
      | Replay_Retired \<Rightarrow> Expired)"

definition begin_start_replay ::
    "ResourceHandle \<Rightarrow> ClientIdentityKey \<Rightarrow> bytes \<Rightarrow> nat \<Rightarrow> SessionManager \<Rightarrow> StartReplayDecision manager_op" where
  "begin_start_replay sid ident instance_id now m =
     (if owned_session sid ident m = None then (m, Err Resource_Not_Found)
      else
        let m = m\<lparr>start_replays := prune_start_replays_at now (start_replays m)\<rparr>;
            key = (ident, instance_id) in
        (case map_of (start_replays m) key of
           Some r \<Rightarrow> (m, Ok (replay_decision sid r))
         | None \<Rightarrow>
             if length (start_replays m) \<ge> MAX_START_REPLAY_RECORDS then (m, Ok CapacityExceeded)
             else (m\<lparr>start_replays := AList.update key
                       \<lparr>replay_session = sid, replay_state = Replay_Preparing, updated_at = now\<rparr>
                       (start_replays m)\<rparr>, Ok Begin)))"

definition complete_start_replay ::
    "ResourceHandle \<Rightarrow> ClientIdentityKey \<Rightarrow> bytes \<Rightarrow> ResourceHandle \<Rightarrow> SelectedMount list \<Rightarrow> nat
      \<Rightarrow> SessionManager \<Rightarrow> SessionManager \<times> bool" where
  "complete_start_replay sid ident instance_id sandbox ms now m =
     (case map_of (start_replays m) (ident, instance_id) of
        None \<Rightarrow> (m, False)
      | Some r \<Rightarrow>
          if replay_session r \<noteq> sid \<or> replay_state r \<noteq> Replay_Preparing then (m, False)
          else (m\<lparr>start_replays := AList.update (ident, instance_id)
                   (r\<lparr>replay_state := Replay_Running sandbox ms, updated_at := now\<rparr>) (start_replays m)\<rparr>, True))"

definition abandon_start_replay ::
    "ResourceHandle \<Rightarrow> ClientIdentityKey \<Rightarrow> bytes \<Rightarrow> SessionManager \<Rightarrow> SessionManager \<times> bool" where
  "abandon_start_replay sid ident instance_id m =
     (let found = (case map_of (start_replays m) (ident, instance_id) of
                     None \<Rightarrow> False
                   | Some r \<Rightarrow> replay_session r = sid \<and> replay_state r = Replay_Preparing) in
      if found then (m\<lparr>start_replays := AList.delete (ident, instance_id) (start_replays m)\<rparr>, True)
      else (m, False))"

definition retire_start_replay ::
    "ResourceHandle \<Rightarrow> ClientIdentityKey \<Rightarrow> ResourceHandle \<Rightarrow> nat \<Rightarrow> SessionManager \<Rightarrow> SessionManager" where
  "retire_start_replay sid ident sandbox now m =
     m\<lparr>start_replays := map (\<lambda>(k, r).
         (k, if fst k = ident \<and> replay_session r = sid
                \<and> (case replay_state r of Replay_Running sb _ \<Rightarrow> sb = sandbox | _ \<Rightarrow> False)
             then r\<lparr>replay_state := Replay_Retired, updated_at := now\<rparr> else r)) (start_replays m)\<rparr>"

section \<open>Sandboxes\<close>

definition reserve_managed_vm ::
    "ResourceHandle \<Rightarrow> ClientIdentityKey \<Rightarrow> SandboxResources \<Rightarrow> bytes option \<Rightarrow> SessionManager \<Rightarrow> ResourceHandle manager_op" where
  "reserve_managed_vm sid ident resources fill m =
     (case owned_session sid ident m of
        None \<Rightarrow> (m, Err Resource_Not_Found)
      | Some s \<Rightarrow>
          (case reserve_slot sid ident resources fill m of
             (m, Inl e) \<Rightarrow> (m, Err e)
           | (m, Inr h) \<Rightarrow>
               (put_in sid (s\<lparr>sandboxes := AList.update h \<lparr>vm = None\<rparr> (sandboxes s)\<rparr>) m, Ok h)))"

definition reserved :: "ResourceHandle \<Rightarrow> Session \<Rightarrow> bool" where
  "reserved h s \<longleftrightarrow> (case map_of (sandboxes s) h of None \<Rightarrow> False | Some slot \<Rightarrow> vm slot = None)"

definition running_in :: "ResourceHandle \<Rightarrow> Session \<Rightarrow> bool" where
  "running_in h s \<longleftrightarrow> (case map_of (sandboxes s) h of None \<Rightarrow> False | Some slot \<Rightarrow> vm slot \<noteq> None)"

text \<open>Removing a reserved slot drops its lease, and its reservation is given back.\<close>

definition remove_reserved :: "ResourceHandle \<Rightarrow> ClientIdentityKey \<Rightarrow> ResourceHandle \<Rightarrow> Session \<Rightarrow> SessionManager \<Rightarrow> SessionManager" where
  "remove_reserved sid ident h s m =
     (let m = put_in sid (s\<lparr>sandboxes := AList.delete h (sandboxes s)\<rparr>) m in
      m\<lparr>admissions := release_active_use (admissions m), quotas := release_sandbox sid h ident (quotas m)\<rparr>)"

definition cancel_managed_vm_reservation ::
    "ResourceHandle \<Rightarrow> ClientIdentityKey \<Rightarrow> ResourceHandle \<Rightarrow> SessionManager \<Rightarrow> SessionManager \<times> bool" where
  "cancel_managed_vm_reservation sid ident h m =
     (case owned_session sid ident m of
        None \<Rightarrow> (m, False)
      | Some s \<Rightarrow> if reserved h s then (remove_reserved sid ident h s m, True) else (m, False))"

text \<open>Before \<^verbatim>\<open>ManagedVm::start\<close>: the reservation must be there, and the VM gets the session's token.\<close>

definition start_reserved_check ::
    "ResourceHandle \<Rightarrow> ClientIdentityKey \<Rightarrow> ResourceHandle \<Rightarrow> SessionManager \<Rightarrow> (CancellationToken, manager_error) result" where
  "start_reserved_check sid ident h m =
     (case owned_session sid ident m of
        None \<Rightarrow> Err Resource_Not_Found
      | Some s \<Rightarrow> if \<not> reserved h s then Err Reservation_Unavailable else Ok (cancellation s))"

text \<open>After it: the VM is put into the slot, or stopped when the slot is gone. The third component is
  the VM that is stopped.\<close>

definition start_reserved_finish ::
    "ResourceHandle \<Rightarrow> ClientIdentityKey \<Rightarrow> ResourceHandle \<Rightarrow> (ManagedVm, manager_error) result \<Rightarrow> SessionManager
      \<Rightarrow> SessionManager \<times> (ResourceHandle, manager_error) result \<times> ManagedVm option" where
  "start_reserved_finish sid ident h started m =
     (let stopped = (case started of Inl _ \<Rightarrow> None | Inr v \<Rightarrow> Some v) in
      case map_of (sessions m) sid of
        None \<Rightarrow> (m, Err Session_Closed, stopped)
      | Some s \<Rightarrow>
          if identity s \<noteq> ident \<or> \<not> reserved h s then (m, Err Session_Changed, stopped)
          else (case started of
              Inr v \<Rightarrow> (put_in sid (s\<lparr>sandboxes := AList.update h \<lparr>vm = Some v\<rparr> (sandboxes s)\<rparr>) m, Ok h, None)
            | Inl e \<Rightarrow> (remove_reserved sid ident h s m, Err e, None)))"

text \<open>The first half of \<^verbatim>\<open>stop_managed_vm\<close> takes the slot out of the session with the processes and
  watches of its sandbox; the caller owns the slot, and its lease, until the VM has stopped.\<close>

definition stop_begin ::
    "ResourceHandle \<Rightarrow> ClientIdentityKey \<Rightarrow> ResourceHandle \<Rightarrow> SessionManager
      \<Rightarrow> (SandboxSlot \<times> ProcessSlot list \<times> WatchSlot list) option manager_op" where
  "stop_begin sid ident h m =
     (case map_of (sessions m) sid of
        None \<Rightarrow> (m, Err Resource_Not_Found)
      | Some s \<Rightarrow>
          if identity s \<noteq> ident then (m, Ok None)
          else (case map_of (sandboxes s) h of
              None \<Rightarrow> (m, Ok None)
            | Some slot \<Rightarrow>
                if vm slot = None then (m, Err Sandbox_Preparing)
                else
                  let of_box = (\<lambda>(_, p). process_sandbox (process_resource p) = h);
                      ps = map snd (filter of_box (processes s));
                      on_box = (\<lambda>(_, w). watch_sandbox (watch_resource w) = h);
                      ws = map snd (filter on_box (watches s));
                      s = s\<lparr>sandboxes := AList.delete h (sandboxes s),
                            processes := filter (Not \<circ> of_box) (processes s),
                            watches := filter (Not \<circ> on_box) (watches s)\<rparr>;
                      q = fold (\<lambda>p. release_process (process_sandbox (process_resource p)) ident) ps (quotas m);
                      q = fold (\<lambda>w. release_watch (watch_sandbox (watch_resource w)) ident) ws q in
                  ((put_in sid s m)\<lparr>quotas := q\<rparr>, Ok (Some (slot, ps, ws)))))"

definition stop_finish ::
    "ResourceHandle \<Rightarrow> ClientIdentityKey \<Rightarrow> ResourceHandle \<Rightarrow> nat \<Rightarrow> SessionManager \<Rightarrow> SessionManager" where
  "stop_finish sid ident h now m =
     retire_start_replay sid ident h now (m\<lparr>quotas := release_sandbox sid h ident (quotas m)\<rparr>)"

text \<open>The operations that only look the VM up and call it; \<open>run\<close> is the call.\<close>

definition running_vm :: "ResourceHandle \<Rightarrow> ClientIdentityKey \<Rightarrow> ResourceHandle \<Rightarrow> SessionManager \<Rightarrow> ManagedVm option" where
  "running_vm sid ident h m =
     (case owned_session sid ident m of
        None \<Rightarrow> None
      | Some s \<Rightarrow> (case map_of (sandboxes s) h of None \<Rightarrow> None | Some slot \<Rightarrow> vm slot))"

definition call_vm ::
    "(ManagedVm \<Rightarrow> ('a, manager_error) result) \<Rightarrow> ManagedVm option \<Rightarrow> ('a option, manager_error) result" where
  "call_vm run v = (case v of None \<Rightarrow> Ok None | Some v \<Rightarrow> and_then (run v) (\<lambda>r. Ok (Some r)))"

definition exec_managed_vm ::
    "(ManagedVm \<Rightarrow> ('a, manager_error) result) \<Rightarrow> ResourceHandle \<Rightarrow> ClientIdentityKey \<Rightarrow> ResourceHandle
      \<Rightarrow> SessionManager \<Rightarrow> ('a option, manager_error) result" where
  "exec_managed_vm run sid ident h m = call_vm run (running_vm sid ident h m)"

definition update_managed_vm_network_interception ::
    "(ManagedVm \<Rightarrow> (unit, manager_error) result) \<Rightarrow> ResourceHandle \<Rightarrow> ClientIdentityKey \<Rightarrow> ResourceHandle
      \<Rightarrow> SessionManager \<Rightarrow> (unit option, manager_error) result" where
  "update_managed_vm_network_interception run sid ident h m = call_vm run (running_vm sid ident h m)"

definition file_managed_vm ::
    "(ManagedVm \<Rightarrow> ('a, manager_error) result) \<Rightarrow> ResourceHandle \<Rightarrow> ClientIdentityKey \<Rightarrow> ResourceHandle
      \<Rightarrow> SessionManager \<Rightarrow> ('a option, manager_error) result" where
  "file_managed_vm run sid ident h m = call_vm run (running_vm sid ident h m)"

section \<open>Guest processes\<close>

definition process_new :: "ResourceHandle \<Rightarrow> bytes option \<Rightarrow> bytes option \<Rightarrow> bytes option \<Rightarrow> (GuestProcessResource, handle_error) result" where
  "process_new sandbox f1 f2 f3 =
     and_then (handle_random f1) (\<lambda>h.
     and_then (handle_random f2) (\<lambda>out.
     and_then (handle_random f3) (\<lambda>err.
       Ok \<lparr>process_id = h, process_sandbox = sandbox, stdout_stream = out, stderr_stream = err\<rparr>)))"

definition spawn_begin ::
    "ResourceHandle \<Rightarrow> ClientIdentityKey \<Rightarrow> ResourceHandle \<Rightarrow> bytes option \<Rightarrow> bytes option \<Rightarrow> bytes option
      \<Rightarrow> SessionManager \<Rightarrow> (GuestProcessResource \<times> ManagedVm) option manager_op" where
  "spawn_begin sid ident sandbox f1 f2 f3 m =
     (case owned_session sid ident m of
        None \<Rightarrow> (m, Ok None)
      | Some s \<Rightarrow>
          (case running_vm sid ident sandbox m of
             None \<Rightarrow> (m, Ok None)
           | Some v \<Rightarrow>
               (case process_new sandbox f1 f2 f3 of
                  Inl e \<Rightarrow> (m, Err (Handle_Error e))
                | Inr r \<Rightarrow>
                    (case reserve_process sandbox ident (quotas m) of
                       Inl e \<Rightarrow> (m, Err (Quota_Error e))
                     | Inr q \<Rightarrow>
                         (put_in sid (s\<lparr>processes := AList.update (process_id r) (Preparing_Process r) (processes s)\<rparr>)
                            (m\<lparr>quotas := q\<rparr>), Ok (Some (r, v)))))))"

text \<open>The third component is the process that is killed because its slot is gone.\<close>

definition spawn_finish ::
    "ResourceHandle \<Rightarrow> ClientIdentityKey \<Rightarrow> ResourceHandle \<Rightarrow> GuestProcessResource \<Rightarrow> (ManagedProcess, manager_error) result
      \<Rightarrow> SessionManager \<Rightarrow> SessionManager \<times> (GuestProcessResource option, manager_error) result \<times> ManagedProcess option" where
  "spawn_finish sid ident sandbox r started m =
     (let valid = (case owned_session sid ident m of
                     None \<Rightarrow> None
                   | Some s \<Rightarrow> if map_of (processes s) (process_id r) \<noteq> None \<and> running_in sandbox s then Some s else None) in
      case valid of
        None \<Rightarrow> (m, Ok None, case started of Inl _ \<Rightarrow> None | Inr p \<Rightarrow> Some p)
      | Some s \<Rightarrow>
          (case started of
             Inr p \<Rightarrow>
               (put_in sid (s\<lparr>processes := AList.update (process_id r) (Running_Process r p) (processes s)\<rparr>) m,
                Ok (Some r), None)
           | Inl e \<Rightarrow>
               ((put_in sid (s\<lparr>processes := AList.delete (process_id r) (processes s)\<rparr>) m)
                  \<lparr>quotas := release_process sandbox ident (quotas m)\<rparr>, Err e, None)))"

text \<open>On success the process to kill, if any: the call of its controller follows.\<close>

definition kill_managed_process ::
    "ResourceHandle \<Rightarrow> ClientIdentityKey \<Rightarrow> ResourceHandle \<Rightarrow> nat \<Rightarrow> SessionManager \<Rightarrow> (bool \<times> ManagedProcess option) manager_op" where
  "kill_managed_process sid ident pid now m =
     (case map_of (sessions m) sid of
        None \<Rightarrow> (m, Err Resource_Not_Found)
      | Some s \<Rightarrow>
          if identity s \<noteq> ident then (m, Ok (False, None))
          else
            let s = s\<lparr>retired := prune_retired_at now (retired s)\<rparr>; m = put_in sid s m in
            if is_retired pid s then (m, Ok (True, None))
            else (case map_of (processes s) pid of
                None \<Rightarrow> (m, Ok (False, None))
              | Some (Preparing_Process _) \<Rightarrow> (m, Err Process_Preparing)
              | Some p \<Rightarrow> (m, Ok (True, process_controller p))))"

definition retire_managed_process ::
    "ResourceHandle \<Rightarrow> ClientIdentityKey \<Rightarrow> ResourceHandle \<Rightarrow> nat \<Rightarrow> SessionManager \<Rightarrow> bool manager_op" where
  "retire_managed_process sid ident pid now m =
     (case map_of (sessions m) sid of
        None \<Rightarrow> (m, Err Resource_Not_Found)
      | Some s \<Rightarrow>
          if identity s \<noteq> ident then (m, Ok False)
          else
            let s = s\<lparr>retired := prune_retired_at now (retired s)\<rparr>; m = put_in sid s m in
            if is_retired pid s then (m, Ok True)
            else (case map_of (processes s) pid of
                None \<Rightarrow> (m, Ok False)
              | Some p \<Rightarrow>
                  let s = retire now pid (s\<lparr>processes := AList.delete pid (processes s)\<rparr>); m = put_in sid s m in
                  (m\<lparr>quotas := release_process (process_sandbox (process_resource p)) ident (quotas m)\<rparr>, Ok True)))"

text \<open>\<open>output\<close> and \<open>is_closed\<close> are the calls of the controller.\<close>

definition managed_process_output ::
    "(ManagedProcess \<Rightarrow> ('a option, manager_error) result) \<Rightarrow> ResourceHandle \<Rightarrow> ClientIdentityKey \<Rightarrow> ResourceHandle
      \<Rightarrow> SessionManager \<Rightarrow> ('a option, manager_error) result" where
  "managed_process_output output sid ident pid m =
     (case owned_session sid ident m of
        None \<Rightarrow> Ok None
      | Some s \<Rightarrow>
          (case map_of (processes s) pid of
             None \<Rightarrow> Ok None
           | Some p \<Rightarrow> (case process_controller p of None \<Rightarrow> Ok None | Some c \<Rightarrow> output c)))"

definition owns_managed_process :: "ResourceHandle \<Rightarrow> ClientIdentityKey \<Rightarrow> ResourceHandle \<Rightarrow> SessionManager \<Rightarrow> bool" where
  "owns_managed_process sid ident pid m \<longleftrightarrow>
     (case owned_session sid ident m of None \<Rightarrow> False | Some s \<Rightarrow> map_of (processes s) pid \<noteq> None)"

definition managed_process_closed ::
    "(ManagedProcess \<Rightarrow> bool) \<Rightarrow> ResourceHandle \<Rightarrow> ClientIdentityKey \<Rightarrow> ResourceHandle \<Rightarrow> SessionManager \<Rightarrow> bool" where
  "managed_process_closed is_closed sid ident pid m \<longleftrightarrow>
     (case owned_session sid ident m of
        None \<Rightarrow> True
      | Some s \<Rightarrow>
          (case Option.bind (map_of (processes s) pid) process_controller of
             None \<Rightarrow> True
           | Some c \<Rightarrow> is_closed c))"

section \<open>Watches\<close>

definition watch_new :: "ResourceHandle \<Rightarrow> bytes \<Rightarrow> bytes option \<Rightarrow> (WatchResource, handle_error) result" where
  "watch_new sandbox path fill =
     and_then (handle_random fill) (\<lambda>h. Ok \<lparr>watch_id = h, watch_sandbox = sandbox, watch_path = path\<rparr>)"

definition watch_begin ::
    "ResourceHandle \<Rightarrow> ClientIdentityKey \<Rightarrow> ResourceHandle \<Rightarrow> bytes \<Rightarrow> bytes option
      \<Rightarrow> SessionManager \<Rightarrow> (WatchResource \<times> ManagedVm) option manager_op" where
  "watch_begin sid ident sandbox path fill m =
     (case owned_session sid ident m of
        None \<Rightarrow> (m, Ok None)
      | Some s \<Rightarrow>
          (case running_vm sid ident sandbox m of
             None \<Rightarrow> (m, Ok None)
           | Some v \<Rightarrow>
               (case watch_new sandbox path fill of
                  Inl e \<Rightarrow> (m, Err (Handle_Error e))
                | Inr r \<Rightarrow>
                    (case reserve_watch sandbox ident (quotas m) of
                       Inl e \<Rightarrow> (m, Err (Quota_Error e))
                     | Inr q \<Rightarrow>
                         (put_in sid (s\<lparr>watches := AList.update (watch_id r) (Preparing_Watch r) (watches s)\<rparr>)
                            (m\<lparr>quotas := q\<rparr>), Ok (Some (r, v)))))))"

definition watch_finish ::
    "ResourceHandle \<Rightarrow> ClientIdentityKey \<Rightarrow> ResourceHandle \<Rightarrow> WatchResource \<Rightarrow> (ManagedWatch, manager_error) result
      \<Rightarrow> SessionManager \<Rightarrow> SessionManager \<times> (WatchResource option, manager_error) result \<times> ManagedWatch option" where
  "watch_finish sid ident sandbox r started m =
     (let valid = (case owned_session sid ident m of
                     None \<Rightarrow> None
                   | Some s \<Rightarrow> if map_of (watches s) (watch_id r) \<noteq> None \<and> running_in sandbox s then Some s else None) in
      case valid of
        None \<Rightarrow> (m, Ok None, case started of Inl _ \<Rightarrow> None | Inr w \<Rightarrow> Some w)
      | Some s \<Rightarrow>
          (case started of
             Inr w \<Rightarrow>
               (put_in sid (s\<lparr>watches := AList.update (watch_id r) (Running_Watch r w) (watches s)\<rparr>) m,
                Ok (Some r), None)
           | Inl e \<Rightarrow>
               ((put_in sid (s\<lparr>watches := AList.delete (watch_id r) (watches s)\<rparr>) m)
                  \<lparr>quotas := release_watch sandbox ident (quotas m)\<rparr>, Err e, None)))"

text \<open>\<^verbatim>\<open>stop_managed_watch\<close>, which \<^verbatim>\<open>retire_managed_watch\<close> calls: on success the watch to stop.\<close>

definition stop_managed_watch ::
    "ResourceHandle \<Rightarrow> ClientIdentityKey \<Rightarrow> ResourceHandle \<Rightarrow> nat \<Rightarrow> SessionManager \<Rightarrow> (bool \<times> ManagedWatch option) manager_op" where
  "stop_managed_watch sid ident wid now m =
     (case map_of (sessions m) sid of
        None \<Rightarrow> (m, Err Resource_Not_Found)
      | Some s \<Rightarrow>
          if identity s \<noteq> ident then (m, Ok (False, None))
          else
            let s = s\<lparr>retired := prune_retired_at now (retired s)\<rparr>; m = put_in sid s m in
            if is_retired wid s then (m, Ok (True, None))
            else (case map_of (watches s) wid of
                None \<Rightarrow> (m, Ok (False, None))
              | Some (Preparing_Watch _) \<Rightarrow> (m, Err Watch_Preparing)
              | Some w \<Rightarrow>
                  let s = retire now wid (s\<lparr>watches := AList.delete wid (watches s)\<rparr>); m = put_in sid s m in
                  (m\<lparr>quotas := release_watch (watch_sandbox (watch_resource w)) ident (quotas m)\<rparr>,
                   Ok (True, watch_controller w))))"

definition managed_watch_event ::
    "(ManagedWatch \<Rightarrow> ('a option, manager_error) result) \<Rightarrow> ResourceHandle \<Rightarrow> ClientIdentityKey \<Rightarrow> ResourceHandle
      \<Rightarrow> SessionManager \<Rightarrow> ('a option, manager_error) result" where
  "managed_watch_event next_event sid ident wid m =
     (case owned_session sid ident m of
        None \<Rightarrow> Ok None
      | Some s \<Rightarrow>
          (case Option.bind (map_of (watches s) wid) watch_controller of
             None \<Rightarrow> Ok None
           | Some c \<Rightarrow> next_event c))"

definition managed_watch_closed ::
    "(ManagedWatch \<Rightarrow> bool) \<Rightarrow> ResourceHandle \<Rightarrow> ClientIdentityKey \<Rightarrow> ResourceHandle \<Rightarrow> SessionManager \<Rightarrow> bool" where
  "managed_watch_closed is_closed sid ident wid m \<longleftrightarrow>
     (case owned_session sid ident m of
        None \<Rightarrow> True
      | Some s \<Rightarrow>
          (case Option.bind (map_of (watches s) wid) watch_controller of
             None \<Rightarrow> True
           | Some c \<Rightarrow> is_closed c))"

end
