(* ===== verification/Session_System.thy ===== *)
theory Session_System
  imports Session_Manager
begin

text \<open>
  The session manager under concurrent clients. A state is the manager together with what its
  threads hold between two critical sections: reservations whose VM is being started, slots of
  sandboxes whose VM is being stopped, sessions that have been detached and are being torn down, processes and watches that are being started, and
  leases about to be dropped. A step is one critical section; the admission calls made inside it
  belong to it. The invariant relates the quota book, the slots and the leases: there is a ledger
  that the book represents and that lists exactly what the sessions and the threads hold.
\<close>

section \<open>States and steps\<close>

type_synonym slot_key = "ResourceHandle \<times> ResourceHandle \<times> bytes"

record service_state =
  mgr :: SessionManager
  starting :: "(ResourceHandle \<times> ClientIdentityKey \<times> ResourceHandle) multiset"
  stopping :: "(ResourceHandle \<times> ClientIdentityKey \<times> ResourceHandle) multiset"
  closing :: "Session multiset"
  spawning :: "(ResourceHandle \<times> ClientIdentityKey \<times> ResourceHandle \<times> GuestProcessResource) multiset"
  watching :: "(ResourceHandle \<times> ClientIdentityKey \<times> ResourceHandle \<times> WatchResource) multiset"
  loose :: nat

definition service_start :: "QuotaLimits \<Rightarrow> bool \<Rightarrow> service_state" where
  "service_start lim initially_open =
     \<lparr>mgr = manager_new lim (admission_new initially_open), starting = {#}, stopping = {#}, closing = {#},
      spawning = {#}, watching = {#}, loose = 0\<rparr>"

text \<open>
  Random handles of processes and watches do not repeat: the only assumption on the random number
  generator. (Handles of sessions and sandboxes are checked by the code.)
\<close>

definition fresh_process :: "ResourceHandle \<Rightarrow> service_state \<Rightarrow> bool" where
  "fresh_process pid st \<longleftrightarrow>
     (\<forall>(sid, s) \<in> set (sessions (mgr st)). map_of (processes s) pid = None) \<and>
     (\<forall>(sid, ident, sb, r) \<in># spawning st. process_id r \<noteq> pid)"

definition fresh_watch :: "ResourceHandle \<Rightarrow> service_state \<Rightarrow> bool" where
  "fresh_watch wid st \<longleftrightarrow>
     (\<forall>(sid, s) \<in> set (sessions (mgr st)). map_of (watches s) wid = None) \<and>
     (\<forall>(sid, ident, sb, r) \<in># watching st. watch_id r \<noteq> wid)"

text \<open>A step is labelled with the client it is done for, if any.\<close>

inductive service_step :: "ClientIdentityKey option \<Rightarrow> service_state \<Rightarrow> service_state \<Rightarrow> bool" where
  open_step: "open_session ident rnd (mgr st) = (m, res) \<Longrightarrow>
    service_step (Some ident) st (st\<lparr>mgr := m\<rparr>)"
| detach_step: "close_detach sid ident now (mgr st) = (m, Some s) \<Longrightarrow>
    service_step (Some ident) st (st\<lparr>mgr := m, closing := add_mset s (closing st)\<rparr>)"
| clear_step: "closing st = add_mset s C \<Longrightarrow>
    service_step (Some (identity s)) st
      (st\<lparr>closing := add_mset (clear_test_resources s) C, loose := loose st + length (test_resources s)\<rparr>)"
| teardown_step: "closing st = add_mset s C \<Longrightarrow> test_resources s = [] \<Longrightarrow> close_teardown s = Some (s', out) \<Longrightarrow>
    service_step (Some (identity s)) st (st\<lparr>closing := C, loose := loose st + length (sandboxes s')\<rparr>)"
| drop_step: "loose st = Suc n \<Longrightarrow>
    service_step None st (st\<lparr>mgr := (mgr st)\<lparr>admissions := release_active_use (admissions (mgr st))\<rparr>, loose := n\<rparr>)"
| test_create_step: "create_test_resource sid ident val fill (mgr st) = (m, res) \<Longrightarrow>
    service_step (Some ident) st (st\<lparr>mgr := m\<rparr>)"
| test_close_step: "close_test_resource sid ident h now (mgr st) = (m, res) \<Longrightarrow>
    service_step (Some ident) st (st\<lparr>mgr := m\<rparr>)"
| replay_begin_step: "begin_start_replay sid ident instance_id now (mgr st) = (m, res) \<Longrightarrow>
    service_step (Some ident) st (st\<lparr>mgr := m\<rparr>)"
| replay_complete_step: "complete_start_replay sid ident instance_id sb ms now (mgr st) = (m, found) \<Longrightarrow>
    service_step (Some ident) st (st\<lparr>mgr := m\<rparr>)"
| replay_abandon_step: "abandon_start_replay sid ident instance_id (mgr st) = (m, found) \<Longrightarrow>
    service_step (Some ident) st (st\<lparr>mgr := m\<rparr>)"
| reserve_step: "reserve_managed_vm sid ident resources fill (mgr st) = (m, res) \<Longrightarrow>
    service_step (Some ident) st (st\<lparr>mgr := m\<rparr>)"
| unreserve_step: "cancel_managed_vm_reservation sid ident h (mgr st) = (m, found) \<Longrightarrow>
    service_step (Some ident) st (st\<lparr>mgr := m\<rparr>)"
| start_begin_step: "start_reserved_check sid ident h (mgr st) = Ok token \<Longrightarrow>
    service_step (Some ident) st (st\<lparr>starting := add_mset (sid, ident, h) (starting st)\<rparr>)"
| start_finish_step: "starting st = add_mset (sid, ident, h) S \<Longrightarrow>
    start_reserved_finish sid ident h started (mgr st) = (m, res, stopped) \<Longrightarrow>
    service_step (Some ident) st (st\<lparr>mgr := m, starting := S\<rparr>)"
| stop_begin_step: "stop_begin sid ident h (mgr st) = (m, Ok (Some out)) \<Longrightarrow>
    service_step (Some ident) st (st\<lparr>mgr := m, stopping := add_mset (sid, ident, h) (stopping st)\<rparr>)"
| stop_finish_step: "stopping st = add_mset (sid, ident, h) S \<Longrightarrow>
    service_step (Some ident) st
      (st\<lparr>mgr := stop_finish sid ident h now (mgr st), stopping := S, loose := Suc (loose st)\<rparr>)"
| spawn_begin_step: "spawn_begin sid ident sb f1 f2 f3 (mgr st) = (m, Ok (Some (r, v))) \<Longrightarrow>
    fresh_process (process_id r) st \<Longrightarrow>
    service_step (Some ident) st (st\<lparr>mgr := m, spawning := add_mset (sid, ident, sb, r) (spawning st)\<rparr>)"
| spawn_finish_step: "spawning st = add_mset (sid, ident, sb, r) S \<Longrightarrow>
    spawn_finish sid ident sb r started (mgr st) = (m, res, killed) \<Longrightarrow>
    service_step (Some ident) st (st\<lparr>mgr := m, spawning := S\<rparr>)"
| kill_step: "kill_managed_process sid ident pid now (mgr st) = (m, res) \<Longrightarrow>
    service_step (Some ident) st (st\<lparr>mgr := m\<rparr>)"
| retire_step: "retire_managed_process sid ident pid now (mgr st) = (m, res) \<Longrightarrow>
    service_step (Some ident) st (st\<lparr>mgr := m\<rparr>)"
| watch_begin_step: "watch_begin sid ident sb path fill (mgr st) = (m, Ok (Some (w, v))) \<Longrightarrow>
    fresh_watch (watch_id w) st \<Longrightarrow>
    service_step (Some ident) st (st\<lparr>mgr := m, watching := add_mset (sid, ident, sb, w) (watching st)\<rparr>)"
| watch_finish_step: "watching st = add_mset (sid, ident, sb, w) W \<Longrightarrow>
    watch_finish sid ident sb w started (mgr st) = (m, res, stopped) \<Longrightarrow>
    service_step (Some ident) st (st\<lparr>mgr := m, watching := W\<rparr>)"
| watch_stop_step: "stop_managed_watch sid ident wid now (mgr st) = (m, res) \<Longrightarrow>
    service_step (Some ident) st (st\<lparr>mgr := m\<rparr>)"
| control_step: "admission_control (admissions (mgr st)) a \<Longrightarrow>
    service_step None st (st\<lparr>mgr := (mgr st)\<lparr>admissions := a\<rparr>\<rparr>)"

definition any_step :: "service_state \<Rightarrow> service_state \<Rightarrow> bool" where
  "any_step st st' \<longleftrightarrow> (\<exists>who. service_step who st st')"

section \<open>What is held\<close>

definition session_user :: "Session \<Rightarrow> bytes" where
  "session_user s = user_sid (identity s)"

definition session_slots :: "ResourceHandle \<times> Session \<Rightarrow> slot_key multiset" where
  "session_slots p =
     (let sid = fst p; s = snd p in
      image_mset (\<lambda>h. (sid, h, session_user s)) (mset (map fst (test_resources s) @ map fst (sandboxes s))))"

definition session_processes :: "ResourceHandle \<times> Session \<Rightarrow> (ResourceHandle \<times> bytes) multiset" where
  "session_processes p =
     image_mset (\<lambda>(_, x). (process_sandbox (process_resource x), session_user (snd p))) (mset (processes (snd p)))"

definition session_watches :: "ResourceHandle \<times> Session \<Rightarrow> (ResourceHandle \<times> bytes) multiset" where
  "session_watches p =
     image_mset (\<lambda>(_, x). (watch_sandbox (watch_resource x), session_user (snd p))) (mset (watches (snd p)))"

definition over_sessions :: "(ResourceHandle \<times> Session \<Rightarrow> 'a multiset) \<Rightarrow> SessionManager \<Rightarrow> 'a multiset" where
  "over_sessions f m = (\<Sum>p \<in># mset (sessions m). f p)"

definition stopping_slots :: "service_state \<Rightarrow> slot_key multiset" where
  "stopping_slots st = image_mset (\<lambda>(sid, ident, h). (sid, h, user_sid ident)) (stopping st)"

text \<open>Every slot of a sandbox or test resource, in a session or in the hands of a thread stopping it.\<close>

definition all_slots :: "service_state \<Rightarrow> slot_key multiset" where
  "all_slots st = over_sessions session_slots (mgr st) + stopping_slots st"

definition session_leases :: "Session \<Rightarrow> nat" where
  "session_leases s = length (test_resources s) + length (sandboxes s)"

definition leases :: "service_state \<Rightarrow> nat" where
  "leases st = size (all_slots st) + (\<Sum>s \<in># closing st. session_leases s) + loose st"

definition box_key :: "box \<Rightarrow> slot_key" where
  "box_key b = (box_connection b, box_id b, box_user b)"

section \<open>The invariant\<close>

definition session_ok :: "Session \<Rightarrow> bool" where
  "session_ok s \<longleftrightarrow>
     hm_wf (test_resources s) \<and> hm_wf (sandboxes s) \<and> hm_wf (processes s) \<and> hm_wf (watches s) \<and>
     (\<forall>(pid, p) \<in> set (processes s). process_id (process_resource p) = pid \<and>
        running_in (process_sandbox (process_resource p)) s) \<and>
     (\<forall>(wid, w) \<in> set (watches s). watch_id (watch_resource w) = wid \<and>
        running_in (watch_sandbox (watch_resource w)) s)"

definition held_ok :: "service_state \<Rightarrow> ledger \<Rightarrow> bool" where
  "held_ok st L \<longleftrightarrow>
     image_mset box_key (l_boxes L) = all_slots st \<and>
     l_processes L = over_sessions session_processes (mgr st) \<and>
     l_watches L = over_sessions session_watches (mgr st) \<and>
     image_mset (session_user \<circ> snd) (mset (sessions (mgr st))) \<subseteq># l_connections L"

definition spawns_ok :: "service_state \<Rightarrow> bool" where
  "spawns_ok st \<longleftrightarrow>
     (\<forall>(sid, ident, sb, r) \<in># spawning st. process_sandbox r = sb \<and>
        (\<forall>(sid', s) \<in> set (sessions (mgr st)). \<forall>p. map_of (processes s) (process_id r) = Some p \<longrightarrow>
           process_resource p = r))"

definition watchings_ok :: "service_state \<Rightarrow> bool" where
  "watchings_ok st \<longleftrightarrow>
     (\<forall>(sid, ident, sb, r) \<in># watching st. watch_sandbox r = sb \<and>
        (\<forall>(sid', s) \<in> set (sessions (mgr st)). \<forall>w. map_of (watches s) (watch_id r) = Some w \<longrightarrow>
           watch_resource w = r))"

definition service_inv :: "service_state \<Rightarrow> bool" where
  "service_inv st \<longleftrightarrow>
     hm_wf (sessions (mgr st)) \<and> (\<forall>(sid, s) \<in> set (sessions (mgr st)). session_ok s) \<and>
     (\<exists>L. book_ok (quotas (mgr st)) L \<and> held_ok st L) \<and>
     spawns_ok st \<and> watchings_ok st \<and>
     admission_inv (admissions (mgr st)) \<and> unat (active_use_count (admissions (mgr st))) = leases st \<and>
     hm_wf (start_replays (mgr st)) \<and> length (start_replays (mgr st)) \<le> MAX_START_REPLAY_RECORDS"

section \<open>Changing one session\<close>

definition over_rest :: "(ResourceHandle \<times> Session \<Rightarrow> 'a multiset) \<Rightarrow> ResourceHandle \<Rightarrow> SessionManager \<Rightarrow> 'a multiset" where
  "over_rest f sid m = (\<Sum>p \<in># mset (AList.delete sid (sessions m)). f p)"

lemma over_sessions_split:
  "hm_wf (sessions m) \<Longrightarrow> map_of (sessions m) sid = Some s \<Longrightarrow>
    over_sessions f m = f (sid, s) + over_rest f sid m"
  by (simp add: over_sessions_def over_rest_def hm_mset_split)

lemma over_sessions_update:
  "hm_wf (sessions m) \<Longrightarrow>
    over_sessions f (m\<lparr>sessions := AList.update sid s (sessions m)\<rparr>) = f (sid, s) + over_rest f sid m"
  by (simp add: over_sessions_def over_rest_def hm_mset_update)

lemma over_sessions_cong: "sessions m = sessions m' \<Longrightarrow> over_sessions f m = over_sessions f m'"
  by (simp add: over_sessions_def)

lemma set_update_sub: "set (AList.update k v m) \<subseteq> insert (k, v) (set m)"
  by (induction m) auto

lemma session_users_update:
  assumes "hm_wf ss" and "map_of ss sid = Some s" and "identity s' = identity s"
  shows "image_mset (session_user \<circ> snd) (mset (AList.update sid s' ss)) = image_mset (session_user \<circ> snd) (mset ss)"
  using assms by (simp add: hm_mset_update hm_mset_split session_user_def)

lemma owned_session_Some:
  "owned_session sid ident m = Some s \<longleftrightarrow> map_of (sessions m) sid = Some s \<and> identity s = ident"
  by (auto simp: owned_session_def split: option.splits if_splits)

text \<open>
  The common shape of a step: one session changes, and with it the book, the admission state and
  what the threads hold. The ledger has to follow the book.
\<close>

lemma service_inv_update:
  assumes inv: "service_inv st" and look: "map_of (sessions (mgr st)) sid = Some s"
    and same: "identity s' = identity s" and ok: "session_ok s'"
    and m': "sessions (mgr st') = AList.update sid s' (sessions (mgr st))" "start_replays (mgr st') = start_replays (mgr st)"
    and book: "\<And>L. book_ok (quotas (mgr st)) L \<Longrightarrow>
        image_mset box_key (l_boxes L) =
          session_slots (sid, s) + over_rest session_slots sid (mgr st) + stopping_slots st \<Longrightarrow>
        l_processes L = session_processes (sid, s) + over_rest session_processes sid (mgr st) \<Longrightarrow>
        l_watches L = session_watches (sid, s) + over_rest session_watches sid (mgr st) \<Longrightarrow>
        \<exists>L'. book_ok (quotas (mgr st')) L' \<and> l_connections L' = l_connections L \<and>
          image_mset box_key (l_boxes L') =
            session_slots (sid, s') + over_rest session_slots sid (mgr st) + stopping_slots st' \<and>
          l_processes L' = session_processes (sid, s') + over_rest session_processes sid (mgr st) \<and>
          l_watches L' = session_watches (sid, s') + over_rest session_watches sid (mgr st)"
    and spawns: "spawns_ok st'" "watchings_ok st'"
    and adm: "admission_inv (admissions (mgr st'))"
      "unat (active_use_count (admissions (mgr st'))) =
        size (session_slots (sid, s') + over_rest session_slots sid (mgr st) + stopping_slots st')
        + (\<Sum>s \<in># closing st'. session_leases s) + loose st'"
  shows "service_inv st'"
proof -
  have wf: "hm_wf (sessions (mgr st))" and all: "\<forall>(sid, s) \<in> set (sessions (mgr st)). session_ok s"
    using inv by (auto simp: service_inv_def)
  obtain L where L: "book_ok (quotas (mgr st)) L" "held_ok st L" using inv by (auto simp: service_inv_def)
  note split = over_sessions_split [OF wf look]
  have upd: "over_sessions f (mgr st') = f (sid, s') + over_rest f sid (mgr st)" for f :: "_ \<Rightarrow> 'z multiset"
    using over_sessions_update [OF wf, of f sid s'] m'(1) by (simp add: over_sessions_def)
  obtain L' where "book_ok (quotas (mgr st')) L'" "l_connections L' = l_connections L"
    "image_mset box_key (l_boxes L') = over_sessions session_slots (mgr st') + stopping_slots st'"
    "l_processes L' = over_sessions session_processes (mgr st')"
    "l_watches L' = over_sessions session_watches (mgr st')"
    using book [OF L(1)] L(2) by (auto simp: held_ok_def all_slots_def split upd)
  moreover have "image_mset (session_user \<circ> snd) (mset (sessions (mgr st'))) \<subseteq># l_connections L"
    using L(2) session_users_update [OF wf look same] by (simp add: held_ok_def m'(1))
  ultimately have "\<exists>L. book_ok (quotas (mgr st')) L \<and> held_ok st' L"
    by (auto simp: held_ok_def all_slots_def intro!: exI [of _ L'])
  moreover have "\<forall>(sid, s) \<in> set (sessions (mgr st')). session_ok s"
    using all ok set_update_sub [of sid s' "sessions (mgr st)"] by (auto simp: m'(1))
  moreover have "hm_wf (sessions (mgr st'))" using wf by (simp add: m'(1))
  ultimately show ?thesis
    using inv spawns adm by (simp add: service_inv_def m'(2) leases_def all_slots_def upd)
qed

lemma spawns_ok_sub:
  assumes "spawns_ok st" and "spawning st' \<subseteq># spawning st"
    and "\<And>sid s' p pid. (sid, s') \<in> set (sessions (mgr st')) \<Longrightarrow> map_of (processes s') pid = Some p \<Longrightarrow>
      \<exists>sid' s p'. (sid', s) \<in> set (sessions (mgr st)) \<and> map_of (processes s) pid = Some p' \<and>
        process_resource p' = process_resource p"
  shows "spawns_ok st'"
  unfolding spawns_ok_def
proof (clarify, intro conjI allI ballI impI; clarify?)
  fix sid ident sb r
  assume r: "(sid, ident, sb, r) \<in># spawning st'"
  then have r0: "(sid, ident, sb, r) \<in># spawning st" using assms(2) by (rule mset_subset_eqD [rotated])
  then show "process_sandbox r = sb" using assms(1) by (auto simp: spawns_ok_def)
  fix sid' s' p
  assume "(sid', s') \<in> set (sessions (mgr st'))" "map_of (processes s') (process_id r) = Some p"
  from assms(3) [OF this] obtain sid2 s2 p2 where
    "(sid2, s2) \<in> set (sessions (mgr st))" "map_of (processes s2) (process_id r) = Some p2"
    "process_resource p2 = process_resource p" by blast
  with assms(1) r0 show "process_resource p = r" by (fastforce simp: spawns_ok_def)
qed

lemma watchings_ok_sub:
  assumes "watchings_ok st" and "watching st' \<subseteq># watching st"
    and "\<And>sid s' p pid. (sid, s') \<in> set (sessions (mgr st')) \<Longrightarrow> map_of (watches s') pid = Some p \<Longrightarrow>
      \<exists>sid' s p'. (sid', s) \<in> set (sessions (mgr st)) \<and> map_of (watches s) pid = Some p' \<and>
        watch_resource p' = watch_resource p"
  shows "watchings_ok st'"
  unfolding watchings_ok_def
proof (clarify, intro conjI allI ballI impI; clarify?)
  fix sid ident sb r
  assume r: "(sid, ident, sb, r) \<in># watching st'"
  then have r0: "(sid, ident, sb, r) \<in># watching st" using assms(2) by (rule mset_subset_eqD [rotated])
  then show "watch_sandbox r = sb" using assms(1) by (auto simp: watchings_ok_def)
  fix sid' s' p
  assume "(sid', s') \<in> set (sessions (mgr st'))" "map_of (watches s') (watch_id r) = Some p"
  from assms(3) [OF this] obtain sid2 s2 p2 where
    "(sid2, s2) \<in> set (sessions (mgr st))" "map_of (watches s2) (watch_id r) = Some p2"
    "watch_resource p2 = watch_resource p" by blast
  with assms(1) r0 show "watch_resource p = r" by (fastforce simp: watchings_ok_def)
qed

lemma spawns_ok_update:
  assumes "spawns_ok st" and "map_of (sessions (mgr st)) sid = Some s"
    and "sessions (mgr st') = AList.update sid s' (sessions (mgr st))" and "spawning st' \<subseteq># spawning st"
    and "\<And>pid p. map_of (processes s') pid = Some p \<Longrightarrow>
      \<exists>p'. map_of (processes s) pid = Some p' \<and> process_resource p' = process_resource p"
  shows "spawns_ok st'"
proof (rule spawns_ok_sub [OF assms(1,4)])
  fix sid2 s2 p pid
  assume s2: "(sid2, s2) \<in> set (sessions (mgr st'))" and p: "map_of (processes s2) pid = Some p"
  from s2 consider "s2 = s'" | "(sid2, s2) \<in> set (sessions (mgr st))"
    using set_update_sub [of sid s' "sessions (mgr st)"] unfolding assms(3) by blast
  then show "\<exists>sid' s p'. (sid', s) \<in> set (sessions (mgr st)) \<and> map_of (processes s) pid = Some p' \<and>
      process_resource p' = process_resource p"
  proof cases
    case 1
    with p assms(5) map_of_SomeD [OF assms(2)] show ?thesis by blast
  next
    case 2
    with p show ?thesis by blast
  qed
qed

lemma watchings_ok_update:
  assumes "watchings_ok st" and "map_of (sessions (mgr st)) sid = Some s"
    and "sessions (mgr st') = AList.update sid s' (sessions (mgr st))" and "watching st' \<subseteq># watching st"
    and "\<And>wid p. map_of (watches s') wid = Some p \<Longrightarrow>
      \<exists>p'. map_of (watches s) wid = Some p' \<and> watch_resource p' = watch_resource p"
  shows "watchings_ok st'"
proof (rule watchings_ok_sub [OF assms(1,4)])
  fix sid2 s2 p pid
  assume s2: "(sid2, s2) \<in> set (sessions (mgr st'))" and p: "map_of (watches s2) pid = Some p"
  from s2 consider "s2 = s'" | "(sid2, s2) \<in> set (sessions (mgr st))"
    using set_update_sub [of sid s' "sessions (mgr st)"] unfolding assms(3) by blast
  then show "\<exists>sid' s p'. (sid', s) \<in> set (sessions (mgr st)) \<and> map_of (watches s) pid = Some p' \<and>
      watch_resource p' = watch_resource p"
  proof cases
    case 1
    with p assms(5) map_of_SomeD [OF assms(2)] show ?thesis by blast
  next
    case 2
    with p show ?thesis by blast
  qed
qed

lemma service_invD:
  assumes "service_inv st"
  shows "hm_wf (sessions (mgr st))" "spawns_ok st" "watchings_ok st" "admission_inv (admissions (mgr st))"
    "unat (active_use_count (admissions (mgr st))) = leases st" "hm_wf (start_replays (mgr st))"
    "length (start_replays (mgr st)) \<le> MAX_START_REPLAY_RECORDS"
    "map_of (sessions (mgr st)) sid = Some s \<Longrightarrow> session_ok s"
  using assms by (auto simp: service_inv_def dest: map_of_SomeD)

lemma leases_split:
  assumes "service_inv st" and "map_of (sessions (mgr st)) sid = Some s"
  shows "leases st = size (session_slots (sid, s) + over_rest session_slots sid (mgr st) + stopping_slots st)
    + (\<Sum>s \<in># closing st. session_leases s) + loose st"
  using over_sessions_split [OF service_invD(1) [OF assms(1)] assms(2), of session_slots]
  by (simp add: leases_def all_slots_def)

text \<open>Steps that leave the sessions and the book alone.\<close>

lemma service_inv_control:
  assumes inv: "service_inv st"
    and same: "sessions (mgr st') = sessions (mgr st)" "quotas (mgr st') = quotas (mgr st)"
      "stopping st' = stopping st" "closing st' = closing st" "spawning st' = spawning st" "watching st' = watching st"
    and adm: "admission_inv (admissions (mgr st'))"
      "unat (active_use_count (admissions (mgr st'))) + loose st = unat (active_use_count (admissions (mgr st))) + loose st'"
    and replays: "hm_wf (start_replays (mgr st'))" "length (start_replays (mgr st')) \<le> MAX_START_REPLAY_RECORDS"
  shows "service_inv st'"
proof -
  have over: "over_sessions f (mgr st') = over_sessions f (mgr st)" for f :: "_ \<Rightarrow> 'z multiset"
    by (rule over_sessions_cong) (rule same)
  have "stopping_slots st' = stopping_slots st" by (simp add: stopping_slots_def same)
  then have "all_slots st' = all_slots st" by (simp add: all_slots_def over)
  moreover from this have "held_ok st' = held_ok st" by (simp add: fun_eq_iff held_ok_def over same)
  moreover have "spawns_ok st' = spawns_ok st" "watchings_ok st' = watchings_ok st"
    by (simp_all add: spawns_ok_def watchings_ok_def same)
  ultimately show ?thesis
    using inv same adm replays by (simp add: service_inv_def leases_def)
qed

text \<open>A step that changes neither what a session holds nor the book.\<close>

lemma service_inv_metadata:
  assumes inv: "service_inv st" and look: "map_of (sessions (mgr st)) sid = Some s"
  shows "service_inv (st\<lparr>mgr := put_in sid (s\<lparr>retired := rs\<rparr>) (mgr st)\<rparr>)"
proof (rule service_inv_update [OF inv look, where s' = "s\<lparr>retired := rs\<rparr>"])
  let ?s' = "s\<lparr>retired := rs\<rparr>" and ?st' = "st\<lparr>mgr := put_in sid (s\<lparr>retired := rs\<rparr>) (mgr st)\<rparr>"
  have ok: "session_ok s" using service_invD(8) [OF inv look] .
  then show "session_ok ?s'" by (simp add: session_ok_def running_in_def)
  show "spawns_ok ?st'"
    by (rule spawns_ok_update [OF service_invD(2) [OF inv] look]) (auto simp: put_in_def)
  show "watchings_ok ?st'"
    by (rule watchings_ok_update [OF service_invD(3) [OF inv] look]) (auto simp: put_in_def)
  have same: "session_slots (sid, ?s') = session_slots (sid, s)" "session_processes (sid, ?s') = session_processes (sid, s)"
    "session_watches (sid, ?s') = session_watches (sid, s)" "stopping_slots ?st' = stopping_slots st"
    by (simp_all add: session_slots_def session_processes_def session_watches_def session_user_def stopping_slots_def)
  show "unat (active_use_count (admissions (mgr ?st'))) =
      size (session_slots (sid, ?s') + over_rest session_slots sid (mgr st) + stopping_slots ?st')
      + (\<Sum>s \<in># closing ?st'. session_leases s) + loose ?st'"
    using leases_split [OF inv look] service_invD(5) [OF inv] unfolding same by (simp add: put_in_def)
  show "\<exists>L'. book_ok (quotas (mgr ?st')) L' \<and> l_connections L' = l_connections L \<and>
      image_mset box_key (l_boxes L') =
        session_slots (sid, ?s') + over_rest session_slots sid (mgr st) + stopping_slots ?st' \<and>
      l_processes L' = session_processes (sid, ?s') + over_rest session_processes sid (mgr st) \<and>
      l_watches L' = session_watches (sid, ?s') + over_rest session_watches sid (mgr st)"
    if "book_ok (quotas (mgr st)) L"
      "image_mset box_key (l_boxes L) = session_slots (sid, s) + over_rest session_slots sid (mgr st) + stopping_slots st"
      "l_processes L = session_processes (sid, s) + over_rest session_processes sid (mgr st)"
      "l_watches L = session_watches (sid, s) + over_rest session_watches sid (mgr st)" for L
    using that unfolding same by (auto simp: put_in_def intro!: exI [of _ L])
qed (use service_invD(4) [OF inv] in \<open>simp_all add: put_in_def\<close>)

text \<open>A step that changes the slots of a session, and the book and the leases with them.\<close>

lemma service_inv_slots:
  assumes inv: "service_inv st" and look: "map_of (sessions (mgr st)) sid = Some s"
    and same: "identity s' = identity s" "processes s' = processes s" "watches s' = watches s"
    and ok: "session_ok s'"
    and m': "sessions (mgr st') = AList.update sid s' (sessions (mgr st))" "start_replays (mgr st') = start_replays (mgr st)"
      "closing st' = closing st" "spawning st' = spawning st" "watching st' = watching st"
    and book: "\<And>L R. book_ok (quotas (mgr st)) L \<Longrightarrow>
        image_mset box_key (l_boxes L) = session_slots (sid, s) + stopping_slots st + R \<Longrightarrow>
        \<exists>M. book_ok (quotas (mgr st')) (L\<lparr>l_boxes := M\<rparr>) \<and>
          image_mset box_key M = session_slots (sid, s') + stopping_slots st' + R"
    and adm: "admission_inv (admissions (mgr st'))"
      "unat (active_use_count (admissions (mgr st'))) + size (session_slots (sid, s)) + size (stopping st) + loose st
        = unat (active_use_count (admissions (mgr st))) + size (session_slots (sid, s')) + size (stopping st') + loose st'"
  shows "service_inv st'"
proof (rule service_inv_update [OF inv look same(1) ok m'(1,2)])
  show "spawns_ok st'"
    by (rule spawns_ok_update [OF service_invD(2) [OF inv] look m'(1)]) (simp_all add: same m')
  show "watchings_ok st'"
    by (rule watchings_ok_update [OF service_invD(3) [OF inv] look m'(1)]) (simp_all add: same m')
  show "admission_inv (admissions (mgr st'))" by (rule adm)
  show "unat (active_use_count (admissions (mgr st'))) =
      size (session_slots (sid, s') + over_rest session_slots sid (mgr st) + stopping_slots st')
      + (\<Sum>s \<in># closing st'. session_leases s) + loose st'"
    using adm(2) leases_split [OF inv look] service_invD(5) [OF inv] by (simp add: m' stopping_slots_def)
  fix L
  assume L: "book_ok (quotas (mgr st)) L"
    "image_mset box_key (l_boxes L) = session_slots (sid, s) + over_rest session_slots sid (mgr st) + stopping_slots st"
    "l_processes L = session_processes (sid, s) + over_rest session_processes sid (mgr st)"
    "l_watches L = session_watches (sid, s) + over_rest session_watches sid (mgr st)"
  obtain M where "book_ok (quotas (mgr st')) (L\<lparr>l_boxes := M\<rparr>)"
    "image_mset box_key M = session_slots (sid, s') + stopping_slots st' + over_rest session_slots sid (mgr st)"
    using book [OF L(1), of "over_rest session_slots sid (mgr st)"] L(2) by (auto simp: ac_simps)
  moreover have "session_processes (sid, s') = session_processes (sid, s)" "session_watches (sid, s') = session_watches (sid, s)"
    by (simp_all add: session_processes_def session_watches_def session_user_def same)
  ultimately show "\<exists>L'. book_ok (quotas (mgr st')) L' \<and> l_connections L' = l_connections L \<and>
      image_mset box_key (l_boxes L') =
        session_slots (sid, s') + over_rest session_slots sid (mgr st) + stopping_slots st' \<and>
      l_processes L' = session_processes (sid, s') + over_rest session_processes sid (mgr st) \<and>
      l_watches L' = session_watches (sid, s') + over_rest session_watches sid (mgr st)"
    using L by (intro exI [of _ "L\<lparr>l_boxes := M\<rparr>"]) (simp add: ac_simps)
qed

text \<open>What a reservation and a release do to the keys of the granted boxes.\<close>

lemma book_reserve_box:
  assumes "book_ok q L" and "reserve_sandbox sid h ident r q = Ok q'" and "image_mset box_key (l_boxes L) = K"
  shows "\<exists>M. book_ok q' (L\<lparr>l_boxes := M\<rparr>) \<and> image_mset box_key M = add_mset (sid, h, user_sid ident) K"
  using reserve_sandbox_ok [OF assms(1,2)] assms(3)
  by (intro exI [of _ "add_mset (new_box sid h ident r) (l_boxes L)"]) (simp add: box_key_def)

lemma book_release_box:
  assumes "book_ok q L" and "image_mset box_key (l_boxes L) = add_mset (sid, h, user_sid ident) K"
  shows "\<exists>M. book_ok (release_sandbox sid h ident q) (L\<lparr>l_boxes := M\<rparr>) \<and> image_mset box_key M = K"
proof -
  obtain b M where b: "l_boxes L = add_mset b M" "box_key b = (sid, h, user_sid ident)" "image_mset box_key M = K"
    using msed_map_invR [OF assms(2)] by blast
  then have "box_connection b = sid" "box_id b = h" "user_sid ident = box_user b" by (simp_all add: box_key_def)
  with release_sandbox_ok [OF assms(1) b(1)] b(3) show ?thesis by blast
qed

text \<open>The keys of a map.\<close>

lemma keys_update_absent: "map_of m k = None \<Longrightarrow> mset (map fst (AList.update k v m)) = add_mset k (mset (map fst m))"
  by (simp add: hm_update_absent)

lemma keys_update_present: "hm_wf m \<Longrightarrow> map_of m k = Some v \<Longrightarrow> mset (map fst (AList.update k v' m)) = mset (map fst m)"
  using arg_cong [OF hm_mset_update [of m k v'], of "image_mset fst"] arg_cong [OF hm_mset_split [of m k v], of "image_mset fst"]
  by simp

lemma keys_delete: "hm_wf m \<Longrightarrow> map_of m k = Some v \<Longrightarrow> mset (map fst m) = add_mset k (mset (map fst (AList.delete k m)))"
  using arg_cong [OF hm_mset_split [of m k v], of "image_mset fst"] by simp

section \<open>Reservations\<close>

lemma slot_fresh:
  assumes inv: "service_inv st" and look: "map_of (sessions (mgr st)) sid = Some s"
    and reserve: "reserve_sandbox c h ident r (quotas (mgr st)) = Ok q'"
  shows "map_of (test_resources s) h = None" and "map_of (sandboxes s) h = None"
proof -
  obtain L where L: "book_ok (quotas (mgr st)) L" "held_ok st L" using inv by (auto simp: service_inv_def)
  have keys: "image_mset box_key (l_boxes L) = session_slots (sid, s) + (over_rest session_slots sid (mgr st) + stopping_slots st)"
    using L(2) over_sessions_split [OF service_invD(1) [OF inv] look, of session_slots]
    by (simp add: held_ok_def all_slots_def)
  have "(sid, h, session_user s) \<notin># image_mset box_key (l_boxes L)"
  proof
    assume "(sid, h, session_user s) \<in># image_mset box_key (l_boxes L)"
    then obtain b where "b \<in># l_boxes L" "box_id b = h" by (auto simp: box_key_def)
    then have "h \<in> box_id ` set_mset (l_boxes L)" by blast
    with reserve_sandbox_fresh(1) [OF L(1) reserve] show False by simp
  qed
  then have "(sid, h, session_user s) \<notin># session_slots (sid, s)" unfolding keys by simp
  then have "h \<notin> fst ` set (test_resources s)" "h \<notin> fst ` set (sandboxes s)"
    by (simp_all add: session_slots_def image_iff)
  then show "map_of (test_resources s) h = None" and "map_of (sandboxes s) h = None"
    by (simp_all add: map_of_eq_None_iff)
qed

lemma inv_reserve_slot_Err:
  assumes "service_inv st" and "reserve_slot sid ident r fill (mgr st) = (m, Err e)"
  shows "service_inv (st\<lparr>mgr := m\<rparr>)"
proof -
  have "sessions m = sessions (mgr st)" "quotas m = quotas (mgr st)" "start_replays m = start_replays (mgr st)"
    and "admission_inv (admissions m)" "unat (active_use_count (admissions m)) = unat (active_use_count (admissions (mgr st)))"
    using assms(2) service_invD(4) [OF assms(1)] reserve_release [OF service_invD(4) [OF assms(1)]]
    by (auto simp: reserve_slot_def split: sum.splits)
  then show ?thesis
    using service_invD(6,7) [OF assms(1)] by (intro service_inv_control [OF assms(1)]) simp_all
qed

lemma inv_reserve_slot_Ok:
  assumes inv: "service_inv st" and look: "map_of (sessions (mgr st)) sid = Some s" and "identity s = ident"
    and reserve: "reserve_slot sid ident r fill (mgr st) = (m, Ok h)"
    and s': "identity s' = identity s" "processes s' = processes s" "watches s' = watches s" "session_ok s'"
    and slots: "session_slots (sid, s') = add_mset (sid, h, session_user s) (session_slots (sid, s))"
  shows "service_inv (st\<lparr>mgr := put_in sid s' m\<rparr>)"
proof -
  obtain a q where a: "reserve_active_use (admissions (mgr st)) = Ok a"
    and q: "reserve_sandbox sid h ident r (quotas (mgr st)) = Ok q"
    and m: "m = (mgr st)\<lparr>admissions := a, quotas := q\<rparr>"
    using reserve by (auto simp: reserve_slot_def split: sum.splits)
  let ?st' = "st\<lparr>mgr := put_in sid s' m\<rparr>"
  have stop: "stopping_slots ?st' = stopping_slots st" by (simp add: stopping_slots_def)
  show ?thesis
  proof (rule service_inv_slots [OF inv look s'])
    fix L R
    assume "book_ok (quotas (mgr st)) L" "image_mset box_key (l_boxes L) = session_slots (sid, s) + stopping_slots st + R"
    from book_reserve_box [OF this(1) q this(2)]
    show "\<exists>M. book_ok (quotas (mgr ?st')) (L\<lparr>l_boxes := M\<rparr>) \<and>
        image_mset box_key M = session_slots (sid, s') + stopping_slots ?st' + R"
      using assms(3) unfolding stop slots by (auto simp: put_in_def m session_user_def)
  qed (use reserve_active_use_Ok [OF a] service_invD(4) [OF inv] in \<open>simp_all add: put_in_def m slots\<close>)
qed

lemma running_in_update_absent: "map_of (sandboxes s) h = None \<Longrightarrow> running_in k s \<Longrightarrow>
    running_in k (s\<lparr>sandboxes := AList.update h slot (sandboxes s)\<rparr>)"
  by (auto simp: running_in_def hm_update_lookup)

lemma inv_create_test:
  assumes inv: "service_inv st" and create: "create_test_resource sid ident val fill (mgr st) = (m, res)"
  shows "service_inv (st\<lparr>mgr := m\<rparr>)"
proof (cases "owned_session sid ident (mgr st)")
  case None
  with create inv show ?thesis by (auto simp: create_test_resource_def)
next
  case (Some s)
  then have look: "map_of (sessions (mgr st)) sid = Some s" "identity s = ident" by (simp_all add: owned_session_Some)
  obtain m1 r1 where r: "reserve_slot sid ident default_resources fill (mgr st) = (m1, r1)" by fastforce
  show ?thesis
  proof (cases r1)
    case (Inl e)
    with create Some r inv_reserve_slot_Err [OF inv, of sid ident default_resources fill m1 e] show ?thesis
      by (simp add: create_test_resource_def)
  next
    case (Inr h)
    then obtain q where "reserve_sandbox sid h ident default_resources (quotas (mgr st)) = Ok q"
      using r by (auto simp: reserve_slot_def split: sum.splits)
    note fresh = slot_fresh [OF inv look(1) this]
    let ?s' = "s\<lparr>test_resources := AList.update h \<lparr>test_value = val\<rparr> (test_resources s)\<rparr>"
    have "session_ok ?s'" using service_invD(8) [OF inv look(1)] by (simp add: session_ok_def running_in_def)
    moreover have "session_slots (sid, ?s') = add_mset (sid, h, session_user s) (session_slots (sid, s))"
      using keys_update_absent [OF fresh(1)] by (simp add: session_slots_def session_user_def)
    ultimately have "service_inv (st\<lparr>mgr := put_in sid ?s' m1\<rparr>)"
      using inv_reserve_slot_Ok [OF inv look(1,2), of default_resources fill m1 h ?s'] r Inr by simp
    with create Some r Inr show ?thesis by (simp add: create_test_resource_def)
  qed
qed

lemma inv_reserve_vm:
  assumes inv: "service_inv st" and create: "reserve_managed_vm sid ident resources fill (mgr st) = (m, res)"
  shows "service_inv (st\<lparr>mgr := m\<rparr>)"
proof (cases "owned_session sid ident (mgr st)")
  case None
  with create inv show ?thesis by (auto simp: reserve_managed_vm_def)
next
  case (Some s)
  then have look: "map_of (sessions (mgr st)) sid = Some s" "identity s = ident" by (simp_all add: owned_session_Some)
  obtain m1 r1 where r: "reserve_slot sid ident resources fill (mgr st) = (m1, r1)" by fastforce
  show ?thesis
  proof (cases r1)
    case (Inl e)
    with create Some r inv_reserve_slot_Err [OF inv, of sid ident resources fill m1 e] show ?thesis
      by (simp add: reserve_managed_vm_def)
  next
    case (Inr h)
    then obtain q where "reserve_sandbox sid h ident resources (quotas (mgr st)) = Ok q"
      using r by (auto simp: reserve_slot_def split: sum.splits)
    note fresh = slot_fresh [OF inv look(1) this]
    let ?s' = "s\<lparr>sandboxes := AList.update h \<lparr>vm = None\<rparr> (sandboxes s)\<rparr>"
    have "session_ok ?s'"
      using service_invD(8) [OF inv look(1)] running_in_update_absent [OF fresh(2)]
      by (auto simp: session_ok_def)
    moreover have "session_slots (sid, ?s') = add_mset (sid, h, session_user s) (session_slots (sid, s))"
      using keys_update_absent [OF fresh(2)] by (simp add: session_slots_def session_user_def)
    ultimately have "service_inv (st\<lparr>mgr := put_in sid ?s' m1\<rparr>)"
      using inv_reserve_slot_Ok [OF inv look(1,2), of resources fill m1 h ?s'] r Inr by simp
    with create Some r Inr show ?thesis by (simp add: reserve_managed_vm_def)
  qed
qed

section \<open>Releases\<close>

lemma lease_dropped:
  assumes inv: "service_inv st" and "0 < leases st"
  shows "admission_inv (release_active_use (admissions (mgr st)))"
    and "unat (active_use_count (release_active_use (admissions (mgr st)))) + 1 =
      unat (active_use_count (admissions (mgr st)))"
proof -
  have "active_use_count (admissions (mgr st)) \<noteq> 0"
    using assms service_invD(5) [OF inv] by (metis neq0_conv unat_eq_zero)
  from release_active_use_effect [OF service_invD(4) [OF inv] this]
  show "admission_inv (release_active_use (admissions (mgr st)))"
    and "unat (active_use_count (release_active_use (admissions (mgr st)))) + 1 =
      unat (active_use_count (admissions (mgr st)))"
    using assms(2) service_invD(5) [OF inv] by simp_all
qed

text \<open>A slot leaves its session, its lease is dropped and its reservation given back.\<close>

lemma inv_release_slot:
  assumes inv: "service_inv st" and look: "map_of (sessions (mgr st)) sid = Some s"
    and s': "identity s' = identity s" "processes s' = processes s" "watches s' = watches s" "session_ok s'"
    and slots: "session_slots (sid, s) = add_mset (sid, h, session_user s) (session_slots (sid, s'))"
  shows "service_inv (st\<lparr>mgr := (put_in sid s' (mgr st))
    \<lparr>admissions := release_active_use (admissions (mgr st)),
     quotas := release_sandbox sid h (identity s) (quotas (mgr st))\<rparr>\<rparr>)" (is "service_inv ?st'")
proof (rule service_inv_slots [OF inv look s'])
  have stop: "stopping_slots ?st' = stopping_slots st" by (simp add: stopping_slots_def)
  have "0 < leases st" using leases_split [OF inv look] by (simp add: slots)
  note dropped = lease_dropped [OF inv this]
  show "admission_inv (admissions (mgr ?st'))" using dropped by simp
  show "unat (active_use_count (admissions (mgr ?st'))) + size (session_slots (sid, s)) + size (stopping st) + loose st
      = unat (active_use_count (admissions (mgr st))) + size (session_slots (sid, s')) + size (stopping ?st') + loose ?st'"
    using dropped by (simp add: slots)
  fix L R
  assume "book_ok (quotas (mgr st)) L" "image_mset box_key (l_boxes L) = session_slots (sid, s) + stopping_slots st + R"
  with book_release_box [of "quotas (mgr st)" L sid h "identity s"]
  show "\<exists>M. book_ok (quotas (mgr ?st')) (L\<lparr>l_boxes := M\<rparr>) \<and>
      image_mset box_key M = session_slots (sid, s') + stopping_slots ?st' + R"
    unfolding stop slots by (simp add: session_user_def)
qed (simp_all add: put_in_def)

lemma session_ok_sandboxes:
  assumes "session_ok s" and "hm_wf bs"
    and "\<And>k. running_in k s \<Longrightarrow> running_in k (s\<lparr>sandboxes := bs\<rparr>)"
  shows "session_ok (s\<lparr>sandboxes := bs\<rparr>)"
  using assms by (auto simp: session_ok_def)

lemma inv_remove_reserved:
  assumes inv: "service_inv st" and look: "map_of (sessions (mgr st)) sid = Some s" and "identity s = ident"
    and res: "reserved h s"
  shows "service_inv (st\<lparr>mgr := remove_reserved sid ident h s (mgr st)\<rparr>)"
proof -
  let ?s' = "s\<lparr>sandboxes := AList.delete h (sandboxes s)\<rparr>"
  have ok: "session_ok s" by (rule service_invD(8) [OF inv look])
  obtain slot where slot: "map_of (sandboxes s) h = Some slot" "vm slot = None"
    using res by (auto simp: reserved_def split: option.splits)
  have "running_in k ?s'" if "running_in k s" for k
    using that slot by (auto simp: running_in_def hm_delete_lookup)
  moreover have "hm_wf (AList.delete h (sandboxes s))" using ok by (simp add: session_ok_def)
  ultimately have "session_ok ?s'" by (intro session_ok_sandboxes [OF ok])
  moreover have "session_slots (sid, s) = add_mset (sid, h, session_user s) (session_slots (sid, ?s'))"
    using keys_delete [OF _ slot(1)] ok by (simp add: session_slots_def session_user_def session_ok_def)
  ultimately show ?thesis
    using inv_release_slot [OF inv look, of ?s' h] assms(3) by (simp add: remove_reserved_def put_in_def)
qed

lemma inv_cancel_reservation:
  assumes inv: "service_inv st" and op: "cancel_managed_vm_reservation sid ident h (mgr st) = (m, found)"
  shows "service_inv (st\<lparr>mgr := m\<rparr>)"
proof (cases "owned_session sid ident (mgr st)")
  case (Some s)
  then have "map_of (sessions (mgr st)) sid = Some s" "identity s = ident" by (simp_all add: owned_session_Some)
  with Some op inv inv_remove_reserved [OF inv, of sid s ident h] show ?thesis
    by (auto simp: cancel_managed_vm_reservation_def split: if_splits)
qed (use op inv in \<open>auto simp: cancel_managed_vm_reservation_def\<close>)

lemma inv_close_test:
  assumes inv: "service_inv st" and op: "close_test_resource sid ident h now (mgr st) = (m, res)"
  shows "service_inv (st\<lparr>mgr := m\<rparr>)"
proof (cases "map_of (sessions (mgr st)) sid")
  case (Some s0)
  show ?thesis
  proof (cases "identity s0 = ident")
    case True
    let ?s = "s0\<lparr>retired := prune_retired_at now (retired s0)\<rparr>"
    let ?st = "st\<lparr>mgr := put_in sid ?s (mgr st)\<rparr>"
    have inv1: "service_inv ?st" by (rule service_inv_metadata [OF inv Some])
    have look1: "map_of (sessions (mgr ?st)) sid = Some ?s" by (simp add: put_in_def hm_update_lookup)
    show ?thesis
    proof (cases "is_retired h ?s \<or> map_of (test_resources ?s) h = None")
      case True
      with op Some \<open>identity s0 = ident\<close> inv1 show ?thesis
        by (auto simp: close_test_resource_def Let_def split: if_splits)
    next
      case False
      then obtain t where t: "map_of (test_resources ?s) h = Some t" by auto
      let ?s' = "retire now h (?s\<lparr>test_resources := AList.delete h (test_resources ?s)\<rparr>)"
      have ok: "session_ok ?s" by (rule service_invD(8) [OF inv1 look1])
      then have "session_ok ?s'" by (simp add: session_ok_def retire_def Let_def running_in_def)
      moreover have "session_slots (sid, ?s) = add_mset (sid, h, session_user ?s) (session_slots (sid, ?s'))"
        using keys_delete [OF _ t] ok
        by (simp add: session_slots_def session_user_def session_ok_def retire_def Let_def)
      ultimately have "service_inv (?st\<lparr>mgr := (put_in sid ?s' (mgr ?st))
          \<lparr>admissions := release_active_use (admissions (mgr ?st)),
           quotas := release_sandbox sid h (identity ?s) (quotas (mgr ?st))\<rparr>\<rparr>)"
        by (intro inv_release_slot [OF inv1 look1]) (simp_all add: retire_def Let_def)
      then show ?thesis
        using op Some t False True by (auto simp: close_test_resource_def Let_def put_in_def)
    qed
  qed (use op inv Some in \<open>auto simp: close_test_resource_def\<close>)
qed (use op inv in \<open>auto simp: close_test_resource_def\<close>)

section \<open>Starting and stopping\<close>

lemma inv_start_finish:
  assumes inv: "service_inv st" and op: "start_reserved_finish sid ident h started (mgr st) = (m, res, stopped)"
  shows "service_inv (st\<lparr>mgr := m\<rparr>)"
proof (cases "\<exists>s. map_of (sessions (mgr st)) sid = Some s \<and> identity s = ident \<and> reserved h s")
  case True
  then obtain s where look: "map_of (sessions (mgr st)) sid = Some s" and s: "identity s = ident" "reserved h s"
    by blast
  show ?thesis
  proof (cases started)
    case (Inl e)
    with op look s inv_remove_reserved [OF inv look s] show ?thesis by (simp add: start_reserved_finish_def)
  next
    case (Inr v)
    let ?s' = "s\<lparr>sandboxes := AList.update h \<lparr>vm = Some v\<rparr> (sandboxes s)\<rparr>"
    have ok: "session_ok s" by (rule service_invD(8) [OF inv look])
    obtain slot where slot: "map_of (sandboxes s) h = Some slot"
      using s(2) by (auto simp: reserved_def split: option.splits)
    have "running_in k ?s'" if "running_in k s" for k
      using that by (auto simp: running_in_def hm_update_lookup)
    moreover have "hm_wf (AList.update h \<lparr>vm = Some v\<rparr> (sandboxes s))" using ok by (simp add: session_ok_def)
    ultimately have "session_ok ?s'" by (intro session_ok_sandboxes [OF ok])
    moreover have "session_slots (sid, ?s') = session_slots (sid, s)"
      using keys_update_present [OF _ slot] ok by (simp add: session_slots_def session_user_def session_ok_def)
    ultimately have "service_inv (st\<lparr>mgr := put_in sid ?s' (mgr st)\<rparr>)"
      using service_invD(4) [OF inv]
      by (intro service_inv_slots [OF inv look, where s' = ?s'])
         (auto simp: put_in_def stopping_slots_def intro!: exI [of _ "l_boxes _"])
    with op look s Inr show ?thesis by (simp add: start_reserved_finish_def)
  qed
qed (use op inv in \<open>auto simp: start_reserved_finish_def Let_def split: option.splits if_splits\<close>)

text \<open>A thread that starts a VM holds nothing: the lease is that of the slot.\<close>

lemma service_inv_starting [simp]: "service_inv (st\<lparr>starting := S\<rparr>) = service_inv st"
  by (simp add: service_inv_def held_ok_def all_slots_def stopping_slots_def spawns_ok_def watchings_ok_def leases_def)

lemma inv_start_thread:
  assumes "start_reserved_finish sid ident h started (mgr st) = (m, res, stopped)" and "service_inv st"
  shows "service_inv (st\<lparr>mgr := m, starting := S\<rparr>)"
  using inv_start_finish [OF assms(2,1)] by simp

text \<open>The processes of a sandbox, and the others.\<close>

lemma scoped_split:
  "image_mset (\<lambda>(_, x). (g x, u)) (mset xs) =
    mset (map (\<lambda>b. (b, u)) (map g (map snd (filter P xs))))
    + image_mset (\<lambda>(_, x). (g x, u)) (mset (filter (Not \<circ> P) xs))"
  by (induction xs) auto

lemma session_processes_split:
  assumes "identity s' = identity s" and "processes s' = filter (Not \<circ> P) (processes s)"
  shows "session_processes (sid, s) =
    mset (map (\<lambda>b. (b, session_user s)) (map (\<lambda>p. process_sandbox (process_resource p)) (map snd (filter P (processes s)))))
    + session_processes (sid, s')"
  unfolding session_processes_def snd_conv assms session_user_def by (rule scoped_split)

lemma session_watches_split:
  assumes "identity s' = identity s" and "watches s' = filter (Not \<circ> P) (watches s)"
  shows "session_watches (sid, s) =
    mset (map (\<lambda>b. (b, session_user s)) (map (\<lambda>w. watch_sandbox (watch_resource w)) (map snd (filter P (watches s)))))
    + session_watches (sid, s')"
  unfolding session_watches_def snd_conv assms session_user_def by (rule scoped_split)

text \<open>Giving back processes and watches of one user.\<close>

lemma book_release_scoped:
  assumes "book_ok q L"
    and "l_processes L = mset (map (\<lambda>b. (b, user_sid ident)) pb) + P"
    and "l_watches L = mset (map (\<lambda>b. (b, user_sid ident)) wb) + W"
  shows "book_ok (fold (\<lambda>b. release_watch b ident) wb (fold (\<lambda>b. release_process b ident) pb q))
    (L\<lparr>l_processes := P, l_watches := W\<rparr>)"
proof -
  have "book_ok (fold (\<lambda>b. release_process b ident) pb q) (L\<lparr>l_processes := P\<rparr>)"
    by (rule process_quota.release_all_ok [OF assms(1,2)])
  from watch_quota.release_all_ok [OF this, of ident wb W] assms(3) show ?thesis by simp
qed

lemma session_ok_stop:
  assumes ok: "session_ok s"
    and s': "test_resources s' = test_resources s" "sandboxes s' = AList.delete h (sandboxes s)"
      "processes s' = filter (Not \<circ> (\<lambda>(_, p). process_sandbox (process_resource p) = h)) (processes s)"
      "watches s' = filter (Not \<circ> (\<lambda>(_, w). watch_sandbox (watch_resource w) = h)) (watches s)"
  shows "session_ok s'"
proof -
  have run: "running_in k s'" if "running_in k s" "k \<noteq> h" for k
    using that by (simp add: running_in_def hm_delete_lookup s')
  have "process_id (process_resource p) = pid \<and> running_in (process_sandbox (process_resource p)) s'"
    if "(pid, p) \<in> set (processes s')" for pid p
    using that ok run [of "process_sandbox (process_resource p)"] by (auto simp: s' session_ok_def)
  moreover have "watch_id (watch_resource w) = wid \<and> running_in (watch_sandbox (watch_resource w)) s'"
    if "(wid, w) \<in> set (watches s')" for wid w
    using that ok run [of "watch_sandbox (watch_resource w)"] by (auto simp: s' session_ok_def)
  moreover have "hm_wf (test_resources s')" "hm_wf (sandboxes s')" "hm_wf (processes s')" "hm_wf (watches s')"
    using ok by (simp_all add: s' session_ok_def)
  ultimately show ?thesis unfolding session_ok_def by blast
qed

lemma inv_stop_begin:
  assumes inv: "service_inv st" and op: "stop_begin sid ident h (mgr st) = (m, Ok (Some out))"
  shows "service_inv (st\<lparr>mgr := m, stopping := add_mset (sid, ident, h) (stopping st)\<rparr>)" (is "service_inv ?st'")
proof -
  let ?of = "\<lambda>(_, p). process_sandbox (process_resource p) = h" and ?on = "\<lambda>(_, w). watch_sandbox (watch_resource w) = h"
  obtain s slot where look: "map_of (sessions (mgr st)) sid = Some s" and ident: "identity s = ident"
    and slot: "map_of (sandboxes s) h = Some slot" "vm slot \<noteq> None"
    using op by (auto simp: stop_begin_def Let_def split: option.splits if_splits)
  let ?s' = "s\<lparr>sandboxes := AList.delete h (sandboxes s), processes := filter (Not \<circ> ?of) (processes s),
      watches := filter (Not \<circ> ?on) (watches s)\<rparr>"
  let ?pb = "map (\<lambda>p. process_sandbox (process_resource p)) (map snd (filter ?of (processes s)))"
  let ?wb = "map (\<lambda>w. watch_sandbox (watch_resource w)) (map snd (filter ?on (watches s)))"
  have m: "m = (put_in sid ?s' (mgr st))\<lparr>quotas :=
      fold (\<lambda>b. release_watch b ident) ?wb (fold (\<lambda>b. release_process b ident) ?pb (quotas (mgr st)))\<rparr>"
    using op look ident slot by (simp add: stop_begin_def Let_def fold_map comp_def)
  have ok: "session_ok s" by (rule service_invD(8) [OF inv look])
  have keys: "session_slots (sid, s) = add_mset (sid, h, session_user s) (session_slots (sid, ?s'))"
    using keys_delete [OF _ slot(1)] ok by (simp add: session_slots_def session_user_def session_ok_def)
  have stop: "stopping_slots ?st' = add_mset (sid, h, session_user s) (stopping_slots st)"
    by (simp add: stopping_slots_def session_user_def ident)
  show ?thesis
  proof (rule service_inv_update [OF inv look, where s' = ?s'])
    show "session_ok ?s'" by (rule session_ok_stop [OF ok]) simp_all
    have wf: "hm_wf (processes s)" "hm_wf (watches s)" using ok by (simp_all add: session_ok_def)
    show "spawns_ok ?st'"
      by (rule spawns_ok_update [OF service_invD(2) [OF inv] look, where s' = ?s'])
         (simp_all add: m put_in_def, blast dest: hm_filter_lookup [OF wf(1)])
    show "watchings_ok ?st'"
      by (rule watchings_ok_update [OF service_invD(3) [OF inv] look, where s' = ?s'])
         (simp_all add: m put_in_def, blast dest: hm_filter_lookup [OF wf(2)])
    show "unat (active_use_count (admissions (mgr ?st'))) =
        size (session_slots (sid, ?s') + over_rest session_slots sid (mgr st) + stopping_slots ?st')
        + (\<Sum>s \<in># closing ?st'. session_leases s) + loose ?st'"
      using leases_split [OF inv look] service_invD(5) [OF inv] unfolding keys stop by (simp add: m put_in_def)
    fix L
    assume L: "book_ok (quotas (mgr st)) L"
      "image_mset box_key (l_boxes L) = session_slots (sid, s) + over_rest session_slots sid (mgr st) + stopping_slots st"
      "l_processes L = session_processes (sid, s) + over_rest session_processes sid (mgr st)"
      "l_watches L = session_watches (sid, s) + over_rest session_watches sid (mgr st)"
    let ?L = "L\<lparr>l_processes := session_processes (sid, ?s') + over_rest session_processes sid (mgr st),
       l_watches := session_watches (sid, ?s') + over_rest session_watches sid (mgr st)\<rparr>"
    have user: "session_user s = user_sid ident" by (simp add: session_user_def ident)
    have "l_processes L = mset (map (\<lambda>b. (b, user_sid ident)) ?pb)
        + (session_processes (sid, ?s') + over_rest session_processes sid (mgr st))"
      "l_watches L = mset (map (\<lambda>b. (b, user_sid ident)) ?wb)
        + (session_watches (sid, ?s') + over_rest session_watches sid (mgr st))"
      unfolding L(3,4) session_processes_split [of ?s' s ?of, simplified] session_watches_split [of ?s' s ?on, simplified]
      by (simp_all add: user)
    then have "book_ok (quotas (mgr ?st')) ?L" unfolding m by (simp add: book_release_scoped [OF L(1)])
    then show "\<exists>L'. book_ok (quotas (mgr ?st')) L' \<and> l_connections L' = l_connections L \<and>
        image_mset box_key (l_boxes L') =
          session_slots (sid, ?s') + over_rest session_slots sid (mgr st) + stopping_slots ?st' \<and>
        l_processes L' = session_processes (sid, ?s') + over_rest session_processes sid (mgr st) \<and>
        l_watches L' = session_watches (sid, ?s') + over_rest session_watches sid (mgr st)"
      by (intro exI [of _ ?L]) (simp add: L(2) keys stop)
  qed (use service_invD(4) [OF inv] in \<open>simp_all add: m put_in_def\<close>)
qed

lemma stop_finish_sessions [simp]: "sessions (stop_finish sid ident h now m) = sessions m"
  by (simp add: stop_finish_def retire_start_replay_def)

lemma inv_stop_finish:
  assumes inv: "service_inv st" and stop: "stopping st = add_mset (sid, ident, h) S"
  shows "service_inv (st\<lparr>mgr := stop_finish sid ident h now (mgr st), stopping := S, loose := Suc (loose st)\<rparr>)"
    (is "service_inv ?st'")
proof -
  obtain L where L: "book_ok (quotas (mgr st)) L" "held_ok st L" using inv by (auto simp: service_inv_def)
  have m: "sessions (mgr ?st') = sessions (mgr st)" "admissions (mgr ?st') = admissions (mgr st)"
    "quotas (mgr ?st') = release_sandbox sid h ident (quotas (mgr st))"
    by (simp_all add: stop_finish_def retire_start_replay_def)
  have over: "over_sessions f (mgr ?st') = over_sessions f (mgr st)" for f :: "_ \<Rightarrow> 'z multiset"
    by (rule over_sessions_cong) (rule m)
  have slots: "all_slots st = add_mset (sid, h, user_sid ident) (all_slots ?st')"
    unfolding all_slots_def over by (simp add: stopping_slots_def stop)
  have "image_mset box_key (l_boxes L) = add_mset (sid, h, user_sid ident) (all_slots ?st')"
    using L(2) slots by (simp add: held_ok_def)
  from book_release_box [OF L(1) this] obtain M
    where "book_ok (quotas (mgr ?st')) (L\<lparr>l_boxes := M\<rparr>)" "image_mset box_key M = all_slots ?st'"
    unfolding m by blast
  then have "book_ok (quotas (mgr ?st')) (L\<lparr>l_boxes := M\<rparr>) \<and> held_ok ?st' (L\<lparr>l_boxes := M\<rparr>)"
    using L(2) unfolding held_ok_def over m by simp
  moreover have "spawns_ok ?st'" "watchings_ok ?st'"
    using service_invD(2,3) [OF inv] by (simp_all add: spawns_ok_def watchings_ok_def)
  moreover have "start_replays (mgr ?st') = map (\<lambda>(k, r). (k, if fst k = ident \<and> replay_session r = sid
        \<and> (case replay_state r of Replay_Running sb _ \<Rightarrow> sb = h | _ \<Rightarrow> False)
      then r\<lparr>replay_state := Replay_Retired, updated_at := now\<rparr> else r)) (start_replays (mgr st))"
    by (simp add: stop_finish_def retire_start_replay_def)
  then have "map fst (start_replays (mgr ?st')) = map fst (start_replays (mgr st))" by (simp add: case_prod_unfold)
  moreover from this have "length (start_replays (mgr ?st')) = length (start_replays (mgr st))" by (metis length_map)
  moreover have "leases ?st' = leases st" by (simp add: leases_def slots)
  ultimately show ?thesis
    using inv unfolding service_inv_def m by auto
qed

section \<open>Closing and opening sessions\<close>

lemma book_release_boxes:
  "book_ok q L \<Longrightarrow> image_mset box_key (l_boxes L) = image_mset (\<lambda>h. (sid, h, user_sid ident)) (mset hs) + K \<Longrightarrow>
   \<exists>M. book_ok (fold (\<lambda>h. release_sandbox sid h ident) hs q) (L\<lparr>l_boxes := M\<rparr>) \<and> image_mset box_key M = K"
proof (induction hs arbitrary: q L)
  case Nil
  then show ?case by (auto intro!: exI [of _ "l_boxes L"])
next
  case (Cons h hs)
  from book_release_box [OF Cons.prems(1), of sid h ident "image_mset (\<lambda>h. (sid, h, user_sid ident)) (mset hs) + K"] Cons.prems(2)
  obtain M where M: "book_ok (release_sandbox sid h ident q) (L\<lparr>l_boxes := M\<rparr>)"
    "image_mset box_key M = image_mset (\<lambda>h. (sid, h, user_sid ident)) (mset hs) + K" by auto
  from Cons.IH [OF M(1)] M(2) show ?case by auto
qed

lemma book_detach:
  assumes L: "book_ok q L" and slots: "image_mset box_key (l_boxes L) = session_slots (sid, s) + K"
    and procs: "l_processes L = session_processes (sid, s) + P" and ws: "l_watches L = session_watches (sid, s) + W"
    and conn: "l_connections L = add_mset (session_user s) C"
  shows "\<exists>M. book_ok (release_connection (identity s)
      (fold (\<lambda>w. release_watch (watch_sandbox (watch_resource w)) (identity s)) (map snd (watches s))
      (fold (\<lambda>p. release_process (process_sandbox (process_resource p)) (identity s)) (map snd (processes s))
      (fold (\<lambda>h. release_sandbox sid h (identity s)) (map fst (test_resources s) @ map fst (sandboxes s)) q))))
      (L\<lparr>l_boxes := M, l_processes := P, l_watches := W, l_connections := C\<rparr>) \<and> image_mset box_key M = K"
proof -
  let ?pb = "map (\<lambda>p. process_sandbox (process_resource p)) (map snd (processes s))"
  let ?wb = "map (\<lambda>w. watch_sandbox (watch_resource w)) (map snd (watches s))"
  let ?q = "fold (\<lambda>h. release_sandbox sid h (identity s)) (map fst (test_resources s) @ map fst (sandboxes s)) q"
  obtain M where M: "book_ok ?q (L\<lparr>l_boxes := M\<rparr>)" "image_mset box_key M = K"
    using book_release_boxes [OF L, of sid "identity s" "map fst (test_resources s) @ map fst (sandboxes s)" K] slots
    by (auto simp: session_slots_def session_user_def)
  have "l_processes L = mset (map (\<lambda>b. (b, user_sid (identity s))) ?pb) + P"
    "l_watches L = mset (map (\<lambda>b. (b, user_sid (identity s))) ?wb) + W"
    using procs ws
    by (simp_all add: session_processes_def session_watches_def session_user_def multiset.map_comp comp_def case_prod_unfold)
  then have "book_ok (fold (\<lambda>b. release_watch b (identity s)) ?wb (fold (\<lambda>b. release_process b (identity s)) ?pb ?q))
      (L\<lparr>l_boxes := M, l_processes := P, l_watches := W\<rparr>)"
    using book_release_scoped [OF M(1), of "identity s" ?pb P ?wb W] by simp
  from release_connection_ok [OF this, of "identity s" C] conn M(2) show ?thesis
    by (auto simp: session_user_def fold_map comp_def)
qed

lemma retire_replays_keys [simp]: "map fst (retire_session_replays sid now rs) = map fst rs"
  by (simp add: retire_session_replays_def case_prod_unfold)

lemma retire_replays_length [simp]: "length (retire_session_replays sid now rs) = length rs"
  by (simp add: retire_session_replays_def)

lemma inv_detach:
  assumes inv: "service_inv st" and op: "close_detach sid ident now (mgr st) = (m, Some s)"
  shows "service_inv (st\<lparr>mgr := m, closing := add_mset s (closing st)\<rparr>)" (is "service_inv ?st'")
proof -
  have look: "map_of (sessions (mgr st)) sid = Some s" and ident: "identity s = ident"
    using op by (auto simp: close_detach_def Let_def split: option.splits if_splits)
  have wf: "hm_wf (sessions (mgr st))" by (rule service_invD(1) [OF inv])
  have m: "sessions m = AList.delete sid (sessions (mgr st))" "admissions m = admissions (mgr st)"
    "start_replays m = retire_session_replays sid now (start_replays (mgr st))"
    "quotas m = release_connection (identity s)
      (fold (\<lambda>w. release_watch (watch_sandbox (watch_resource w)) (identity s)) (map snd (watches s))
      (fold (\<lambda>p. release_process (process_sandbox (process_resource p)) (identity s)) (map snd (processes s))
      (fold (\<lambda>h. release_sandbox sid h (identity s)) (map fst (test_resources s) @ map fst (sandboxes s)) (quotas (mgr st)))))"
    using op look ident by (auto simp: close_detach_def Let_def)
  note split = over_sessions_split [OF wf look]
  have over: "over_sessions f m = over_rest f sid (mgr st)" for f :: "_ \<Rightarrow> 'z multiset"
    by (simp add: over_sessions_def over_rest_def m)
  have stop: "stopping_slots ?st' = stopping_slots st" by (simp add: stopping_slots_def)
  have slots: "all_slots st = session_slots (sid, s) + all_slots ?st'"
    unfolding all_slots_def stop split by (simp add: over)
  obtain L where L: "book_ok (quotas (mgr st)) L" "held_ok st L" using inv by (auto simp: service_inv_def)
  let ?users = "image_mset (session_user \<circ> snd) (mset (sessions m))"
  have "add_mset (session_user s) ?users \<subseteq># l_connections L"
    using L(2) hm_mset_split [OF wf look] by (simp add: held_ok_def m)
  then have "session_user s \<in># l_connections L" and C2: "?users \<subseteq># l_connections L - {#session_user s#}"
    by (simp_all add: insert_subset_eq_iff)
  then obtain C where C: "l_connections L = add_mset (session_user s) C" "?users \<subseteq># C"
    using insert_DiffM [of "session_user s" "l_connections L"] by metis
  have keys: "image_mset box_key (l_boxes L) = session_slots (sid, s) + all_slots ?st'"
    using L(2) slots by (simp add: held_ok_def)
  obtain M where "book_ok (quotas m) (L\<lparr>l_boxes := M, l_processes := over_rest session_processes sid (mgr st),
      l_watches := over_rest session_watches sid (mgr st), l_connections := C\<rparr>)" "image_mset box_key M = all_slots ?st'"
    using book_detach [OF L(1) keys _ _ C(1)] L(2) unfolding m held_ok_def split by blast
  then have "\<exists>L. book_ok (quotas (mgr ?st')) L \<and> held_ok ?st' L"
    using C(2) by (intro exI [of _ "L\<lparr>l_boxes := M, l_processes := over_rest session_processes sid (mgr st),
      l_watches := over_rest session_watches sid (mgr st), l_connections := C\<rparr>"]) (simp add: held_ok_def over)
  moreover have "set (sessions (mgr ?st')) \<subseteq> set (sessions (mgr st))" by (auto simp: m AList.delete_eq)
  then have "spawns_ok ?st'" "watchings_ok ?st'"
    by (intro spawns_ok_sub [OF service_invD(2) [OF inv]] watchings_ok_sub [OF service_invD(3) [OF inv]]; simp; blast)+
  moreover have "leases ?st' = leases st"
    unfolding leases_def slots by (simp add: session_leases_def session_slots_def)
  ultimately show ?thesis
    using inv by (auto simp: service_inv_def m AList.delete_eq)
qed

lemma unique_from_absent: "unique_from n rnd ss = Ok h \<Longrightarrow> map_of ss h = None"
  by (induction n) (auto split: sum.splits if_splits)

lemma session_ok_new: "session_ok (new_session ident)"
  by (simp add: session_ok_def new_session_def)

lemma new_session_empty:
  "session_slots (sid, new_session ident) = {#}" "session_processes (sid, new_session ident) = {#}"
  "session_watches (sid, new_session ident) = {#}" "session_user (new_session ident) = user_sid ident"
  by (simp_all add: session_slots_def session_processes_def session_watches_def session_user_def new_session_def)

lemma subset_add_mset: "A \<subseteq># B \<Longrightarrow> A \<subseteq># add_mset x B"
  by (auto simp: subseteq_mset_def intro: le_SucI)

lemma inv_open:
  assumes inv: "service_inv st" and op: "open_session ident rnd (mgr st) = (m, res)"
  shows "service_inv (st\<lparr>mgr := m\<rparr>)" (is "service_inv ?st'")
proof (cases "reserve_connection ident (quotas (mgr st))")
  case (Inl e)
  with op inv show ?thesis by (auto simp: open_session_def)
next
  case (Inr q)
  obtain L where L: "book_ok (quotas (mgr st)) L" "held_ok st L" using inv by (auto simp: service_inv_def)
  let ?L = "L\<lparr>l_connections := add_mset (user_sid ident) (l_connections L)\<rparr>"
  have book: "book_ok q ?L" by (rule reserve_connection_ok [OF L(1) Inr])
  have stop: "stopping_slots ?st' = stopping_slots st" by (simp add: stopping_slots_def)
  have m: "quotas m = q" "admissions m = admissions (mgr st)" "start_replays m = start_replays (mgr st)"
    using op Inr by (auto simp: open_session_def Let_def split: sum.splits)
  consider "sessions m = sessions (mgr st)"
    | sid where "sessions m = sessions (mgr st) @ [(sid, new_session ident)]" "map_of (sessions (mgr st)) sid = None"
  proof (cases "unique_handle rnd (sessions (mgr st))")
    case (Inl e)
    with op Inr that(1) show ?thesis by (auto simp: open_session_def)
  next
    case (Inr sid)
    then have none: "map_of (sessions (mgr st)) sid = None"
      unfolding unique_handle_def by (rule unique_from_absent)
    with op Inr \<open>reserve_connection ident (quotas (mgr st)) = Ok q\<close>
    have "sessions m = sessions (mgr st) @ [(sid, new_session ident)]"
      by (auto simp: open_session_def hm_update_absent)
    with none that(2) show ?thesis by blast
  qed
  then show ?thesis
  proof cases
    case 1
    have over: "over_sessions f m = over_sessions f (mgr st)" for f :: "_ \<Rightarrow> 'z multiset"
      by (rule over_sessions_cong) (rule 1)
    have "held_ok ?st' ?L"
      using L(2) by (simp add: held_ok_def all_slots_def over stop 1 subset_add_mset)
    then have "\<exists>L. book_ok (quotas (mgr ?st')) L \<and> held_ok ?st' L" using book m by auto
    then show ?thesis using inv
      by (simp add: service_inv_def m 1 spawns_ok_def watchings_ok_def leases_def all_slots_def over stop)
  next
    case (2 sid)
    have over: "over_sessions f m = f (sid, new_session ident) + over_sessions f (mgr st)" for f :: "_ \<Rightarrow> 'z multiset"
      by (simp add: over_sessions_def 2)
    have "held_ok ?st' ?L"
      using L(2) by (simp add: held_ok_def all_slots_def over stop 2 new_session_empty)
    then have "\<exists>L. book_ok (quotas (mgr ?st')) L \<and> held_ok ?st' L" using book m by auto
    moreover have "spawns_ok ?st'" "watchings_ok ?st'"
      using service_invD(2,3) [OF inv] by (auto simp: spawns_ok_def watchings_ok_def 2 new_session_def)
    moreover have "hm_wf (sessions m)" using 2 service_invD(1) [OF inv] by (auto simp: map_of_eq_None_iff)
    ultimately show ?thesis using inv session_ok_new
      by (simp add: service_inv_def m 2 leases_def all_slots_def over stop new_session_empty)
  qed
qed

lemma inv_clear:
  assumes inv: "service_inv st" and cl: "closing st = add_mset s C"
  shows "service_inv (st\<lparr>closing := add_mset (clear_test_resources s) C, loose := loose st + length (test_resources s)\<rparr>)"
    (is "service_inv ?st'")
proof -
  have "all_slots ?st' = all_slots st" by (simp add: all_slots_def stopping_slots_def)
  moreover from this have "held_ok ?st' = held_ok st" by (simp add: fun_eq_iff held_ok_def)
  moreover have "leases ?st' = leases st"
    using calculation(1) by (simp add: leases_def cl session_leases_def clear_test_resources_def)
  ultimately show ?thesis using inv by (simp add: service_inv_def spawns_ok_def watchings_ok_def)
qed

lemma inv_teardown:
  assumes inv: "service_inv st" and cl: "closing st = add_mset s C" and "test_resources s = []"
    and "close_teardown s = Some (s', out)"
  shows "service_inv (st\<lparr>closing := C, loose := loose st + length (sandboxes s')\<rparr>)" (is "service_inv ?st'")
proof -
  have len: "length (sandboxes s') = session_leases s"
    using assms(3,4) by (auto simp: close_teardown_def Let_def session_leases_def)
  have "all_slots ?st' = all_slots st" by (simp add: all_slots_def stopping_slots_def)
  moreover from this have "held_ok ?st' = held_ok st" by (simp add: fun_eq_iff held_ok_def)
  moreover have "leases ?st' = leases st" using calculation(1) by (simp add: leases_def cl len)
  ultimately show ?thesis using inv by (simp add: service_inv_def spawns_ok_def watchings_ok_def)
qed

lemma inv_drop:
  assumes inv: "service_inv st" and "loose st = Suc n"
  shows "service_inv (st\<lparr>mgr := (mgr st)\<lparr>admissions := release_active_use (admissions (mgr st))\<rparr>, loose := n\<rparr>)"
proof -
  have "0 < leases st" using assms(2) by (simp add: leases_def)
  from lease_dropped [OF inv this] show ?thesis
    using service_invD(6,7) [OF inv] assms(2) by (intro service_inv_control [OF inv]) simp_all
qed

section \<open>Processes and watches\<close>

text \<open>A step that changes the processes of a session and the book with them.\<close>

lemma service_inv_processes:
  assumes inv: "service_inv st" and look: "map_of (sessions (mgr st)) sid = Some s"
    and same: "identity s' = identity s" "test_resources s' = test_resources s" "sandboxes s' = sandboxes s"
      "watches s' = watches s"
    and ok: "hm_wf (processes s')"
      "\<And>pid p. (pid, p) \<in> set (processes s') \<Longrightarrow> process_id (process_resource p) = pid \<and>
        running_in (process_sandbox (process_resource p)) s"
    and m': "sessions m = AList.update sid s' (sessions (mgr st))" "start_replays m = start_replays (mgr st)"
      "admissions m = admissions (mgr st)"
    and book: "\<And>L R. book_ok (quotas (mgr st)) L \<Longrightarrow> l_processes L = session_processes (sid, s) + R \<Longrightarrow>
        book_ok (quotas m) (L\<lparr>l_processes := session_processes (sid, s') + R\<rparr>)"
    and spawns: "spawns_ok (st\<lparr>mgr := m, spawning := S\<rparr>)"
  shows "service_inv (st\<lparr>mgr := m, spawning := S\<rparr>)" (is "service_inv ?st'")
proof (rule service_inv_update [OF inv look same(1)])
  have run: "running_in k s' = running_in k s" for k by (simp add: running_in_def same)
  show "session_ok s'"
    using service_invD(8) [OF inv look] ok by (auto simp: session_ok_def same run)
  show "watchings_ok ?st'"
    by (rule watchings_ok_update [OF service_invD(3) [OF inv] look, where s' = s']) (simp_all add: same m')
  have eq: "session_slots (sid, s') = session_slots (sid, s)" "session_watches (sid, s') = session_watches (sid, s)"
    "stopping_slots ?st' = stopping_slots st"
    by (simp_all add: session_slots_def session_watches_def session_user_def same stopping_slots_def)
  show "unat (active_use_count (admissions (mgr ?st'))) =
      size (session_slots (sid, s') + over_rest session_slots sid (mgr st) + stopping_slots ?st')
      + (\<Sum>s \<in># closing ?st'. session_leases s) + loose ?st'"
    using leases_split [OF inv look] service_invD(5) [OF inv] unfolding eq by (simp add: m')
  fix L
  assume L: "book_ok (quotas (mgr st)) L"
    "image_mset box_key (l_boxes L) = session_slots (sid, s) + over_rest session_slots sid (mgr st) + stopping_slots st"
    "l_processes L = session_processes (sid, s) + over_rest session_processes sid (mgr st)"
    "l_watches L = session_watches (sid, s) + over_rest session_watches sid (mgr st)"
  from book [OF L(1,3)] show "\<exists>L'. book_ok (quotas (mgr ?st')) L' \<and> l_connections L' = l_connections L \<and>
      image_mset box_key (l_boxes L') =
        session_slots (sid, s') + over_rest session_slots sid (mgr st) + stopping_slots ?st' \<and>
      l_processes L' = session_processes (sid, s') + over_rest session_processes sid (mgr st) \<and>
      l_watches L' = session_watches (sid, s') + over_rest session_watches sid (mgr st)"
    unfolding eq using L(2,4) by (intro exI [of _ "L\<lparr>l_processes := _\<rparr>"] conjI) (assumption | simp)+
qed (use service_invD(4) [OF inv] m' spawns in simp_all)

lemma service_inv_watches:
  assumes inv: "service_inv st" and look: "map_of (sessions (mgr st)) sid = Some s"
    and same: "identity s' = identity s" "test_resources s' = test_resources s" "sandboxes s' = sandboxes s"
      "processes s' = processes s"
    and ok: "hm_wf (watches s')"
      "\<And>wid w. (wid, w) \<in> set (watches s') \<Longrightarrow> watch_id (watch_resource w) = wid \<and>
        running_in (watch_sandbox (watch_resource w)) s"
    and m': "sessions m = AList.update sid s' (sessions (mgr st))" "start_replays m = start_replays (mgr st)"
      "admissions m = admissions (mgr st)"
    and book: "\<And>L R. book_ok (quotas (mgr st)) L \<Longrightarrow> l_watches L = session_watches (sid, s) + R \<Longrightarrow>
        book_ok (quotas m) (L\<lparr>l_watches := session_watches (sid, s') + R\<rparr>)"
    and spawns: "watchings_ok (st\<lparr>mgr := m, watching := S\<rparr>)"
  shows "service_inv (st\<lparr>mgr := m, watching := S\<rparr>)" (is "service_inv ?st'")
proof (rule service_inv_update [OF inv look same(1)])
  have run: "running_in k s' = running_in k s" for k by (simp add: running_in_def same)
  show "session_ok s'"
    using service_invD(8) [OF inv look] ok by (auto simp: session_ok_def same run)
  show "spawns_ok ?st'"
    by (rule spawns_ok_update [OF service_invD(2) [OF inv] look, where s' = s']) (simp_all add: same m')
  have eq: "session_slots (sid, s') = session_slots (sid, s)" "session_processes (sid, s') = session_processes (sid, s)"
    "stopping_slots ?st' = stopping_slots st"
    by (simp_all add: session_slots_def session_processes_def session_user_def same stopping_slots_def)
  show "unat (active_use_count (admissions (mgr ?st'))) =
      size (session_slots (sid, s') + over_rest session_slots sid (mgr st) + stopping_slots ?st')
      + (\<Sum>s \<in># closing ?st'. session_leases s) + loose ?st'"
    using leases_split [OF inv look] service_invD(5) [OF inv] unfolding eq by (simp add: m')
  fix L
  assume L: "book_ok (quotas (mgr st)) L"
    "image_mset box_key (l_boxes L) = session_slots (sid, s) + over_rest session_slots sid (mgr st) + stopping_slots st"
    "l_processes L = session_processes (sid, s) + over_rest session_processes sid (mgr st)"
    "l_watches L = session_watches (sid, s) + over_rest session_watches sid (mgr st)"
  from book [OF L(1,4)] show "\<exists>L'. book_ok (quotas (mgr ?st')) L' \<and> l_connections L' = l_connections L \<and>
      image_mset box_key (l_boxes L') =
        session_slots (sid, s') + over_rest session_slots sid (mgr st) + stopping_slots ?st' \<and>
      l_processes L' = session_processes (sid, s') + over_rest session_processes sid (mgr st) \<and>
      l_watches L' = session_watches (sid, s') + over_rest session_watches sid (mgr st)"
    unfolding eq using L(2,3) by (intro exI [of _ "L\<lparr>l_watches := _\<rparr>"] conjI) (assumption | simp)+
qed (use service_invD(4) [OF inv] m' spawns in simp_all)

lemma session_processes_delete:
  assumes "hm_wf (processes s)" and "map_of (processes s) k = Some p"
    and "processes s' = AList.delete k (processes s)" and "identity s' = identity s"
  shows "session_processes (sid, s) = add_mset (process_sandbox (process_resource p), session_user s) (session_processes (sid, s'))"
  by (simp add: session_processes_def session_user_def assms hm_mset_split [OF assms(1,2)])

lemma session_processes_insert:
  assumes "hm_wf (processes s)" and "map_of (processes s) k = None"
    and "processes s' = AList.update k p (processes s)" and "identity s' = identity s"
  shows "session_processes (sid, s') = add_mset (process_sandbox (process_resource p), session_user s) (session_processes (sid, s))"
  using assms by (simp add: session_processes_def session_user_def hm_mset_update hm_delete_absent)

lemma session_processes_replace:
  assumes "hm_wf (processes s)" and "map_of (processes s) k = Some p0" and "process_resource p = process_resource p0"
    and "processes s' = AList.update k p (processes s)" and "identity s' = identity s"
  shows "session_processes (sid, s') = session_processes (sid, s)"
  using assms by (simp add: session_processes_def session_user_def hm_mset_update hm_mset_split)

lemma inv_forget_spawning:
  assumes "service_inv st" and "S \<subseteq># spawning st"
  shows "service_inv (st\<lparr>spawning := S\<rparr>)" (is "service_inv ?st'")
proof -
  have "spawns_ok ?st'" by (rule spawns_ok_sub [OF service_invD(2) [OF assms(1)]]) (use assms(2) in auto)
  moreover have "all_slots ?st' = all_slots st" by (simp add: all_slots_def stopping_slots_def)
  moreover from this have "held_ok ?st' = held_ok st" "leases ?st' = leases st"
    by (simp_all add: fun_eq_iff held_ok_def leases_def)
  ultimately show ?thesis using assms(1) by (simp add: service_inv_def watchings_ok_def)
qed

text \<open>Taking a process out of its session.\<close>

lemma inv_remove_process:
  assumes inv: "service_inv st" and look: "map_of (sessions (mgr st)) sid = Some s"
    and p: "map_of (processes s) k = Some p" and sub: "S \<subseteq># spawning st"
    and s': "s' = s\<lparr>processes := AList.delete k (processes s), retired := rs\<rparr>"
    and box: "sb = process_sandbox (process_resource p)"
  shows "service_inv (st\<lparr>mgr := (put_in sid s' (mgr st))
    \<lparr>quotas := release_process sb (identity s) (quotas (mgr st))\<rparr>, spawning := S\<rparr>)" (is "service_inv ?st'")
proof -
  let ?m = "(put_in sid s' (mgr st))\<lparr>quotas := release_process sb (identity s) (quotas (mgr st))\<rparr>"
  have ok: "session_ok s" by (rule service_invD(8) [OF inv look])
  then have wf: "hm_wf (processes s)" by (simp add: session_ok_def)
  have del: "session_processes (sid, s) = add_mset (sb, session_user s) (session_processes (sid, s'))"
    unfolding box by (rule session_processes_delete [OF wf p]) (simp_all add: s')
  have "spawns_ok ?st'"
    by (rule spawns_ok_update [OF service_invD(2) [OF inv] look, where s' = s'])
       (use sub in \<open>auto simp: put_in_def s' hm_delete_lookup split: if_splits\<close>)
  moreover have "book_ok (release_process sb (identity s) (quotas (mgr st))) (L\<lparr>l_processes := session_processes (sid, s') + R\<rparr>)"
    if "book_ok (quotas (mgr st)) L" "l_processes L = session_processes (sid, s) + R" for L R
    by (rule process_quota.release_ok [OF that(1)]) (simp add: that(2) del session_user_def)
  ultimately show ?thesis
    using ok by (intro service_inv_processes [OF inv look, where s' = s'])
      (auto simp: s' put_in_def session_ok_def AList.delete_eq distinct_map_filter)
qed

lemma session_watches_delete:
  assumes "hm_wf (watches s)" and "map_of (watches s) k = Some p"
    and "watches s' = AList.delete k (watches s)" and "identity s' = identity s"
  shows "session_watches (sid, s) = add_mset (watch_sandbox (watch_resource p), session_user s) (session_watches (sid, s'))"
  by (simp add: session_watches_def session_user_def assms hm_mset_split [OF assms(1,2)])

lemma session_watches_insert:
  assumes "hm_wf (watches s)" and "map_of (watches s) k = None"
    and "watches s' = AList.update k p (watches s)" and "identity s' = identity s"
  shows "session_watches (sid, s') = add_mset (watch_sandbox (watch_resource p), session_user s) (session_watches (sid, s))"
  using assms by (simp add: session_watches_def session_user_def hm_mset_update hm_delete_absent)

lemma session_watches_replace:
  assumes "hm_wf (watches s)" and "map_of (watches s) k = Some p0" and "watch_resource p = watch_resource p0"
    and "watches s' = AList.update k p (watches s)" and "identity s' = identity s"
  shows "session_watches (sid, s') = session_watches (sid, s)"
  using assms by (simp add: session_watches_def session_user_def hm_mset_update hm_mset_split)

lemma inv_forget_watching:
  assumes "service_inv st" and "S \<subseteq># watching st"
  shows "service_inv (st\<lparr>watching := S\<rparr>)" (is "service_inv ?st'")
proof -
  have "watchings_ok ?st'" by (rule watchings_ok_sub [OF service_invD(3) [OF assms(1)]]) (use assms(2) in auto)
  moreover have "all_slots ?st' = all_slots st" by (simp add: all_slots_def stopping_slots_def)
  moreover from this have "held_ok ?st' = held_ok st" "leases ?st' = leases st"
    by (simp_all add: fun_eq_iff held_ok_def leases_def)
  ultimately show ?thesis using assms(1) by (simp add: service_inv_def spawns_ok_def)
qed

text \<open>Taking a watch out of its session.\<close>

lemma inv_remove_watch:
  assumes inv: "service_inv st" and look: "map_of (sessions (mgr st)) sid = Some s"
    and p: "map_of (watches s) k = Some p" and sub: "S \<subseteq># watching st"
    and s': "s' = s\<lparr>watches := AList.delete k (watches s), retired := rs\<rparr>"
    and box: "sb = watch_sandbox (watch_resource p)"
  shows "service_inv (st\<lparr>mgr := (put_in sid s' (mgr st))
    \<lparr>quotas := release_watch sb (identity s) (quotas (mgr st))\<rparr>, watching := S\<rparr>)" (is "service_inv ?st'")
proof -
  let ?m = "(put_in sid s' (mgr st))\<lparr>quotas := release_watch sb (identity s) (quotas (mgr st))\<rparr>"
  have ok: "session_ok s" by (rule service_invD(8) [OF inv look])
  then have wf: "hm_wf (watches s)" by (simp add: session_ok_def)
  have del: "session_watches (sid, s) = add_mset (sb, session_user s) (session_watches (sid, s'))"
    unfolding box by (rule session_watches_delete [OF wf p]) (simp_all add: s')
  have "watchings_ok ?st'"
    by (rule watchings_ok_update [OF service_invD(3) [OF inv] look, where s' = s'])
       (use sub in \<open>auto simp: put_in_def s' hm_delete_lookup split: if_splits\<close>)
  moreover have "book_ok (release_watch sb (identity s) (quotas (mgr st))) (L\<lparr>l_watches := session_watches (sid, s') + R\<rparr>)"
    if "book_ok (quotas (mgr st)) L" "l_watches L = session_watches (sid, s) + R" for L R
    by (rule watch_quota.release_ok [OF that(1)]) (simp add: that(2) del session_user_def)
  ultimately show ?thesis
    using ok by (intro service_inv_watches [OF inv look, where s' = s'])
      (auto simp: s' put_in_def session_ok_def AList.delete_eq distinct_map_filter)
qed

lemma running_vm_Some:
  "running_vm sid ident h m = Some v \<Longrightarrow> owned_session sid ident m = Some s \<Longrightarrow> running_in h s"
  by (auto simp: running_vm_def running_in_def split: option.splits)

lemma inv_spawn_begin:
  assumes inv: "service_inv st" and op: "spawn_begin sid ident sb f1 f2 f3 (mgr st) = (m, Ok (Some (r, v)))"
    and fresh: "fresh_process (process_id r) st"
  shows "service_inv (st\<lparr>mgr := m, spawning := add_mset (sid, ident, sb, r) (spawning st)\<rparr>)" (is "service_inv ?st'")
proof -
  obtain s q where own: "owned_session sid ident (mgr st) = Some s" and run: "running_vm sid ident sb (mgr st) = Some v"
    and r: "process_sandbox r = sb" and q: "reserve_process sb ident (quotas (mgr st)) = Ok q"
    and m: "m = put_in sid (s\<lparr>processes := AList.update (process_id r) (Preparing_Process r) (processes s)\<rparr>) ((mgr st)\<lparr>quotas := q\<rparr>)"
    using op by (auto simp: spawn_begin_def process_new_def and_then_Ok_iff split: option.splits sum.splits)
  let ?s' = "s\<lparr>processes := AList.update (process_id r) (Preparing_Process r) (processes s)\<rparr>"
  have look: "map_of (sessions (mgr st)) sid = Some s" and ident: "identity s = ident"
    using own by (simp_all add: owned_session_Some)
  have ok: "session_ok s" by (rule service_invD(8) [OF inv look])
  then have wf: "hm_wf (processes s)" by (simp add: session_ok_def)
  have none: "map_of (processes s) (process_id r) = None"
    using fresh map_of_SomeD [OF look] by (auto simp: fresh_process_def)
  have ins: "session_processes (sid, ?s') = add_mset (sb, session_user s) (session_processes (sid, s))"
    using session_processes_insert [OF wf none, of ?s' "Preparing_Process r"] by (simp add: r)
  have spawns: "spawns_ok ?st'"
    unfolding spawns_ok_def
  proof (clarify, intro conjI allI ballI impI; clarify?)
    fix sid1 ident1 sb1 r1
    assume r1: "(sid1, ident1, sb1, r1) \<in># spawning ?st'"
    then have old: "(sid1, ident1, sb1, r1) \<in># spawning st" if "r1 \<noteq> r" using that by auto
    show "process_sandbox r1 = sb1"
      using r1 r service_invD(2) [OF inv] by (auto simp: spawns_ok_def)
    fix sid2 s2 p2
    assume s2: "(sid2, s2) \<in> set (sessions (mgr ?st'))" and p2: "map_of (processes s2) (process_id r1) = Some p2"
    have "s2 = ?s' \<or> (sid2, s2) \<in> set (sessions (mgr st))"
      using s2 set_update_sub [of sid ?s' "sessions (mgr st)"] by (auto simp: m put_in_def)
    then show "process_resource p2 = r1"
    proof
      assume "s2 = ?s'"
      then show ?thesis
        using p2 fresh old service_invD(2) [OF inv] map_of_SomeD [OF look]
        by (cases "process_id r1 = process_id r"; cases "r1 = r")
           (fastforce simp: hm_update_lookup fresh_process_def spawns_ok_def)+
    next
      assume "(sid2, s2) \<in> set (sessions (mgr st))"
      then show ?thesis
        using p2 fresh old service_invD(2) [OF inv]
        by (cases "r1 = r") (fastforce simp: fresh_process_def spawns_ok_def)+
    qed
  qed
  have "book_ok q (L\<lparr>l_processes := session_processes (sid, ?s') + R\<rparr>)"
    if "book_ok (quotas (mgr st)) L" "l_processes L = session_processes (sid, s) + R" for L R
    using process_quota.reserve_ok [OF that(1) q] by (simp add: ins that(2) session_user_def ident)
  moreover have "process_id (process_resource p) = pid \<and> running_in (process_sandbox (process_resource p)) s"
    if "(pid, p) \<in> set (processes ?s')" for pid p
    using that ok set_update_sub [of "process_id r" "Preparing_Process r" "processes s"] r running_vm_Some [OF run own]
    by (auto simp: session_ok_def)
  ultimately show ?thesis
    using wf spawns by (intro service_inv_processes [OF inv look, where s' = ?s']) (simp_all add: m put_in_def)
qed

lemma inv_spawn_finish:
  assumes inv: "service_inv st" and sp: "spawning st = add_mset (sid, ident, sb, r) S"
    and op: "spawn_finish sid ident sb r started (mgr st) = (m, res, killed)"
  shows "service_inv (st\<lparr>mgr := m, spawning := S\<rparr>)"
proof -
  have sub: "S \<subseteq># spawning st" by (simp add: sp)
  have sbr: "process_sandbox r = sb" using service_invD(2) [OF inv] by (auto simp: spawns_ok_def sp)
  show ?thesis
  proof (cases "\<exists>s p. owned_session sid ident (mgr st) = Some s \<and> map_of (processes s) (process_id r) = Some p \<and> running_in sb s")
    case False
    then have "m = mgr st" using op by (auto simp: spawn_finish_def Let_def split: option.splits if_splits)
    with inv_forget_spawning [OF inv sub] show ?thesis by simp
  next
    case True
    then obtain s p where own: "owned_session sid ident (mgr st) = Some s" and p: "map_of (processes s) (process_id r) = Some p"
      and run: "running_in sb s" by blast
    have look: "map_of (sessions (mgr st)) sid = Some s" and ident: "identity s = ident"
      using own by (simp_all add: owned_session_Some)
    have res: "process_resource p = r"
      using service_invD(2) [OF inv] p map_of_SomeD [OF look] by (fastforce simp: spawns_ok_def sp)
    have ok: "session_ok s" by (rule service_invD(8) [OF inv look])
    show ?thesis
    proof (cases started)
      case (Inl e)
      then have "m = (put_in sid (s\<lparr>processes := AList.delete (process_id r) (processes s)\<rparr>) (mgr st))
          \<lparr>quotas := release_process sb (identity s) (quotas (mgr st))\<rparr>"
        using op own p run ident by (simp add: spawn_finish_def Let_def)
      with inv_remove_process [OF inv look p sub, of "s\<lparr>processes := AList.delete (process_id r) (processes s)\<rparr>" "retired s" sb]
      show ?thesis by (simp add: res sbr)
    next
      case (Inr x)
      let ?s' = "s\<lparr>processes := AList.update (process_id r) (Running_Process r x) (processes s)\<rparr>"
      have m: "m = put_in sid ?s' (mgr st)" using op own p run Inr by (auto simp: spawn_finish_def Let_def)
      have eq: "session_processes (sid, ?s') = session_processes (sid, s)"
        using ok p res by (intro session_processes_replace) (auto simp: session_ok_def)
      have "spawns_ok (st\<lparr>mgr := m, spawning := S\<rparr>)"
        by (rule spawns_ok_update [OF service_invD(2) [OF inv] look, where s' = ?s'])
           (use sub p res in \<open>auto simp: m put_in_def hm_update_lookup split: if_splits\<close>)
      moreover have "process_id (process_resource y) = k \<and> running_in (process_sandbox (process_resource y)) s"
        if "(k, y) \<in> set (processes ?s')" for k y
        using that ok set_update_sub [of "process_id r" "Running_Process r x" "processes s"] sbr run by (auto simp: session_ok_def)
      moreover have "book_ok (quotas m) (L\<lparr>l_processes := session_processes (sid, ?s') + R\<rparr>)"
        if "book_ok (quotas (mgr st)) L" "l_processes L = session_processes (sid, s) + R" for L R
        unfolding eq that(2) [symmetric] using that(1) by (simp add: m put_in_def)
      ultimately show ?thesis
        using ok by (intro service_inv_processes [OF inv look, where s' = ?s']) (simp_all add: m put_in_def session_ok_def)
    qed
  qed
qed

lemma inv_watch_begin:
  assumes inv: "service_inv st" and op: "watch_begin sid ident sb path fill (mgr st) = (m, Ok (Some (r, v)))"
    and fresh: "fresh_watch (watch_id r) st"
  shows "service_inv (st\<lparr>mgr := m, watching := add_mset (sid, ident, sb, r) (watching st)\<rparr>)" (is "service_inv ?st'")
proof -
  obtain s q where own: "owned_session sid ident (mgr st) = Some s" and run: "running_vm sid ident sb (mgr st) = Some v"
    and r: "watch_sandbox r = sb" and q: "reserve_watch sb ident (quotas (mgr st)) = Ok q"
    and m: "m = put_in sid (s\<lparr>watches := AList.update (watch_id r) (Preparing_Watch r) (watches s)\<rparr>) ((mgr st)\<lparr>quotas := q\<rparr>)"
    using op by (auto simp: watch_begin_def watch_new_def and_then_Ok_iff split: option.splits sum.splits)
  let ?s' = "s\<lparr>watches := AList.update (watch_id r) (Preparing_Watch r) (watches s)\<rparr>"
  have look: "map_of (sessions (mgr st)) sid = Some s" and ident: "identity s = ident"
    using own by (simp_all add: owned_session_Some)
  have ok: "session_ok s" by (rule service_invD(8) [OF inv look])
  then have wf: "hm_wf (watches s)" by (simp add: session_ok_def)
  have none: "map_of (watches s) (watch_id r) = None"
    using fresh map_of_SomeD [OF look] by (auto simp: fresh_watch_def)
  have ins: "session_watches (sid, ?s') = add_mset (sb, session_user s) (session_watches (sid, s))"
    using session_watches_insert [OF wf none, of ?s' "Preparing_Watch r"] by (simp add: r)
  have spawns: "watchings_ok ?st'"
    unfolding watchings_ok_def
  proof (clarify, intro conjI allI ballI impI; clarify?)
    fix sid1 ident1 sb1 r1
    assume r1: "(sid1, ident1, sb1, r1) \<in># watching ?st'"
    then have old: "(sid1, ident1, sb1, r1) \<in># watching st" if "r1 \<noteq> r" using that by auto
    show "watch_sandbox r1 = sb1"
      using r1 r service_invD(3) [OF inv] by (auto simp: watchings_ok_def)
    fix sid2 s2 p2
    assume s2: "(sid2, s2) \<in> set (sessions (mgr ?st'))" and p2: "map_of (watches s2) (watch_id r1) = Some p2"
    have "s2 = ?s' \<or> (sid2, s2) \<in> set (sessions (mgr st))"
      using s2 set_update_sub [of sid ?s' "sessions (mgr st)"] by (auto simp: m put_in_def)
    then show "watch_resource p2 = r1"
    proof
      assume "s2 = ?s'"
      then show ?thesis
        using p2 fresh old service_invD(3) [OF inv] map_of_SomeD [OF look]
        by (cases "watch_id r1 = watch_id r"; cases "r1 = r")
           (fastforce simp: hm_update_lookup fresh_watch_def watchings_ok_def)+
    next
      assume "(sid2, s2) \<in> set (sessions (mgr st))"
      then show ?thesis
        using p2 fresh old service_invD(3) [OF inv]
        by (cases "r1 = r") (fastforce simp: fresh_watch_def watchings_ok_def)+
    qed
  qed
  have "book_ok q (L\<lparr>l_watches := session_watches (sid, ?s') + R\<rparr>)"
    if "book_ok (quotas (mgr st)) L" "l_watches L = session_watches (sid, s) + R" for L R
    using watch_quota.reserve_ok [OF that(1) q] by (simp add: ins that(2) session_user_def ident)
  moreover have "watch_id (watch_resource p) = pid \<and> running_in (watch_sandbox (watch_resource p)) s"
    if "(pid, p) \<in> set (watches ?s')" for pid p
    using that ok set_update_sub [of "watch_id r" "Preparing_Watch r" "watches s"] r running_vm_Some [OF run own]
    by (auto simp: session_ok_def)
  ultimately show ?thesis
    using wf spawns by (intro service_inv_watches [OF inv look, where s' = ?s']) (simp_all add: m put_in_def)
qed

lemma inv_watch_finish:
  assumes inv: "service_inv st" and sp: "watching st = add_mset (sid, ident, sb, r) S"
    and op: "watch_finish sid ident sb r started (mgr st) = (m, res, killed)"
  shows "service_inv (st\<lparr>mgr := m, watching := S\<rparr>)"
proof -
  have sub: "S \<subseteq># watching st" by (simp add: sp)
  have sbr: "watch_sandbox r = sb" using service_invD(3) [OF inv] by (auto simp: watchings_ok_def sp)
  show ?thesis
  proof (cases "\<exists>s p. owned_session sid ident (mgr st) = Some s \<and> map_of (watches s) (watch_id r) = Some p \<and> running_in sb s")
    case False
    then have "m = mgr st" using op by (auto simp: watch_finish_def Let_def split: option.splits if_splits)
    with inv_forget_watching [OF inv sub] show ?thesis by simp
  next
    case True
    then obtain s p where own: "owned_session sid ident (mgr st) = Some s" and p: "map_of (watches s) (watch_id r) = Some p"
      and run: "running_in sb s" by blast
    have look: "map_of (sessions (mgr st)) sid = Some s" and ident: "identity s = ident"
      using own by (simp_all add: owned_session_Some)
    have res: "watch_resource p = r"
      using service_invD(3) [OF inv] p map_of_SomeD [OF look] by (fastforce simp: watchings_ok_def sp)
    have ok: "session_ok s" by (rule service_invD(8) [OF inv look])
    show ?thesis
    proof (cases started)
      case (Inl e)
      then have "m = (put_in sid (s\<lparr>watches := AList.delete (watch_id r) (watches s)\<rparr>) (mgr st))
          \<lparr>quotas := release_watch sb (identity s) (quotas (mgr st))\<rparr>"
        using op own p run ident by (simp add: watch_finish_def Let_def)
      with inv_remove_watch [OF inv look p sub, of "s\<lparr>watches := AList.delete (watch_id r) (watches s)\<rparr>" "retired s" sb]
      show ?thesis by (simp add: res sbr)
    next
      case (Inr x)
      let ?s' = "s\<lparr>watches := AList.update (watch_id r) (Running_Watch r x) (watches s)\<rparr>"
      have m: "m = put_in sid ?s' (mgr st)" using op own p run Inr by (auto simp: watch_finish_def Let_def)
      have eq: "session_watches (sid, ?s') = session_watches (sid, s)"
        using ok p res by (intro session_watches_replace) (auto simp: session_ok_def)
      have "watchings_ok (st\<lparr>mgr := m, watching := S\<rparr>)"
        by (rule watchings_ok_update [OF service_invD(3) [OF inv] look, where s' = ?s'])
           (use sub p res in \<open>auto simp: m put_in_def hm_update_lookup split: if_splits\<close>)
      moreover have "watch_id (watch_resource y) = k \<and> running_in (watch_sandbox (watch_resource y)) s"
        if "(k, y) \<in> set (watches ?s')" for k y
        using that ok set_update_sub [of "watch_id r" "Running_Watch r x" "watches s"] sbr run by (auto simp: session_ok_def)
      moreover have "book_ok (quotas m) (L\<lparr>l_watches := session_watches (sid, ?s') + R\<rparr>)"
        if "book_ok (quotas (mgr st)) L" "l_watches L = session_watches (sid, s) + R" for L R
        unfolding eq that(2) [symmetric] using that(1) by (simp add: m put_in_def)
      ultimately show ?thesis
        using ok by (intro service_inv_watches [OF inv look, where s' = ?s']) (simp_all add: m put_in_def session_ok_def)
    qed
  qed
qed

text \<open>The operations on a process or watch by its handle start by forgetting old retired handles.\<close>

lemma pruned_session:
  assumes inv: "service_inv st" and look: "map_of (sessions (mgr st)) sid = Some s0"
    and st1: "st1 = st\<lparr>mgr := put_in sid (s0\<lparr>retired := rs\<rparr>) (mgr st)\<rparr>"
  shows "service_inv st1" and "map_of (sessions (mgr st1)) sid = Some (s0\<lparr>retired := rs\<rparr>)"
  using service_inv_metadata [OF inv look] by (simp_all add: st1 put_in_def hm_update_lookup)

lemma inv_kill:
  assumes inv: "service_inv st" and op: "kill_managed_process sid ident pid now (mgr st) = (m, res)"
  shows "service_inv (st\<lparr>mgr := m\<rparr>)"
proof (cases "map_of (sessions (mgr st)) sid")
  case (Some s)
  note pruned = service_inv_metadata [OF inv Some, of "prune_retired_at now (retired s)"]
  have "m = mgr st \<or> m = put_in sid (s\<lparr>retired := prune_retired_at now (retired s)\<rparr>) (mgr st)"
    using op Some
    by (auto simp: kill_managed_process_def Let_def split: if_splits option.splits ProcessSlot.splits)
  with inv pruned show ?thesis by auto
qed (use op inv in \<open>auto simp: kill_managed_process_def\<close>)

lemma inv_retire:
  assumes inv: "service_inv st" and op: "retire_managed_process sid ident pid now (mgr st) = (m, res)"
  shows "service_inv (st\<lparr>mgr := m\<rparr>)"
proof (cases "map_of (sessions (mgr st)) sid")
  case (Some s0)
  define s where "s = s0\<lparr>retired := prune_retired_at now (retired s0)\<rparr>"
  define st1 where "st1 = st\<lparr>mgr := put_in sid s (mgr st)\<rparr>"
  note st1 = pruned_session [OF inv Some st1_def [unfolded s_def], folded s_def]
  consider "m = mgr st" | "m = mgr st1"
    | p where "identity s = ident" "map_of (processes s) pid = Some p"
      "m = (put_in sid (retire now pid (s\<lparr>processes := AList.delete pid (processes s)\<rparr>)) (mgr st1))
        \<lparr>quotas := release_process (process_sandbox (process_resource p)) ident (quotas (mgr st1))\<rparr>"
    using op Some unfolding s_def st1_def
    by (fastforce simp: retire_managed_process_def Let_def put_in_def split: if_splits option.splits)
  then show ?thesis
  proof cases
    case (3 p)
    from inv_remove_process [OF st1 3(2) subset_mset.order_refl]
    have "service_inv (st1\<lparr>mgr := m, spawning := spawning st1\<rparr>)"
      by (simp add: 3 retire_def Let_def)
    then show ?thesis by (simp add: st1_def)
  qed (use inv st1 in \<open>simp_all add: st1_def\<close>)
qed (use op inv in \<open>auto simp: retire_managed_process_def\<close>)

lemma inv_watch_stop:
  assumes inv: "service_inv st" and op: "stop_managed_watch sid ident wid now (mgr st) = (m, res)"
  shows "service_inv (st\<lparr>mgr := m\<rparr>)"
proof (cases "map_of (sessions (mgr st)) sid")
  case (Some s0)
  define s where "s = s0\<lparr>retired := prune_retired_at now (retired s0)\<rparr>"
  define st1 where "st1 = st\<lparr>mgr := put_in sid s (mgr st)\<rparr>"
  note st1 = pruned_session [OF inv Some st1_def [unfolded s_def], folded s_def]
  consider "m = mgr st" | "m = mgr st1"
    | w where "identity s = ident" "map_of (watches s) wid = Some w"
      "m = (put_in sid (retire now wid (s\<lparr>watches := AList.delete wid (watches s)\<rparr>)) (mgr st1))
        \<lparr>quotas := release_watch (watch_sandbox (watch_resource w)) ident (quotas (mgr st1))\<rparr>"
    using op Some unfolding s_def st1_def
    by (fastforce simp: stop_managed_watch_def Let_def put_in_def split: if_splits option.splits WatchSlot.splits)
  then show ?thesis
  proof cases
    case (3 w)
    from inv_remove_watch [OF st1 3(2) subset_mset.order_refl]
    have "service_inv (st1\<lparr>mgr := m, watching := watching st1\<rparr>)"
      by (simp add: 3 retire_def Let_def)
    then show ?thesis by (simp add: st1_def)
  qed (use inv st1 in \<open>simp_all add: st1_def\<close>)
qed (use op inv in \<open>auto simp: stop_managed_watch_def\<close>)

section \<open>Every reachable state satisfies the invariant\<close>

text \<open>Steps that change only the records of repeatable starts.\<close>

lemma inv_replays:
  assumes inv: "service_inv st" and "hm_wf rs" and "length rs \<le> MAX_START_REPLAY_RECORDS"
  shows "service_inv (st\<lparr>mgr := (mgr st)\<lparr>start_replays := rs\<rparr>\<rparr>)"
  using assms service_invD(4) [OF inv] by (intro service_inv_control [OF inv]) simp_all

lemma length_update_le: "length (AList.update k v m) \<le> Suc (length m)"
  by (induction m) auto

lemma length_update_present: "map_of m k = Some w \<Longrightarrow> length (AList.update k v m) = length m"
  by (induction m) auto

lemma inv_replay_ops:
  assumes inv: "service_inv st"
  shows "begin_start_replay sid ident iid now (mgr st) = (m, res) \<Longrightarrow> service_inv (st\<lparr>mgr := m\<rparr>)"
    and "complete_start_replay sid ident iid sb ms now (mgr st) = (m, b) \<Longrightarrow> service_inv (st\<lparr>mgr := m\<rparr>)"
    and "abandon_start_replay sid ident iid (mgr st) = (m, b) \<Longrightarrow> service_inv (st\<lparr>mgr := m\<rparr>)"
proof -
  let ?rs = "start_replays (mgr st)"
  have wf: "hm_wf ?rs" and len: "length ?rs \<le> MAX_START_REPLAY_RECORDS" using service_invD(6,7) [OF inv] by simp_all
  let ?pruned = "prune_start_replays_at now ?rs"
  have p: "hm_wf ?pruned" "length ?pruned \<le> MAX_START_REPLAY_RECORDS"
    using wf len by (auto simp: prune_start_replays_at_def intro: order_trans [OF length_filter_le])
  show "service_inv (st\<lparr>mgr := m\<rparr>)" if op: "begin_start_replay sid ident iid now (mgr st) = (m, res)"
  proof -
    consider "m = mgr st" | "m = (mgr st)\<lparr>start_replays := ?pruned\<rparr>"
      | r where "length ?pruned < MAX_START_REPLAY_RECORDS"
        "m = (mgr st)\<lparr>start_replays := AList.update (ident, iid) r ?pruned\<rparr>"
      using op by (fastforce simp: begin_start_replay_def Let_def not_le split: if_splits option.splits)
    then show ?thesis
    proof cases
      case (3 r)
      then have "length (AList.update (ident, iid) r ?pruned) \<le> MAX_START_REPLAY_RECORDS"
        using length_update_le [of "(ident, iid)" r ?pruned] by simp
      with 3 p show ?thesis by (simp add: inv_replays [OF inv])
    qed (use inv p in \<open>simp_all add: inv_replays [OF inv]\<close>)
  qed
  show "service_inv (st\<lparr>mgr := m\<rparr>)" if op: "complete_start_replay sid ident iid sb ms now (mgr st) = (m, b)"
  proof -
    consider "m = mgr st"
      | r r' where "map_of ?rs (ident, iid) = Some r" "m = (mgr st)\<lparr>start_replays := AList.update (ident, iid) r' ?rs\<rparr>"
      using op by (auto simp: complete_start_replay_def split: if_splits option.splits)
    then show ?thesis using inv wf len by cases (simp_all add: inv_replays [OF inv] length_update_present)
  qed
  show "service_inv (st\<lparr>mgr := m\<rparr>)" if "abandon_start_replay sid ident iid (mgr st) = (m, b)"
  proof -
    have "m = mgr st \<or> m = (mgr st)\<lparr>start_replays := AList.delete (ident, iid) ?rs\<rparr>"
      using that by (auto simp: abandon_start_replay_def Let_def split: if_splits)
    moreover have "length (AList.delete (ident, iid) ?rs) \<le> MAX_START_REPLAY_RECORDS"
      using len by (simp add: AList.delete_eq order_trans [OF length_filter_le])
    ultimately show ?thesis using inv inv_replays [OF inv] wf by auto
  qed
qed

lemma service_step_inv: "service_step who st st' \<Longrightarrow> service_inv st \<Longrightarrow> service_inv st'"
proof (induction rule: service_step.induct)
  case (control_step st a)
  then show ?case
    using admission_control_keeps [OF control_step(1)] service_invD [OF control_step(2)]
    by (intro service_inv_control [OF control_step(2)]) simp_all
next
  case start_begin_step
  then show ?case by simp
next
  case start_finish_step
  then show ?case by (intro inv_start_thread)
qed (rule inv_open inv_detach inv_clear inv_teardown inv_drop inv_create_test inv_close_test inv_replay_ops
  inv_reserve_vm inv_cancel_reservation inv_stop_begin inv_stop_finish inv_spawn_begin
  inv_spawn_finish inv_kill inv_retire inv_watch_begin inv_watch_finish inv_watch_stop, assumption+)+

lemma service_inv_start: "service_inv (service_start lim b)"
  by (auto simp: service_inv_def service_start_def manager_new_def held_ok_def all_slots_def over_sessions_def
      stopping_slots_def spawns_ok_def watchings_ok_def leases_def admission_new_def admission_inv_def empty_ledger_def
      intro!: exI [of _ empty_ledger] book_ok_new)

end
