(* ===== verification/Session_Safety.thy ===== *)
theory Session_Safety
  imports Session_System
begin

text \<open>
  What the service guarantees its clients and its host in every reachable state of
  \<open>Session_System\<close>: the quota limits hold of what the sessions really hold, nothing is running when
  the service is sealed for an update, everything is given back when the sessions are gone, and no
  client's step changes a session of another.
\<close>

section \<open>Reachable states\<close>

abbreviation service_reachable :: "QuotaLimits \<Rightarrow> bool \<Rightarrow> service_state \<Rightarrow> bool" where
  "service_reachable lim b \<equiv> reachable (\<lambda>st. st = service_start lim b) any_step"

lemma any_step_inv: "any_step st st' \<Longrightarrow> service_inv st \<Longrightarrow> service_inv st'"
  by (auto simp: any_step_def intro: service_step_inv)

interpretation service_safety: safety "\<lambda>st. st = service_start lim b" any_step service_inv
  by unfold_locales (auto intro: service_inv_start any_step_inv)

section \<open>Steps keep the limits and the sessions of others\<close>

text \<open>The sessions that a step done for \<open>who\<close> has no business with.\<close>

definition foreign :: "ClientIdentityKey option \<Rightarrow> SessionManager \<Rightarrow> (ResourceHandle \<times> Session) set" where
  "foreign who m = {(sid, s). map_of (sessions m) sid = Some s \<and> who \<noteq> Some (identity s)}"

definition confined :: "ClientIdentityKey option \<Rightarrow> SessionManager \<Rightarrow> SessionManager \<Rightarrow> bool" where
  "confined who m m' \<longleftrightarrow> limits (quotas m') = limits (quotas m) \<and> foreign who m' = foreign who m"

lemma confined_refl [simp]: "confined who m m"
  by (simp add: confined_def)

lemma confined_trans: "confined who m m' \<Longrightarrow> confined who m' m'' \<Longrightarrow> confined who m m''"
  by (simp add: confined_def)

lemma confined_same:
  "sessions m' = sessions m \<Longrightarrow> limits (quotas m') = limits (quotas m) \<Longrightarrow> confined who m m'"
  by (simp add: confined_def foreign_def)

lemma confined_put:
  assumes "map_of (sessions m) sid = Some s" and "identity s = ident" and "identity s' = ident"
    and "sessions m' = AList.update sid s' (sessions m)" and "limits (quotas m') = limits (quotas m)"
  shows "confined (Some ident) m m'"
  using assms by (auto simp: confined_def foreign_def hm_update_lookup split: if_splits)

lemma limits_release [simp]:
  "limits (release_process sb ident q) = limits q" "limits (release_watch sb ident q) = limits q"
  "limits (release_connection ident q) = limits q" "limits (release_sandbox c h ident q) = limits q"
  by (simp_all add: release_process_def release_watch_def release_connection_def release_sandbox_def Let_def
      split: option.splits)

lemma limits_fold: "(\<And>x q. limits (f x q) = limits q) \<Longrightarrow> limits (fold f xs q) = limits q"
  by (induction xs arbitrary: q) simp_all

lemma limits_reserve:
  "reserve_process sb ident q = Inr q' \<Longrightarrow> limits q' = limits q"
  "reserve_watch sb ident q = Inr q' \<Longrightarrow> limits q' = limits q"
  "reserve_connection ident q = Inr q' \<Longrightarrow> limits q' = limits q"
  "reserve_sandbox c h ident r q = Inr q' \<Longrightarrow> limits q' = limits q"
  by (auto simp: reserve_process_def reserve_watch_def reserve_connection_def split: if_splits
      elim: reserve_sandbox_OkD)

lemma reserve_slot_sessions:
  assumes "reserve_slot sid ident r fill m = (m', res)"
  shows "sessions m' = sessions m" and "limits (quotas m') = limits (quotas m)"
  using assms by (auto simp: reserve_slot_def split: sum.splits dest: limits_reserve)

lemma confined_reserve:
  assumes "map_of (sessions m) sid = Some s" and "identity s = ident" and "identity s' = ident"
    and "reserve_slot sid ident r fill m = (m', res)"
  shows "confined (Some ident) m (put_in sid s' m')"
  by (rule confined_put [OF assms(1-3)]) (simp_all add: put_in_def reserve_slot_sessions [OF assms(4)])

lemma confined_slot_ops:
  "create_test_resource sid ident val fill m = (m', res) \<Longrightarrow> confined (Some ident) m m'"
  "reserve_managed_vm sid ident resources fill m = (m', res) \<Longrightarrow> confined (Some ident) m m'"
  by (auto simp: create_test_resource_def reserve_managed_vm_def owned_session_Some
      split: option.splits prod.splits sum.splits
      intro: confined_reserve confined_same dest: reserve_slot_sessions)

lemma unique_handle_fresh: "unique_handle rnd m = Inr h \<Longrightarrow> map_of m h = None"
proof -
  have "unique_from n rnd m = Inr h \<Longrightarrow> map_of m h = None" for n
    by (induction n) (auto split: sum.splits if_splits)
  then show "unique_handle rnd m = Inr h \<Longrightarrow> map_of m h = None" by (simp add: unique_handle_def)
qed

lemma confined_open:
  assumes "open_session ident rnd m = (m', res)"
  shows "confined (Some ident) m m'"
proof -
  consider "m' = m" | q where "reserve_connection ident (quotas m) = Inr q" "m' = m\<lparr>quotas := q\<rparr>"
    | q sid where "reserve_connection ident (quotas m) = Inr q" "unique_handle rnd (sessions m) = Inr sid"
      "m' = m\<lparr>quotas := q, sessions := AList.update sid (new_session ident) (sessions m)\<rparr>"
    using assms by (auto simp: open_session_def Let_def split: sum.splits)
  then show ?thesis
  proof cases
    case (3 q sid)
    then show ?thesis using unique_handle_fresh [OF 3(2)] limits_reserve(3) [OF 3(1)]
      by (auto simp: confined_def foreign_def hm_update_lookup new_session_def split: if_splits)
  qed (auto simp: limits_reserve(3) intro: confined_same)
qed

lemma confined_detach: "close_detach sid ident now m = (m', out) \<Longrightarrow> confined (Some ident) m m'"
  by (auto simp: close_detach_def Let_def confined_def foreign_def AList.delete_conv' limits_fold
      split: option.splits if_splits)

lemma identity_retire [simp]: "identity (retire now h s) = identity s"
  by (simp add: retire_def Let_def)

lemma confined_handle_ops:
  "close_test_resource sid ident h now m = (m', r1) \<Longrightarrow> confined (Some ident) m m'"
  "kill_managed_process sid ident h now m = (m', r2) \<Longrightarrow> confined (Some ident) m m'"
  "retire_managed_process sid ident h now m = (m', r3) \<Longrightarrow> confined (Some ident) m m'"
  "stop_managed_watch sid ident h now m = (m', r4) \<Longrightarrow> confined (Some ident) m m'"
  by (auto simp: close_test_resource_def kill_managed_process_def retire_managed_process_def stop_managed_watch_def
      Let_def put_in_def confined_def foreign_def hm_update_lookup
      split: option.splits if_splits ProcessSlot.splits WatchSlot.splits)

lemma confined_vm_ops:
  "cancel_managed_vm_reservation sid ident h m = (m', r1) \<Longrightarrow> confined (Some ident) m m'"
  "start_reserved_finish sid ident h started m = (m', r2) \<Longrightarrow> confined (Some ident) m m'"
  "stop_begin sid ident h m = (m', r3) \<Longrightarrow> confined (Some ident) m m'"
  "confined (Some ident) m (stop_finish sid ident h now m)"
  by (auto simp: cancel_managed_vm_reservation_def start_reserved_finish_def stop_begin_def stop_finish_def
      retire_start_replay_def remove_reserved_def owned_session_Some
      Let_def put_in_def confined_def foreign_def hm_update_lookup limits_fold
      split: option.splits if_splits sum.splits)

lemma confined_guest_ops:
  "spawn_begin sid ident sb f1 f2 f3 m = (m', r1) \<Longrightarrow> confined (Some ident) m m'"
  "spawn_finish sid ident sb r ps m = (m', r2) \<Longrightarrow> confined (Some ident) m m'"
  "watch_begin sid ident sb path fill m = (m', r3) \<Longrightarrow> confined (Some ident) m m'"
  "watch_finish sid ident sb w ws m = (m', r4) \<Longrightarrow> confined (Some ident) m m'"
  by (auto simp: spawn_begin_def spawn_finish_def watch_begin_def watch_finish_def owned_session_Some
      Let_def put_in_def confined_def foreign_def hm_update_lookup
      split: option.splits if_splits sum.splits dest: limits_reserve)

lemma confined_replay_ops:
  "begin_start_replay sid ident iid now m = (m', r1) \<Longrightarrow> confined (Some ident) m m'"
  "complete_start_replay sid ident iid sb ms now m = (m', r2) \<Longrightarrow> confined (Some ident) m m'"
  "abandon_start_replay sid ident iid m = (m', r3) \<Longrightarrow> confined (Some ident) m m'"
  by (auto simp: begin_start_replay_def complete_start_replay_def abandon_start_replay_def Let_def
      confined_def foreign_def split: option.splits if_splits)

lemma service_step_confined: "service_step who st st' \<Longrightarrow> confined who (mgr st) (mgr st')"
  by (induction rule: service_step.induct)
     (auto dest: confined_slot_ops confined_open confined_detach confined_handle_ops confined_vm_ops(1-3)
        confined_guest_ops confined_replay_ops intro: confined_same confined_vm_ops(4))

lemma reachable_limits: "service_reachable lim b st \<Longrightarrow> limits (quotas (mgr st)) = lim"
proof (induction rule: reachable.induct)
  case (reach_step st st')
  then show ?case using service_step_confined by (fastforce simp: any_step_def confined_def)
qed (simp add: service_start_def manager_new_def quota_new_def)

section \<open>Counting what the sessions hold\<close>

definition sessions_of :: "bytes \<Rightarrow> SessionManager \<Rightarrow> (ResourceHandle \<times> Session) list" where
  "sessions_of u m = filter (\<lambda>p. session_user (snd p) = u) (sessions m)"

lemma size_over_sessions: "size (over_sessions f m) = (\<Sum>p \<leftarrow> sessions m. size (f p))"
proof -
  have "size (\<Sum>p \<in># mset xs. f p) = (\<Sum>p \<leftarrow> xs. size (f p))" for xs by (induction xs) simp_all
  then show ?thesis by (simp add: over_sessions_def)
qed

lemma size_over_user:
  assumes "\<And>p x. x \<in># f p \<Longrightarrow> g x = session_user (snd p)"
  shows "size (filter_mset (\<lambda>x. g x = u) (over_sessions f m)) = (\<Sum>p \<leftarrow> sessions_of u m. size (f p))"
proof -
  have "filter_mset (\<lambda>x. g x = u) (f p) = (if session_user (snd p) = u then f p else {#})" for p
    using assms [of _ p] by (auto simp: filter_mset_eq_conv)
  then have "size (filter_mset (\<lambda>x. g x = u) (\<Sum>p \<in># mset xs. f p)) =
      (\<Sum>p \<leftarrow> filter (\<lambda>p. session_user (snd p) = u) xs. size (f p))" for xs
    by (induction xs) simp_all
  then show ?thesis by (simp add: over_sessions_def sessions_of_def)
qed

lemma held_sizes [simp]:
  "size (session_slots p) = session_leases (snd p)" "size (session_processes p) = length (processes (snd p))"
  "size (session_watches p) = length (watches (snd p))"
  by (simp_all add: session_slots_def Let_def session_leases_def session_processes_def session_watches_def)

lemma held_users:
  "x \<in># session_slots p \<Longrightarrow> snd (snd x) = session_user (snd p)"
  "y \<in># session_processes p \<Longrightarrow> snd y = session_user (snd p)"
  "z \<in># session_watches p \<Longrightarrow> snd z = session_user (snd p)"
  by (auto simp: session_slots_def Let_def session_processes_def session_watches_def)

lemma held_connection: "x \<in># session_slots p \<Longrightarrow> fst x = fst p"
  by (auto simp: session_slots_def Let_def)

lemma member_over_sessions:
  "map_of (sessions m) sid = Some s \<Longrightarrow> f (sid, s) \<subseteq># over_sessions f m"
  by (auto simp: over_sessions_def dest!: map_of_SomeD multi_member_split [of _ "mset (sessions m)", simplified])

text \<open>The ledger behind a reachable state, with the limits of the service.\<close>

lemma reachable_ledger:
  assumes "service_reachable lim b st"
  obtains L where "ledger_within lim L" "held_ok st L" "book_ok (quotas (mgr st)) L"
  using service_safety.reachable_inv [OF assms] reachable_limits [OF assms]
  by (auto simp: service_inv_def book_ok_def)

lemma reachable_slots:
  assumes "service_reachable lim b st"
  shows "size (all_slots st) \<le> sandboxes_global lim"
    and "size (filter_mset (\<lambda>x. snd (snd x) = u) (all_slots st)) \<le> sandboxes_per_user lim"
    and "size (filter_mset (\<lambda>x. fst x = c) (all_slots st)) \<le> sandboxes_per_connection lim"
proof -
  obtain L where L: "ledger_within lim L" "held_ok st L" by (rule reachable_ledger [OF assms])
  then have "all_slots st = image_mset box_key (l_boxes L)" by (simp add: held_ok_def)
  with L(1) show "size (all_slots st) \<le> sandboxes_global lim"
    "size (filter_mset (\<lambda>x. snd (snd x) = u) (all_slots st)) \<le> sandboxes_per_user lim"
    "size (filter_mset (\<lambda>x. fst x = c) (all_slots st)) \<le> sandboxes_per_connection lim"
    by (simp_all add: ledger_within_def boxes_within_def box_key_def filter_mset_image_mset comp_def)
qed

lemma reachable_connections:
  assumes "service_reachable lim b st"
  shows "length (sessions (mgr st)) \<le> connections_global lim"
    and "length (sessions_of u (mgr st)) \<le> connections_per_user lim"
proof -
  obtain L where L: "ledger_within lim L" "held_ok st L" by (rule reachable_ledger [OF assms])
  then have sub: "image_mset (session_user \<circ> snd) (mset (sessions (mgr st))) \<subseteq># l_connections L"
    by (simp add: held_ok_def)
  have eq: "count (image_mset (session_user \<circ> snd) (mset xs)) u = length (filter (\<lambda>p. session_user (snd p) = u) xs)" for xs
    by (induction xs) simp_all
  have "length (sessions_of u (mgr st)) \<le> count (l_connections L) u"
    using count_mono [OF sub, of u] by (simp only: sessions_of_def eq)
  with L(1) show "length (sessions_of u (mgr st)) \<le> connections_per_user lim"
    by (auto simp: ledger_within_def intro: order_trans)
  show "length (sessions (mgr st)) \<le> connections_global lim"
    using size_mset_mono [OF sub] L(1) by (simp add: ledger_within_def)
qed

text \<open>What a user's slots in sessions are part of.\<close>

lemma slots_of_user:
  "(\<Sum>p \<leftarrow> sessions_of u (mgr st). session_leases (snd p)) \<le>
     size (filter_mset (\<lambda>x. snd (snd x) = u) (all_slots st))"
  by (simp add: all_slots_def size_over_user [OF held_users(1)])

lemma slots_of_session:
  assumes "map_of (sessions (mgr st)) sid = Some s"
  shows "session_leases s \<le> size (filter_mset (\<lambda>x. fst x = sid) (all_slots st))"
proof -
  have "filter_mset (\<lambda>x. fst x = sid) (session_slots (sid, s)) = session_slots (sid, s)"
    by (simp add: filter_mset_eq_conv held_connection)
  moreover have "session_slots (sid, s) \<subseteq># all_slots st"
    using member_over_sessions [OF assms, of session_slots] by (simp add: all_slots_def subset_mset.add_increasing2)
  ultimately have "session_slots (sid, s) \<subseteq># filter_mset (\<lambda>x. fst x = sid) (all_slots st)"
    by (metis multiset_filter_mono)
  then show ?thesis using size_mset_mono by fastforce
qed

lemma guest_of_sandbox:
  assumes "map_of (sessions (mgr st)) sid = Some s"
  shows "length (filter (\<lambda>(_, p). process_sandbox (process_resource p) = sb) (processes s)) \<le>
      size (filter_mset (\<lambda>x. fst x = sb) (over_sessions session_processes (mgr st)))"
    and "length (filter (\<lambda>(_, w). watch_sandbox (watch_resource w) = sb) (watches s)) \<le>
      size (filter_mset (\<lambda>x. fst x = sb) (over_sessions session_watches (mgr st)))"
  using size_mset_mono [OF multiset_filter_mono [OF member_over_sessions [OF assms, of session_processes], of "\<lambda>x. fst x = sb"]]
    size_mset_mono [OF multiset_filter_mono [OF member_over_sessions [OF assms, of session_watches], of "\<lambda>x. fst x = sb"]]
  by (simp_all add: session_processes_def session_watches_def filter_mset_image_mset comp_def case_prod_unfold
      flip: mset_filter)

lemma guest_of_user:
  "size (filter_mset (\<lambda>x. snd x = u) (over_sessions session_processes m)) = (\<Sum>p \<leftarrow> sessions_of u m. length (processes (snd p)))"
  "size (filter_mset (\<lambda>x. snd x = u) (over_sessions session_watches m)) = (\<Sum>p \<leftarrow> sessions_of u m. length (watches (snd p)))"
  using size_over_user [of session_processes snd] size_over_user [of session_watches snd] held_users(2,3) by simp_all

lemma reachable_guest:
  assumes "service_reachable lim b st"
  shows "scoped_within (processes_global lim) (processes_per_user lim) (processes_per_sandbox lim)
      (over_sessions session_processes (mgr st))"
    and "scoped_within (watches_global lim) (watches_per_user lim) (watches_per_sandbox lim)
      (over_sessions session_watches (mgr st))"
  using reachable_ledger [OF assms] by (auto simp: ledger_within_def held_ok_def)

text \<open>Guest processes and watches are those of a running sandbox.\<close>

lemma session_ok_idle:
  assumes "session_ok s" and "sandboxes s = []"
  shows "processes s = [] \<and> watches s = []"
  using assms by (cases "processes s"; cases "watches s") (auto simp: session_ok_def running_in_def)

section \<open>A short run\<close>

text \<open>A client opens a session and reserves a sandbox, closes the session again, or the updater seals the
  service while the session is idle.\<close>

definition demo_client :: ClientIdentityKey where
  "demo_client = \<lparr>user_sid = [7], logon_sid = [8], authentication_luid = 9, identity_session = 1\<rparr>"

definition demo_session :: ResourceHandle where "demo_session = replicate 16 1"

definition demo_open :: service_state where
  "demo_open = (let st = service_start default_limits True in
     st\<lparr>mgr := fst (open_session demo_client (\<lambda>_. Some demo_session) (mgr st))\<rparr>)"

definition demo_box :: service_state where
  "demo_box = demo_open\<lparr>mgr := fst (reserve_managed_vm demo_session demo_client
     \<lparr>res_cpus = 2, res_memory_mib = 1024, res_disk_mib = 2048\<rparr> (Some (replicate 16 2)) (mgr demo_open))\<rparr>"

definition demo_closed :: service_state where
  "demo_closed = (let r = close_detach demo_session demo_client 5 (mgr demo_box) in
     demo_box\<lparr>mgr := fst r, closing := add_mset (the (snd r)) (closing demo_box)\<rparr>)"

definition demo_sealed :: service_state where
  "demo_sealed = demo_open\<lparr>mgr := (mgr demo_open)\<lparr>admissions := (admissions (mgr demo_open))\<lparr>admission_state := UpdateSealed\<rparr>\<rparr>\<rparr>"

text \<open>The session is closed while the VM of the sandbox is being started; the lease of the slot is dropped,
  and the service is sealed.\<close>

definition demo_handle :: ResourceHandle where "demo_handle = replicate 16 2"

definition demo_starting :: service_state where
  "demo_starting = demo_box\<lparr>starting := {#(demo_session, demo_client, demo_handle)#}\<rparr>"

definition demo_late :: service_state where
  "demo_late = (let m = fst (close_detach demo_session demo_client 5 (mgr demo_box)) in
     demo_starting\<lparr>mgr := m\<lparr>admissions := (release_active_use (admissions m))\<lparr>admission_state := UpdateSealed\<rparr>\<rparr>\<rparr>)"

lemma demo_open_eq:
  "mgr demo_open = \<lparr>sessions = [(demo_session, new_session demo_client)],
     quotas = (quota_new default_limits)\<lparr>connections := 1, connections_by_user := [[7] \<mapsto> 1]\<rparr>,
     start_replays = [], admissions = admission_new True\<rparr>"
  "starting demo_open = {#}" "stopping demo_open = {#}" "closing demo_open = {#}" "loose demo_open = 0"
  by (simp_all add: demo_open_def service_start_def manager_new_def open_session_def reserve_connection_def quota_new_def
      default_limits_def count_of_def increment_def demo_client_def unique_handle_def eval_nat_numeral handle_random_def demo_session_def
      Let_def)

lemma demo_box_eq:
  "sessions (mgr demo_box) = [(demo_session, (new_session demo_client)\<lparr>sandboxes := [(replicate 16 2, \<lparr>vm = None\<rparr>)]\<rparr>)]"
  "starting demo_box = {#}" "stopping demo_box = {#}" "closing demo_box = {#}" "loose demo_box = 0"
  by (simp_all add: demo_box_def demo_open_eq reserve_managed_vm_def owned_session_def new_session_def reserve_slot_def
      admission_new_def reserve_active_use_def checked_add_def handle_random_def put_in_def
      reserve_sandbox_def quota_new_def default_limits_def default_resources_def
      ok_or_def accounted_memory_def SANDBOX_MEMORY_OVERHEAD_MIB_def ensure_def Let_def)

lemma demo_detach: "\<exists>s. close_detach demo_session demo_client 5 (mgr demo_box) = (mgr demo_closed, Some s)
    \<and> closing demo_closed = {#s#} \<and> sessions (mgr demo_closed) = [] \<and> stopping demo_closed = {#}"
  by (simp add: demo_closed_def close_detach_def demo_box_eq new_session_def Let_def)

lemma demo_reachable:
  "service_reachable default_limits True demo_open"
  "service_reachable default_limits True demo_box"
  "service_reachable default_limits True demo_sealed"
  "service_reachable default_limits True demo_closed"
proof -
  have step: "any_step st st' \<Longrightarrow> service_reachable default_limits True st \<Longrightarrow> service_reachable default_limits True st'"
    for st st' by (rule reach_step)
  have "service_reachable default_limits True (service_start default_limits True)" by (rule reach_init) simp
  then show o: "service_reachable default_limits True demo_open"
    by (rule step [rotated])
       (auto simp: any_step_def demo_open_def Let_def intro!: exI open_step surjective_pairing)
  show bx: "service_reachable default_limits True demo_box"
    by (rule step [OF _ o]) (auto simp: any_step_def demo_box_def intro!: exI reserve_step surjective_pairing)
  have "admission_control (admissions (mgr demo_open)) ((admissions (mgr demo_open))\<lparr>admission_state := UpdateSealed\<rparr>)"
    by (rule try_seal [where sealed = True]) (simp add: demo_open_eq admission_new_def try_seal_if_idle_def)
  from control_step [OF this] have "any_step demo_open demo_sealed" by (auto simp: any_step_def demo_sealed_def)
  then show "service_reachable default_limits True demo_sealed" using o by (rule step)
  obtain s where detach: "close_detach demo_session demo_client 5 (mgr demo_box) = (mgr demo_closed, Some s)"
    and "closing demo_closed = {#s#}" using demo_detach by blast
  then have "demo_closed = demo_box\<lparr>mgr := mgr demo_closed, closing := add_mset s (closing demo_box)\<rparr>"
    by (simp add: demo_closed_def Let_def demo_box_eq)
  with detach_step [OF detach] have "any_step demo_box demo_closed" by (auto simp: any_step_def)
  then show "service_reachable default_limits True demo_closed" using bx by (rule step)
qed

lemma demo_late_idle:
  "release_active_use (admissions (mgr demo_closed)) = (admission_new True)"
  by (simp add: demo_closed_def close_detach_def demo_box_def demo_open_eq reserve_managed_vm_def owned_session_def
      new_session_def reserve_slot_def admission_new_def reserve_active_use_def release_active_use_def saturating_sub_def checked_add_def
      handle_random_def put_in_def reserve_sandbox_def quota_new_def default_limits_def default_resources_def
      ok_or_def accounted_memory_def SANDBOX_MEMORY_OVERHEAD_MIB_def ensure_def Let_def)

lemma demo_late_reachable: "service_reachable default_limits True demo_late"
proof -
  have step: "service_step who st st' \<Longrightarrow> service_reachable default_limits True st \<Longrightarrow> service_reachable default_limits True st'"
    for who st st' by (rule reach_step) (auto simp: any_step_def)
  have "start_reserved_check demo_session demo_client demo_handle (mgr demo_box) = Ok (cancellation (new_session demo_client))"
    by (simp add: start_reserved_check_def owned_session_def demo_box_eq new_session_def reserved_def demo_handle_def)
  from step [OF start_begin_step [OF this] demo_reachable(2)] have r1: "service_reachable default_limits True demo_starting"
    by (simp add: demo_starting_def demo_box_eq)
  obtain s where detach: "close_detach demo_session demo_client 5 (mgr demo_starting) = (mgr demo_closed, Some s)"
      and s: "s = (new_session demo_client)\<lparr>sandboxes := [(demo_handle, \<lparr>vm = None\<rparr>)]\<rparr>"
    by (simp add: demo_starting_def demo_closed_def close_detach_def demo_box_eq new_session_def Let_def demo_handle_def)
  let ?s1 = "demo_starting\<lparr>mgr := mgr demo_closed, closing := {#s#}\<rparr>"
  have r2: "service_reachable default_limits True ?s1"
    using step [OF detach_step [OF detach] r1] by (simp add: demo_starting_def demo_box_eq)
  obtain s' out where down: "close_teardown s = Some (s', out)" "length (sandboxes s') = 1"
    by (simp add: s close_teardown_def new_session_def Let_def cancel_token_def request_token_def compare_exchange_def)
  let ?s2 = "?s1\<lparr>closing := {#}, loose := 1\<rparr>"
  have r3: "service_reachable default_limits True ?s2"
    using step [OF teardown_step [of ?s1 s "{#}" s' out] r2] down
    by (simp add: s new_session_def demo_starting_def demo_box_eq)
  let ?a = "release_active_use (admissions (mgr demo_closed))"
  let ?s3 = "?s2\<lparr>mgr := (mgr demo_closed)\<lparr>admissions := ?a\<rparr>, loose := 0\<rparr>"
  have r4: "service_reachable default_limits True ?s3" using step [OF drop_step [of ?s2 0] r3] by simp
  have "admission_control (admissions (mgr ?s3)) (?a\<lparr>admission_state := UpdateSealed\<rparr>)"
    by (rule try_seal [where sealed = True]) (simp add: demo_late_idle admission_new_def try_seal_if_idle_def)
  note r5 = step [OF control_step [OF this] r4]
  have "demo_late = ?s3\<lparr>mgr := (mgr ?s3)\<lparr>admissions := ?a\<lparr>admission_state := UpdateSealed\<rparr>\<rparr>\<rparr>"
    by (simp add: demo_late_def demo_closed_def demo_starting_def demo_box_eq Let_def)
  with r5 show ?thesis by (simp only:)
qed

section \<open>Properties\<close>

text \<open>C4: However clients, stopping threads and the updater interleave, what the sessions really hold is
  within the limits the service was started with: open sessions, sandboxes and test resources, guest
  processes and watches, in total, by user, by connection and by sandbox.\<close>
theorem sessions_within_limits:
  assumes "service_reachable lim b st"
  shows "length (sessions (mgr st)) \<le> connections_global lim
    \<and> length (sessions_of u (mgr st)) \<le> connections_per_user lim
    \<and> (\<Sum>p \<leftarrow> sessions (mgr st). session_leases (snd p)) \<le> sandboxes_global lim
    \<and> (\<Sum>p \<leftarrow> sessions_of u (mgr st). session_leases (snd p)) \<le> sandboxes_per_user lim
    \<and> (\<Sum>p \<leftarrow> sessions (mgr st). length (processes (snd p))) \<le> processes_global lim
    \<and> (\<Sum>p \<leftarrow> sessions_of u (mgr st). length (processes (snd p))) \<le> processes_per_user lim
    \<and> (\<Sum>p \<leftarrow> sessions (mgr st). length (watches (snd p))) \<le> watches_global lim
    \<and> (\<Sum>p \<leftarrow> sessions_of u (mgr st). length (watches (snd p))) \<le> watches_per_user lim
    \<and> (map_of (sessions (mgr st)) sid = Some s \<longrightarrow>
         session_leases s \<le> sandboxes_per_connection lim
         \<and> length (filter (\<lambda>(_, p). process_sandbox (process_resource p) = sb) (processes s)) \<le> processes_per_sandbox lim
         \<and> length (filter (\<lambda>(_, w). watch_sandbox (watch_resource w) = sb) (watches s)) \<le> watches_per_sandbox lim)"
proof -
  note conn = reachable_connections [OF assms] and slots = reachable_slots [OF assms]
  note guest = reachable_guest [OF assms, unfolded scoped_within_def size_over_sessions held_sizes]
  have user: "(\<Sum>p \<leftarrow> sessions_of u (mgr st). length (processes (snd p))) \<le> processes_per_user lim"
    "(\<Sum>p \<leftarrow> sessions_of u (mgr st). length (watches (snd p))) \<le> watches_per_user lim"
    using guest by (simp_all flip: guest_of_user)
  have boxes: "(\<Sum>p \<leftarrow> sessions (mgr st). session_leases (snd p)) \<le> sandboxes_global lim"
    using slots(1) by (simp add: all_slots_def size_over_sessions)
  have one: "session_leases s \<le> sandboxes_per_connection lim
      \<and> length (filter (\<lambda>(_, p). process_sandbox (process_resource p) = sb) (processes s)) \<le> processes_per_sandbox lim
      \<and> length (filter (\<lambda>(_, w). watch_sandbox (watch_resource w) = sb) (watches s)) \<le> watches_per_sandbox lim"
    if "map_of (sessions (mgr st)) sid = Some s"
    using slots_of_session [OF that] slots(3) [of sid] guest_of_sandbox [OF that, of sb] guest
    by (metis (no_types, lifting) order_trans)
  show ?thesis
    using conn boxes order_trans [OF slots_of_user slots(2)] guest user one by blast
qed

theorem sessions_within_limits_witness:
  "(\<Sum>p \<leftarrow> sessions (mgr demo_box). session_leases (snd p)) = 1
    \<and> (\<Sum>p \<leftarrow> sessions (mgr demo_box). session_leases (snd p)) \<le> sandboxes_global default_limits
    \<and> length (sessions_of [7] (mgr demo_box)) \<le> connections_per_user default_limits"
proof -
  have "(\<Sum>p \<leftarrow> sessions (mgr demo_box). session_leases (snd p)) = 1"
    by (simp add: demo_box_eq session_leases_def new_session_def)
  with sessions_within_limits [OF demo_reachable(2), of "[7]"] show ?thesis by blast
qed

text \<open>C6: While the service is sealed for an update or an activation is pending, no session holds a
  sandbox, a test resource, a guest process or a watch, no slot is in the hands of \<^verbatim>\<open>stop_managed_vm\<close>, and no
  closing session still has one. A VM whose reservation was given up while it was still starting may come up
  then, but in no one's hands: its start fails, and it is stopped there and then.\<close>
theorem sealed_means_idle:
  assumes "service_reachable lim b st"
    and "admission_state (admissions (mgr st)) \<in> {UpdateSealed, ActivationPending}"
  shows "(\<forall>(sid, s) \<in> set (sessions (mgr st)).
            test_resources s = [] \<and> sandboxes s = [] \<and> processes s = [] \<and> watches s = [])
    \<and> stopping st = {#} \<and> (\<forall>s \<in># closing st. test_resources s = [] \<and> sandboxes s = [])
    \<and> (\<exists>e. start_reserved_finish sid ident h (Ok v) (mgr st) = (mgr st, Err e, Some v))"
proof -
  note inv = service_safety.reachable_inv [OF assms(1)]
  have "leases st = 0" using service_invD(4,5) [OF inv] assms(2) by (auto simp: admission_inv_def)
  then have slots: "over_sessions session_slots (mgr st) = {#}" and "stopping st = {#}"
    and "\<forall>s \<in># closing st. session_leases s = 0"
    by (simp_all add: leases_def all_slots_def stopping_slots_def)
  moreover have idle: "test_resources s = [] \<and> sandboxes s = [] \<and> processes s = [] \<and> watches s = []"
    if "(sid, s) \<in> set (sessions (mgr st))" for sid s
  proof -
    from that have look: "map_of (sessions (mgr st)) sid = Some s"
      using service_invD(1) [OF inv] by (simp add: map_of_is_SomeI)
    have "session_leases s = 0"
      using size_mset_mono [OF member_over_sessions [OF look, of session_slots]] slots by simp
    then have "test_resources s = []" and none: "sandboxes s = []" by (simp_all add: session_leases_def)
    with session_ok_idle [OF service_invD(8) [OF inv look] none] show ?thesis by simp
  qed
  moreover have "\<exists>e. start_reserved_finish sid ident h (Ok v) (mgr st) = (mgr st, Err e, Some v)"
  proof (cases "map_of (sessions (mgr st)) sid")
    case (Some s)
    then have "sandboxes s = []" using idle map_of_SomeD by metis
    with Some show ?thesis by (simp add: start_reserved_finish_def reserved_def)
  qed (simp add: start_reserved_finish_def)
  ultimately show ?thesis by (auto simp: session_leases_def)
qed

theorem sealed_means_idle_witness:
  "admission_state (admissions (mgr demo_late)) = UpdateSealed
    \<and> starting demo_late = {#(demo_session, demo_client, demo_handle)#} \<and> stopping demo_late = {#}
    \<and> (\<exists>e. start_reserved_finish demo_session demo_client demo_handle (Ok 3) (mgr demo_late)
         = (mgr demo_late, Err e, Some 3))
    \<and> admission_state (admissions (mgr demo_sealed)) = UpdateSealed \<and> sessions (mgr demo_sealed) \<noteq> []
    \<and> list_all (\<lambda>p. sandboxes (snd p) = []) (sessions (mgr demo_sealed))"
proof -
  have late: "admission_state (admissions (mgr demo_late)) = UpdateSealed"
    "starting demo_late = {#(demo_session, demo_client, demo_handle)#}"
    by (simp_all add: demo_late_def demo_starting_def Let_def)
  have sealed: "admission_state (admissions (mgr demo_sealed)) = UpdateSealed" "sessions (mgr demo_sealed) \<noteq> []"
    by (simp_all add: demo_sealed_def demo_open_eq)
  with sealed_means_idle [OF demo_reachable(3)] have "\<forall>p \<in> set (sessions (mgr demo_sealed)). sandboxes (snd p) = []"
    by fastforce
  moreover have "stopping demo_late = {#} \<and> (\<exists>e. start_reserved_finish demo_session demo_client demo_handle (Ok 3) (mgr demo_late)
         = (mgr demo_late, Err e, Some 3))"
    using sealed_means_idle [OF demo_late_reachable] late by blast
  ultimately show ?thesis using late sealed by (simp add: list_all_iff)
qed

text \<open>A start in progress holds no lease of its own: when its session is closed meanwhile, the service can be
  sealed with the VM still coming up.\<close>

theorem sealed_while_vm_starts:
  "\<exists>st. service_reachable default_limits True st \<and> admission_state (admissions (mgr st)) = UpdateSealed
     \<and> starting st \<noteq> {#}"
  using demo_late_reachable by (intro exI [of _ demo_late]) (simp add: demo_late_def demo_starting_def Let_def)

text \<open>C12: When every session is gone and every stopping thread has finished, the book holds no sandbox,
  process or watch for anyone, whether counted in total, by user, by connection or by sandbox, and no CPU,
  memory or disk; when the closing sessions have been torn down and the leases dropped, no use is counted.
  (Only the count of connections can stay up, after an \<^verbatim>\<open>open\<close> that found no handle.)\<close>
theorem closing_gives_everything_back:
  assumes "service_reachable lim b st" and "sessions (mgr st) = []" and "stopping st = {#}"
  shows "let q = quotas (mgr st) in
      sandboxes_total q = 0 \<and> count_of (sandboxes_by_user q) u = 0 \<and> count_of (sandboxes_by_connection q) c = 0
    \<and> sandbox_resources q = Map.empty
    \<and> cpus q = 0 \<and> memory_mib q = 0 \<and> disk_mib q = 0
    \<and> count_of (cpus_by_user q) u = 0 \<and> count_of (memory_mib_by_user q) u = 0 \<and> count_of (disk_mib_by_user q) u = 0
    \<and> processes_total q = 0 \<and> count_of (processes_by_user q) u = 0 \<and> count_of (processes_by_sandbox q) sb = 0
    \<and> watches_total q = 0 \<and> count_of (watches_by_user q) u = 0 \<and> count_of (watches_by_sandbox q) sb = 0
    \<and> (closing st = {#} \<and> loose st = 0 \<longrightarrow> active_use_count (admissions (mgr st)) = 0)"
proof -
  note inv = service_safety.reachable_inv [OF assms(1)]
  have none: "over_sessions f (mgr st) = {#}" for f :: "_ \<Rightarrow> 'z multiset"
    using assms(2) by (simp add: over_sessions_def)
  have "all_slots st = {#}" using assms(3) by (simp add: all_slots_def none stopping_slots_def)
  moreover obtain L where "book_ok (quotas (mgr st)) L" "held_ok st L" by (rule reachable_ledger [OF assms(1)])
  ultimately have "boxes_ok (quotas (mgr st)) {#}"
    "scoped_ok (processes_total (quotas (mgr st))) (processes_by_user (quotas (mgr st))) (processes_by_sandbox (quotas (mgr st))) {#}"
    "scoped_ok (watches_total (quotas (mgr st))) (watches_by_user (quotas (mgr st))) (watches_by_sandbox (quotas (mgr st))) {#}"
    by (auto simp: book_ok_def held_ok_def none)
  moreover have "unat (active_use_count (admissions (mgr st))) = 0" if "closing st = {#}" "loose st = 0"
    using service_invD(5) [OF inv] that \<open>all_slots st = {#}\<close> by (simp add: leases_def)
  ultimately show ?thesis
    by (auto simp: Let_def boxes_ok_def scoped_ok_def unat_eq_zero)
qed

theorem closing_gives_everything_back_witness:
  "sandboxes_total (quotas (mgr demo_closed)) = 0 \<and> cpus (quotas (mgr demo_closed)) = 0
    \<and> memory_mib (quotas (mgr demo_closed)) = 0"
proof -
  have "sessions (mgr demo_closed) = []" "stopping demo_closed = {#}" using demo_detach by blast+
  from closing_gives_everything_back [OF demo_reachable(4) this] show ?thesis by (simp add: Let_def)
qed

text \<open>C7: A step done for one client changes no session of another client and opens none for them: the
  sessions of the other identities are the same before and after it, with everything they hold.\<close>
theorem clients_are_isolated:
  assumes "service_step (Some ident) st st'" and "identity s \<noteq> ident"
  shows "map_of (sessions (mgr st')) sid = Some s \<longleftrightarrow> map_of (sessions (mgr st)) sid = Some s"
  using service_step_confined [OF assms(1)] assms(2) by (auto simp: confined_def foreign_def)

theorem clients_are_isolated_witness:
  "map_of (sessions (fst (open_session (demo_client\<lparr>user_sid := [9]\<rparr>) (\<lambda>_. Some (replicate 16 3)) (mgr demo_box)))) demo_session
     = map_of (sessions (mgr demo_box)) demo_session"
proof -
  let ?other = "demo_client\<lparr>user_sid := [9]\<rparr>" and ?s = "(new_session demo_client)\<lparr>sandboxes := [(replicate 16 2, \<lparr>vm = None\<rparr>)]\<rparr>"
  have step: "service_step (Some ?other) demo_box
      (demo_box\<lparr>mgr := fst (open_session ?other (\<lambda>_. Some (replicate 16 3)) (mgr demo_box))\<rparr>)"
    by (rule open_step [OF surjective_pairing])
  have "identity ?s \<noteq> ?other" by (simp add: new_session_def demo_client_def)
  from clients_are_isolated [OF step this, of demo_session] show ?thesis by (simp add: demo_box_eq)
qed

text \<open>C36: A client whose session handle cannot be drawn is refused, no session is opened, and its
  connection stays counted: the reservation made first is not undone.\<close>
theorem refused_session_keeps_connection:
  assumes "reserve_connection ident (quotas m) = Ok q" and "unique_handle rnd (sessions m) = Err e"
    and "open_session ident rnd m = (m', res)"
  shows "res = Err e \<and> sessions m' = sessions m \<and> connections (quotas m') = connections (quotas m) + 1
    \<and> count_of (connections_by_user (quotas m')) (user_sid ident) = count_of (connections_by_user (quotas m)) (user_sid ident) + 1"
  using assms by (auto simp: open_session_def reserve_connection_def count_of_increment Let_def split: if_splits)

theorem refused_session_keeps_connection_witness:
  "\<exists>m'. open_session demo_client (\<lambda>_. None) (manager_new default_limits (admission_new True)) = (m', Err (Handle_Error GenerateHandle))
    \<and> sessions m' = [] \<and> connections (quotas m') = 1"
proof -
  let ?m = "manager_new default_limits (admission_new True)"
  obtain q where "reserve_connection demo_client (quotas ?m) = Ok q"
    by (simp add: reserve_connection_def manager_new_def quota_new_def default_limits_def count_of_def)
  moreover have "unique_handle (\<lambda>_. None) (sessions ?m) = Err (Handle_Error GenerateHandle)"
    by (simp add: unique_handle_def eval_nat_numeral handle_random_def)
  moreover obtain m' res where "open_session demo_client (\<lambda>_. None) ?m = (m', res)" by (cases "open_session demo_client (\<lambda>_. None) ?m")
  ultimately show ?thesis
    using refused_session_keeps_connection [of demo_client ?m q "\<lambda>_. None" "Handle_Error GenerateHandle" m' res]
    by (simp add: manager_new_def quota_new_def)
qed

end
