(* ===== verification/Service_Message.thy ===== *)
theory Service_Message
  imports Service_Proto
begin

text \<open>
  The control messages of the service protocol, \<^verbatim>\<open>crates/lsb-service-proto/src/message.rs\<close>, and
  their validation: the service runs \<^verbatim>\<open>parse_control\<close> and then \<^verbatim>\<open>validate\<close> on everything a client
  sends before it acts on it. The JSON decoder of a message type and the semver crate are
  parameters. A \<^verbatim>\<open>BTreeMap\<close> is the list of its entries in key order.
\<close>

section \<open>Parsing control payloads\<close>

record depth_state =
  depth :: nat
  in_string :: bool
  escaped :: bool

definition depth_step :: "depth_state \<Rightarrow> byte \<Rightarrow> (depth_state, ProtocolError) result" where
  "depth_step st b =
     (if in_string st
      then Ok (if escaped st then st\<lparr>escaped := False\<rparr>
               else if b = 92 then st\<lparr>escaped := True\<rparr>
               else if b = 34 then st\<lparr>in_string := False\<rparr>
               else st)
      else if b = 34 then Ok (st\<lparr>in_string := True\<rparr>)
      else if b = 123 \<or> b = 91
      then (if depth st + 1 > MAX_JSON_DEPTH then Err JsonTooDeep else Ok (st\<lparr>depth := depth st + 1\<rparr>))
      else if b = 125 \<or> b = 93 then Ok (st\<lparr>depth := depth st - 1\<rparr>)
      else Ok st)"

fun depth_loop :: "depth_state \<Rightarrow> bytes \<Rightarrow> (depth_state, ProtocolError) result" where
  "depth_loop st [] = Ok st"
| "depth_loop st (b # bs) = and_then (depth_step st b) (\<lambda>st. depth_loop st bs)"

definition validate_json_depth :: "bytes \<Rightarrow> (unit, ProtocolError) result" where
  "validate_json_depth json =
     and_then (depth_loop \<lparr>depth = 0, in_string = False, escaped = False\<rparr> json) (\<lambda>_. Ok ())"

definition parse_control :: "(bytes \<Rightarrow> 'a option) \<Rightarrow> bytes \<Rightarrow> ('a, ProtocolError) result" where
  "parse_control from_str p =
     (if length p > MAX_CONTROL_PAYLOAD then Err MessageTooLarge
      else if \<not> utf8_valid p then Err InvalidUtf8
      else and_then (validate_json_depth p) (\<lambda>_.
        case from_str p of None \<Rightarrow> Err InvalidJson | Some v \<Rightarrow> Ok v))"

section \<open>Validation of strings and identifiers\<close>

text \<open>A \<^verbatim>\<open>for\<close> loop whose body ends with \<^verbatim>\<open>?\<close>.\<close>

fun for_each :: "('a \<Rightarrow> (unit, 'e) result) \<Rightarrow> 'a list \<Rightarrow> (unit, 'e) result" where
  "for_each f [] = Ok ()"
| "for_each f (x # xs) = and_then (f x) (\<lambda>_. for_each f xs)"

lemma for_each_Ok [simp]: "for_each f xs = Ok () \<longleftrightarrow> (\<forall>x \<in> set xs. f x = Ok ())"
  by (induction xs) (auto simp: and_then_Ok_iff)

definition validate_string :: "bytes \<Rightarrow> (unit, ProtocolError) result" where
  "validate_string v = (if length v > MAX_STRING_LEN then Err MessageTooLarge else Ok ())"

definition is_ascii_alphabetic :: "byte \<Rightarrow> bool" where
  "is_ascii_alphabetic b \<longleftrightarrow> in_range 65 90 b \<or> in_range 97 122 b"

definition is_ascii_alphanumeric :: "byte \<Rightarrow> bool" where
  "is_ascii_alphanumeric b \<longleftrightarrow> is_ascii_alphabetic b \<or> in_range 48 57 b"

fun valid_environment_name :: "bytes \<Rightarrow> bool" where
  "valid_environment_name [] = False"
| "valid_environment_name (b # bs) \<longleftrightarrow>
     (is_ascii_alphabetic b \<or> b = 95) \<and> list_all (\<lambda>c. is_ascii_alphanumeric c \<or> c = 95) bs"

definition validate_legacy_start_hint :: "bytes \<Rightarrow> (unit, ProtocolError) result" where
  "validate_legacy_start_hint v =
     and_then (validate_string v) (\<lambda>_.
       if v = [] \<or> length v > 128 \<or> list_ex is_control (utf8_chars v) \<or> str_trim v \<noteq> utf8_chars v
       then Err InvalidJson else Ok ())"

definition validate_resource_id :: "bytes \<Rightarrow> (unit, ProtocolError) result" where
  "validate_resource_id v = (if \<not> is_lower_hex v 32 then Err InvalidJson else Ok ())"

definition validate_sha256 :: "bytes \<Rightarrow> (unit, ProtocolError) result" where
  "validate_sha256 v = (if \<not> is_lower_hex v 64 then Err InvalidJson else Ok ())"

definition validate_guest_path :: "bytes \<Rightarrow> (unit, ProtocolError) result" where
  "validate_guest_path v =
     and_then (validate_string v) (\<lambda>_.
       if \<not> starts_with v [47] \<or> 92 \<in> set v \<or> 0 \<in> set v
          \<or> (length v > 1 \<and> ends_with v [47])
          \<or> list_ex (\<lambda>part. part = [46] \<or> part = [46, 46]) (split_on 47 v)
          \<or> contains_bytes [47, 47] v
       then Err InvalidJson else Ok ())"

definition validate_mount_subtree_name :: "bytes \<Rightarrow> (unit, ProtocolError) result" where
  "validate_mount_subtree_name v =
     and_then (validate_string v) (\<lambda>_.
       if v = [] \<or> v = [46] \<or> v = [46, 46] \<or> list_ex is_control (utf8_chars v)
          \<or> 47 \<in> set v \<or> 92 \<in> set v \<or> 0 \<in> set v
       then Err InvalidJson else Ok ())"

section \<open>Messages\<close>

record LedgerCompatibility =
  reader_min_schema :: u32
  reader_max_schema :: u32
  writer_schema :: u32

record BundleIdentity =
  bundle_version :: bytes
  bundle_manifest_sha256 :: bytes
  archive_sha256 :: bytes
  bundle_protocol :: ProtocolRange
  ledger :: LedgerCompatibility
  service_configuration_revision :: u32

text \<open>What is used of the semver crate: parsing, printing, and the build metadata of a version.\<close>

record 'v semver =
  semver_parse :: "bytes \<Rightarrow> 'v option"
  semver_to_string :: "'v \<Rightarrow> bytes"
  semver_build :: "'v \<Rightarrow> bytes"

definition validate_bundle :: "'v semver \<Rightarrow> BundleIdentity \<Rightarrow> (unit, ProtocolError) result" where
  "validate_bundle sv b =
     and_then (validate_string (bundle_version b)) (\<lambda>_.
     case semver_parse sv (bundle_version b) of
       None \<Rightarrow> Err InvalidJson
     | Some ver \<Rightarrow>
         if semver_to_string sv ver \<noteq> bundle_version b \<or> semver_build sv ver \<noteq> [] then Err InvalidJson
         else
           and_then (validate_sha256 (bundle_manifest_sha256 b)) (\<lambda>_.
           and_then (validate_sha256 (archive_sha256 b)) (\<lambda>_.
           and_then (validate_range (bundle_protocol b)) (\<lambda>_.
             if reader_min_schema (ledger b) = 0
                \<or> reader_min_schema (ledger b) > reader_max_schema (ledger b)
                \<or> writer_schema (ledger b) = 0 \<or> service_configuration_revision b = 0
             then Err InvalidJson else Ok ()))))"

record Hello =
  hello_min_minor :: u16
  hello_max_minor :: u16
  client_version :: bytes
  feature_bits_hex :: u64

definition hello_range :: "Hello \<Rightarrow> u16 \<Rightarrow> ProtocolRange" where
  "hello_range h major = \<lparr>r_major = major, min_minor = hello_min_minor h, max_minor = hello_max_minor h\<rparr>"

definition validate_hello :: "Hello \<Rightarrow> (unit, ProtocolError) result" where
  "validate_hello h =
     and_then (validate_range (hello_range h 1)) (\<lambda>_. validate_string (client_version h))"

record WindowUpdate =
  stream_id :: bytes
  credit_bytes :: u32

definition validate_window_update :: "WindowUpdate \<Rightarrow> (unit, ProtocolError) result" where
  "validate_window_update w =
     and_then (validate_resource_id (stream_id w)) (\<lambda>_.
       if \<not> (1 \<le> credit_bytes w \<and> credit_bytes w \<le> 4 * 1024 * 1024) then Err InvalidJson else Ok ())"

datatype WatchChange = Created | Modified | Removed | Renamed | Overflow

datatype Event =
    ProcessExited bytes "32 word"
  | WatchChanged bytes bytes WatchChange
  | StreamClosed bytes

fun validate_event :: "Event \<Rightarrow> (unit, ProtocolError) result" where
  "validate_event (ProcessExited process_id code) = validate_resource_id process_id"
| "validate_event (WatchChanged watch_id path change) =
     and_then (validate_resource_id watch_id) (\<lambda>_. validate_guest_path path)"
| "validate_event (StreamClosed sid) = validate_resource_id sid"

record ServiceMountSpec =
  host_path :: bytes
  guest_path :: bytes
  read_only :: bool
  prune_subtrees :: "bytes list option"

record ServicePortSpec =
  port_guest :: u16
  port_host :: "u16 option"

record ServiceExposeHostSpec =
  expose_host_port :: u16
  expose_guest_port :: u16

record ServiceSecretSpec =
  secret_value :: bytes
  secret_hosts :: "bytes list"

record ServiceHostScope =
  scope_allow :: "bytes list option"
  scope_deny :: "bytes list option"

record ServiceRequestHeaderSpec =
  header_name :: bytes
  header_value :: bytes
  header_hosts :: ServiceHostScope

record ServiceHttpsInterceptionSpec =
  enabled :: bool
  request_headers :: "ServiceRequestHeaderSpec list"

record ServiceNetworkSpec =
  allowed_hosts :: "bytes list"
  secrets :: "(bytes \<times> ServiceSecretSpec) list"
  https_interception :: "ServiceHttpsInterceptionSpec option"
  expose_host :: "ServiceExposeHostSpec list"

datatype ServiceCommand = Argv "bytes list" | Shell bytes

record StartSandbox =
  client_instance_id :: "bytes option"
  start_from :: "bytes option"
  start_cpus :: u16
  start_memory_mib :: u32
  start_disk_mib :: u32
  mounts :: "ServiceMountSpec list"
  ports :: "ServicePortSpec list"
  network :: "ServiceNetworkSpec option"

datatype RequestOp =
    GetServiceInfo
  | HealthCheck
  | StartSandboxOp StartSandbox
  | StopSandbox bytes
  | UpdateSandboxNetworkInterception bytes "(bytes \<times> ServiceSecretSpec) list" ServiceHttpsInterceptionSpec
  | ExecOp bytes ServiceCommand "bytes option" "(bytes \<times> bytes) list"
  | SpawnOp bytes ServiceCommand "bytes option" "(bytes \<times> bytes) list"
  | KillProcess bytes
  | WatchOp bytes bytes bool
  | StopWatch bytes
  | Mkdir bytes bytes bool
  | ReadDir bytes bytes
  | Stat bytes bytes
  | Remove bytes bytes bool
  | Rename bytes bytes bytes
  | Copy bytes bytes bytes bool
  | Chmod bytes bytes u32
  | Exists bytes bytes
  | ReadFile bytes bytes
  | WriteFile bytes bytes bytes u32
  | PrepareUpdate "BundleIdentity option" "bytes option" "ProtocolRange option"
  | GetUpdateStatus
  | CheckForUpdate
  | CommitUpdate bytes
  | AbortUpdate bytes
  | PrepareUninstall
  | CloseSession

record Request =
  deadline_ms :: "u32 option"
  request_op :: RequestOp

definition FEATURE_NETWORK_EGRESS :: u64 where "FEATURE_NETWORK_EGRESS = push_bit 0 1"
definition FEATURE_NETWORK_SECRETS :: u64 where "FEATURE_NETWORK_SECRETS = push_bit 1 1"
definition FEATURE_HTTPS_INTERCEPTION :: u64 where "FEATURE_HTTPS_INTERCEPTION = push_bit 2 1"
definition FEATURE_EXPOSE_HOST_RELAY :: u64 where "FEATURE_EXPOSE_HOST_RELAY = push_bit 3 1"

definition required_feature_bits :: "ServiceNetworkSpec \<Rightarrow> u64" where
  "required_feature_bits n =
     (let required = FEATURE_NETWORK_EGRESS;
          required = (if secrets n \<noteq> [] then or required FEATURE_NETWORK_SECRETS else required);
          required = (if https_interception n \<noteq> None then or required FEATURE_HTTPS_INTERCEPTION else required)
      in if expose_host n \<noteq> [] then or required FEATURE_EXPOSE_HOST_RELAY else required)"

section \<open>Validation of requests\<close>

definition validate_host_patterns :: "bytes list \<Rightarrow> (unit, ProtocolError) result" where
  "validate_host_patterns patterns =
     (if patterns = [] \<or> length patterns > 64 then Err InvalidJson
      else for_each validate_string patterns)"

definition validate_host_scope :: "ServiceHostScope \<Rightarrow> (unit, ProtocolError) result" where
  "validate_host_scope scope =
     for_each validate_host_patterns (List.map_filter id [scope_allow scope, scope_deny scope])"

fun validate_secret :: "bytes \<times> ServiceSecretSpec \<Rightarrow> (unit, ProtocolError) result" where
  "validate_secret (name, secret) =
     and_then (validate_string name) (\<lambda>_.
     and_then (validate_string (secret_value secret)) (\<lambda>_.
       if \<not> valid_environment_name name \<or> secret_value secret = [] \<or> secret_hosts secret = []
          \<or> length (secret_hosts secret) > 64
       then Err InvalidJson
       else for_each validate_string (secret_hosts secret)))"

definition validate_request_header :: "ServiceRequestHeaderSpec \<Rightarrow> (unit, ProtocolError) result" where
  "validate_request_header h =
     and_then (validate_string (header_name h)) (\<lambda>_.
     and_then (validate_string (header_value h)) (\<lambda>_.
       validate_host_scope (header_hosts h)))"

definition validate_interception_update ::
    "(bytes \<times> ServiceSecretSpec) list \<Rightarrow> ServiceHttpsInterceptionSpec \<Rightarrow> (unit, ProtocolError) result" where
  "validate_interception_update ss interception =
     (if length ss > 64 \<or> length (request_headers interception) > 64 then Err InvalidJson
      else and_then (for_each validate_secret ss) (\<lambda>_.
        for_each validate_request_header (request_headers interception)))"

definition validate_mount :: "ServiceMountSpec \<Rightarrow> (unit, ProtocolError) result" where
  "validate_mount mnt =
     and_then (validate_string (host_path mnt)) (\<lambda>_.
     and_then (validate_string (guest_path mnt)) (\<lambda>_.
       case prune_subtrees mnt of
         None \<Rightarrow> Ok ()
       | Some names \<Rightarrow>
           if length names > 32 then Err InvalidJson
           else for_each validate_mount_subtree_name names))"

text \<open>The loops over ports carry the set of the ports already seen.\<close>

fun validate_ports :: "u16 set \<Rightarrow> ServicePortSpec list \<Rightarrow> (unit, ProtocolError) result" where
  "validate_ports host_ports [] = Ok ()"
| "validate_ports host_ports (p # ps) =
     (if port_guest p = 0 then Err InvalidJson
      else case port_host p of
        None \<Rightarrow> Err InvalidJson
      | Some hp \<Rightarrow>
          if hp \<in> host_ports then Err InvalidJson
          else validate_ports (insert hp host_ports) ps)"

fun validate_exposed :: "u16 set \<Rightarrow> ServiceExposeHostSpec list \<Rightarrow> (unit, ProtocolError) result" where
  "validate_exposed guest_ports [] = Ok ()"
| "validate_exposed guest_ports (e # es) =
     (if expose_host_port e = 0 \<or> expose_guest_port e = 0 \<or> expose_guest_port e \<in> guest_ports
      then Err InvalidJson
      else validate_exposed (insert (expose_guest_port e) guest_ports) es)"

definition validate_network :: "nat \<Rightarrow> ServiceNetworkSpec \<Rightarrow> (unit, ProtocolError) result" where
  "validate_network port_count n =
     (if port_count + length (expose_host n) > 32 then Err InvalidJson
      else if length (allowed_hosts n) > 256 then Err InvalidJson
      else and_then (for_each validate_string (allowed_hosts n)) (\<lambda>_.
        if length (secrets n) > 64 then Err InvalidJson
        else and_then (for_each validate_secret (secrets n)) (\<lambda>_.
        and_then
          (case https_interception n of
             None \<Rightarrow> Ok ()
           | Some interception \<Rightarrow>
               if length (request_headers interception) > 64 then Err InvalidJson
               else for_each validate_request_header (request_headers interception)) (\<lambda>_.
          validate_exposed {} (expose_host n)))))"

definition validate_optional :: "('a \<Rightarrow> (unit, 'e) result) \<Rightarrow> 'a option \<Rightarrow> (unit, 'e) result" where
  "validate_optional f x = (case x of None \<Rightarrow> Ok () | Some v \<Rightarrow> f v)"

definition validate_start :: "StartSandbox \<Rightarrow> (unit, ProtocolError) result" where
  "validate_start st =
     and_then (validate_optional validate_legacy_start_hint (client_instance_id st)) (\<lambda>_.
     and_then (validate_optional validate_legacy_start_hint (start_from st)) (\<lambda>_.
       if \<not> (1 \<le> start_cpus st \<and> start_cpus st \<le> 8)
          \<or> \<not> (512 \<le> start_memory_mib st \<and> start_memory_mib st \<le> 8 * 1024)
          \<or> \<not> (1024 \<le> start_disk_mib st \<and> start_disk_mib st \<le> 32 * 1024)
          \<or> length (mounts st) > 32 \<or> length (ports st) > 32
       then Err InvalidJson
       else and_then (for_each validate_mount (mounts st)) (\<lambda>_.
         and_then (validate_ports {} (ports st)) (\<lambda>_.
           validate_optional (validate_network (length (ports st))) (network st)))))"

text \<open>
  \<^verbatim>\<open>usize::checked_add\<close> on lengths of strings held in memory cannot overflow: a Rust allocation is
  below \<open>2 ^ 63\<close> bytes, and the loops run over at most 256 strings of at most 32 KiB.
\<close>

fun argv_total :: "nat \<Rightarrow> bytes list \<Rightarrow> (nat, ProtocolError) result" where
  "argv_total sum_len [] = Ok sum_len"
| "argv_total sum_len (a # as) =
     and_then (validate_string a) (\<lambda>_. argv_total (sum_len + length a) as)"

fun validate_command :: "ServiceCommand \<Rightarrow> (unit, ProtocolError) result" where
  "validate_command (Argv argv) =
     (if argv = [] \<or> length argv > 256 then Err InvalidJson
      else and_then (argv_total 0 argv) (\<lambda>sum_len.
        if sum_len > 64 * 1024 then Err MessageTooLarge else Ok ()))"
| "validate_command (Shell shell) =
     and_then (validate_string shell) (\<lambda>_.
       if shell = [] \<or> length shell > 64 * 1024 then Err InvalidJson else Ok ())"

fun env_total :: "nat \<Rightarrow> (bytes \<times> bytes) list \<Rightarrow> (nat, ProtocolError) result" where
  "env_total env_bytes [] = Ok env_bytes"
| "env_total env_bytes ((k, v) # env) =
     and_then (validate_string k) (\<lambda>_.
     and_then (validate_string v) (\<lambda>_.
       if k = [] \<or> 61 \<in> set k \<or> 0 \<in> set k then Err InvalidJson
       else env_total (env_bytes + length k + length v) env))"

definition validate_exec ::
    "bytes \<Rightarrow> ServiceCommand \<Rightarrow> bytes option \<Rightarrow> (bytes \<times> bytes) list \<Rightarrow> (unit, ProtocolError) result" where
  "validate_exec sandbox_id command cwd env =
     and_then (validate_resource_id sandbox_id) (\<lambda>_.
     and_then (validate_command command) (\<lambda>_.
     and_then (validate_optional validate_guest_path cwd) (\<lambda>_.
       if length env > 256 then Err InvalidJson
       else and_then (env_total 0 env) (\<lambda>env_bytes.
         if env_bytes > 128 * 1024 then Err MessageTooLarge else Ok ()))))"

fun validate_prepare_update ::
    "'v semver \<Rightarrow> BundleIdentity option \<Rightarrow> bytes option \<Rightarrow> ProtocolRange option \<Rightarrow> (unit, ProtocolError) result" where
  "validate_prepare_update sv (Some target) None None = validate_bundle sv target"
| "validate_prepare_update sv None (Some bundle) (Some rng) =
     and_then (validate_string bundle) (\<lambda>_.
       if bundle = [] \<or> length bundle > 128 then Err InvalidJson
       else and_then (validate_range rng) (\<lambda>_. Ok ()))"
| "validate_prepare_update sv _ _ _ = Err InvalidJson"

definition validate_at :: "bytes \<Rightarrow> bytes \<Rightarrow> (unit, ProtocolError) result" where
  "validate_at sandbox_id path =
     and_then (validate_resource_id sandbox_id) (\<lambda>_. validate_guest_path path)"

fun validate_op :: "'v semver \<Rightarrow> RequestOp \<Rightarrow> (unit, ProtocolError) result" where
  "validate_op sv (PrepareUpdate target bundle rng) = validate_prepare_update sv target bundle rng"
| "validate_op sv (CommitUpdate update_id) = validate_resource_id update_id"
| "validate_op sv (AbortUpdate update_id) = validate_resource_id update_id"
| "validate_op sv (StartSandboxOp st) = validate_start st"
| "validate_op sv (StopSandbox sandbox_id) = validate_resource_id sandbox_id"
| "validate_op sv (UpdateSandboxNetworkInterception sandbox_id ss interception) =
     and_then (validate_resource_id sandbox_id) (\<lambda>_. validate_interception_update ss interception)"
| "validate_op sv (ExecOp sandbox_id command cwd env) = validate_exec sandbox_id command cwd env"
| "validate_op sv (SpawnOp sandbox_id command cwd env) = validate_exec sandbox_id command cwd env"
| "validate_op sv (KillProcess process_id) = validate_resource_id process_id"
| "validate_op sv (WatchOp sandbox_id path rec) = validate_at sandbox_id path"
| "validate_op sv (StopWatch watch_id) = validate_resource_id watch_id"
| "validate_op sv (Mkdir sandbox_id path rec) = validate_at sandbox_id path"
| "validate_op sv (ReadDir sandbox_id path) = validate_at sandbox_id path"
| "validate_op sv (Stat sandbox_id path) = validate_at sandbox_id path"
| "validate_op sv (Remove sandbox_id path rec) = validate_at sandbox_id path"
| "validate_op sv (Exists sandbox_id path) = validate_at sandbox_id path"
| "validate_op sv (ReadFile sandbox_id path) = validate_at sandbox_id path"
| "validate_op sv (WriteFile sandbox_id path sid len) =
     and_then (validate_at sandbox_id path) (\<lambda>_.
     and_then (validate_resource_id sid) (\<lambda>_.
       if unat len > MAX_FILE_TRANSFER_BYTES then Err MessageTooLarge else Ok ()))"
| "validate_op sv (Rename sandbox_id old_path new_path) =
     and_then (validate_at sandbox_id old_path) (\<lambda>_. validate_guest_path new_path)"
| "validate_op sv (Copy sandbox_id source dst rec) =
     and_then (validate_at sandbox_id source) (\<lambda>_. validate_guest_path dst)"
| "validate_op sv (Chmod sandbox_id path mode) =
     and_then (validate_at sandbox_id path) (\<lambda>_. if mode > 4095 then Err InvalidJson else Ok ())"
| "validate_op sv GetServiceInfo = Ok ()"
| "validate_op sv HealthCheck = Ok ()"
| "validate_op sv GetUpdateStatus = Ok ()"
| "validate_op sv CheckForUpdate = Ok ()"
| "validate_op sv CloseSession = Ok ()"
| "validate_op sv PrepareUninstall = Ok ()"

definition validate_request :: "'v semver \<Rightarrow> Request \<Rightarrow> (unit, ProtocolError) result" where
  "validate_request sv r =
     (if (case deadline_ms r of None \<Rightarrow> False | Some v \<Rightarrow> \<not> (1 \<le> v \<and> v \<le> 60000)) then Err InvalidJson
      else validate_op sv (request_op r))"

section \<open>Nesting depth of a JSON text\<close>

text \<open>
  What the scan of \<^const>\<open>validate_json_depth\<close> is for: JSON values, how they are printed, and
  how deeply their arrays and objects nest. A scalar is the text of a number or a literal; the
  white space between tokens can be part of it.
\<close>

datatype json =
    Scalar bytes
  | Quoted bytes
  | Array "json list"
  | Object "(bytes \<times> json) list"

definition quote :: "bytes \<Rightarrow> bytes" where
  "quote s = 34 # concat (map (\<lambda>b. if b = 34 \<or> b = 92 then [92, b] else [b]) s) @ [34]"

fun json_depth :: "json \<Rightarrow> nat" where
  "json_depth (Scalar s) = 0"
| "json_depth (Quoted s) = 0"
| "json_depth (Array js) = Suc (foldr max (map json_depth js) 0)"
| "json_depth (Object kjs) = Suc (foldr max (map (\<lambda>(k, j). json_depth j) kjs) 0)"

fun print_json :: "json \<Rightarrow> bytes" where
  "print_json (Scalar s) = s"
| "print_json (Quoted s) = quote s"
| "print_json (Array js) = 91 # join_with 44 (map print_json js) @ [93]"
| "print_json (Object kjs) = 123 # join_with 44 (map (\<lambda>(k, j). quote k @ 58 # print_json j) kjs) @ [125]"

definition structural :: "byte \<Rightarrow> bool" where
  "structural b \<longleftrightarrow> b = 34 \<or> b = 91 \<or> b = 93 \<or> b = 123 \<or> b = 125"

fun scalars_plain :: "json \<Rightarrow> bool" where
  "scalars_plain (Scalar s) \<longleftrightarrow> \<not> list_ex structural s"
| "scalars_plain (Quoted s) \<longleftrightarrow> True"
| "scalars_plain (Array js) \<longleftrightarrow> list_all scalars_plain js"
| "scalars_plain (Object kjs) \<longleftrightarrow> list_all (\<lambda>(k, j). scalars_plain j) kjs"

abbreviation scanning :: "nat \<Rightarrow> depth_state" where
  "scanning d \<equiv> \<lparr>depth = d, in_string = False, escaped = False\<rparr>"

lemma depth_step_plain: "\<not> structural b \<Longrightarrow> depth_step (scanning d) b = Ok (scanning d)"
  by (simp add: depth_step_def structural_def)

lemma depth_loop_plain:
  "\<not> list_ex structural s \<Longrightarrow> depth_loop (scanning d) (s @ rest) = depth_loop (scanning d) rest"
  by (induction s) (simp_all add: depth_step_plain)

lemma depth_loop_in_string:
  "depth_loop \<lparr>depth = d, in_string = True, escaped = False\<rparr>
     (concat (map (\<lambda>b. if b = 34 \<or> b = 92 then [92, b] else [b]) s) @ 34 # rest)
   = depth_loop (scanning d) rest"
  by (induction s) (simp_all add: depth_step_def)

lemma depth_loop_quote: "depth_loop (scanning d) (quote s @ rest) = depth_loop (scanning d) rest"
  by (simp add: quote_def depth_step_def depth_loop_in_string)

text \<open>Reading a text that nests \<open>n\<close> deep leaves the scan as it was, or stops it.\<close>

definition nests :: "nat \<Rightarrow> bytes \<Rightarrow> bool" where
  "nests n s \<longleftrightarrow> (\<forall>d rest. d \<le> MAX_JSON_DEPTH \<longrightarrow>
     depth_loop (scanning d) (s @ rest) =
       (if d + n \<le> MAX_JSON_DEPTH then depth_loop (scanning d) rest else Err JsonTooDeep))"

lemma nests_append: "nests a s \<Longrightarrow> nests b t \<Longrightarrow> nests (max a b) (s @ t)"
  by (auto simp: nests_def)

lemma nests_plain: "\<not> list_ex structural s \<Longrightarrow> nests 0 s"
  unfolding nests_def using depth_loop_plain by simp

lemma nests_comma: "nests 0 [44]" and nests_colon: "nests 0 [58]"
  by (simp_all add: nests_plain structural_def)

lemma nests_quote: "nests 0 (quote s)"
  by (simp add: nests_def depth_loop_quote)

lemma depth_step_open: "b = 91 \<or> b = 123 \<Longrightarrow> depth_step (scanning d) b =
    (if d < MAX_JSON_DEPTH then Ok (scanning (Suc d)) else Err JsonTooDeep)"
  by (auto simp: depth_step_def)

lemma depth_step_close: "b = 93 \<or> b = 125 \<Longrightarrow> depth_step (scanning (Suc d)) b = Ok (scanning d)"
  by (auto simp: depth_step_def)

lemma nests_brackets:
  assumes "nests n s" and "l = 91 \<or> l = 123" and "r = 93 \<or> r = 125"
  shows "nests (Suc n) (l # s @ [r])"
  unfolding nests_def
proof (intro allI impI)
  fix d rest
  assume "d \<le> MAX_JSON_DEPTH"
  have "depth_loop (scanning (Suc d)) (s @ r # rest) =
      (if Suc d + n \<le> MAX_JSON_DEPTH then depth_loop (scanning d) rest else Err JsonTooDeep)"
    if "d < MAX_JSON_DEPTH"
    using assms(1) that depth_step_close [OF assms(3)] by (simp add: nests_def)
  then show "depth_loop (scanning d) ((l # s @ [r]) @ rest) =
      (if d + Suc n \<le> MAX_JSON_DEPTH then depth_loop (scanning d) rest else Err JsonTooDeep)"
    using depth_step_open [OF assms(2)] by simp
qed

lemma nests_join:
  "(\<And>x. x \<in> set xs \<Longrightarrow> nests (n x) (p x)) \<Longrightarrow> nests (foldr max (map n xs) 0) (join_with 44 (map p xs))"
proof (induction xs rule: induct_list012)
  case (3 x y zs)
  have "nests (n x) (p x)" "nests (foldr max (map n (y # zs)) 0) (join_with 44 (map p (y # zs)))"
    using 3 by auto
  from nests_append [OF this(1) nests_append [OF nests_comma this(2)]]
  show ?case by simp
qed (auto intro: nests_plain)

lemma print_json_nests: "scalars_plain j \<Longrightarrow> nests (json_depth j) (print_json j)"
proof (induction j)
  case (Array js)
  then have "nests (foldr max (map json_depth js) 0) (join_with 44 (map print_json js))"
    by (intro nests_join) (auto simp: list_all_iff)
  then show ?case by (auto dest: nests_brackets [of _ _ 91 93])
next
  case (Object kjs)
  have "nests (json_depth j) (quote k @ 58 # print_json j)" if "(k, j) \<in> set kjs" for k j
  proof -
    have "nests (json_depth j) (print_json j)"
      using Object that by (fastforce simp: list_all_iff)
    from nests_append [OF nests_quote [of k] nests_append [OF nests_colon this]]
    show ?thesis by simp
  qed
  then have "nests (foldr max (map (\<lambda>(k, j). json_depth j) kjs) 0)
      (join_with 44 (map (\<lambda>(k, j). quote k @ 58 # print_json j) kjs))"
    by (intro nests_join) auto
  then show ?case by (auto dest: nests_brackets [of _ _ 123 125])
qed (auto intro: nests_plain nests_quote)

text \<open>C29: The depth scan that runs before the JSON parser sees a control payload decides exactly
  whether the arrays and objects of the JSON value nest more than \<open>MAX_JSON_DEPTH = 32\<close> deep;
  brackets, quotes and escapes inside strings do not mislead it.\<close>
theorem json_depth_scan_exact:
  assumes "scalars_plain j"
  shows "validate_json_depth (print_json j) =
    (if json_depth j \<le> 32 then Ok () else Err JsonTooDeep)"
proof -
  have "depth_loop (scanning 0) (print_json j @ []) =
      (if 0 + json_depth j \<le> MAX_JSON_DEPTH then depth_loop (scanning 0) [] else Err JsonTooDeep)"
    using print_json_nests [OF assms] unfolding nests_def by blast
  then show ?thesis by (simp add: validate_json_depth_def service_limits)
qed

theorem json_depth_scan_exact_witness:
  "validate_json_depth (print_json (Array [Object [([97, 93], Quoted [123, 34])], Scalar [49, 50]])) = Ok ()"
  using json_depth_scan_exact [of "Array [Object [([97, 93], Quoted [123, 34])], Scalar [49, 50]]"]
  by (simp add: structural_def)

section \<open>Guest paths\<close>

definition path_component :: "bytes \<Rightarrow> bool" where
  "path_component p \<longleftrightarrow> p \<noteq> [] \<and> p \<noteq> [46] \<and> p \<noteq> [46, 46] \<and> {0, 47, 92} \<inter> set p = {}"

definition absolute_path :: "bytes list \<Rightarrow> bytes" where
  "absolute_path ps = 47 # join_with 47 ps"

lemma contains_pair_append:
  "c \<notin> set p \<Longrightarrow> contains_bytes [c, c] (p @ c # bs) \<longleftrightarrow> contains_bytes [c, c] (c # bs)"
  by (induction p) auto

lemma contains_pair_front:
  "c \<notin> set p \<Longrightarrow> contains_bytes [c, c] (c # p @ c # bs) \<longleftrightarrow> p = [] \<or> contains_bytes [c, c] (c # bs)"
  by (cases p) (auto simp: contains_pair_append)

lemma contains_pair_none: "c \<notin> set p \<Longrightarrow> \<not> contains_bytes [c, c] (c # p)"
proof (induction p)
  case (Cons b p)
  then show ?case by (cases p) auto
qed simp

lemma suffix_one: "suffix [c] (xs @ y # ys) \<longleftrightarrow> (if ys = [] then y = c else suffix [c] ys)"
  by (cases ys rule: rev_cases) (auto simp: suffix_def)

lemma join_with_Nil: "join_with c (p # ps) = [] \<longleftrightarrow> p = [] \<and> ps = []"
  by (cases ps) auto

text \<open>The two tests against empty components: no double slash, no slash at the end.\<close>

lemma empty_component:
  assumes "ps \<noteq> []" and "\<forall>p \<in> set ps. c \<notin> set p"
  shows "contains_bytes [c, c] (c # join_with c ps) \<or> (join_with c ps \<noteq> [] \<and> suffix [c] (join_with c ps))
     \<longleftrightarrow> [] \<in> set ps \<and> ps \<noteq> [[]]"
  using assms
proof (induction ps rule: induct_list012)
  case (2 p)
  then show ?case by (auto simp: contains_pair_none simp del: contains_bytes.simps dest: set_mono_suffix)
next
  case (3 p q ps)
  then have "contains_bytes [c, c] (c # join_with c (q # ps))
      \<or> (join_with c (q # ps) \<noteq> [] \<and> suffix [c] (join_with c (q # ps))) \<longleftrightarrow> [] \<in> set (q # ps) \<and> q # ps \<noteq> [[]]"
    by auto
  then show ?case using 3 by (auto simp: contains_pair_front suffix_one join_with_Nil simp del: contains_bytes.simps)
qed simp

lemma join_with_set: "b \<noteq> c \<Longrightarrow> b \<in> set (join_with c ps) \<longleftrightarrow> (\<exists>p \<in> set ps. b \<in> set p)"
  by (induction c ps rule: join_with.induct) auto

lemma validate_guest_path_parts:
  assumes "ps \<noteq> []" and "\<forall>p \<in> set ps. 47 \<notin> set p"
  shows "validate_guest_path (absolute_path ps) = Ok () \<longleftrightarrow>
    length (absolute_path ps) \<le> 32768 \<and> (ps = [[]] \<or> list_all path_component ps)"
proof -
  have "split_on 47 (absolute_path ps) = [] # ps"
    by (simp add: absolute_path_def split_join assms)
  moreover have "ends_with (absolute_path ps) [47] \<and> length (absolute_path ps) > 1
      \<longleftrightarrow> join_with 47 ps \<noteq> [] \<and> suffix [47] (join_with 47 ps)"
    using suffix_one [of 47 "[]" 47 "join_with 47 ps"] by (auto simp: ends_with_def absolute_path_def)
  moreover have "92 \<in> set (absolute_path ps) \<longleftrightarrow> (\<exists>p \<in> set ps. 92 \<in> set p)"
    "0 \<in> set (absolute_path ps) \<longleftrightarrow> (\<exists>p \<in> set ps. 0 \<in> set p)"
    by (simp_all add: absolute_path_def join_with_set)
  moreover have "starts_with (absolute_path ps) [47]"
    by (simp add: absolute_path_def starts_with_def)
  ultimately show ?thesis
    using empty_component [of ps 47] assms
    by (cases "ps = [[]]")
       (auto simp: validate_guest_path_def validate_string_def service_limits and_then_Ok_iff
          path_component_def list_all_iff list_ex_iff absolute_path_def simp del: contains_bytes.simps
          split: if_splits)
qed

text \<open>C28: A guest path is accepted exactly when it is at most 32 KiB long and is the root or the
  absolute path of non-empty components, none of them \<^verbatim>\<open>.\<close> or \<^verbatim>\<open>..\<close> and none with a backslash or a
  NUL: an accepted path is its own normal form and cannot climb out of a directory.\<close>
theorem guest_path_canonical:
  "validate_guest_path v = Ok () \<longleftrightarrow>
    length v \<le> 32768 \<and> (v = [47] \<or> (\<exists>ps. ps \<noteq> [] \<and> list_all path_component ps \<and> v = absolute_path ps))"
  (is "_ \<longleftrightarrow> ?canonical")
proof (cases "starts_with v [47]")
  case True
  then obtain w where v: "v = 47 # w" by (auto simp: starts_with_def prefix_def)
  let ?ps = "split_on 47 w"
  have parts: "\<forall>p \<in> set ?ps. 47 \<notin> set p" by (auto dest: split_on_parts)
  have eq: "v = absolute_path ?ps" by (simp add: v absolute_path_def join_split)
  have "?ps = [[]] \<longleftrightarrow> v = [47]"
    by (metis eq absolute_path_def join_split join_with.simps(2) list.inject split_on.simps(1) v)
  moreover have "(\<exists>ps. ps \<noteq> [] \<and> list_all path_component ps \<and> v = absolute_path ps) \<longleftrightarrow> list_all path_component ?ps"
  proof
    assume "\<exists>ps. ps \<noteq> [] \<and> list_all path_component ps \<and> v = absolute_path ps"
    then obtain ps where "ps \<noteq> []" "list_all path_component ps" "w = join_with 47 ps"
      by (auto simp: v absolute_path_def)
    moreover from this have "split_on 47 w = ps"
      by (auto simp: list_all_iff path_component_def intro!: split_join)
    ultimately show "list_all path_component ?ps" by simp
  qed (use eq in \<open>auto intro!: exI [of _ ?ps]\<close>)
  ultimately show ?thesis
    using validate_guest_path_parts [OF _ parts] eq by auto
next
  case False
  then show ?thesis
    by (auto simp: validate_guest_path_def and_then_Ok_iff absolute_path_def starts_with_def)
qed

section \<open>What a validated request promises\<close>

lemma validate_ports_Ok:
  "validate_ports seen ps = Ok () \<Longrightarrow>
    list_all (\<lambda>p. port_guest p \<noteq> 0 \<and> port_host p \<noteq> None) ps \<and>
    distinct (map port_host ps) \<and> (\<forall>p \<in> set ps. port_host p \<notin> Some ` seen)"
  by (induction seen ps rule: validate_ports.induct) (fastforce split: if_splits option.splits)+

lemma validate_exposed_Ok:
  "validate_exposed seen es = Ok () \<Longrightarrow>
    list_all (\<lambda>e. expose_host_port e \<noteq> 0 \<and> expose_guest_port e \<noteq> 0) es \<and>
    distinct (map expose_guest_port es) \<and> (\<forall>e \<in> set es. expose_guest_port e \<notin> seen)"
  by (induction seen es rule: validate_exposed.induct) (fastforce split: if_splits)+

text \<open>C30: A start request that passes validation asks for at most 8 CPUs, 8 GiB of memory, 32 GiB
  of disk and 32 mounts, publishes pairwise different host ports to non-zero guest ports, and with
  the exposed host ports, whose guest ports are pairwise different too, it has at most 32 ports.\<close>
theorem validated_start_bounded:
  assumes "validate_request sv r = Ok ()" and "request_op r = StartSandboxOp st"
  shows "1 \<le> unat (start_cpus st) \<and> unat (start_cpus st) \<le> 8
    \<and> 512 \<le> unat (start_memory_mib st) \<and> unat (start_memory_mib st) \<le> 8192
    \<and> 1024 \<le> unat (start_disk_mib st) \<and> unat (start_disk_mib st) \<le> 32768
    \<and> length (mounts st) \<le> 32
    \<and> distinct (map port_host (ports st)) \<and> list_all (\<lambda>p. port_guest p \<noteq> 0 \<and> port_host p \<noteq> None) (ports st)
    \<and> length (ports st) + (case network st of None \<Rightarrow> 0 | Some n \<Rightarrow> length (expose_host n)) \<le> 32
    \<and> (case network st of None \<Rightarrow> True | Some n \<Rightarrow> distinct (map expose_guest_port (expose_host n)))"
proof -
  have st: "validate_start st = Ok ()"
    using assms by (auto simp: validate_request_def split: if_splits option.splits)
  then have "1 \<le> start_cpus st \<and> start_cpus st \<le> 8 \<and> 512 \<le> start_memory_mib st
      \<and> start_memory_mib st \<le> 8192 \<and> 1024 \<le> start_disk_mib st \<and> start_disk_mib st \<le> 32768"
    by (auto simp: validate_start_def and_then_Ok_iff split: if_splits)
  moreover from st have "validate_ports {} (ports st) = Ok ()" and "length (mounts st) \<le> 32 \<and> length (ports st) \<le> 32"
    and "validate_optional (validate_network (length (ports st))) (network st) = Ok ()"
    by (auto simp: validate_start_def and_then_Ok_iff split: if_splits)
  ultimately show ?thesis
    using validate_ports_Ok [of "{}" "ports st"] validate_exposed_Ok [of "{}"]
    by (auto simp: word_le_nat_alt validate_optional_def validate_network_def and_then_Ok_iff
          split: option.splits if_splits)
qed

definition semver_any :: "bytes semver" where
  "semver_any = \<lparr>semver_parse = Some, semver_to_string = id, semver_build = (\<lambda>_. [])\<rparr>"

definition start_example :: StartSandbox where
  "start_example =
     \<lparr>client_instance_id = None, start_from = None, start_cpus = 2, start_memory_mib = 1024,
      start_disk_mib = 4096,
      mounts = [\<lparr>host_path = [47, 115], guest_path = [47, 119], read_only = True, prune_subtrees = None\<rparr>],
      ports = [\<lparr>port_guest = 80, port_host = Some 8080\<rparr>, \<lparr>port_guest = 80, port_host = Some 8081\<rparr>],
      network = Some \<lparr>allowed_hosts = [], secrets = [], https_interception = None,
                      expose_host = [\<lparr>expose_host_port = 5432, expose_guest_port = 5432\<rparr>]\<rparr>\<rparr>"

lemmas validation_simps =
  validate_request_def validate_start_def validate_optional_def validate_mount_def validate_network_def
  validate_mount_subtree_name_def validate_legacy_start_hint_def validate_string_def service_limits
  validate_exec_def validate_resource_id_def validate_guest_path_def is_lower_hex_def
  str_def is_control_def str_trim_def is_whitespace_def starts_with_def ends_with_def suffix_to_prefix

lemma start_example_valid:
  "validate_request semver_any \<lparr>deadline_ms = Some 1000, request_op = StartSandboxOp start_example\<rparr> = Ok ()"
  by (simp add: validation_simps start_example_def)

theorem validated_start_bounded_witness:
  "validate_request semver_any \<lparr>deadline_ms = Some 1000, request_op = StartSandboxOp start_example\<rparr> = Ok ()
   \<and> unat (start_cpus start_example) \<le> 8 \<and> unat (start_memory_mib start_example) \<le> 8192
   \<and> length (ports start_example) + length (expose_host (the (network start_example))) \<le> 32
   \<and> distinct (map port_host (ports start_example))"
  using validated_start_bounded [OF start_example_valid, of start_example] start_example_valid
  by (simp add: start_example_def)

lemma argv_total_Ok: "argv_total acc argv = Ok n \<Longrightarrow> n = acc + sum_list (map length argv)"
  by (induction acc argv rule: argv_total.induct) (auto simp: and_then_Ok_iff)

lemma env_total_Ok:
  "env_total acc env = Ok n \<Longrightarrow>
    n = acc + sum_list (map (\<lambda>(k, v). length k + length v) env) \<and>
    (\<forall>(k, v) \<in> set env. k \<noteq> [] \<and> 61 \<notin> set k \<and> 0 \<notin> set k)"
  by (induction acc env rule: env_total.induct) (auto simp: and_then_Ok_iff split: if_splits)

text \<open>The command and the environment of a validated exec or spawn request fit the limits: an
  argument vector is non-empty, has at most 256 arguments and 64 KiB in total, a shell command is
  non-empty and at most 32 KiB, and the environment has at most 256 entries and 128 KiB, with names that
  are non-empty and have neither an equals sign nor a NUL.\<close>
theorem validated_exec_bounded:
  assumes "validate_request sv r = Ok ()"
    and "request_op r = ExecOp sid command cwd env \<or> request_op r = SpawnOp sid command cwd env"
  shows "(case command of
       Argv argv \<Rightarrow> argv \<noteq> [] \<and> length argv \<le> 256 \<and> sum_list (map length argv) \<le> 65536
     | Shell shell \<Rightarrow> shell \<noteq> [] \<and> length shell \<le> 32768)
    \<and> length env \<le> 256 \<and> sum_list (map (\<lambda>(k, v). length k + length v) env) \<le> 131072
    \<and> list_all (\<lambda>(k, v). k \<noteq> [] \<and> 61 \<notin> set k \<and> 0 \<notin> set k) env"
proof -
  have exec: "validate_exec sid command cwd env = Ok ()"
    using assms by (auto simp: validate_request_def split: if_splits option.splits)
  then have "validate_command command = Ok ()"
    by (auto simp: validate_exec_def and_then_Ok_iff)
  moreover from exec obtain n where "env_total 0 env = Ok n" "n \<le> 131072" "length env \<le> 256"
    by (auto simp: validate_exec_def and_then_Ok_iff split: if_splits)
  ultimately show ?thesis
    using env_total_Ok [of 0 env]
    by (cases command)
       (auto simp: list_all_iff and_then_Ok_iff validate_string_def service_limits split: if_splits
          dest!: argv_total_Ok)
qed

definition exec_example :: Request where
  "exec_example = \<lparr>deadline_ms = None,
     request_op = ExecOp (replicate 32 97) (Argv [[108, 115], [45, 108]]) (Some [47, 116])
       [([72], [47, 114])]\<rparr>"

lemma exec_example_valid: "validate_request semver_any exec_example = Ok ()"
  by (simp add: validation_simps exec_example_def list_all_iff is_hex_digit_def in_range_def)

theorem validated_exec_bounded_witness:
  "sum_list (map length [[108, 115], [45, 108]]) \<le> 65536"
  using validated_exec_bounded [OF exec_example_valid disjI1, of "replicate 32 97" "Argv [[108, 115], [45, 108]]"
      "Some [47, 116]" "[([72], [47, 114])]"]
  unfolding exec_example_def by fastforce

end
