(* ===== verification/Update_Journal.thy ===== *)
theory Update_Journal
  imports Service_Message
begin

text \<open>
  The journal of an update, \<^verbatim>\<open>crates/lsb-seawork-update/src/journal.rs\<close> with the checks of
  \<^verbatim>\<open>lib.rs\<close>: an update transaction with its phase and timeline, and the envelope that protects it with
  a checksum. Operations return the document they leave behind whether they fail or not, since a
  failing operation may have changed it. The serialiser and SHA-256 are one parameter, the digest of
  a document; the semver crate is the parameter of \<open>Service_Message\<close>, with versions totally ordered.
\<close>

section \<open>Shared checks\<close>

datatype update_error =
    Bad_Identifier | Bad_Utc | Bad_Path | Bad_Timeline_Phase | Bad_Completion | Already_Complete
  | Bad_Helper_Protocol | Bad_Old_Identity | Bad_Target_Identity | Bad_Version | Not_An_Upgrade
  | Ledger_Schema_Change | Bad_Transaction | Bad_Phase_Transition | Bad_Envelope | Serialize_Failed
  | Checksum_Mismatch | Timeline_Full | No_Active_Transition | Not_Terminal | Bad_Event_Id

definition UPDATE_STATE_SCHEMA_VERSION :: u32 where "UPDATE_STATE_SCHEMA_VERSION = 1"

definition is_update_transaction_id :: "bytes \<Rightarrow> bool" where
  "is_update_transaction_id v = is_lower_hex v 32"

definition validate_id :: "bytes \<Rightarrow> (unit, update_error) result" where
  "validate_id v = (if \<not> is_update_transaction_id v then Err Bad_Identifier else Ok ())"

text \<open>\<^verbatim>\<open>as_bytes().get(i)\<close>.\<close>

definition byte_at :: "bytes \<Rightarrow> nat \<Rightarrow> byte option" where
  "byte_at bs i = (if i < length bs then Some (bs ! i) else None)"

definition validate_utc :: "bytes \<Rightarrow> (unit, update_error) result" where
  "validate_utc v =
     (if length v < 20 \<or> length v > 40 \<or> \<not> ends_with v (str ''Z'')
         \<or> byte_at v 4 \<noteq> Some 45 \<or> byte_at v 7 \<noteq> Some 45 \<or> byte_at v 10 \<noteq> Some 84
         \<or> byte_at v 13 \<noteq> Some 58 \<or> byte_at v 16 \<noteq> Some 58
         \<or> list_ex is_whitespace (utf8_chars v)
      then Err Bad_Utc else Ok ())"

definition is_ascii_alphabetic :: "byte \<Rightarrow> bool" where
  "is_ascii_alphabetic b \<longleftrightarrow> 65 \<le> b \<and> b \<le> 90 \<or> 97 \<le> b \<and> b \<le> 122"

definition validate_windows_absolute_path :: "bytes \<Rightarrow> (unit, update_error) result" where
  "validate_windows_absolute_path v =
     (if length v < 3 \<or> length v > 1024 \<or> 0 \<in> set v
         \<or> \<not> is_ascii_alphabetic (v ! 0) \<or> v ! 1 \<noteq> 58 \<or> v ! 2 \<noteq> 92
         \<or> 47 \<in> set v
         \<or> list_ex (\<lambda>part. part = [] \<or> part = str ''.'' \<or> part = str ''..'' \<or> 58 \<in> set part)
             (drop 1 (split_on 92 v))
      then Err Bad_Path else Ok ())"

section \<open>The timeline\<close>

definition MAX_TIMELINE_ENTRIES :: nat where "MAX_TIMELINE_ENTRIES = 64"

datatype UpdateActor = Actor_Service | Actor_Updater

datatype UpdateTransitionOutcome = Transition_Succeeded | Transition_Failed | Transition_Skipped

record UpdateTransition =
  tr_phase :: bytes
  tr_actor :: UpdateActor
  started_utc :: bytes
  completed_utc :: "bytes option"
  duration_ms :: "u64 option"
  tr_outcome :: "UpdateTransitionOutcome option"
  failure_code :: "bytes option"

definition phase_byte :: "byte \<Rightarrow> bool" where
  "phase_byte b \<longleftrightarrow> 97 \<le> b \<and> b \<le> 122 \<or> 48 \<le> b \<and> b \<le> 57 \<or> b = 46 \<or> b = 95"

definition validate_transition :: "UpdateTransition \<Rightarrow> (unit, update_error) result" where
  "validate_transition t =
     and_then (ensure (\<not> (tr_phase t = [] \<or> length (tr_phase t) > 64 \<or> \<not> list_all phase_byte (tr_phase t)))
        Bad_Timeline_Phase) (\<lambda>_.
     and_then (validate_utc (started_utc t)) (\<lambda>_.
     and_then (case completed_utc t of None \<Rightarrow> Ok () | Some c \<Rightarrow> validate_utc c) (\<lambda>_.
       ensure (\<not> ((completed_utc t \<noteq> None) \<noteq> (duration_ms t \<noteq> None)
                \<or> (completed_utc t \<noteq> None) \<noteq> (tr_outcome t \<noteq> None)
                \<or> tr_outcome t \<noteq> Some Transition_Failed \<and> failure_code t \<noteq> None
                \<or> (case failure_code t of None \<Rightarrow> False
                     | Some code \<Rightarrow> code = [] \<or> length code > 64 \<or> \<not> is_ascii code)))
         Bad_Completion)))"

definition started_transition :: "bytes \<Rightarrow> UpdateActor \<Rightarrow> bytes \<Rightarrow> (UpdateTransition, update_error) result" where
  "started_transition phase actor utc =
     (let t = \<lparr>tr_phase = phase, tr_actor = actor, started_utc = utc, completed_utc = None,
               duration_ms = None, tr_outcome = None, failure_code = None\<rparr> in
      and_then (validate_transition t) (\<lambda>_. Ok t))"

text \<open>\<^verbatim>\<open>UpdateTransition::complete\<close>, which stores the completion before it checks it.\<close>

definition complete_entry ::
    "bytes \<Rightarrow> u64 \<Rightarrow> UpdateTransitionOutcome \<Rightarrow> bytes option \<Rightarrow> UpdateTransition
      \<Rightarrow> UpdateTransition \<times> (unit, update_error) result" where
  "complete_entry utc ms outcome code t =
     (if completed_utc t \<noteq> None then (t, Err Already_Complete)
      else
        let t = t\<lparr>completed_utc := Some utc, duration_ms := Some ms, tr_outcome := Some outcome, failure_code := code\<rparr> in
        (t, validate_transition t))"

record HelperProtocol =
  helper_major :: u16
  helper_minor :: u16

definition validate_helper_protocol :: "HelperProtocol \<Rightarrow> (unit, update_error) result" where
  "validate_helper_protocol p =
     (if helper_major p = 0 \<or> helper_minor p = 0 then Err Bad_Helper_Protocol else Ok ())"

section \<open>Phases\<close>

datatype TransactionPhase =
    Prepared | HelperStarted | FinalPathVerified | OldServiceStopRequested | OldServiceStopped
  | ImagePathChanged | TargetStartRequested | TargetHealthPending | TargetCommitted
  | RollbackRequested | TargetStopped | OldPathRestored | OldServiceRestarted | RollbackComplete
  | PhaseQuarantined

datatype UpdateFailureStep =
    HandoffVerify | TargetStart | TargetConnect | TargetHealthAssertion | RollbackTargetStop
  | RollbackRestoreConfiguration | RollbackOldStart | RollbackAbortConnect | RollbackIdentityAssertion
  | RollbackHealthAssertion

datatype UpdateFailureCode =
    OperationFailed | TargetConnectTimeout | TargetHealthAssertionFailed | RollbackAbortConnectTimeout
  | RollbackIdentityContradiction | RollbackHealthAssertionFailed | ProtectedStateContradiction

fun stable_code :: "UpdateFailureCode \<Rightarrow> bytes" where
  "stable_code OperationFailed = str ''UPDATE_OPERATION_FAILED''"
| "stable_code TargetConnectTimeout = str ''TARGET_CONNECT_TIMEOUT''"
| "stable_code TargetHealthAssertionFailed = str ''TARGET_HEALTH_ASSERTION_FAILED''"
| "stable_code RollbackAbortConnectTimeout = str ''ROLLBACK_ABORT_CONNECT_TIMEOUT''"
| "stable_code RollbackIdentityContradiction = str ''ROLLBACK_IDENTITY_CONTRADICTION''"
| "stable_code RollbackHealthAssertionFailed = str ''ROLLBACK_HEALTH_ASSERTION_FAILED''"
| "stable_code ProtectedStateContradiction = str ''PROTECTED_STATE_CONTRADICTION''"

definition is_terminal :: "TransactionPhase \<Rightarrow> bool" where
  "is_terminal p \<longleftrightarrow> p = TargetCommitted \<or> p = RollbackComplete \<or> p = PhaseQuarantined"

definition forward_owned :: "TransactionPhase list" where
  "forward_owned =
     [HelperStarted, FinalPathVerified, OldServiceStopRequested, OldServiceStopped, ImagePathChanged,
      TargetStartRequested, TargetHealthPending]"

definition can_transition_to :: "TransactionPhase \<Rightarrow> TransactionPhase \<Rightarrow> bool" where
  "can_transition_to p q \<longleftrightarrow>
     (p, q) \<in> {(Prepared, HelperStarted), (HelperStarted, FinalPathVerified),
                (FinalPathVerified, OldServiceStopRequested), (OldServiceStopRequested, OldServiceStopped),
                (OldServiceStopped, ImagePathChanged), (ImagePathChanged, TargetStartRequested),
                (TargetStartRequested, TargetHealthPending), (TargetHealthPending, TargetCommitted),
                (RollbackRequested, TargetStopped), (TargetStopped, OldPathRestored),
                (OldPathRestored, OldServiceRestarted), (OldServiceRestarted, RollbackComplete)}
     \<or> p \<in> set forward_owned \<and> q = RollbackRequested
     \<or> p \<in> set (Prepared # forward_owned @ [RollbackRequested, TargetStopped, OldPathRestored, OldServiceRestarted])
        \<and> q = PhaseQuarantined"

section \<open>Transactions\<close>

datatype UpdateCheckCategory =
    Category_Network | Category_Tls | Category_Http | Category_RateLimited | Category_MetadataInvalid
  | Category_NoCandidate | Category_Download | Category_Verification | Category_HelperTooOld | Category_Internal

record UpdateTransaction =
  transaction_id :: bytes
  update_id :: bytes
  tx_phase :: TransactionPhase
  created_utc :: bytes
  old_bundle_identity :: BundleIdentity
  target_bundle_identity :: BundleIdentity
  old_image_path :: bytes
  target_image_path :: bytes
  old_event_message_path :: bytes
  target_event_message_path :: bytes
  staged_root :: bytes
  final_version_root :: bytes
  helper_protocol :: HelperProtocol
  attempt_count :: byte
  last_error_category :: "UpdateCheckCategory option"
  last_failure_step :: "UpdateFailureStep option"
  last_failure_code :: "UpdateFailureCode option"
  timeline :: "UpdateTransition list"
  reported_event_id :: "bytes option"

text \<open>A list of checks with \<^verbatim>\<open>?\<close> between them.\<close>

primrec check_all :: "('a \<Rightarrow> (unit, 'e) result) \<Rightarrow> 'a list \<Rightarrow> (unit, 'e) result" where
  "check_all check [] = Ok ()"
| "check_all check (x # xs) = and_then (check x) (\<lambda>_. check_all check xs)"

definition map_err :: "('a, 'e) result \<Rightarrow> 'f \<Rightarrow> ('a, 'f) result" where
  "map_err r f = (case r of Inl _ \<Rightarrow> Err f | Inr a \<Rightarrow> Ok a)"

definition parse_version :: "'v semver \<Rightarrow> bytes \<Rightarrow> ('v, update_error) result" where
  "parse_version sv v = (case semver_parse sv v of None \<Rightarrow> Err Bad_Version | Some x \<Rightarrow> Ok x)"

definition transaction_paths :: "UpdateTransaction \<Rightarrow> bytes list" where
  "transaction_paths t =
     [old_image_path t, target_image_path t, old_event_message_path t, target_event_message_path t,
      staged_root t, final_version_root t]"

definition transaction_consistent :: "UpdateTransaction \<Rightarrow> bool" where
  "transaction_consistent t \<longleftrightarrow>
     \<not> (old_image_path t = target_image_path t \<or> old_event_message_path t = target_event_message_path t
        \<or> attempt_count t = 0 \<or> attempt_count t > 3
        \<or> (last_failure_step t \<noteq> None) \<noteq> (last_failure_code t \<noteq> None)
        \<or> length (timeline t) > MAX_TIMELINE_ENTRIES
        \<or> (case reported_event_id t of None \<Rightarrow> False
             | Some event_id \<Rightarrow> \<not> is_terminal (tx_phase t) \<or> \<not> is_lower_hex event_id 32))"

definition validate_transaction :: "('v::linorder) semver \<Rightarrow> UpdateTransaction \<Rightarrow> (unit, update_error) result" where
  "validate_transaction sv t =
     and_then (validate_id (transaction_id t)) (\<lambda>_.
     and_then (validate_id (update_id t)) (\<lambda>_.
     and_then (validate_utc (created_utc t)) (\<lambda>_.
     and_then (map_err (validate_bundle sv (old_bundle_identity t)) Bad_Old_Identity) (\<lambda>_.
     and_then (map_err (validate_bundle sv (target_bundle_identity t)) Bad_Target_Identity) (\<lambda>_.
     and_then (parse_version sv (bundle_version (old_bundle_identity t))) (\<lambda>old.
     and_then (parse_version sv (bundle_version (target_bundle_identity t))) (\<lambda>target.
     and_then (ensure (\<not> (target \<le> old \<or> old_bundle_identity t = target_bundle_identity t)) Not_An_Upgrade) (\<lambda>_.
     and_then (ensure (writer_schema (ledger (old_bundle_identity t)) = writer_schema (ledger (target_bundle_identity t)))
        Ledger_Schema_Change) (\<lambda>_.
     and_then (check_all validate_windows_absolute_path (transaction_paths t)) (\<lambda>_.
     and_then (ensure (transaction_consistent t) Bad_Transaction) (\<lambda>_.
     and_then (validate_helper_protocol (helper_protocol t)) (\<lambda>_.
       check_all validate_transition (timeline t)))))))))))))"

definition transaction_transition ::
    "TransactionPhase \<Rightarrow> UpdateTransaction \<Rightarrow> UpdateTransaction \<times> (unit, update_error) result" where
  "transaction_transition next_phase t =
     (if tx_phase t = next_phase then (t, Ok ())
      else if \<not> can_transition_to (tx_phase t) next_phase then (t, Err Bad_Phase_Transition)
      else (t\<lparr>tx_phase := next_phase\<rparr>, Ok ()))"

section \<open>Envelopes\<close>

record TransactionEnvelope =
  schema_version :: u32
  checksum_sha256 :: bytes
  transaction :: UpdateTransaction

text \<open>What the operations use of the libraries: the version order, and \<^verbatim>\<open>sha256_json\<close> of a transaction.\<close>

record 'v journal_lib =
  lib_semver :: "'v semver"
  sha256_json :: "UpdateTransaction \<Rightarrow> bytes option"

definition envelope_new ::
    "('v::linorder) journal_lib \<Rightarrow> UpdateTransaction \<Rightarrow> (TransactionEnvelope, update_error) result" where
  "envelope_new lib t =
     and_then (validate_transaction (lib_semver lib) t) (\<lambda>_.
       case sha256_json lib t of
         None \<Rightarrow> Err Serialize_Failed
       | Some digest \<Rightarrow> Ok \<lparr>schema_version = UPDATE_STATE_SCHEMA_VERSION, checksum_sha256 = digest, transaction = t\<rparr>)"

definition validate_envelope :: "('v::linorder) journal_lib \<Rightarrow> TransactionEnvelope \<Rightarrow> (unit, update_error) result" where
  "validate_envelope lib e =
     and_then (ensure (\<not> (schema_version e \<noteq> UPDATE_STATE_SCHEMA_VERSION \<or> \<not> is_lower_hex (checksum_sha256 e) 64))
        Bad_Envelope) (\<lambda>_.
     and_then (validate_transaction (lib_semver lib) (transaction e)) (\<lambda>_.
       case sha256_json lib (transaction e) of
         None \<Rightarrow> Err Serialize_Failed
       | Some digest \<Rightarrow> ensure (digest = checksum_sha256 e) Checksum_Mismatch))"

type_synonym envelope_op = "TransactionEnvelope \<Rightarrow> TransactionEnvelope \<times> (unit, update_error) result"

text \<open>Every operation validates the envelope, changes its transaction (\<open>change\<close>, which may fail after
  having changed it) and recomputes the checksum.\<close>

definition seal :: "('v::linorder) journal_lib \<Rightarrow> envelope_op" where
  "seal lib e =
     (case sha256_json lib (transaction e) of
        None \<Rightarrow> (e, Err Serialize_Failed)
      | Some digest \<Rightarrow> (e\<lparr>checksum_sha256 := digest\<rparr>, Ok ()))"

definition guarded_change ::
    "('v::linorder) journal_lib \<Rightarrow> (UpdateTransaction \<Rightarrow> UpdateTransaction \<times> (unit, update_error) result) \<Rightarrow> envelope_op" where
  "guarded_change lib change e =
     (case validate_envelope lib e of
        Inl err \<Rightarrow> (e, Err err)
      | Inr _ \<Rightarrow>
          (case change (transaction e) of
             (t, Inl err) \<Rightarrow> (e\<lparr>transaction := t\<rparr>, Err err)
           | (t, Inr _) \<Rightarrow> seal lib (e\<lparr>transaction := t\<rparr>)))"

definition envelope_transition :: "('v::linorder) journal_lib \<Rightarrow> TransactionPhase \<Rightarrow> envelope_op" where
  "envelope_transition lib next_phase = guarded_change lib (transaction_transition next_phase)"

text \<open>The newest failed entry of the timeline gets the stable code of the failure.\<close>

primrec stamp_newest_first :: "bytes \<Rightarrow> UpdateTransition list \<Rightarrow> UpdateTransition list" where
  "stamp_newest_first code [] = []"
| "stamp_newest_first code (t # ts) =
     (if tr_outcome t = Some Transition_Failed then t\<lparr>failure_code := Some code\<rparr> # ts
      else t # stamp_newest_first code ts)"

definition stamp_failed :: "bytes \<Rightarrow> UpdateTransition list \<Rightarrow> UpdateTransition list" where
  "stamp_failed code ts = rev (stamp_newest_first code (rev ts))"

definition record_failure :: "('v::linorder) journal_lib \<Rightarrow> UpdateFailureStep \<Rightarrow> UpdateFailureCode \<Rightarrow> envelope_op" where
  "record_failure lib step code =
     guarded_change lib (\<lambda>t.
       (t\<lparr>last_failure_step := Some step, last_failure_code := Some code,
          timeline := stamp_failed (stable_code code) (timeline t)\<rparr>, Ok ()))"

definition begin_transition :: "('v::linorder) journal_lib \<Rightarrow> bytes \<Rightarrow> UpdateActor \<Rightarrow> bytes \<Rightarrow> envelope_op" where
  "begin_transition lib phase actor utc =
     guarded_change lib (\<lambda>t.
       if length (timeline t) \<ge> MAX_TIMELINE_ENTRIES then (t, Err Timeline_Full)
       else
         (case started_transition phase actor utc of
            Inl err \<Rightarrow> (t, Err err)
          | Inr entry \<Rightarrow> (t\<lparr>timeline := timeline t @ [entry]\<rparr>, Ok ())))"

definition has_active_transition :: "UpdateTransaction \<Rightarrow> bool" where
  "has_active_transition t \<longleftrightarrow> timeline t \<noteq> [] \<and> completed_utc (last (timeline t)) = None"

definition complete_transition :: "('v::linorder) journal_lib \<Rightarrow> bytes \<Rightarrow> u64 \<Rightarrow> UpdateTransitionOutcome \<Rightarrow> envelope_op" where
  "complete_transition lib utc ms outcome =
     guarded_change lib (\<lambda>t.
       if \<not> has_active_transition t then (t, Err No_Active_Transition)
       else
         (case complete_entry utc ms outcome None (last (timeline t)) of
            (entry, r) \<Rightarrow> (t\<lparr>timeline := butlast (timeline t) @ [entry]\<rparr>, r)))"

definition mark_reported :: "('v::linorder) journal_lib \<Rightarrow> bytes \<Rightarrow> envelope_op" where
  "mark_reported lib event_id =
     guarded_change lib (\<lambda>t.
       if \<not> is_terminal (tx_phase t) then (t, Err Not_Terminal)
       else if \<not> is_lower_hex event_id 32 then (t, Err Bad_Event_Id)
       else (t\<lparr>reported_event_id := Some event_id\<rparr>, Ok ()))"

section \<open>Operations keep a transaction valid\<close>

definition digest_hex :: "'v journal_lib \<Rightarrow> bool" where
  "digest_hex lib \<longleftrightarrow> (\<forall>t d. sha256_json lib t = Some d \<longrightarrow> is_lower_hex d 64)"

text \<open>What no operation changes.\<close>

definition static_part where
  "static_part t =
     (transaction_id t, update_id t, created_utc t, old_bundle_identity t, target_bundle_identity t,
      transaction_paths t, helper_protocol t, attempt_count t)"

lemma check_all_Ok: "check_all f xs = Ok () \<longleftrightarrow> (\<forall>x \<in> set xs. f x = Ok ())"
  by (induction xs) (auto simp: and_then_Ok_iff)

lemma check_all_append: "check_all f (xs @ ys) = and_then (check_all f xs) (\<lambda>_. check_all f ys)"
proof (induction xs)
  case (Cons x xs)
  then show ?case by (cases "f x") simp_all
qed simp

lemma validate_transaction_update:
  assumes "validate_transaction sv t = Ok ()" and same: "static_part u = static_part t"
    and "transaction_consistent u" and "\<forall>x \<in> set (timeline u). validate_transition x = Ok ()"
  shows "validate_transaction sv u = Ok ()"
  using assms(1,3,4) same
  by (auto simp: validate_transaction_def and_then_Ok_iff check_all_Ok ensure_Ok_iff static_part_def)

lemma validate_transactionD:
  assumes "validate_transaction sv t = Ok ()"
  shows "transaction_consistent t" and "\<forall>x \<in> set (timeline t). validate_transition x = Ok ()"
  using assms by (auto simp: validate_transaction_def and_then_Ok_iff check_all_Ok ensure_Ok_iff)

lemma valid_envelopeD:
  assumes "validate_envelope lib e = Ok ()"
  shows "validate_transaction (lib_semver lib) (transaction e) = Ok ()"
    and "schema_version e = UPDATE_STATE_SCHEMA_VERSION"
    and "sha256_json lib (transaction e) = Some (checksum_sha256 e)"
  using assms by (auto simp: validate_envelope_def and_then_Ok_iff ensure_Ok_iff split: option.splits)

lemma seal_valid:
  assumes "digest_hex lib" and "schema_version e = UPDATE_STATE_SCHEMA_VERSION"
    and "validate_transaction (lib_semver lib) (transaction e) = Ok ()" and "seal lib e = (e', Ok ())"
  shows "validate_envelope lib e' = Ok ()" and "transaction e' = transaction e"
  using assms by (auto simp: seal_def validate_envelope_def digest_hex_def ensure_def split: option.splits)

lemma guarded_change_Ok:
  assumes "guarded_change lib change e = (e', Ok ())"
  obtains t where "validate_envelope lib e = Ok ()" "change (transaction e) = (t, Ok ())"
    "seal lib (e\<lparr>transaction := t\<rparr>) = (e', Ok ())"
  using assms by (auto simp: guarded_change_def split: sum.splits prod.splits)

text \<open>One operation of the journal, for statements about all of them.\<close>

datatype journal_op =
    Op_Transition TransactionPhase
  | Op_Failure UpdateFailureStep UpdateFailureCode
  | Op_Begin bytes UpdateActor bytes
  | Op_Complete bytes u64 UpdateTransitionOutcome
  | Op_Report bytes

fun journal_apply :: "('v::linorder) journal_lib \<Rightarrow> journal_op \<Rightarrow> envelope_op" where
  "journal_apply lib (Op_Transition p) = envelope_transition lib p"
| "journal_apply lib (Op_Failure step code) = record_failure lib step code"
| "journal_apply lib (Op_Begin phase actor utc) = begin_transition lib phase actor utc"
| "journal_apply lib (Op_Complete utc ms outcome) = complete_transition lib utc ms outcome"
| "journal_apply lib (Op_Report event_id) = mark_reported lib event_id"

lemma validate_transition_iff:
  "validate_transition t = Ok () \<longleftrightarrow>
     tr_phase t \<noteq> [] \<and> length (tr_phase t) \<le> 64 \<and> list_all phase_byte (tr_phase t) \<and>
     validate_utc (started_utc t) = Ok () \<and>
     (case completed_utc t of None \<Rightarrow> duration_ms t = None \<and> tr_outcome t = None
        | Some c \<Rightarrow> validate_utc c = Ok () \<and> duration_ms t \<noteq> None \<and> tr_outcome t \<noteq> None) \<and>
     (case failure_code t of None \<Rightarrow> True
        | Some code \<Rightarrow> tr_outcome t = Some Transition_Failed \<and> code \<noteq> [] \<and> length code \<le> 64 \<and> is_ascii code)"
  unfolding validate_transition_def and_then_Ok_iff ensure_Ok_iff
  by (cases "completed_utc t"; cases "failure_code t") auto

lemma stamp_newest_first_valid:
  assumes "\<forall>x \<in> set ts. validate_transition x = Ok ()" and code: "code \<noteq> []" "length code \<le> 64" "is_ascii code"
  shows "\<forall>x \<in> set (stamp_newest_first code ts). validate_transition x = Ok ()"
proof -
  have "validate_transition (t\<lparr>failure_code := Some code\<rparr>) = Ok ()"
    if "validate_transition t = Ok ()" "tr_outcome t = Some Transition_Failed" for t
    using that code by (auto simp: validate_transition_iff split: option.splits)
  with assms(1) show ?thesis by (induction ts) auto
qed

lemma length_stamp_newest [simp]: "length (stamp_newest_first code ts) = length ts"
  by (induction ts) simp_all

lemma length_stamp_failed [simp]: "length (stamp_failed code ts) = length ts"
  by (simp add: stamp_failed_def)

lemma stable_code_fits: "stable_code c \<noteq> [] \<and> length (stable_code c) \<le> 64 \<and> is_ascii (stable_code c)"
  by (cases c) (simp_all add: str_def is_ascii_def)

lemma stamp_failed_valid:
  "\<forall>x \<in> set ts. validate_transition x = Ok () \<Longrightarrow> \<forall>x \<in> set (stamp_failed (stable_code c) ts). validate_transition x = Ok ()"
  using stamp_newest_first_valid [of "rev ts" "stable_code c"] stable_code_fits [of c] by (simp add: stamp_failed_def)

lemma complete_entry_Ok:
  "complete_entry utc ms outcome code t = (t', Ok ()) \<Longrightarrow> validate_transition t' = Ok ()"
  by (auto simp: complete_entry_def Let_def split: if_splits)

lemma started_transition_Ok: "started_transition phase actor utc = Ok t \<Longrightarrow> validate_transition t = Ok ()"
  by (auto simp: started_transition_def Let_def and_then_Ok_iff)

lemma terminal_cannot_move: "is_terminal p \<Longrightarrow> \<not> can_transition_to p q"
  by (auto simp: is_terminal_def can_transition_to_def forward_owned_def)

text \<open>What an operation does to a valid transaction.\<close>

definition tx_step :: "UpdateTransaction \<Rightarrow> UpdateTransaction \<Rightarrow> bool" where
  "tx_step t u \<longleftrightarrow> static_part u = static_part t
     \<and> transaction_consistent u \<and> (\<forall>x \<in> set (timeline u). validate_transition x = Ok ())
     \<and> (tx_phase u = tx_phase t \<or> can_transition_to (tx_phase t) (tx_phase u))"

lemma tx_step_transition:
  assumes "transaction_consistent t" "\<forall>x \<in> set (timeline t). validate_transition x = Ok ()"
    and "transaction_transition p t = (u, Ok ())"
  shows "tx_step t u"
  using assms terminal_cannot_move
  by (auto simp: transaction_transition_def tx_step_def static_part_def transaction_paths_def transaction_consistent_def
      split: if_splits option.splits)

lemma tx_step_dynamic:
  assumes "transaction_consistent t" and u: "static_part u = static_part t" "tx_phase u = tx_phase t"
    and "(last_failure_step u \<noteq> None) = (last_failure_code u \<noteq> None)" and "length (timeline u) \<le> MAX_TIMELINE_ENTRIES"
    and "\<forall>x \<in> set (timeline u). validate_transition x = Ok ()"
    and "reported_event_id u = reported_event_id t"
  shows "tx_step t u"
  using assms by (auto simp: tx_step_def transaction_consistent_def static_part_def transaction_paths_def
      split: option.splits)

lemma tx_step_op:
  assumes valid: "validate_envelope lib e = Ok ()" and op: "journal_apply lib op e = (e', Ok ())"
  shows "tx_step (transaction e) (transaction e')"
proof -
  let ?t = "transaction e"
  note ok = validate_transactionD [OF valid_envelopeD(1) [OF valid]]
  have len: "length (timeline ?t) \<le> MAX_TIMELINE_ENTRIES" and fs: "(last_failure_step ?t \<noteq> None) = (last_failure_code ?t \<noteq> None)"
    using ok(1) by (auto simp: transaction_consistent_def)
  have dynamic: "tx_step ?t (?t\<lparr>timeline := ts\<rparr>)"
    if "length ts \<le> MAX_TIMELINE_ENTRIES" "\<forall>x \<in> set ts. validate_transition x = Ok ()" for ts
    by (rule tx_step_dynamic [OF ok(1)]) (use that fs in \<open>simp_all add: static_part_def transaction_paths_def\<close>)
  show ?thesis
  proof (cases op)
    case (Op_Transition p)
    with op tx_step_transition [OF ok] show ?thesis
      by (auto simp: envelope_transition_def seal_def split: option.splits elim!: guarded_change_Ok)
  next
    case (Op_Failure step code)
    have "tx_step ?t (?t\<lparr>last_failure_step := Some step, last_failure_code := Some code,
        timeline := stamp_failed (stable_code code) (timeline ?t)\<rparr>)"
      by (rule tx_step_dynamic [OF ok(1)])
         (use len stamp_failed_valid [OF ok(2)] in \<open>simp_all add: static_part_def transaction_paths_def\<close>)
    with op Op_Failure show ?thesis
      by (auto simp: record_failure_def seal_def split: option.splits elim!: guarded_change_Ok)
  next
    case (Op_Begin phase actor utc)
    with op ok(2) started_transition_Ok [of phase actor utc] show ?thesis
      by (auto simp: begin_transition_def seal_def split: option.splits if_splits sum.splits elim!: guarded_change_Ok
          intro!: dynamic)
  next
    case (Op_Complete utc ms outcome)
    have "tx_step ?t (?t\<lparr>timeline := butlast (timeline ?t) @ [entry]\<rparr>)"
      if "has_active_transition ?t" "validate_transition entry = Ok ()" for entry
      by (rule dynamic) (use that ok(2) len in \<open>auto simp: has_active_transition_def neq_Nil_conv dest: in_set_butlastD\<close>)
    with op Op_Complete complete_entry_Ok [of utc ms outcome None "last (timeline ?t)"] show ?thesis
      by (auto simp: complete_transition_def seal_def split: option.splits if_splits prod.splits elim!: guarded_change_Ok)
  next
    case (Op_Report event_id)
    with op ok show ?thesis
      by (auto simp: mark_reported_def seal_def tx_step_def static_part_def transaction_paths_def transaction_consistent_def
          split: option.splits if_splits elim!: guarded_change_Ok)
  qed
qed

lemma journal_apply_guarded: "\<exists>change. journal_apply lib op = guarded_change lib change"
  by (cases op) (auto simp: envelope_transition_def record_failure_def begin_transition_def complete_transition_def
      mark_reported_def)

lemma journal_apply_valid:
  assumes "digest_hex lib" and op: "journal_apply lib op e = (e', Ok ())"
  shows "validate_envelope lib e = Ok ()" and "validate_envelope lib e' = Ok ()"
proof -
  obtain change where "guarded_change lib change e = (e', Ok ())" using op journal_apply_guarded by metis
  then obtain t where valid: "validate_envelope lib e = Ok ()" and seal: "seal lib (e\<lparr>transaction := t\<rparr>) = (e', Ok ())"
    by (rule guarded_change_Ok)
  from seal have t: "transaction e' = t" by (auto simp: seal_def split: option.splits)
  have "tx_step (transaction e) t" using tx_step_op [OF valid op] by (simp add: t)
  then have "validate_transaction (lib_semver lib) t = Ok ()"
    using validate_transaction_update [OF valid_envelopeD(1) [OF valid]] by (simp add: tx_step_def)
  with seal_valid [OF assms(1) _ _ seal] valid_envelopeD(2) [OF valid] show "validate_envelope lib e' = Ok ()" by simp
  show "validate_envelope lib e = Ok ()" by (fact valid)
qed

section \<open>An example transaction\<close>

text \<open>Versions that are ordered by length, and a constant digest: enough to run the journal on.\<close>

definition demo_semver :: "nat semver" where
  "demo_semver = \<lparr>semver_parse = (\<lambda>s. Some (length s)), semver_to_string = (\<lambda>n. replicate n 49), semver_build = (\<lambda>_. [])\<rparr>"

definition demo_lib :: "nat journal_lib" where
  "demo_lib = \<lparr>lib_semver = demo_semver, sha256_json = (\<lambda>_. Some (replicate 64 97))\<rparr>"

definition demo_identity :: "nat \<Rightarrow> BundleIdentity" where
  "demo_identity n =
     \<lparr>bundle_version = replicate n 49, bundle_manifest_sha256 = replicate 64 97, archive_sha256 = replicate 64 98,
      bundle_protocol = \<lparr>r_major = 1, min_minor = 0, max_minor = 6\<rparr>,
      ledger = \<lparr>reader_min_schema = 1, reader_max_schema = 1, writer_schema = 1\<rparr>,
      service_configuration_revision = 2\<rparr>"

definition demo_utc :: bytes where "demo_utc = str ''2026-07-22T12:00:00Z''"

definition demo_transaction :: "TransactionPhase \<Rightarrow> UpdateTransaction" where
  "demo_transaction p =
     \<lparr>transaction_id = replicate 32 49, update_id = replicate 32 50, tx_phase = p, created_utc = demo_utc,
      old_bundle_identity = demo_identity 1, target_bundle_identity = demo_identity 2,
      old_image_path = str ''C:'' @ [92] @ str ''v1'', target_image_path = str ''C:'' @ [92] @ str ''v2'',
      old_event_message_path = str ''C:'' @ [92] @ str ''v1'', target_event_message_path = str ''C:'' @ [92] @ str ''v2'',
      staged_root = str ''C:'' @ [92] @ str ''s'', final_version_root = str ''C:'' @ [92] @ str ''f'',
      helper_protocol = \<lparr>helper_major = 1, helper_minor = 1\<rparr>, attempt_count = 1, last_error_category = None,
      last_failure_step = None, last_failure_code = None, timeline = [], reported_event_id = None\<rparr>"

definition demo_envelope :: "TransactionPhase \<Rightarrow> TransactionEnvelope" where
  "demo_envelope p = \<lparr>schema_version = 1, checksum_sha256 = replicate 64 97, transaction = demo_transaction p\<rparr>"

lemma lower_hex_replicate: "is_hex_digit b \<Longrightarrow> is_lower_hex (replicate n b) n"
  by (simp add: is_lower_hex_def list_all_iff)

lemma demo_hex: "is_hex_digit 49" "is_hex_digit 50" "is_hex_digit 97" "is_hex_digit 98"
  by (simp_all add: is_hex_digit_def in_range_def)

lemma demo_digest_hex: "digest_hex demo_lib"
  by (simp add: digest_hex_def demo_lib_def lower_hex_replicate demo_hex)

lemma demo_utc_valid: "validate_utc demo_utc = Ok ()"
  by (simp add: validate_utc_def demo_utc_def str_def byte_at_def ends_with_def suffix_to_prefix is_whitespace_def)

lemma demo_identity_valid:
  assumes "0 < n" and "n \<le> 2"
  shows "validate_bundle demo_semver (demo_identity n) = Ok ()"
    and "parse_version demo_semver (bundle_version (demo_identity n)) = Ok n"
    and "writer_schema (ledger (demo_identity n)) = 1"
  using assms
  by (simp_all add: validate_bundle_def demo_semver_def demo_identity_def validate_string_def service_limits
      validate_sha256_def lower_hex_replicate demo_hex validate_range_def parse_version_def)

lemma demo_transaction_valid: "validate_transaction demo_semver (demo_transaction p) = Ok ()"
proof -
  let ?t = "demo_transaction p"
  have "check_all validate_windows_absolute_path (transaction_paths ?t) = Ok ()"
    by (simp add: transaction_paths_def demo_transaction_def validate_windows_absolute_path_def str_def is_ascii_alphabetic_def)
  moreover have "transaction_consistent ?t"
    by (simp add: transaction_consistent_def demo_transaction_def str_def)
  moreover have "validate_id (transaction_id ?t) = Ok ()" "validate_id (update_id ?t) = Ok ()"
    "created_utc ?t = demo_utc" "old_bundle_identity ?t = demo_identity 1" "target_bundle_identity ?t = demo_identity 2"
    "validate_helper_protocol (helper_protocol ?t) = Ok ()" "timeline ?t = []"
    by (simp_all add: demo_transaction_def validate_id_def is_update_transaction_id_def lower_hex_replicate demo_hex
        validate_helper_protocol_def)
  moreover have "demo_identity 1 \<noteq> demo_identity 2" by (simp add: demo_identity_def numeral_2_eq_2)
  ultimately show ?thesis
    by (simp add: validate_transaction_def demo_utc_valid demo_identity_valid map_err_def ensure_def)
qed

lemma demo_envelope_valid: "validate_envelope demo_lib (demo_envelope p) = Ok ()"
  by (simp add: validate_envelope_def demo_envelope_def demo_lib_def demo_transaction_valid UPDATE_STATE_SCHEMA_VERSION_def
      lower_hex_replicate demo_hex ensure_def)

section \<open>Properties\<close>

text \<open>C19: Every operation of the journal that succeeds was applied to a valid envelope and leaves one
  behind: its checksum is that of its transaction, which passes every check, keeps its identities,
  paths and versions, and is in the same phase or in one that the phase table allows next.\<close>
theorem journal_operations_keep_valid:
  assumes "digest_hex lib" and "journal_apply lib op e = (e', Ok ())"
  shows "validate_envelope lib e = Ok () \<and> validate_envelope lib e' = Ok ()
    \<and> static_part (transaction e') = static_part (transaction e)
    \<and> (tx_phase (transaction e') = tx_phase (transaction e)
       \<or> can_transition_to (tx_phase (transaction e)) (tx_phase (transaction e')))"
  using journal_apply_valid [OF assms] tx_step_op [OF _ assms(2)] by (simp add: tx_step_def)

theorem journal_operations_keep_valid_witness:
  "\<exists>e'. journal_apply demo_lib (Op_Transition HelperStarted) (demo_envelope Prepared) = (e', Ok ())
    \<and> validate_envelope demo_lib e' = Ok () \<and> tx_phase (transaction e') = HelperStarted"
proof -
  let ?e = "(demo_envelope Prepared)\<lparr>transaction := demo_transaction HelperStarted\<rparr>"
  have "journal_apply demo_lib (Op_Transition HelperStarted) (demo_envelope Prepared) = (?e, Ok ())"
    using demo_envelope_valid [of Prepared]
    by (simp add: envelope_transition_def guarded_change_def seal_def transaction_transition_def can_transition_to_def
        demo_lib_def demo_envelope_def demo_transaction_def)
  with journal_operations_keep_valid [OF demo_digest_hex this] show ?thesis by (simp add: demo_transaction_def)
qed

end
