(* ===== verification/Update_Recovery.thy ===== *)
theory Update_Recovery
  imports Update_Journal
begin

text \<open>
  The recovery loop of the updater, \<^verbatim>\<open>crates/lsb-seawork-updater/src/recovery.rs\<close>: it drives an update
  transaction from the phase its journal is in to the end, persisting the journal before and after
  every action and turning failures into a rollback, a quarantine or a resumable error. The store, the
  backend that acts on the machine and the clock are parameters over a world of any type; the loop is
  a partial function, and that it returns is a theorem.
\<close>

section \<open>Failures and the platform\<close>

datatype FailureDisposition = Retryable | Quarantine_Disposition

record RecoveryFailure =
  rf_step :: UpdateFailureStep
  rf_code :: UpdateFailureCode
  rf_disposition :: FailureDisposition

definition retryable :: "UpdateFailureStep \<Rightarrow> UpdateFailureCode \<Rightarrow> RecoveryFailure" where
  "retryable step code = \<lparr>rf_step = step, rf_code = code, rf_disposition = Retryable\<rparr>"

definition quarantine_failure :: "UpdateFailureStep \<Rightarrow> UpdateFailureCode \<Rightarrow> RecoveryFailure" where
  "quarantine_failure step code = \<lparr>rf_step = step, rf_code = code, rf_disposition = Quarantine_Disposition\<rparr>"

datatype RecoveryOutcome = Outcome_Committed | Outcome_RolledBack | Outcome_Quarantined

text \<open>An error of the journal, or one of the platform with the \<^verbatim>\<open>RecoveryFailure\<close> it can be downcast to.\<close>

datatype recovery_error = Journal_Error update_error | Platform_Error "RecoveryFailure option"

datatype backend_call =
    Verify_Handoff | Install_And_Verify_Target | Stop_Old_Service | Change_To_Target | Start_Target
  | Health_And_Commit_Target | Finalize_Commit | Stop_Target | Restore_Old_Configuration | Start_And_Abort_Old

type_synonym 'w platform_op = "TransactionEnvelope \<Rightarrow> 'w \<Rightarrow> 'w \<times> (unit, RecoveryFailure option) result"

record 'w platform =
  persist :: "'w platform_op"
  backend :: "backend_call \<Rightarrow> 'w platform_op"
  now_utc :: "'w \<Rightarrow> 'w \<times> bytes"
  elapsed_ms :: "'w \<Rightarrow> u64"

section \<open>Steps that may fail\<close>

type_synonym 'w recovery = "TransactionEnvelope \<times> 'w \<Rightarrow> (TransactionEnvelope \<times> 'w) \<times> (unit, recovery_error) result"

text \<open>Sequencing with \<^verbatim>\<open>?\<close>.\<close>

definition then_do :: "'w recovery \<Rightarrow> 'w recovery \<Rightarrow> 'w recovery" where
  "then_do f g s = (case f s of (s', Inl err) \<Rightarrow> (s', Err err) | (s', Inr _) \<Rightarrow> g s')"

definition on_journal :: "envelope_op \<Rightarrow> 'w recovery" where
  "on_journal op s =
     (case op (fst s) of
        (e, Inl err) \<Rightarrow> ((e, snd s), Err (Journal_Error err))
      | (e, Inr _) \<Rightarrow> ((e, snd s), Ok ()))"

definition store :: "'w platform \<Rightarrow> 'w recovery" where
  "store P s =
     (case persist P (fst s) (snd s) of
        (w, Inl err) \<Rightarrow> ((fst s, w), Err (Platform_Error err))
      | (w, Inr _) \<Rightarrow> ((fst s, w), Ok ()))"

definition with_now :: "'w platform \<Rightarrow> (bytes \<Rightarrow> 'w recovery) \<Rightarrow> 'w recovery" where
  "with_now P f s = (case now_utc P (snd s) of (w, utc) \<Rightarrow> f utc (fst s, w))"

definition transition :: "('v::linorder) journal_lib \<Rightarrow> 'w platform \<Rightarrow> TransactionPhase \<Rightarrow> 'w recovery" where
  "transition lib P next_phase = then_do (on_journal (envelope_transition lib next_phase)) (store P)"

text \<open>The parts of \<^verbatim>\<open>run_action\<close>: closing an entry an interrupted run left open, recording the intent,
  and the action with the record of its completion.\<close>

definition close_interrupted :: "('v::linorder) journal_lib \<Rightarrow> 'w platform \<Rightarrow> 'w recovery" where
  "close_interrupted lib P s =
     (if has_active_transition (transaction (fst s))
      then then_do (with_now P (\<lambda>utc. on_journal (complete_transition lib utc 0 Transition_Failed))) (store P) s
      else (s, Ok ()))"

definition record_intent :: "('v::linorder) journal_lib \<Rightarrow> 'w platform \<Rightarrow> bytes \<Rightarrow> 'w recovery" where
  "record_intent lib P name =
     then_do (with_now P (\<lambda>utc. on_journal (begin_transition lib name Actor_Updater utc))) (store P)"

definition perform :: "('v::linorder) journal_lib \<Rightarrow> 'w platform \<Rightarrow> backend_call \<Rightarrow> 'w recovery" where
  "perform lib P call s =
     (case backend P call (fst s) (snd s) of
        (w, r) \<Rightarrow>
          then_do
            (with_now P (\<lambda>utc. on_journal (complete_transition lib utc (elapsed_ms P w)
               (if is_ok r then Transition_Succeeded else Transition_Failed))))
            (then_do (store P)
               (\<lambda>s. (s, case r of Inl err \<Rightarrow> Err (Platform_Error err) | Inr _ \<Rightarrow> Ok ()))) (fst s, w))"

definition run_action :: "('v::linorder) journal_lib \<Rightarrow> 'w platform \<Rightarrow> bytes \<Rightarrow> backend_call \<Rightarrow> 'w recovery" where
  "run_action lib P name call =
     then_do (close_interrupted lib P) (then_do (record_intent lib P name) (perform lib P call))"

definition completed_action :: "TransactionEnvelope \<Rightarrow> bytes \<Rightarrow> bool" where
  "completed_action e name \<longleftrightarrow>
     list_ex (\<lambda>t. tr_phase t = name \<and> tr_outcome t = Some Transition_Succeeded) (timeline (transaction e))"

definition is_rollback_phase :: "TransactionPhase \<Rightarrow> bool" where
  "is_rollback_phase p \<longleftrightarrow>
     p = RollbackRequested \<or> p = TargetStopped \<or> p = OldPathRestored \<or> p = OldServiceRestarted"

fun failure_step_for_phase :: "TransactionPhase \<Rightarrow> UpdateFailureStep" where
  "failure_step_for_phase Prepared = HandoffVerify"
| "failure_step_for_phase ImagePathChanged = TargetStart"
| "failure_step_for_phase TargetStartRequested = TargetStart"
| "failure_step_for_phase TargetHealthPending = TargetHealthAssertion"
| "failure_step_for_phase RollbackRequested = RollbackTargetStop"
| "failure_step_for_phase TargetStopped = RollbackRestoreConfiguration"
| "failure_step_for_phase OldPathRestored = RollbackOldStart"
| "failure_step_for_phase OldServiceRestarted = RollbackOldStart"
| "failure_step_for_phase _ = TargetHealthAssertion"

section \<open>The loop\<close>

datatype loop_control = Continue | Return "(RecoveryOutcome, recovery_error) result"

type_synonym 'w loop_body = "TransactionEnvelope \<times> 'w \<Rightarrow> (TransactionEnvelope \<times> 'w) \<times> loop_control"

text \<open>\<^verbatim>\<open>f?; continue\<close> and \<^verbatim>\<open>f?; return Ok(outcome)\<close>.\<close>

definition move_on :: "'w recovery \<Rightarrow> 'w loop_body" where
  "move_on f s = (case f s of (s', Inl err) \<Rightarrow> (s', Return (Err err)) | (s', Inr _) \<Rightarrow> (s', Continue))"

definition finish_with :: "'w recovery \<Rightarrow> RecoveryOutcome \<Rightarrow> 'w loop_body" where
  "finish_with f outcome s = (case f s of (s', Inl err) \<Rightarrow> (s', Return (Err err)) | (s', Inr _) \<Rightarrow> (s', Return (Ok outcome)))"

definition failure_of :: "TransactionPhase \<Rightarrow> recovery_error \<Rightarrow> RecoveryFailure" where
  "failure_of phase err =
     (case err of
        Platform_Error (Some failure) \<Rightarrow> failure
      | _ \<Rightarrow> \<lparr>rf_step = failure_step_for_phase phase, rf_code = OperationFailed, rf_disposition = Retryable\<rparr>)"

definition handle_failure ::
    "('v::linorder) journal_lib \<Rightarrow> 'w platform \<Rightarrow> TransactionPhase \<Rightarrow> recovery_error \<Rightarrow> 'w loop_body" where
  "handle_failure lib P phase err s =
     (let failure = failure_of phase err in
      case then_do (on_journal (record_failure lib (rf_step failure) (rf_code failure))) (store P) s of
        (s', Inl err') \<Rightarrow> (s', Return (Err err'))
      | (s', Inr _) \<Rightarrow>
          if rf_disposition failure = Quarantine_Disposition then
            (case transition lib P PhaseQuarantined s' of
               (s'', Inl err') \<Rightarrow> (s'', Return (Err err'))
             | (s'', Inr _) \<Rightarrow> (s'', Return (Err err)))
          else if is_rollback_phase phase \<or> phase = Prepared then (s', Return (Err err))
          else move_on (transition lib P RollbackRequested) s')"

definition act ::
    "('v::linorder) journal_lib \<Rightarrow> 'w platform \<Rightarrow> TransactionPhase \<Rightarrow> bytes \<Rightarrow> backend_call \<Rightarrow> TransactionPhase \<Rightarrow> 'w loop_body" where
  "act lib P phase name call next_phase s =
     (case then_do (run_action lib P name call) (transition lib P next_phase) s of
        (s', Inl err) \<Rightarrow> handle_failure lib P phase err s'
      | (s', Inr _) \<Rightarrow> (s', Continue))"

definition recover_step :: "('v::linorder) journal_lib \<Rightarrow> 'w platform \<Rightarrow> 'w loop_body" where
  "recover_step lib P s =
     (case tx_phase (transaction (fst s)) of
        Prepared \<Rightarrow> act lib P Prepared (str ''update.verification'') Verify_Handoff HelperStarted s
      | HelperStarted \<Rightarrow> act lib P HelperStarted (str ''update.preinstall'') Install_And_Verify_Target FinalPathVerified s
      | FinalPathVerified \<Rightarrow> move_on (transition lib P OldServiceStopRequested) s
      | OldServiceStopRequested \<Rightarrow>
          act lib P OldServiceStopRequested (str ''update.service_stop'') Stop_Old_Service OldServiceStopped s
      | OldServiceStopped \<Rightarrow>
          act lib P OldServiceStopped (str ''update.image_path_switch'') Change_To_Target ImagePathChanged s
      | ImagePathChanged \<Rightarrow> act lib P ImagePathChanged (str ''update.target_start'') Start_Target TargetStartRequested s
      | TargetStartRequested \<Rightarrow> move_on (transition lib P TargetHealthPending) s
      | TargetHealthPending \<Rightarrow>
          act lib P TargetHealthPending (str ''update.target_health'') Health_And_Commit_Target TargetCommitted s
      | TargetCommitted \<Rightarrow>
          if completed_action (fst s) (str ''update.commit'') then (s, Return (Ok Outcome_Committed))
          else finish_with (run_action lib P (str ''update.commit'') Finalize_Commit) Outcome_Committed s
      | RollbackRequested \<Rightarrow> act lib P RollbackRequested (str ''update.rollback_target_stop'') Stop_Target TargetStopped s
      | TargetStopped \<Rightarrow>
          act lib P TargetStopped (str ''update.rollback_restore_configuration'') Restore_Old_Configuration OldPathRestored s
      | OldPathRestored \<Rightarrow>
          act lib P OldPathRestored (str ''update.rollback_old_start'') Start_And_Abort_Old OldServiceRestarted s
      | OldServiceRestarted \<Rightarrow> move_on (transition lib P RollbackComplete) s
      | RollbackComplete \<Rightarrow> (s, Return (Ok Outcome_RolledBack))
      | PhaseQuarantined \<Rightarrow> (s, Return (Ok Outcome_Quarantined)))"

partial_function (option) recover_loop ::
    "('v::linorder) journal_lib \<Rightarrow> 'w platform \<Rightarrow> TransactionEnvelope \<times> 'w
      \<Rightarrow> ((TransactionEnvelope \<times> 'w) \<times> (RecoveryOutcome, recovery_error) result) option" where
  "recover_loop lib P s =
     (case recover_step lib P s of
        (s', Return r) \<Rightarrow> Some (s', r)
      | (s', Continue) \<Rightarrow> recover_loop lib P s')"

definition recover_transaction ::
    "('v::linorder) journal_lib \<Rightarrow> 'w platform \<Rightarrow> TransactionEnvelope \<times> 'w
      \<Rightarrow> ((TransactionEnvelope \<times> 'w) \<times> (RecoveryOutcome, recovery_error) result) option" where
  "recover_transaction lib P s =
     (case validate_envelope lib (fst s) of
        Inl err \<Rightarrow> Some (s, Err (Journal_Error err))
      | Inr _ \<Rightarrow> recover_loop lib P s)"

section \<open>The loop returns\<close>

text \<open>How far a phase is from the end.\<close>

fun rank :: "TransactionPhase \<Rightarrow> nat" where
  "rank Prepared = 13" | "rank HelperStarted = 12" | "rank FinalPathVerified = 11"
| "rank OldServiceStopRequested = 10" | "rank OldServiceStopped = 9" | "rank ImagePathChanged = 8"
| "rank TargetStartRequested = 7" | "rank TargetHealthPending = 6" | "rank RollbackRequested = 5"
| "rank TargetStopped = 4" | "rank OldPathRestored = 3" | "rank OldServiceRestarted = 2"
| "rank TargetCommitted = 1" | "rank RollbackComplete = 1" | "rank PhaseQuarantined = 0"

lemma can_transition_rank: "can_transition_to p q \<Longrightarrow> rank q < rank p"
  by (auto simp: can_transition_to_def forward_owned_def)

abbreviation ph :: "TransactionEnvelope \<times> 'w \<Rightarrow> TransactionPhase" where
  "ph s \<equiv> tx_phase (transaction (fst s))"

text \<open>Operations of the journal other than a transition leave the phase alone, whether they fail or not.\<close>

lemma guarded_change_phase:
  assumes "guarded_change lib change e = (e', r)" and "\<And>t. tx_phase (fst (change t)) = tx_phase t"
  shows "tx_phase (transaction e') = tx_phase (transaction e)"
  using assms(1) assms(2) [of "transaction e"]
  by (auto simp: guarded_change_def seal_def split: sum.splits prod.splits option.splits)

lemma op_keeps_phase:
  "begin_transition lib name actor utc e = (e', r) \<Longrightarrow> tx_phase (transaction e') = tx_phase (transaction e)"
  "complete_transition lib utc ms outcome e = (e', r) \<Longrightarrow> tx_phase (transaction e') = tx_phase (transaction e)"
  "record_failure lib step code e = (e', r) \<Longrightarrow> tx_phase (transaction e') = tx_phase (transaction e)"
  unfolding begin_transition_def complete_transition_def record_failure_def
  by (rule guarded_change_phase, assumption, simp split: sum.splits prod.splits)+

lemma envelope_transition_phase:
  assumes "envelope_transition lib q e = (e', r)"
  shows "tx_phase (transaction e') = tx_phase (transaction e)
      \<or> tx_phase (transaction e') = q \<and> can_transition_to (tx_phase (transaction e)) q"
    and "r = Ok () \<Longrightarrow> tx_phase (transaction e') = q"
  using assms
  by (auto simp: envelope_transition_def guarded_change_def transaction_transition_def seal_def
      split: sum.splits prod.splits option.splits if_splits)

text \<open>Assertions about the state before and after: \<open>J\<close> when the step succeeds, \<open>E\<close> when it fails.\<close>

definition triple ::
    "(TransactionEnvelope \<times> 'w \<Rightarrow> bool) \<Rightarrow> 'w recovery \<Rightarrow> (TransactionEnvelope \<times> 'w \<Rightarrow> bool)
      \<Rightarrow> (TransactionEnvelope \<times> 'w \<Rightarrow> bool) \<Rightarrow> bool" where
  "triple I f J E \<longleftrightarrow> (\<forall>s s' r. I s \<longrightarrow> f s = (s', r) \<longrightarrow> (case r of Inr _ \<Rightarrow> J s' | Inl _ \<Rightarrow> E s'))"

lemma tripleI: "(\<And>s s' r. I s \<Longrightarrow> f s = (s', r) \<Longrightarrow> (case r of Inr _ \<Rightarrow> J s' | Inl _ \<Rightarrow> E s')) \<Longrightarrow> triple I f J E"
  by (simp add: triple_def)

lemma tripleD: "triple I f J E \<Longrightarrow> I s \<Longrightarrow> f s = (s', Inr u) \<Longrightarrow> J s'"
  "triple I f J E \<Longrightarrow> I s \<Longrightarrow> f s = (s', Inl err) \<Longrightarrow> E s'"
  unfolding triple_def by fastforce+

lemma triple_case: "triple I f J E \<Longrightarrow> I s \<Longrightarrow> f s = (s', r) \<Longrightarrow> (case r of Inr _ \<Rightarrow> J s' | Inl _ \<Rightarrow> E s')"
  unfolding triple_def by blast

lemma triple_then: "triple I f M E \<Longrightarrow> triple M g J E \<Longrightarrow> triple I (then_do f g) J E"
  unfolding triple_def then_do_def by (fastforce split: prod.splits sum.splits)

lemma triple_weaken:
  assumes "triple I f J E" "\<And>s. I' s \<Longrightarrow> I s" "\<And>s. J s \<Longrightarrow> J' s" "\<And>s. E s \<Longrightarrow> E' s"
  shows "triple I' f J' E'"
  using assms unfolding triple_def by (fastforce split: sum.splits)

lemma triple_now:
  assumes "\<And>utc. triple I (f utc) J E" and "\<And>e w w' utc. I (e, w) \<Longrightarrow> now_utc P w = (w', utc) \<Longrightarrow> I (e, w')"
  shows "triple I (with_now P f) J E"
proof (rule tripleI)
  fix s s' r assume I: "I s" and f: "with_now P f s = (s', r)"
  obtain e w where s: "s = (e, w)" by (cases s)
  obtain w' utc where now: "now_utc P w = (w', utc)" by (cases "now_utc P w")
  have "f utc (e, w') = (s', r)" using f by (simp add: with_now_def s now)
  moreover have "I (e, w')" using assms(2) I now s by blast
  ultimately show "case r of Inr _ \<Rightarrow> J s' | Inl _ \<Rightarrow> E s'" using assms(1) [of utc] unfolding triple_def by blast
qed

lemma triple_journal:
  assumes "\<And>e w e'. I (e, w) \<Longrightarrow> op e = (e', Ok ()) \<Longrightarrow> J (e', w)"
    and "\<And>e w e' err. I (e, w) \<Longrightarrow> op e = (e', Err err) \<Longrightarrow> E (e', w)"
  shows "triple I (on_journal op) J E"
  using assms by (auto simp: triple_def on_journal_def split: sum.splits prod.splits)

text \<open>The phase alone, on any platform.\<close>

abbreviation keeps :: "'w recovery \<Rightarrow> bool" where
  "keeps f \<equiv> \<forall>p. triple (\<lambda>s. ph s = p) f (\<lambda>s. ph s = p) (\<lambda>s. ph s = p)"

lemma keepsD: "keeps f \<Longrightarrow> f s = (s', r) \<Longrightarrow> ph s' = ph s"
  unfolding triple_def by (cases r) fastforce+

lemma keeps_then: "keeps f \<Longrightarrow> keeps g \<Longrightarrow> keeps (then_do f g)"
  by (blast intro: triple_then)

lemma keeps_now: "(\<And>utc. keeps (f utc)) \<Longrightarrow> keeps (with_now P f)"
  by (auto intro: triple_now)

lemma keeps_journal:
  "(\<And>e e' r. op e = (e', r) \<Longrightarrow> tx_phase (transaction e') = tx_phase (transaction e)) \<Longrightarrow> keeps (on_journal op)"
  by (auto intro: triple_journal)

lemma keeps_store: "keeps (store P)"
  by (auto simp: triple_def store_def split: prod.splits sum.splits)

lemma keeps_action: "keeps (run_action lib P name c)"
proof -
  have complete: "keeps (with_now P (\<lambda>utc. on_journal (complete_transition lib utc ms outcome)))" for ms outcome
    by (intro keeps_now keeps_journal) (rule op_keeps_phase)
  have "keeps (close_interrupted lib P)"
    using keeps_then [OF complete keeps_store, of 0 Transition_Failed] unfolding triple_def close_interrupted_def by auto
  moreover have "keeps (record_intent lib P name)"
    unfolding record_intent_def by (intro keeps_then keeps_store keeps_now keeps_journal) (rule op_keeps_phase)
  moreover have "keeps (perform lib P c)"
  proof (intro allI tripleI)
    fix p s s' r assume s: "ph s = p" and f: "perform lib P c s = (s', r)"
    obtain w r0 where call: "backend P c (fst s) (snd s) = (w, r0)" by (cases "backend P c (fst s) (snd s)")
    have "keeps (\<lambda>s. (s, case r0 of Inl err \<Rightarrow> Err (Platform_Error err) | Inr _ \<Rightarrow> Ok ()))"
      by (auto simp: triple_def split: sum.splits)
    note all = keeps_then [OF complete keeps_then [OF keeps_store this], of "elapsed_ms P w"]
    have "ph s' = ph (fst s, w)" using f unfolding perform_def call prod.case by (rule keepsD [OF all])
    then show "case r of Inr _ \<Rightarrow> ph s' = p | Inl _ \<Rightarrow> ph s' = p" using s by (simp split: sum.splits)
  qed
  ultimately show ?thesis unfolding run_action_def by (intro keeps_then)
qed

lemma transition_phase:
  "triple (\<lambda>s. ph s = p) (transition lib P q) (\<lambda>s. ph s = q \<and> (p = q \<or> can_transition_to p q))
     (\<lambda>s. ph s = p \<or> ph s = q \<and> can_transition_to p q)"
proof -
  have "triple (\<lambda>s. ph s = p) (on_journal (envelope_transition lib q))
      (\<lambda>s. ph s = q \<and> (p = q \<or> can_transition_to p q)) (\<lambda>s. ph s = p \<or> ph s = q \<and> can_transition_to p q)"
    by (rule triple_journal; use envelope_transition_phase(1,2) [of lib q] in fastforce)
  moreover have "triple (\<lambda>s. ph s = q \<and> (p = q \<or> can_transition_to p q)) (store P)
      (\<lambda>s. ph s = q \<and> (p = q \<or> can_transition_to p q)) (\<lambda>s. ph s = p \<or> ph s = q \<and> can_transition_to p q)"
    by (auto simp: triple_def store_def split: prod.splits sum.splits)
  ultimately show ?thesis unfolding transition_def by (rule triple_then)
qed

lemma move_on_rank:
  assumes "move_on (transition lib P q) s = (s', Continue)" and "ph s \<noteq> q"
  shows "rank (ph s') < rank (ph s)" and "ph s' = q"
proof -
  have "transition lib P q s = (s', Inr ())" using assms(1) by (auto simp: move_on_def split: prod.splits sum.splits)
  from tripleD(1) [OF transition_phase refl this] assms(2)
  show "rank (ph s') < rank (ph s)" "ph s' = q" by (simp_all add: can_transition_rank)
qed

lemma act_rank:
  assumes "act lib P p name c q s = (s', Continue)" and "ph s = p" and "can_transition_to p q"
    and "p = Prepared \<or> is_rollback_phase p \<or> rank RollbackRequested < rank p \<and> q \<noteq> RollbackRequested"
  shows "rank (ph s') < rank p"
proof -
  let ?both = "then_do (run_action lib P name c) (transition lib P q)"
  have both: "triple (\<lambda>s. ph s = p) ?both (\<lambda>s. ph s = q) (\<lambda>s. ph s = p \<or> ph s = q)"
    by (rule triple_then [OF triple_weaken [OF keeps_action [rule_format]] triple_weaken [OF transition_phase]]) auto
  obtain s1 r1 where r1: "?both s = (s1, r1)" by (cases "?both s")
  show ?thesis
  proof (cases r1)
    case (Inr u)
    then show ?thesis using tripleD(1) [OF both] assms r1 can_transition_rank by (auto simp: act_def)
  next
    case (Inl err)
    then have s1: "ph s1 = p \<or> ph s1 = q" using tripleD(2) [OF both] assms(2) r1 by blast
    let ?f = "failure_of p err"
    let ?rec = "then_do (on_journal (record_failure lib (rf_step ?f) (rf_code ?f))) (store P)"
    have keep: "keeps ?rec" by (intro keeps_then keeps_store keeps_journal) (rule op_keeps_phase)
    obtain s2 r2 where r2: "?rec s1 = (s2, r2)" by (cases "?rec s1")
    have h: "handle_failure lib P p err s1 = (s', Continue)" using assms(1) r1 Inl by (simp add: act_def)
    then have fwd: "\<not> is_rollback_phase p" "p \<noteq> Prepared" and ok: "r2 = Ok ()"
      and mv: "move_on (transition lib P RollbackRequested) s2 = (s', Continue)"
      using r2 by (auto simp: handle_failure_def Let_def split: sum.splits prod.splits if_splits)
    have "ph s2 = ph s1" using tripleD(1) [OF keep [rule_format, of "ph s1"] refl] r2 ok by blast
    then have "ph s2 \<noteq> RollbackRequested" using s1 fwd assms(4) by auto
    from move_on_rank(2) [OF mv this] show ?thesis using fwd assms(4) by auto
  qed
qed

lemma step_rank:
  assumes "recover_step lib P s = (s', Continue)"
  shows "rank (ph s') < rank (ph s)"
proof (cases "ph s \<in> {FinalPathVerified, TargetStartRequested, OldServiceRestarted}")
  case True
  then obtain q where "move_on (transition lib P q) s = (s', Continue)" "ph s \<noteq> q"
    using assms by (auto simp: recover_step_def)
  then show ?thesis by (rule move_on_rank(1))
next
  case False
  then obtain c name q where "act lib P (ph s) name c q s = (s', Continue)" "can_transition_to (ph s) q"
      "ph s = Prepared \<or> is_rollback_phase (ph s) \<or> rank RollbackRequested < rank (ph s) \<and> q \<noteq> RollbackRequested"
    using assms
    by (cases "ph s") (auto simp: recover_step_def can_transition_to_def is_rollback_phase_def finish_with_def
        split: if_splits prod.splits sum.splits)
  then show ?thesis by (rule act_rank [OF _ refl])
qed

section \<open>Recording what a run does\<close>

text \<open>The same platform with a log of what was persisted and called, newest first.\<close>

datatype event = Persisted TransactionEnvelope bool | Called backend_call TransactionEnvelope bool

definition logged :: "'w platform \<Rightarrow> ('w \<times> event list) platform" where
  "logged P =
     \<lparr>persist = (\<lambda>e w. case persist P e (fst w) of (w', r) \<Rightarrow> ((w', Persisted e (is_ok r) # snd w), r)),
      backend = (\<lambda>c e w. case backend P c e (fst w) of (w', r) \<Rightarrow> ((w', Called c e (is_ok r) # snd w), r)),
      now_utc = (\<lambda>w. case now_utc P (fst w) of (w', utc) \<Rightarrow> ((w', snd w), utc)),
      elapsed_ms = (\<lambda>w. elapsed_ms P (fst w))\<rparr>"

lemma logged_simps:
  "backend (logged P) c e w = (case backend P c e (fst w) of (w', r) \<Rightarrow> ((w', Called c e (is_ok r) # snd w), r))"
  "elapsed_ms (logged P) w = elapsed_ms P (fst w)"
  by (simp_all add: logged_def)

abbreviation log_of :: "TransactionEnvelope \<times> 'w \<times> event list \<Rightarrow> event list" where
  "log_of s \<equiv> snd (snd s)"

text \<open>The phase in which a call is made, and its name in the timeline.\<close>

fun call_phase :: "backend_call \<Rightarrow> TransactionPhase" where
  "call_phase Verify_Handoff = Prepared"
| "call_phase Install_And_Verify_Target = HelperStarted"
| "call_phase Stop_Old_Service = OldServiceStopRequested"
| "call_phase Change_To_Target = OldServiceStopped"
| "call_phase Start_Target = ImagePathChanged"
| "call_phase Health_And_Commit_Target = TargetHealthPending"
| "call_phase Finalize_Commit = TargetCommitted"
| "call_phase Stop_Target = RollbackRequested"
| "call_phase Restore_Old_Configuration = TargetStopped"
| "call_phase Start_And_Abort_Old = OldPathRestored"

fun call_name :: "backend_call \<Rightarrow> string" where
  "call_name Verify_Handoff = ''update.verification''"
| "call_name Install_And_Verify_Target = ''update.preinstall''"
| "call_name Stop_Old_Service = ''update.service_stop''"
| "call_name Change_To_Target = ''update.image_path_switch''"
| "call_name Start_Target = ''update.target_start''"
| "call_name Health_And_Commit_Target = ''update.target_health''"
| "call_name Finalize_Commit = ''update.commit''"
| "call_name Stop_Target = ''update.rollback_target_stop''"
| "call_name Restore_Old_Configuration = ''update.rollback_restore_configuration''"
| "call_name Start_And_Abort_Old = ''update.rollback_old_start''"

text \<open>The intent of a call is on record: the envelope is in the phase of the call and its newest timeline
  entry is open and names the call.\<close>

definition intent_recorded :: "backend_call \<Rightarrow> TransactionEnvelope \<Rightarrow> bool" where
  "intent_recorded c e \<longleftrightarrow>
     tx_phase (transaction e) = call_phase c \<and> has_active_transition (transaction e) \<and>
     tr_phase (last (timeline (transaction e))) = str (call_name c)"

fun write_ahead :: "event list \<Rightarrow> bool" where
  "write_ahead [] \<longleftrightarrow> True"
| "write_ahead (Persisted e b # log) \<longleftrightarrow> write_ahead log"
| "write_ahead (Called c e b # log) \<longleftrightarrow>
     (case log of Persisted e' True # _ \<Rightarrow> e' = e \<and> intent_recorded c e | _ \<Rightarrow> False) \<and> write_ahead log"

text \<open>The phase of the journal on disk, and that it only moves along the phase table.\<close>

fun disk :: "TransactionPhase \<Rightarrow> event list \<Rightarrow> TransactionPhase" where
  "disk p0 [] = p0"
| "disk p0 (Persisted e b # log) = (if b then tx_phase (transaction e) else disk p0 log)"
| "disk p0 (Called c e b # log) = disk p0 log"

fun along_table :: "TransactionPhase \<Rightarrow> event list \<Rightarrow> bool" where
  "along_table p0 [] \<longleftrightarrow> True"
| "along_table p0 (Persisted e b # log) \<longleftrightarrow>
     (b \<longrightarrow> disk p0 log = tx_phase (transaction e) \<or> can_transition_to (disk p0 log) (tx_phase (transaction e)))
     \<and> along_table p0 log"
| "along_table p0 (Called c e b # log) \<longleftrightarrow> along_table p0 log"

text \<open>The calls, oldest first, each with whether it succeeded.\<close>

type_synonym tried_call = "backend_call \<times> bool"

fun calls :: "event list \<Rightarrow> tried_call list" where
  "calls [] = []"
| "calls (Persisted e b # log) = calls log"
| "calls (Called c e b # log) = calls log @ [(c, b)]"

abbreviation all_ok :: "backend_call list \<Rightarrow> tried_call list" where
  "all_ok \<equiv> map (\<lambda>c. (c, True))"

text \<open>What a phase with the call \<open>c\<close> can have added to the calls \<open>cs\<close> when it fails.\<close>

definition tried :: "backend_call \<Rightarrow> tried_call list \<Rightarrow> tried_call list set" where
  "tried c cs = {cs, cs @ [(c, False)], cs @ [(c, True)]}"

lemma triedI [simp]: "cs \<in> tried c cs" "cs @ [(c, b)] \<in> tried c cs"
  by (cases b; simp add: tried_def)+

definition audited :: "TransactionPhase \<Rightarrow> event list \<Rightarrow> bool" where
  "audited p0 log \<longleftrightarrow> write_ahead log \<and> along_table p0 log"

text \<open>In phase \<open>p\<close>, also on disk, with the calls \<open>cs\<close> made; and in the middle of moving from \<open>p\<close> to \<open>q\<close>.\<close>

definition at_phase ::
    "TransactionPhase \<Rightarrow> TransactionPhase \<Rightarrow> tried_call list \<Rightarrow> TransactionEnvelope \<times> 'w \<times> event list \<Rightarrow> bool" where
  "at_phase p0 p cs s \<longleftrightarrow> audited p0 (log_of s) \<and> disk p0 (log_of s) = p \<and> ph s = p \<and> calls (log_of s) = cs"

definition moving ::
    "TransactionPhase \<Rightarrow> TransactionPhase \<Rightarrow> TransactionPhase \<Rightarrow> tried_call list \<Rightarrow> TransactionEnvelope \<times> 'w \<times> event list \<Rightarrow> bool" where
  "moving p0 p q cs s \<longleftrightarrow>
     audited p0 (log_of s) \<and> disk p0 (log_of s) = p \<and> (ph s = p \<or> ph s = q \<and> can_transition_to p q)
     \<and> calls (log_of s) = cs"

lemma at_phase_moving: "at_phase p0 p cs s \<Longrightarrow> moving p0 p q cs s"
  by (simp add: at_phase_def moving_def)

lemma store_logged:
  "store (logged P) (e, w, log) =
     (case persist P e w of
        (w', Inl err) \<Rightarrow> ((e, w', Persisted e False # log), Err (Platform_Error err))
      | (w', Inr _) \<Rightarrow> ((e, w', Persisted e True # log), Ok ()))"
  by (simp add: store_def logged_def split: prod.splits sum.splits)

lemma triple_store:
  assumes "\<And>e w w' log. I (e, w, log) \<Longrightarrow> J (e, w', Persisted e True # log)"
    and "\<And>e w w' log. I (e, w, log) \<Longrightarrow> E (e, w', Persisted e False # log)"
  shows "triple I (store (logged P)) J E"
  using assms by (auto simp: triple_def store_logged split: prod.splits sum.splits)

lemma store_at: "triple (at_phase p0 p cs) (store (logged P)) (at_phase p0 p cs) (at_phase p0 p cs)"
  by (rule triple_store) (auto simp: at_phase_def audited_def)

lemma journal_at:
  assumes "\<And>e e' r. op e = (e', r) \<Longrightarrow> tx_phase (transaction e') = tx_phase (transaction e)"
  shows "triple (at_phase p0 p cs) (on_journal op) (at_phase p0 p cs) (at_phase p0 p cs)"
  by (rule triple_journal) (auto simp: at_phase_def dest: assms)

lemma now_at: "(\<And>utc. triple (at_phase p0 p cs) (f utc) J E) \<Longrightarrow> triple (at_phase p0 p cs) (with_now (logged P) f) J E"
  by (erule triple_now) (auto simp: at_phase_def logged_def split: prod.splits)

lemma close_at: "triple (at_phase p0 p cs) (close_interrupted lib (logged P)) (at_phase p0 p cs) (at_phase p0 p cs)"
proof -
  have "triple (at_phase p0 p cs)
      (then_do (with_now (logged P) (\<lambda>utc. on_journal (complete_transition lib utc 0 Transition_Failed))) (store (logged P)))
      (at_phase p0 p cs) (at_phase p0 p cs)"
    by (rule triple_then [OF now_at store_at]) (rule journal_at, rule op_keeps_phase)
  then show ?thesis unfolding triple_def close_interrupted_def by (auto split: if_splits)
qed

text \<open>The intent of a call has just been persisted.\<close>

definition ready ::
    "TransactionPhase \<Rightarrow> backend_call \<Rightarrow> tried_call list \<Rightarrow> TransactionEnvelope \<times> 'w \<times> event list \<Rightarrow> bool" where
  "ready p0 c cs s \<longleftrightarrow> at_phase p0 (call_phase c) cs s \<and> intent_recorded c (fst s)
     \<and> (\<exists>log. log_of s = Persisted (fst s) True # log)"

lemma begin_transition_Ok:
  assumes "begin_transition lib name actor utc e = (e', Ok ())"
  shows "has_active_transition (transaction e')" and "tr_phase (last (timeline (transaction e'))) = name"
  using assms
  by (auto simp: begin_transition_def guarded_change_def seal_def has_active_transition_def started_transition_def Let_def
      and_then_Ok_iff split: sum.splits prod.splits option.splits if_splits)

lemma intent_at:
  "triple (at_phase p0 (call_phase c) cs) (record_intent lib (logged P) (str (call_name c)))
     (ready p0 c cs) (at_phase p0 (call_phase c) cs)"
proof -
  let ?begun = "\<lambda>s. at_phase p0 (call_phase c) cs s \<and> intent_recorded c (fst s)"
  have "triple (at_phase p0 (call_phase c) cs) (on_journal (begin_transition lib (str (call_name c)) Actor_Updater utc))
      ?begun (at_phase p0 (call_phase c) cs)" for utc
    by (rule triple_journal)
       (auto simp: at_phase_def intent_recorded_def dest: op_keeps_phase(1) begin_transition_Ok)
  moreover have "triple ?begun (store (logged P)) (ready p0 c cs) (at_phase p0 (call_phase c) cs)"
    by (rule triple_store) (auto simp: at_phase_def ready_def audited_def)
  ultimately show ?thesis unfolding record_intent_def by (intro triple_then now_at)
qed

lemma ready_called:
  assumes "ready p0 c cs (e, w, log)"
  shows "at_phase p0 (call_phase c) (cs @ [(c, b)]) (e, w', Called c e b # log)"
  using assms by (auto simp: ready_def at_phase_def audited_def)

lemma perform_at:
  "triple (ready p0 c cs) (perform lib (logged P) c) (at_phase p0 (call_phase c) (cs @ [(c, True)]))
     (\<lambda>s. \<exists>cs' \<in> tried c cs. at_phase p0 (call_phase c) cs' s)"
proof (rule tripleI)
  fix s s' :: "TransactionEnvelope \<times> 'a \<times> event list" and r
  assume ready: "ready p0 c cs s" and f: "perform lib (logged P) c s = (s', r)"
  obtain e w log where s: "s = (e, w, log)" by (cases s)
  obtain w' r0 where call: "backend P c e w = (w', r0)" by (cases "backend P c e w")
  let ?cs = "cs @ [(c, is_ok r0)]"
  let ?at = "at_phase p0 (call_phase c) ?cs :: TransactionEnvelope \<times> 'a \<times> event list \<Rightarrow> bool"
  let ?finish = "\<lambda>s. (s, case r0 of Inl err \<Rightarrow> Err (Platform_Error err) | Inr _ \<Rightarrow> Ok ())"
  have finish: "triple ?at ?finish (\<lambda>s. ?at s \<and> is_ok r0) ?at" by (auto simp: triple_def split: sum.splits)
  have "triple ?at
      (then_do (with_now (logged P) (\<lambda>utc. on_journal (complete_transition lib utc (elapsed_ms P w')
          (if is_ok r0 then Transition_Succeeded else Transition_Failed))))
        (then_do (store (logged P)) ?finish))
      (\<lambda>s. ?at s \<and> is_ok r0) ?at"
    by (rule triple_then [OF now_at [OF journal_at] triple_then [OF store_at finish]]) (rule op_keeps_phase(2))
  moreover have "?at (e, w', Called c e (is_ok r0) # log)" by (rule ready_called [OF ready [unfolded s]])
  moreover have "then_do (with_now (logged P) (\<lambda>utc. on_journal (complete_transition lib utc (elapsed_ms P w')
          (if is_ok r0 then Transition_Succeeded else Transition_Failed))))
        (then_do (store (logged P)) ?finish) (e, w', Called c e (is_ok r0) # log) = (s', r)"
    using f by (simp add: perform_def s call logged_simps)
  ultimately have "case r of Inr _ \<Rightarrow> ?at s' \<and> is_ok r0 | Inl _ \<Rightarrow> ?at s'" unfolding triple_def by blast
  then show "case r of Inr _ \<Rightarrow> at_phase p0 (call_phase c) (cs @ [(c, True)]) s'
      | Inl _ \<Rightarrow> \<exists>cs' \<in> tried c cs. at_phase p0 (call_phase c) cs' s'"
    by (cases r) (auto intro: triedI)
qed

lemma action_at:
  "triple (at_phase p0 (call_phase c) cs) (run_action lib (logged P) (str (call_name c)) c)
     (at_phase p0 (call_phase c) (cs @ [(c, True)])) (\<lambda>s. \<exists>cs' \<in> tried c cs. at_phase p0 (call_phase c) cs' s)"
  unfolding run_action_def
  by (rule triple_then [OF triple_weaken [OF close_at] triple_then [OF triple_weaken [OF intent_at] perform_at]]) (auto intro: triedI)

lemma transition_at:
  "triple (at_phase p0 p cs) (transition lib (logged P) q)
     (\<lambda>s. at_phase p0 q cs s \<and> (p = q \<or> can_transition_to p q)) (moving p0 p q cs)"
proof -
  let ?moved = "\<lambda>s. moving p0 p q cs s \<and> ph s = q"
  have "triple (at_phase p0 p cs) (on_journal (envelope_transition lib q)) ?moved (moving p0 p q cs)"
    by (rule triple_journal) (auto simp: at_phase_def moving_def dest: envelope_transition_phase)
  moreover have "triple ?moved (store (logged P)) (\<lambda>s. at_phase p0 q cs s \<and> (p = q \<or> can_transition_to p q)) (moving p0 p q cs)"
    by (rule triple_store) (auto simp: at_phase_def moving_def audited_def)
  ultimately show ?thesis unfolding transition_def by (rule triple_then)
qed

section \<open>The body of the loop\<close>

definition body_triple ::
    "(TransactionEnvelope \<times> 'w \<Rightarrow> bool) \<Rightarrow> 'w loop_body \<Rightarrow> (TransactionEnvelope \<times> 'w \<Rightarrow> bool)
      \<Rightarrow> (TransactionEnvelope \<times> 'w \<Rightarrow> (RecoveryOutcome, recovery_error) result \<Rightarrow> bool) \<Rightarrow> bool" where
  "body_triple I b C R \<longleftrightarrow> (\<forall>s s' k. I s \<longrightarrow> b s = (s', k) \<longrightarrow> (case k of Continue \<Rightarrow> C s' | Return r \<Rightarrow> R s' r))"

lemma body_tripleD: "body_triple I b C R \<Longrightarrow> I s \<Longrightarrow> b s = (s', k) \<Longrightarrow> (case k of Continue \<Rightarrow> C s' | Return r \<Rightarrow> R s' r)"
  unfolding body_triple_def by blast

lemma body_weaken:
  assumes "body_triple I b C R" "\<And>s. I' s \<Longrightarrow> I s" "\<And>s. C s \<Longrightarrow> C' s" "\<And>s r. R s r \<Longrightarrow> R' s r"
  shows "body_triple I' b C' R'"
  using assms unfolding body_triple_def by (fastforce split: loop_control.splits)

lemma body_disj: "body_triple I b C R \<Longrightarrow> body_triple I' b C R \<Longrightarrow> body_triple (\<lambda>s. I s \<or> I' s) b C R"
  unfolding body_triple_def by blast

text \<open>The loop stops with an error and an audited log.\<close>

definition stopped :: "TransactionPhase \<Rightarrow> TransactionEnvelope \<times> 'w \<times> event list
    \<Rightarrow> (RecoveryOutcome, recovery_error) result \<Rightarrow> bool" where
  "stopped p0 s r \<longleftrightarrow> audited p0 (log_of s) \<and> (\<exists>err. r = Err err)"

lemma move_on_at:
  "body_triple (at_phase p0 p cs) (move_on (transition lib (logged P) q))
     (\<lambda>s. at_phase p0 q cs s \<and> (p = q \<or> can_transition_to p q)) (stopped p0)"
  using tripleD [OF transition_at [of p0 p cs lib P q]]
  by (fastforce simp: body_triple_def move_on_def stopped_def moving_def split: prod.splits sum.splits)

lemma record_at:
  "triple (moving p0 p q cs) (then_do (on_journal (record_failure lib step code)) (store (logged P)))
     (\<lambda>s. \<exists>p' \<in> {p, q}. at_phase p0 p' cs s) (\<lambda>s. audited p0 (log_of s))"
proof -
  have "triple (moving p0 p q cs) (on_journal (record_failure lib step code)) (moving p0 p q cs) (\<lambda>s. audited p0 (log_of s))"
    by (rule triple_journal) (auto simp: moving_def dest: op_keeps_phase(3))
  moreover have "triple (moving p0 p q cs) (store (logged P)) (\<lambda>s. \<exists>p' \<in> {p, q}. at_phase p0 p' cs s)
      (\<lambda>s. audited p0 (log_of s))"
    by (rule triple_store) (auto simp: moving_def at_phase_def audited_def)
  ultimately show ?thesis by (rule triple_then)
qed

lemma failure_at:
  "body_triple (moving p0 p q cs) (handle_failure lib (logged P) p err)
     (\<lambda>s. at_phase p0 RollbackRequested cs s \<and> \<not> is_rollback_phase p \<and> p \<noteq> Prepared) (stopped p0)"
  unfolding body_triple_def
proof (intro allI impI)
  fix s s' :: "TransactionEnvelope \<times> 'a \<times> event list" and k
  assume I: "moving p0 p q cs s" and b: "handle_failure lib (logged P) p err s = (s', k)"
  let ?f = "failure_of p err"
  obtain s1 r1 where rec: "then_do (on_journal (record_failure lib (rf_step ?f) (rf_code ?f))) (store (logged P)) s = (s1, r1)"
    by (cases "then_do (on_journal (record_failure lib (rf_step ?f) (rf_code ?f))) (store (logged P)) s")
  show "case k of Continue \<Rightarrow> at_phase p0 RollbackRequested cs s' \<and> \<not> is_rollback_phase p \<and> p \<noteq> Prepared
      | Return r \<Rightarrow> stopped p0 s' r"
  proof (cases r1)
    case (Inl e1)
    then show ?thesis using tripleD(2) [OF record_at I rec [unfolded Inl]] rec b by (auto simp: handle_failure_def Let_def stopped_def)
  next
    case (Inr u)
    then obtain p' where p': "at_phase p0 p' cs s1" using tripleD(1) [OF record_at I rec [unfolded Inr]] by auto
    show ?thesis
    proof (cases "rf_disposition ?f = Quarantine_Disposition \<or> is_rollback_phase p \<or> p = Prepared")
      case True
      then show ?thesis
        using b rec Inr p' tripleD [OF transition_at p', of lib P PhaseQuarantined]
        by (auto simp: handle_failure_def Let_def stopped_def moving_def at_phase_def
            split: prod.splits sum.splits if_splits)
    next
      case False
      then have "move_on (transition lib (logged P) RollbackRequested) s1 = (s', k)"
        using b rec Inr by (simp add: handle_failure_def Let_def)
      then show ?thesis using move_on_at [of p0 p' cs lib P RollbackRequested] p' False
        unfolding body_triple_def by (fastforce split: loop_control.splits)
    qed
  qed
qed

lemma act_at:
  assumes "can_transition_to (call_phase c) q"
  shows "body_triple (at_phase p0 (call_phase c) cs) (act lib (logged P) (call_phase c) (str (call_name c)) c q)
     (\<lambda>s. at_phase p0 q (cs @ [(c, True)]) s \<or>
        (\<exists>cs' \<in> tried c cs. at_phase p0 RollbackRequested cs' s) \<and> \<not> is_rollback_phase (call_phase c) \<and> call_phase c \<noteq> Prepared)
     (stopped p0)"
  unfolding body_triple_def
proof (intro allI impI)
  fix s s' :: "TransactionEnvelope \<times> 'a \<times> event list" and k
  assume I: "at_phase p0 (call_phase c) cs s"
    and b: "act lib (logged P) (call_phase c) (str (call_name c)) c q s = (s', k)"
  let ?both = "then_do (run_action lib (logged P) (str (call_name c)) c) (transition lib (logged P) q)"
  have "triple (at_phase p0 (call_phase c) cs) ?both (at_phase p0 q (cs @ [(c, True)]))
      (\<lambda>s. \<exists>cs' \<in> tried c cs. moving p0 (call_phase c) q cs' s)"
    by (rule triple_then [OF triple_weaken [OF action_at] triple_weaken [OF transition_at]])
       (auto intro: at_phase_moving)
  note both = tripleD [OF this I]
  obtain s1 r1 where r1: "?both s = (s1, r1)" by (cases "?both s")
  show "case k of Continue \<Rightarrow> at_phase p0 q (cs @ [(c, True)]) s' \<or>
        (\<exists>cs' \<in> tried c cs. at_phase p0 RollbackRequested cs' s') \<and> \<not> is_rollback_phase (call_phase c) \<and> call_phase c \<noteq> Prepared
      | Return r \<Rightarrow> stopped p0 s' r"
  proof (cases r1)
    case (Inl err)
    then obtain cs' where "cs' \<in> tried c cs" "moving p0 (call_phase c) q cs' s1" using both(2) r1 by blast
    moreover have "handle_failure lib (logged P) (call_phase c) err s1 = (s', k)" using b r1 Inl by (simp add: act_def)
    ultimately show ?thesis using failure_at [of p0 "call_phase c" q cs' lib P err] unfolding body_triple_def
      by (fastforce split: loop_control.splits)
  qed (use b r1 both(1) in \<open>auto simp: act_def\<close>)
qed

section \<open>The calls of a run\<close>

text \<open>The calls that a phase still has before it when all goes well, on the way to the commit and on the
  way back.\<close>

fun forward_left :: "TransactionPhase \<Rightarrow> backend_call list option" where
  "forward_left Prepared = Some [Verify_Handoff, Install_And_Verify_Target, Stop_Old_Service, Change_To_Target,
     Start_Target, Health_And_Commit_Target]"
| "forward_left HelperStarted = Some [Install_And_Verify_Target, Stop_Old_Service, Change_To_Target, Start_Target,
     Health_And_Commit_Target]"
| "forward_left FinalPathVerified = Some [Stop_Old_Service, Change_To_Target, Start_Target, Health_And_Commit_Target]"
| "forward_left OldServiceStopRequested = Some [Stop_Old_Service, Change_To_Target, Start_Target, Health_And_Commit_Target]"
| "forward_left OldServiceStopped = Some [Change_To_Target, Start_Target, Health_And_Commit_Target]"
| "forward_left ImagePathChanged = Some [Start_Target, Health_And_Commit_Target]"
| "forward_left TargetStartRequested = Some [Health_And_Commit_Target]"
| "forward_left TargetHealthPending = Some [Health_And_Commit_Target]"
| "forward_left TargetCommitted = Some []"
| "forward_left _ = None"

definition all_rollback :: "backend_call list" where
  "all_rollback = [Stop_Target, Restore_Old_Configuration, Start_And_Abort_Old]"

fun rollback_left :: "TransactionPhase \<Rightarrow> backend_call list option" where
  "rollback_left RollbackRequested = Some [Stop_Target, Restore_Old_Configuration, Start_And_Abort_Old]"
| "rollback_left TargetStopped = Some [Restore_Old_Configuration, Start_And_Abort_Old]"
| "rollback_left OldPathRestored = Some [Start_And_Abort_Old]"
| "rollback_left OldServiceRestarted = Some []"
| "rollback_left RollbackComplete = Some []"
| "rollback_left _ = None"

text \<open>The calls of a run that began in the forward phase \<open>p0\<close> and gave up in a later one.\<close>

definition gave_up :: "TransactionPhase \<Rightarrow> tried_call list \<Rightarrow> bool" where
  "gave_up p0 cs \<longleftrightarrow>
     (\<exists>made c rest. forward_left p0 = Some (made @ c # rest) \<and> c \<noteq> Verify_Handoff \<and> cs \<in> tried c (all_ok made))"

text \<open>The calls of a run that began in phase \<open>p0\<close> and is in phase \<open>p\<close>.\<close>

definition trail :: "TransactionPhase \<Rightarrow> TransactionPhase \<Rightarrow> tried_call list \<Rightarrow> bool" where
  "trail p0 p cs \<longleftrightarrow>
     (\<exists>made rest. forward_left p0 = Some (made @ rest) \<and> forward_left p = Some rest \<and> cs = all_ok made)
   \<or> (\<exists>made rest. rollback_left p0 = Some (made @ rest) \<and> rollback_left p = Some rest \<and> cs = all_ok made)
   \<or> (\<exists>cs0 made rest. gave_up p0 cs0 \<and> all_rollback = made @ rest \<and> rollback_left p = Some rest \<and> cs = cs0 @ all_ok made)
   \<or> p0 = PhaseQuarantined \<and> p = PhaseQuarantined \<and> cs = []"

text \<open>Whether the commit had been finalised.\<close>

abbreviation finalized :: "TransactionEnvelope \<Rightarrow> bool" where
  "finalized e \<equiv> completed_action e (str ''update.commit'')"

definition on_track :: "TransactionPhase \<Rightarrow> bool \<Rightarrow> TransactionEnvelope \<times> 'w \<times> event list \<Rightarrow> bool" where
  "on_track p0 fin s \<longleftrightarrow> finalized (fst s) = fin \<and> (\<exists>p cs. at_phase p0 p cs s \<and> trail p0 p cs)"

text \<open>What a run ends with.\<close>

definition concluded :: "TransactionPhase \<Rightarrow> bool \<Rightarrow> TransactionEnvelope \<times> 'w \<times> event list
    \<Rightarrow> (RecoveryOutcome, recovery_error) result \<Rightarrow> bool" where
  "concluded p0 fin s r \<longleftrightarrow> audited p0 (log_of s) \<and>
     (case r of
        Inl err \<Rightarrow> True
      | Inr Outcome_Committed \<Rightarrow> ph s = TargetCommitted
          \<and> (\<exists>rest. forward_left p0 = Some rest
               \<and> calls (log_of s) = all_ok (rest @ (if fin then [] else [Finalize_Commit])))
      | Inr Outcome_RolledBack \<Rightarrow> ph s = RollbackComplete
          \<and> ((\<exists>rest. rollback_left p0 = Some rest \<and> calls (log_of s) = all_ok rest)
             \<or> (\<exists>cs0. gave_up p0 cs0 \<and> calls (log_of s) = cs0 @ all_ok all_rollback))
      | Inr Outcome_Quarantined \<Rightarrow> ph s = PhaseQuarantined \<and> p0 = PhaseQuarantined \<and> calls (log_of s) = [])"

lemma stopped_concluded: "stopped p0 s r \<Longrightarrow> concluded p0 fin s r"
  by (auto simp: stopped_def concluded_def)

text \<open>A call takes the trail of its phase to that of the next; when a forward phase fails, a rollback begins.\<close>

definition act_table :: "(backend_call \<times> TransactionPhase) list" where
  "act_table =
     [(Verify_Handoff, HelperStarted), (Install_And_Verify_Target, FinalPathVerified), (Stop_Old_Service, OldServiceStopped),
      (Change_To_Target, ImagePathChanged), (Start_Target, TargetStartRequested), (Health_And_Commit_Target, TargetCommitted),
      (Stop_Target, TargetStopped), (Restore_Old_Configuration, OldPathRestored), (Start_And_Abort_Old, OldServiceRestarted)]"

lemma act_table_step: "(c, q) \<in> set act_table \<Longrightarrow> can_transition_to (call_phase c) q"
  by (cases c) (simp_all add: act_table_def can_transition_to_def)

lemma act_table_left:
  assumes "(c, q) \<in> set act_table"
  shows "forward_left (call_phase c) = map_option (Cons c) (forward_left q)"
    and "rollback_left (call_phase c) = map_option (Cons c) (rollback_left q)"
    and "\<not> is_rollback_phase (call_phase c) \<Longrightarrow> forward_left q \<noteq> None"
    and "c \<noteq> Finalize_Commit" and "call_phase c \<noteq> PhaseQuarantined"
  using assms by (cases c; simp add: act_table_def is_rollback_phase_def)+

lemma act_table_trail:
  assumes "(c, q) \<in> set act_table" and "trail p0 (call_phase c) cs"
  shows "trail p0 q (cs @ [(c, True)])"
proof -
  note left = act_table_left [OF assms(1)]
  consider
      (forward) made rest where "forward_left p0 = Some (made @ c # rest)" "forward_left q = Some rest" "cs = all_ok made"
    | (rollback) made rest where "rollback_left p0 = Some (made @ c # rest)" "rollback_left q = Some rest" "cs = all_ok made"
    | (failed) cs0 made rest where "gave_up p0 cs0" "all_rollback = made @ c # rest" "rollback_left q = Some rest"
        "cs = cs0 @ all_ok made"
    using assms(2) left(5) unfolding trail_def left(1,2) map_option_eq_Some by blast
  then show ?thesis
  proof cases
    case (forward made rest)
    then have "forward_left p0 = Some ((made @ [c]) @ rest)" "cs @ [(c, True)] = all_ok (made @ [c])" by simp_all
    with forward(2) show ?thesis unfolding trail_def by blast
  next
    case (rollback made rest)
    then have "rollback_left p0 = Some ((made @ [c]) @ rest)" "cs @ [(c, True)] = all_ok (made @ [c])" by simp_all
    with rollback(2) show ?thesis unfolding trail_def by blast
  next
    case (failed cs0 made rest)
    then have "all_rollback = (made @ [c]) @ rest" "cs @ [(c, True)] = cs0 @ all_ok (made @ [c])" by simp_all
    with failed(1,3) show ?thesis unfolding trail_def by blast
  qed
qed

lemma act_table_rollback:
  assumes "(c, q) \<in> set act_table" and "trail p0 (call_phase c) cs" and "\<not> is_rollback_phase (call_phase c)"
    and "call_phase c \<noteq> Prepared" and "cs' \<in> tried c cs"
  shows "trail p0 RollbackRequested cs'"
proof -
  note left = act_table_left [OF assms(1)]
  have "c \<noteq> Verify_Handoff" using assms(4) by auto
  moreover obtain rest where rest: "forward_left (call_phase c) = Some (c # rest)" using left(1,3) assms(3) by auto
  moreover have "rollback_left (call_phase c) = None" using assms(1,3) by (cases c) (simp_all add: act_table_def is_rollback_phase_def)
  ultimately have "gave_up p0 cs'" using assms(2,5) left(5) unfolding trail_def gave_up_def by auto
  then show ?thesis by (auto simp: trail_def all_rollback_def intro!: exI [of _ cs'])
qed

text \<open>Only the call that finalises the commit marks it as finalised.\<close>

lemma guarded_change_finalized:
  assumes "guarded_change lib change e = (e', r)"
    and "\<And>t r. validate_envelope lib e = Ok () \<Longrightarrow> change (transaction e) = (t, r)
      \<Longrightarrow> completed_action (e\<lparr>transaction := t\<rparr>) name = completed_action e name"
  shows "completed_action e' name = completed_action e name"
  using assms by (fastforce simp: guarded_change_def seal_def completed_action_def split: sum.splits prod.splits option.splits)

lemma stamp_completed:
  "list_ex (\<lambda>t. tr_phase t = name \<and> tr_outcome t = Some Transition_Succeeded) (stamp_failed code ts)
     = list_ex (\<lambda>t. tr_phase t = name \<and> tr_outcome t = Some Transition_Succeeded) ts"
proof -
  have "list_ex (\<lambda>t. tr_phase t = name \<and> tr_outcome t = Some Transition_Succeeded) (stamp_newest_first code xs)
      = list_ex (\<lambda>t. tr_phase t = name \<and> tr_outcome t = Some Transition_Succeeded) xs" for xs
    by (induction xs) auto
  then show ?thesis by (simp add: stamp_failed_def list_ex_iff)
qed

lemma started_open: "started_transition phase actor utc = Inr entry \<Longrightarrow> tr_outcome entry = None"
  by (auto simp: started_transition_def Let_def and_then_Ok_iff)

lemma op_keeps_completed:
  "envelope_transition lib q e = (e', r) \<Longrightarrow> completed_action e' name = completed_action e name"
  "record_failure lib step code e = (e', r) \<Longrightarrow> completed_action e' name = completed_action e name"
  "begin_transition lib ph' actor utc e = (e', r) \<Longrightarrow> completed_action e' name = completed_action e name"
  unfolding envelope_transition_def record_failure_def begin_transition_def
  by (erule guarded_change_finalized,
      fastforce simp: completed_action_def stamp_completed transaction_transition_def started_open
        split: if_splits sum.splits)+

lemma complete_keeps_completed:
  assumes "complete_transition lib utc ms outcome e = (e', r)"
    and "outcome = Transition_Succeeded \<Longrightarrow> tr_phase (last (timeline (transaction e))) \<noteq> name"
  shows "completed_action e' name = completed_action e name"
  using assms(1) unfolding complete_transition_def
proof (rule guarded_change_finalized)
  fix t r assume valid: "validate_envelope lib e = Ok ()"
    and t: "(if \<not> has_active_transition (transaction e) then (transaction e, Err No_Active_Transition)
       else case complete_entry utc ms outcome None (last (timeline (transaction e))) of
          (entry, r) \<Rightarrow> ((transaction e)\<lparr>timeline := butlast (timeline (transaction e)) @ [entry]\<rparr>, r)) = (t, r)"
  let ?ts = "timeline (transaction e)"
  show "completed_action (e\<lparr>transaction := t\<rparr>) name = completed_action e name"
  proof (cases "has_active_transition (transaction e)")
    case True
    then have ne: "?ts \<noteq> []" and open_entry: "completed_utc (last ?ts) = None" by (simp_all add: has_active_transition_def)
    have "validate_transition (last ?ts) = Ok ()"
      using validate_transactionD(2) [OF valid_envelopeD(1) [OF valid]] ne by simp
    then have "tr_outcome (last ?ts) = None" using open_entry by (auto simp: validate_transition_iff)
    moreover have "completed_action e name
        = list_ex (\<lambda>t. tr_phase t = name \<and> tr_outcome t = Some Transition_Succeeded) (butlast ?ts @ [last ?ts])"
      using ne by (simp add: completed_action_def)
    ultimately have "completed_action e name
        = list_ex (\<lambda>t. tr_phase t = name \<and> tr_outcome t = Some Transition_Succeeded) (butlast ?ts)"
      by (simp del: append_butlast_last_id)
    then show ?thesis using True t open_entry assms(2) by (auto simp: completed_action_def complete_entry_def Let_def)
  qed (use t in \<open>auto simp: completed_action_def\<close>)
qed

abbreviation keeps_completed :: "bytes \<Rightarrow> 'w recovery \<Rightarrow> bool" where
  "keeps_completed name f \<equiv> \<forall>k. triple (\<lambda>s. completed_action (fst s) name = k) f
     (\<lambda>s. completed_action (fst s) name = k) (\<lambda>s. completed_action (fst s) name = k)"

lemma store_keeps_completed: "keeps_completed name (store P)"
  by (auto simp: triple_def store_def split: prod.splits sum.splits)

lemma transition_keeps_completed: "keeps_completed name (transition lib P q)"
  unfolding transition_def
  by (intro allI triple_then [OF triple_journal store_keeps_completed [rule_format]]) (auto dest: op_keeps_completed(1))

lemma record_keeps_completed:
  "keeps_completed name (then_do (on_journal (record_failure lib step code)) (store P))"
  by (intro allI triple_then [OF triple_journal store_keeps_completed [rule_format]]) (auto dest: op_keeps_completed(2))

lemma perform_keeps_completed:
  assumes "name \<noteq> n'"
  shows "triple (\<lambda>s. completed_action (fst s) name = k \<and> tr_phase (last (timeline (transaction (fst s)))) = n')
    (perform lib P c) (\<lambda>s. completed_action (fst s) name = k) (\<lambda>s. completed_action (fst s) name = k)"
proof (rule tripleI)
  fix s s' r
  assume I: "completed_action (fst s) name = k \<and> tr_phase (last (timeline (transaction (fst s)))) = n'"
    and f: "perform lib P c s = (s', r)"
  let ?I = "\<lambda>s. completed_action (fst s) name = k \<and> tr_phase (last (timeline (transaction (fst s)))) = n'"
  let ?J = "\<lambda>s. completed_action (fst s) name = k"
  obtain w r0 where call: "backend P c (fst s) (snd s) = (w, r0)" by (cases "backend P c (fst s) (snd s)")
  have "triple ?I (on_journal (complete_transition lib utc (elapsed_ms P w)
      (if is_ok r0 then Transition_Succeeded else Transition_Failed))) ?J ?J" for utc
    by (rule triple_journal) (use assms in \<open>auto dest: complete_keeps_completed [where name = name]\<close>)
  then have now: "triple ?I (with_now P (\<lambda>utc. on_journal (complete_transition lib utc (elapsed_ms P w)
      (if is_ok r0 then Transition_Succeeded else Transition_Failed)))) ?J ?J"
    by (rule triple_now) simp
  have "triple ?J (\<lambda>s. (s, case r0 of Inl err \<Rightarrow> Err (Platform_Error err) | Inr _ \<Rightarrow> Ok ())) ?J ?J"
    by (auto simp: triple_def split: sum.splits)
  note rest = triple_then [OF store_keeps_completed [rule_format] this, of P]
  have "triple ?I (then_do (with_now P (\<lambda>utc. on_journal (complete_transition lib utc (elapsed_ms P w)
          (if is_ok r0 then Transition_Succeeded else Transition_Failed))))
        (then_do (store P) (\<lambda>s. (s, case r0 of Inl err \<Rightarrow> Err (Platform_Error err) | Inr _ \<Rightarrow> Ok ())))) ?J ?J"
    by (rule triple_then [OF now rest])
  moreover have "?I (fst s, w)" using I by simp
  ultimately show "case r of Inr _ \<Rightarrow> ?J s' | Inl _ \<Rightarrow> ?J s'"
    using f call unfolding triple_def perform_def by (metis (no_types, lifting) case_prod_conv)
qed

lemma action_keeps_completed:
  assumes "name \<noteq> n'"
  shows "keeps_completed name (run_action lib P n' c)"
proof (intro allI)
  fix k
  let ?J = "\<lambda>s. completed_action (fst s) name = k"
  let ?M = "\<lambda>s. completed_action (fst s) name = k \<and> tr_phase (last (timeline (transaction (fst s)))) = n'"
  have "triple ?J (then_do (with_now P (\<lambda>utc. on_journal (complete_transition lib utc 0 Transition_Failed))) (store P)) ?J ?J"
    by (intro triple_then [OF triple_now [OF triple_journal] store_keeps_completed [rule_format]])
       (auto dest: complete_keeps_completed)
  then have close: "triple ?J (close_interrupted lib P) ?J ?J" unfolding triple_def close_interrupted_def by auto
  have "triple ?J (on_journal (begin_transition lib n' Actor_Updater utc)) ?M ?J" for utc
    by (rule triple_journal) (auto dest: op_keeps_completed(3) begin_transition_Ok)
  then have "triple ?J (with_now P (\<lambda>utc. on_journal (begin_transition lib n' Actor_Updater utc))) ?M ?J"
    by (rule triple_now) simp
  moreover have "triple ?M (store P) ?M ?J" by (auto simp: triple_def store_def split: prod.splits sum.splits)
  ultimately have "triple ?J (record_intent lib P n') ?M ?J"
    unfolding record_intent_def by (rule triple_then)
  from triple_then [OF close triple_then [OF this perform_keeps_completed [OF assms]]]
  show "triple ?J (run_action lib P n' c) ?J ?J" unfolding run_action_def .
qed

lemma act_keeps_completed:
  assumes "name \<noteq> n'"
  shows "body_triple (\<lambda>s. completed_action (fst s) name = k) (act lib P p n' c q) (\<lambda>s. completed_action (fst s) name = k) (\<lambda>_ _. True)"
  unfolding body_triple_def
proof (intro allI impI)
  fix s s' k1 assume I: "completed_action (fst s) name = k" and b: "act lib P p n' c q s = (s', k1)"
  let ?both = "then_do (run_action lib P n' c) (transition lib P q)"
  let ?J = "\<lambda>s. completed_action (fst s) name = k"
  have both: "triple ?J ?both ?J ?J"
    by (rule triple_then [OF action_keeps_completed [OF assms, rule_format] transition_keeps_completed [rule_format]])
  obtain s1 r1 where r1: "?both s = (s1, r1)" by (cases "?both s")
  then have s1: "?J s1" using triple_case [OF both I] by (auto split: sum.splits)
  show "case k1 of Continue \<Rightarrow> ?J s' | Return r \<Rightarrow> True"
  proof (cases r1)
    case (Inl err)
    let ?f = "failure_of p err"
    obtain s2 r2 where r2: "then_do (on_journal (record_failure lib (rf_step ?f) (rf_code ?f))) (store P) s1 = (s2, r2)"
      by (cases "then_do (on_journal (record_failure lib (rf_step ?f) (rf_code ?f))) (store P) s1")
    have s2: "?J s2" using triple_case [OF record_keeps_completed [rule_format] s1 r2] by (auto split: sum.splits)
    show ?thesis
    proof (cases "k1 = Continue")
      case True
      then have "move_on (transition lib P RollbackRequested) s2 = (s', Continue)"
        using b r1 Inl r2 by (auto simp: act_def handle_failure_def Let_def split: sum.splits prod.splits if_splits)
      then obtain u where "transition lib P RollbackRequested s2 = (s', Inr u)"
        by (auto simp: move_on_def split: sum.splits prod.splits)
      from triple_case [OF transition_keeps_completed [rule_format] s2 this] True show ?thesis by simp
    qed (auto split: loop_control.splits)
  qed (use b r1 s1 in \<open>auto simp: act_def\<close>)
qed

lemma move_keeps_completed:
  "body_triple (\<lambda>s. completed_action (fst s) name = k) (move_on (transition lib P q)) (\<lambda>s. completed_action (fst s) name = k) (\<lambda>_ _. True)"
  using tripleD(1) [OF transition_keeps_completed [rule_format, of name k lib P q]]
  by (fastforce simp: body_triple_def move_on_def split: prod.splits sum.splits)

lemma act_on_track:
  assumes "(c, q) \<in> set act_table"
  shows "body_triple (\<lambda>s. on_track p0 fin s \<and> ph s = call_phase c)
    (act lib (logged P) (call_phase c) (str (call_name c)) c q) (on_track p0 fin) (concluded p0 fin)"
  unfolding body_triple_def
proof (intro allI impI, elim conjE)
  fix s s' :: "TransactionEnvelope \<times> 'a \<times> event list" and k
  assume on: "on_track p0 fin s" and "ph s = call_phase c"
    and b: "act lib (logged P) (call_phase c) (str (call_name c)) c q s = (s', k)"
  then obtain cs where at: "at_phase p0 (call_phase c) cs s" and tr: "trail p0 (call_phase c) cs"
    by (auto simp: on_track_def at_phase_def)
  have "str ''update.commit'' \<noteq> str (call_name c)" using act_table_left(4) [OF assms] by (cases c) (simp_all add: str_def)
  from body_tripleD [OF act_keeps_completed [OF this, of fin] _ b] on
  have "k = Continue \<Longrightarrow> finalized (fst s') = fin" by (simp add: on_track_def)
  moreover have "trail p0 RollbackRequested cs'"
    if "\<not> is_rollback_phase (call_phase c)" "call_phase c \<noteq> Prepared" "cs' \<in> tried c cs" for cs'
    using act_table_rollback [OF assms tr that] .
  ultimately show "case k of Continue \<Rightarrow> on_track p0 fin s' | Return r \<Rightarrow> concluded p0 fin s' r"
    using body_tripleD [OF act_at [OF act_table_step [OF assms]] at b] act_table_trail [OF assms tr]
    by (cases k) (auto simp: on_track_def intro: stopped_concluded)
qed

lemma move_on_track:
  assumes "p \<noteq> q" and "forward_left p = forward_left q" and "rollback_left p = rollback_left q" and "p \<noteq> PhaseQuarantined"
  shows "body_triple (\<lambda>s. on_track p0 fin s \<and> ph s = p) (move_on (transition lib (logged P) q)) (on_track p0 fin) (concluded p0 fin)"
  unfolding body_triple_def
proof (intro allI impI, elim conjE)
  fix s s' :: "TransactionEnvelope \<times> 'a \<times> event list" and k
  assume on: "on_track p0 fin s" and "ph s = p" and b: "move_on (transition lib (logged P) q) s = (s', k)"
  then obtain cs where at: "at_phase p0 p cs s" and "trail p0 p cs" by (auto simp: on_track_def at_phase_def)
  then have "trail p0 q cs" using assms(2-4) unfolding trail_def by auto
  moreover have "k = Continue \<Longrightarrow> finalized (fst s') = fin"
    using body_tripleD [OF move_keeps_completed _ b, of "str ''update.commit''" fin] on by (simp add: on_track_def)
  ultimately show "case k of Continue \<Rightarrow> on_track p0 fin s' | Return r \<Rightarrow> concluded p0 fin s' r"
    using body_tripleD [OF move_on_at at b] by (cases k) (auto simp: on_track_def intro: stopped_concluded)
qed

lemma trail_committed: "trail p0 TargetCommitted cs \<longleftrightarrow> (\<exists>rest. forward_left p0 = Some rest \<and> cs = all_ok rest)"
  by (auto simp: trail_def)

lemma finish_on_track:
  "body_triple (\<lambda>s. on_track p0 False s \<and> ph s = TargetCommitted)
     (finish_with (run_action lib (logged P) (str (call_name Finalize_Commit)) Finalize_Commit) Outcome_Committed)
     (\<lambda>_. False) (concluded p0 False)"
  unfolding body_triple_def
proof (intro allI impI, elim conjE)
  fix s s' :: "TransactionEnvelope \<times> 'a \<times> event list" and k
  let ?run = "run_action lib (logged P) (str (call_name Finalize_Commit)) Finalize_Commit"
  assume "on_track p0 False s" and "ph s = TargetCommitted" and b: "finish_with ?run Outcome_Committed s = (s', k)"
  then obtain cs where at: "at_phase p0 (call_phase Finalize_Commit) cs s" and "trail p0 TargetCommitted cs"
    by (auto simp: on_track_def at_phase_def)
  then obtain rest where "forward_left p0 = Some rest" "cs = all_ok rest" by (auto simp: trail_committed)
  then show "case k of Continue \<Rightarrow> False | Return r \<Rightarrow> concluded p0 False s' r"
    using b tripleD [OF action_at [of p0 Finalize_Commit cs lib P] at]
    by (auto simp: finish_with_def concluded_def at_phase_def split: prod.splits sum.splits)
qed

lemma on_track_final:
  assumes "on_track p0 fin s"
  shows "ph s = TargetCommitted \<Longrightarrow> fin \<Longrightarrow> concluded p0 fin s (Ok Outcome_Committed)"
    and "ph s = RollbackComplete \<Longrightarrow> concluded p0 fin s (Ok Outcome_RolledBack)"
    and "ph s = PhaseQuarantined \<Longrightarrow> concluded p0 fin s (Ok Outcome_Quarantined)"
  using assms by (auto simp: on_track_def at_phase_def trail_def concluded_def)

lemma step_on_track: "body_triple (on_track p0 fin) (recover_step lib (logged P)) (on_track p0 fin) (concluded p0 fin)"
  unfolding body_triple_def
proof (intro allI impI)
  fix s s' :: "TransactionEnvelope \<times> 'a \<times> event list" and k
  assume I: "on_track p0 fin s" and b: "recover_step lib (logged P) s = (s', k)"
  have act: "case k of Continue \<Rightarrow> on_track p0 fin s' | Return r \<Rightarrow> concluded p0 fin s' r"
    if "(c, q) \<in> set act_table" "ph s = call_phase c"
      "recover_step lib (logged P) s = act lib (logged P) (call_phase c) (str (call_name c)) c q s" for c q
    by (rule body_tripleD [OF act_on_track [OF that(1), of p0 fin lib P]]) (use I b that(2,3) in simp_all)
  have move: "case k of Continue \<Rightarrow> on_track p0 fin s' | Return r \<Rightarrow> concluded p0 fin s' r"
    if "p \<noteq> q" "forward_left p = forward_left q" "rollback_left p = rollback_left q" "p \<noteq> PhaseQuarantined"
      "ph s = p" "recover_step lib (logged P) s = move_on (transition lib (logged P) q) s" for p q
    by (rule body_tripleD [OF move_on_track [OF that(1-4), of p0 fin lib P]]) (use I b that(5,6) in simp_all)
  note final = on_track_final [OF I]
  show "case k of Continue \<Rightarrow> on_track p0 fin s' | Return r \<Rightarrow> concluded p0 fin s' r"
  proof (cases "ph s")
    case TargetCommitted
    show ?thesis
    proof (cases "finalized (fst s)")
      case True
      then show ?thesis using final(1) I b TargetCommitted by (auto simp: recover_step_def on_track_def)
    next
      case False
      then have "on_track p0 False s" "fin = False" using I by (auto simp: on_track_def)
      with body_tripleD [OF finish_on_track [of p0 lib P], of s s' k] TargetCommitted b False show ?thesis
        by (auto simp: recover_step_def split: loop_control.splits)
    qed
  next
    case RollbackComplete
    then show ?thesis using final(2) b by (auto simp: recover_step_def)
  next
    case PhaseQuarantined
    then show ?thesis using final(3) b by (auto simp: recover_step_def)
  next
    case FinalPathVerified
    then show ?thesis by (intro move) (auto simp: recover_step_def)
  next
    case TargetStartRequested
    then show ?thesis by (intro move) (auto simp: recover_step_def)
  next
    case OldServiceRestarted
    then show ?thesis by (intro move) (auto simp: recover_step_def)
  next
    case Prepared
    then show ?thesis by (intro act [of Verify_Handoff HelperStarted]) (simp_all add: act_table_def recover_step_def)
  next
    case HelperStarted
    then show ?thesis
      by (intro act [of Install_And_Verify_Target FinalPathVerified]) (simp_all add: act_table_def recover_step_def)
  next
    case OldServiceStopRequested
    then show ?thesis by (intro act [of Stop_Old_Service OldServiceStopped]) (simp_all add: act_table_def recover_step_def)
  next
    case OldServiceStopped
    then show ?thesis by (intro act [of Change_To_Target ImagePathChanged]) (simp_all add: act_table_def recover_step_def)
  next
    case ImagePathChanged
    then show ?thesis by (intro act [of Start_Target TargetStartRequested]) (simp_all add: act_table_def recover_step_def)
  next
    case TargetHealthPending
    then show ?thesis
      by (intro act [of Health_And_Commit_Target TargetCommitted]) (simp_all add: act_table_def recover_step_def)
  next
    case RollbackRequested
    then show ?thesis by (intro act [of Stop_Target TargetStopped]) (simp_all add: act_table_def recover_step_def)
  next
    case TargetStopped
    then show ?thesis
      by (intro act [of Restore_Old_Configuration OldPathRestored]) (simp_all add: act_table_def recover_step_def)
  next
    case OldPathRestored
    then show ?thesis
      by (intro act [of Start_And_Abort_Old OldServiceRestarted]) (simp_all add: act_table_def recover_step_def)
  qed
qed

lemma loop_rule:
  assumes step: "body_triple I (recover_step lib P) I Q" and "I s"
  shows "\<exists>s' r. recover_loop lib P s = Some (s', r) \<and> Q s' r"
  using \<open>I s\<close>
proof (induction "rank (ph s)" arbitrary: s rule: less_induct)
  case less
  obtain s1 k where s1: "recover_step lib P s = (s1, k)" by (cases "recover_step lib P s")
  show ?case
  proof (cases k)
    case Continue
    with s1 step less.prems have "I s1" unfolding body_triple_def by fastforce
    moreover have "rank (ph s1) < rank (ph s)" using step_rank s1 Continue by blast
    ultimately show ?thesis using less.hyps [of s1] s1 Continue by (subst recover_loop.simps) simp
  next
    case (Return r)
    with s1 step less.prems have "Q s1 r" unfolding body_triple_def by fastforce
    then show ?thesis using s1 Return by (subst recover_loop.simps) simp
  qed
qed

end
