(* ===== verification/Update_Outcome.thy ===== *)
theory Update_Outcome
  imports Update_Recovery
begin

text \<open>
  What the recovery loop of \<open>Update_Recovery\<close> guarantees: it always returns, it acts only after its
  intent is on disk, its calls come in the order of the phase table, it finishes when nothing fails,
  and what a full timeline does to a rollback.
\<close>

section \<open>Runs from a phase\<close>

lemma on_track_start: "on_track (tx_phase (transaction e)) (finalized e) (e, w, [])"
proof -
  let ?p = "tx_phase (transaction e)"
  have "trail ?p ?p []" by (cases ?p) (simp_all add: trail_def)
  then show ?thesis by (auto simp: on_track_def at_phase_def audited_def)
qed

lemma recover_concluded:
  assumes "recover_transaction lib (logged P) (e, w, []) = Some (s', r)"
  shows "concluded (tx_phase (transaction e)) (finalized e) s' r"
proof (cases "validate_envelope lib e")
  case (Inl err)
  then show ?thesis using assms by (auto simp: recover_transaction_def concluded_def audited_def)
next
  case (Inr u)
  with assms have "recover_loop lib (logged P) (e, w, []) = Some (s', r)" by (simp add: recover_transaction_def)
  with loop_rule [OF step_on_track [of _ _ lib P] on_track_start [of e w]] show ?thesis by auto
qed

section \<open>Nothing fails\<close>

text \<open>The platform does what it is asked and its clock prints canonical times; SHA-256 and the
  serialiser always give a digest.\<close>

definition healthy :: "'w platform \<Rightarrow> bool" where
  "healthy P \<longleftrightarrow> (\<forall>e w. snd (persist P e w) = Ok ()) \<and> (\<forall>c e w. snd (backend P c e w) = Ok ())
     \<and> (\<forall>w. validate_utc (snd (now_utc P w)) = Ok ())"

definition digests :: "('v::linorder) journal_lib \<Rightarrow> bool" where
  "digests lib \<longleftrightarrow> digest_hex lib \<and> (\<forall>t. sha256_json lib t \<noteq> None)"

definition valid_at :: "('v::linorder) journal_lib \<Rightarrow> TransactionPhase \<Rightarrow> nat \<Rightarrow> TransactionEnvelope \<times> 'w \<Rightarrow> bool" where
  "valid_at lib p n s \<longleftrightarrow> validate_envelope lib (fst s) = Ok () \<and> ph s = p \<and> length (timeline (transaction (fst s))) \<le> n"

abbreviation active :: "TransactionEnvelope \<times> 'w \<Rightarrow> bool" where
  "active s \<equiv> has_active_transition (transaction (fst s))"

abbreviation succeeds where
  "succeeds I f J \<equiv> triple I f J (\<lambda>_. False)"

text \<open>A change that is accepted on a valid envelope makes the guarded operation succeed.\<close>

lemma guarded_change_succeeds:
  assumes "digests lib" and "validate_envelope lib e = Ok ()" and "change (transaction e) = (t, Ok ())"
  shows "\<exists>e'. guarded_change lib change e = (e', Ok ()) \<and> transaction e' = t"
  using assms by (auto simp: guarded_change_def seal_def digests_def split: option.splits)

lemma journal_succeeds:
  assumes "digests lib" and "validate_envelope lib e = Ok ()"
    and "\<exists>e'. journal_apply lib op e = (e', Ok ()) \<and> transaction e' = t"
  shows "\<exists>e'. journal_apply lib op e = (e', Ok ()) \<and> transaction e' = t \<and> validate_envelope lib e' = Ok ()"
  using assms journal_apply_valid [of lib op e] by (auto simp: digests_def)

lemma triple_succeeds:
  assumes "\<And>e w. I (e, w) \<Longrightarrow> \<exists>e'. op e = (e', Ok ()) \<and> J (e', w)"
  shows "succeeds I (on_journal op) J"
  using assms by (fastforce intro: triple_journal)

lemma store_succeeds: "healthy P \<Longrightarrow> (\<And>e w w'. I (e, w) \<Longrightarrow> J (e, w')) \<Longrightarrow> succeeds I (store P) J"
  by (auto simp: triple_def store_def healthy_def split: prod.splits sum.splits)
     (metis snd_conv sum.distinct(1))

lemma now_succeeds:
  assumes "healthy P" and "\<And>utc. validate_utc utc = Ok () \<Longrightarrow> succeeds I (f utc) J"
    and "\<And>e w w'. I (e, w) \<Longrightarrow> I (e, w')"
  shows "succeeds I (with_now P f) J"
proof (rule tripleI)
  fix s s' r assume I: "I s" and f: "with_now P f s = (s', r)"
  obtain w' utc where now: "now_utc P (snd s) = (w', utc)" by (cases "now_utc P (snd s)")
  have "validate_utc utc = Ok ()" using assms(1) now unfolding healthy_def by (metis snd_conv)
  then have "succeeds I (f utc) J" by (rule assms(2))
  moreover have "f utc (fst s, w') = (s', r)" using f now by (simp add: with_now_def)
  moreover have "I (fst s, w')" using assms(3) [of "fst s" "snd s"] I by simp
  ultimately show "case r of Inr _ \<Rightarrow> J s' | Inl _ \<Rightarrow> False" unfolding triple_def by blast
qed

lemma complete_entry_succeeds:
  assumes "validate_transition t = Ok ()" and "completed_utc t = None" and "validate_utc utc = Ok ()"
  shows "\<exists>t'. complete_entry utc ms outcome None t = (t', Ok ())"
  using assms by (auto simp: complete_entry_def Let_def validate_transition_iff split: option.splits)

lemma complete_succeeds:
  assumes "digests lib" and "validate_utc utc = Ok ()"
  shows "succeeds (\<lambda>s. valid_at lib p n s \<and> active s) (on_journal (complete_transition lib utc ms outcome)) (valid_at lib p n)"
proof (rule triple_succeeds)
  fix e w assume I: "valid_at lib p n (e, w) \<and> active (e, w)"
  let ?t = "transaction e"
  have valid: "validate_envelope lib e = Ok ()" and ne: "timeline ?t \<noteq> []" and open_entry: "completed_utc (last (timeline ?t)) = None"
    using I by (auto simp: valid_at_def has_active_transition_def)
  have "validate_transition (last (timeline ?t)) = Ok ()"
    using validate_transactionD(2) [OF valid_envelopeD(1) [OF valid]] ne by simp
  then obtain t' where t': "complete_entry utc ms outcome None (last (timeline ?t)) = (t', Ok ())"
    using complete_entry_succeeds open_entry assms(2) by blast
  have "\<exists>e'. complete_transition lib utc ms outcome e = (e', Ok ()) \<and> transaction e' = ?t\<lparr>timeline := butlast (timeline ?t) @ [t']\<rparr>"
    unfolding complete_transition_def
    by (rule guarded_change_succeeds [OF assms(1) valid]) (use I t' in \<open>simp\<close>)
  then obtain e' where "complete_transition lib utc ms outcome e = (e', Ok ())" "validate_envelope lib e' = Ok ()"
      "transaction e' = ?t\<lparr>timeline := butlast (timeline ?t) @ [t']\<rparr>"
    using journal_succeeds [OF assms(1) valid, of "Op_Complete utc ms outcome"] by auto
  moreover have "length (butlast (timeline ?t) @ [t']) = length (timeline ?t)" using ne by simp
  ultimately show "\<exists>e'. complete_transition lib utc ms outcome e = (e', Ok ()) \<and> valid_at lib p n (e', w)"
    using I by (auto simp: valid_at_def)
qed

lemma str_eq_Nil: "str s = [] \<longleftrightarrow> s = []"
  by (simp add: str_def)

text \<open>The names the recovery loop uses in the timeline are well formed.\<close>

lemma call_name_valid:
  "call_name c \<noteq> []" "length (call_name c) \<le> 64" "list_all phase_byte (str (call_name c))"
  by (cases c; simp add: str_def phase_byte_def)+

lemma started_succeeds:
  "validate_utc utc = Ok () \<Longrightarrow> \<exists>t. started_transition (str (call_name c)) actor utc = Ok t \<and> completed_utc t = None"
  by (simp add: started_transition_def Let_def and_then_Ok_iff validate_transition_iff call_name_valid str_eq_Nil)

lemma begin_succeeds:
  assumes "digests lib" and "validate_utc utc = Ok ()" and "n < MAX_TIMELINE_ENTRIES"
  shows "succeeds (valid_at lib p n) (on_journal (begin_transition lib (str (call_name c)) actor utc))
    (\<lambda>s. valid_at lib p (Suc n) s \<and> active s)"
proof (rule triple_succeeds)
  fix e w assume I: "valid_at lib p n (e, w)"
  let ?t = "transaction e"
  have valid: "validate_envelope lib e = Ok ()" and len: "length (timeline ?t) < MAX_TIMELINE_ENTRIES"
    using I assms(3) by (auto simp: valid_at_def)
  obtain x where x: "started_transition (str (call_name c)) actor utc = Ok x" "completed_utc x = None"
    using started_succeeds assms(2) by blast
  have "\<exists>e'. begin_transition lib (str (call_name c)) actor utc e = (e', Ok ()) \<and> transaction e' = ?t\<lparr>timeline := timeline ?t @ [x]\<rparr>"
    unfolding begin_transition_def
    by (rule guarded_change_succeeds [OF assms(1) valid]) (use x len in simp)
  then obtain e' where "begin_transition lib (str (call_name c)) actor utc e = (e', Ok ())" "validate_envelope lib e' = Ok ()"
      "transaction e' = ?t\<lparr>timeline := timeline ?t @ [x]\<rparr>"
    using journal_succeeds [OF assms(1) valid, of "Op_Begin (str (call_name c)) actor utc"] by auto
  then show "\<exists>e'. begin_transition lib (str (call_name c)) actor utc e = (e', Ok ())
      \<and> (valid_at lib p (Suc n) (e', w) \<and> active (e', w))"
    using I x by (auto simp: valid_at_def has_active_transition_def)
qed

lemma action_succeeds:
  fixes P :: "'w platform"
  assumes "digests lib" and "healthy P" and "n < MAX_TIMELINE_ENTRIES"
  shows "succeeds (valid_at lib p n) (run_action lib P (str (call_name c)) c) (valid_at lib p (Suc n))"
proof -
  let ?V = "valid_at lib p :: nat \<Rightarrow> TransactionEnvelope \<times> 'w \<Rightarrow> bool"
  have store: "succeeds (?V m) (store P) (?V m)" "succeeds (\<lambda>s. ?V m s \<and> active s) (store P) (\<lambda>s. ?V m s \<and> active s)" for m
    by (rule store_succeeds [OF assms(2)], simp add: valid_at_def)+
  have complete: "succeeds (\<lambda>s. ?V m s \<and> active s) (with_now P (\<lambda>utc. on_journal (complete_transition lib utc ms outcome))) (?V m)"
    for m ms outcome
    by (rule now_succeeds [OF assms(2) complete_succeeds [OF assms(1)]]) (auto simp: valid_at_def)
  have "succeeds (?V n) (close_interrupted lib P) (?V n)"
    using triple_then [OF complete [of n 0 Transition_Failed] store(1) [of n]]
    unfolding triple_def close_interrupted_def by (auto split: if_splits)
  moreover have "succeeds (?V n) (record_intent lib P (str (call_name c))) (\<lambda>s. ?V (Suc n) s \<and> active s)"
    unfolding record_intent_def
    by (rule triple_then [OF now_succeeds [OF assms(2) begin_succeeds [OF assms(1) _ assms(3)]] store(2)])
       (auto simp: valid_at_def)
  moreover have "succeeds (\<lambda>s. ?V (Suc n) s \<and> active s) (perform lib P c) (?V (Suc n))"
  proof (rule tripleI)
    fix s s' :: "TransactionEnvelope \<times> 'w" and r
    assume I: "?V (Suc n) s \<and> active s" and f: "perform lib P c s = (s', r)"
    obtain w where call: "backend P c (fst s) (snd s) = (w, Ok ())"
      using assms(2) unfolding healthy_def by (metis prod.collapse)
    have "succeeds (?V (Suc n)) (\<lambda>s. (s, Ok ())) (?V (Suc n))" by (auto simp: triple_def)
    note all = triple_then [OF complete triple_then [OF store(1) this]]
    have "?V (Suc n) (fst s, w) \<and> active (fst s, w)" using I by (simp add: valid_at_def)
    then show "case r of Inr _ \<Rightarrow> ?V (Suc n) s' | Inl _ \<Rightarrow> False"
      by (rule triple_case [OF all]) (use f in \<open>simp add: perform_def call\<close>)
  qed
  ultimately show ?thesis unfolding run_action_def by (intro triple_then)
qed

lemma transition_succeeds:
  assumes "digests lib" and "healthy P" and "can_transition_to p q"
  shows "succeeds (valid_at lib p n) (transition lib P q) (valid_at lib q n)"
proof -
  have "succeeds (valid_at lib p n) (on_journal (envelope_transition lib q)) (valid_at lib q n)"
  proof (rule triple_succeeds)
    fix e w assume I: "valid_at lib p n (e, w)"
    then have valid: "validate_envelope lib e = Ok ()" by (simp add: valid_at_def)
    have "\<exists>e'. envelope_transition lib q e = (e', Ok ()) \<and> transaction e' = (transaction e)\<lparr>tx_phase := q\<rparr>"
      unfolding envelope_transition_def
      by (rule guarded_change_succeeds [OF assms(1) valid])
         (use I assms(3) in \<open>auto simp: transaction_transition_def valid_at_def\<close>)
    then show "\<exists>e'. envelope_transition lib q e = (e', Ok ()) \<and> valid_at lib q n (e', w)"
      using journal_succeeds [OF assms(1) valid, of "Op_Transition q"] I by (auto simp: valid_at_def)
  qed
  moreover have "succeeds (valid_at lib q n) (store P) (valid_at lib q n)"
    by (rule store_succeeds [OF assms(2)]) (simp add: valid_at_def)
  ultimately show ?thesis unfolding transition_def by (rule triple_then)
qed

definition expected_outcome :: "TransactionPhase \<Rightarrow> RecoveryOutcome" where
  "expected_outcome p =
     (if is_rollback_phase p \<or> p = RollbackComplete then Outcome_RolledBack
      else if p = PhaseQuarantined then Outcome_Quarantined else Outcome_Committed)"

text \<open>There is room in the timeline for every action still to come.\<close>

definition has_room :: "('v::linorder) journal_lib \<Rightarrow> RecoveryOutcome \<Rightarrow> TransactionEnvelope \<times> 'w \<Rightarrow> bool" where
  "has_room lib out s \<longleftrightarrow> expected_outcome (ph s) = out
     \<and> (\<exists>n. valid_at lib (ph s) n s \<and> n + rank (ph s) \<le> MAX_TIMELINE_ENTRIES)"

lemma room_phase: "has_room lib out s \<Longrightarrow> \<exists>n. valid_at lib (ph s) n s \<and> n + rank (ph s) \<le> MAX_TIMELINE_ENTRIES"
  by (simp add: has_room_def)

lemma act_with_room:
  assumes "digests lib" and "healthy P" and "has_room lib out s"
    and "can_transition_to (ph s) q" and "expected_outcome q = out"
  shows "\<exists>s'. act lib P (ph s) (str (call_name c)) c q s = (s', Continue) \<and> has_room lib out s'"
proof -
  obtain n where n: "valid_at lib (ph s) n s" "n + rank (ph s) \<le> MAX_TIMELINE_ENTRIES" using room_phase [OF assms(3)] by blast
  have less: "rank q < rank (ph s)" using can_transition_rank [OF assms(4)] .
  let ?both = "then_do (run_action lib P (str (call_name c)) c) (transition lib P q)"
  have "succeeds (valid_at lib (ph s) n) ?both (valid_at lib q (Suc n))"
    by (rule triple_then [OF action_succeeds transition_succeeds]) (use assms n less in auto)
  from triple_case [OF this n(1)] obtain s' where "?both s = (s', Ok ())" "valid_at lib q (Suc n) s'"
    by (cases "?both s") (auto split: sum.splits)
  then show ?thesis using assms(5) n(2) less by (auto simp: act_def has_room_def valid_at_def)
qed

lemma move_with_room:
  assumes "digests lib" and "healthy P" and "has_room lib out s"
    and "can_transition_to (ph s) q" and "expected_outcome q = out"
  shows "\<exists>s'. move_on (transition lib P q) s = (s', Continue) \<and> has_room lib out s'"
proof -
  obtain n where n: "valid_at lib (ph s) n s" "n + rank (ph s) \<le> MAX_TIMELINE_ENTRIES" using room_phase [OF assms(3)] by blast
  from triple_case [OF transition_succeeds [OF assms(1,2,4)] n(1)]
  obtain s' where "transition lib P q s = (s', Ok ())" "valid_at lib q n s'"
    by (cases "transition lib P q s") (auto split: sum.splits)
  then show ?thesis using assms(5) n(2) can_transition_rank [OF assms(4)]
    by (auto simp: move_on_def has_room_def valid_at_def)
qed

lemma finish_with_room:
  assumes "digests lib" and "healthy P" and "has_room lib out s" and "ph s = TargetCommitted"
  shows "\<exists>s'. finish_with (run_action lib P (str (call_name c)) c) o1 s = (s', Return (Ok o1))"
proof -
  obtain n where n: "valid_at lib (ph s) n s" "n + rank (ph s) \<le> MAX_TIMELINE_ENTRIES" using room_phase [OF assms(3)] by blast
  then have "n < MAX_TIMELINE_ENTRIES" using assms(4) by simp
  from triple_case [OF action_succeeds [OF assms(1,2) this] n(1)]
  obtain s' where "run_action lib P (str (call_name c)) c s = (s', Ok ())"
    by (cases "run_action lib P (str (call_name c)) c s") (fastforce split: sum.splits)
  then show ?thesis by (simp add: finish_with_def)
qed

lemmas phase_table_simps = recover_step_def can_transition_to_def forward_owned_def expected_outcome_def is_rollback_phase_def

lemma step_with_room:
  assumes "digests lib" and "healthy P"
  shows "body_triple (has_room lib out) (recover_step lib P) (has_room lib out) (\<lambda>s r. r = Ok out)"
  unfolding body_triple_def
proof (intro allI impI)
  fix s s' k assume I: "has_room lib out s" and b: "recover_step lib P s = (s', k)"
  have out: "out = expected_outcome (ph s)" using I by (simp add: has_room_def)
  note act = act_with_room [OF assms I] and move = move_with_room [OF assms I] and fin = finish_with_room [OF assms I]
  consider "ph s \<in> {FinalPathVerified, TargetStartRequested, OldServiceRestarted}" | "ph s = TargetCommitted"
    | "ph s \<in> {RollbackComplete, PhaseQuarantined}"
    | "ph s \<in> {Prepared, HelperStarted, OldServiceStopRequested, OldServiceStopped, ImagePathChanged, TargetHealthPending,
        RollbackRequested, TargetStopped, OldPathRestored}"
    by (cases "ph s") auto
  then show "case k of Continue \<Rightarrow> has_room lib out s' | Return r \<Rightarrow> r = Ok out"
  proof cases
    case 1
    then obtain q where "recover_step lib P s = move_on (transition lib P q) s" "can_transition_to (ph s) q" "expected_outcome q = out"
      unfolding out by (auto simp: phase_table_simps)
    with move [of q] b show ?thesis by auto
  next
    case 2
    then show ?thesis using fin [of Finalize_Commit Outcome_Committed] b out by (auto simp: phase_table_simps split: if_splits)
  next
    case 3
    then show ?thesis using b out by (auto simp: phase_table_simps)
  next
    case 4
    then obtain c q where rs: "recover_step lib P s = act lib P (ph s) (str (call_name c)) c q s"
        and "can_transition_to (ph s) q" "expected_outcome q = out"
    proof -
      let ?P = "\<lambda>c q. recover_step lib P s = act lib P (ph s) (str (call_name c)) c q s
        \<and> can_transition_to (ph s) q \<and> expected_outcome q = out"
      have "?P Verify_Handoff HelperStarted \<or> ?P Install_And_Verify_Target FinalPathVerified \<or> ?P Stop_Old_Service OldServiceStopped
        \<or> ?P Change_To_Target ImagePathChanged \<or> ?P Start_Target TargetStartRequested \<or> ?P Health_And_Commit_Target TargetCommitted
        \<or> ?P Stop_Target TargetStopped \<or> ?P Restore_Old_Configuration OldPathRestored \<or> ?P Start_And_Abort_Old OldServiceRestarted"
        using 4 unfolding out by (elim insertE) (simp_all add: phase_table_simps)
      then show thesis using that by blast
    qed
    from act [OF this(2,3), of c] b rs show ?thesis by auto
  qed
qed

section \<open>A full timeline\<close>

text \<open>No room is left, the phase is \<open>p\<close> and nothing has been called.\<close>

definition stuck_at :: "TransactionPhase \<Rightarrow> TransactionEnvelope \<times> 'w \<times> event list \<Rightarrow> bool" where
  "stuck_at p s \<longleftrightarrow> ph s = p \<and> MAX_TIMELINE_ENTRIES \<le> length (timeline (transaction (fst s)))
     \<and> list_all (\<lambda>ev. case ev of Called c e b \<Rightarrow> False | _ \<Rightarrow> True) (log_of s)"

lemma guarded_change_timeline:
  assumes "guarded_change lib change e = (e', r)" and "\<And>t. length (timeline (fst (change t))) = length (timeline t)"
  shows "length (timeline (transaction e')) = length (timeline (transaction e))"
  using assms(1) assms(2) [of "transaction e"]
  by (auto simp: guarded_change_def seal_def split: sum.splits prod.splits option.splits)

lemma op_keeps_length:
  "complete_transition lib utc ms outcome e = (e', r) \<Longrightarrow> length (timeline (transaction e')) = length (timeline (transaction e))"
  "record_failure lib step code e = (e', r) \<Longrightarrow> length (timeline (transaction e')) = length (timeline (transaction e))"
  "envelope_transition lib q e = (e', r) \<Longrightarrow> length (timeline (transaction e')) = length (timeline (transaction e))"
  unfolding complete_transition_def record_failure_def envelope_transition_def
  by (rule guarded_change_timeline, assumption,
      auto simp: has_active_transition_def transaction_transition_def split: prod.splits)+

lemma begin_when_full:
  assumes "begin_transition lib name actor utc e = (e', r)" and "MAX_TIMELINE_ENTRIES \<le> length (timeline (transaction e))"
  shows "e' = e \<and> (\<exists>err. r = Err err)"
  using assms by (cases "validate_envelope lib e") (auto simp: begin_transition_def guarded_change_def split: sum.splits dest: sym)

lemma store_stuck: "triple (stuck_at p) (store (logged P)) (stuck_at p) (stuck_at p)"
  by (rule triple_store) (auto simp: stuck_at_def)

lemma now_stuck: "(\<And>utc. triple (stuck_at p) (f utc) J E) \<Longrightarrow> triple (stuck_at p) (with_now (logged P) f) J E"
  by (erule triple_now) (auto simp: stuck_at_def logged_def split: prod.splits)

lemma record_stuck: "triple (stuck_at p) (then_do (on_journal (record_failure lib step code)) (store (logged P))) (stuck_at p) (stuck_at p)"
  by (rule triple_then [OF triple_journal store_stuck])
     (auto simp: stuck_at_def dest: op_keeps_phase(3) op_keeps_length(2))

lemma action_stuck: "triple (stuck_at p) (run_action lib (logged P) name c) (\<lambda>_. False) (stuck_at p)"
proof -
  have "triple (stuck_at p) (with_now (logged P) (\<lambda>utc. on_journal (complete_transition lib utc 0 Transition_Failed)))
      (stuck_at p) (stuck_at p)"
    by (intro now_stuck triple_journal) (auto simp: stuck_at_def dest: op_keeps_phase(2) op_keeps_length(1))
  from triple_then [OF this store_stuck]
  have "triple (stuck_at p) (close_interrupted lib (logged P)) (stuck_at p) (stuck_at p)"
    unfolding triple_def close_interrupted_def by (auto split: if_splits)
  moreover have "triple (stuck_at p) (record_intent lib (logged P) name) (\<lambda>_. False) (stuck_at p)"
    unfolding record_intent_def
    by (rule triple_then [OF now_stuck [OF triple_journal], where M = "\<lambda>_. False"])
       (auto simp: stuck_at_def triple_def dest: begin_when_full)
  moreover have "triple (\<lambda>_. False) (perform lib (logged P) c) (\<lambda>_. False) (stuck_at p)" by (simp add: triple_def)
  ultimately show ?thesis unfolding run_action_def by (intro triple_then)
qed

lemma transition_stuck:
  "triple (stuck_at p) (transition lib (logged P) q) (\<lambda>s. stuck_at p s \<or> stuck_at q s) (\<lambda>s. stuck_at p s \<or> stuck_at q s)"
proof -
  have "triple (stuck_at p) (on_journal (envelope_transition lib q)) (\<lambda>s. stuck_at p s \<or> stuck_at q s) (\<lambda>s. stuck_at p s \<or> stuck_at q s)"
    by (rule triple_journal)
       (use envelope_transition_phase(1) op_keeps_length(3) in \<open>fastforce simp: stuck_at_def\<close>)+
  moreover have "triple (\<lambda>s. stuck_at p s \<or> stuck_at q s) (store (logged P)) (\<lambda>s. stuck_at p s \<or> stuck_at q s)
      (\<lambda>s. stuck_at p s \<or> stuck_at q s)"
    by (rule triple_store) (auto simp: stuck_at_def)
  ultimately show ?thesis unfolding transition_def by (rule triple_then)
qed

text \<open>The run stops with an error, in the phase it was in or quarantined.\<close>

definition stuck_end :: "TransactionPhase \<Rightarrow> TransactionEnvelope \<times> 'w \<times> event list
    \<Rightarrow> (RecoveryOutcome, recovery_error) result \<Rightarrow> bool" where
  "stuck_end p s r \<longleftrightarrow> (stuck_at p s \<or> stuck_at PhaseQuarantined s) \<and> (\<exists>err. r = Err err)"

lemma failure_stuck:
  assumes "is_rollback_phase p"
  shows "body_triple (stuck_at p) (handle_failure lib (logged P) p err) (\<lambda>_. False) (stuck_end p)"
  unfolding body_triple_def
proof (intro allI impI)
  fix s s' :: "TransactionEnvelope \<times> 'a \<times> event list" and k
  assume I: "stuck_at p s" and b: "handle_failure lib (logged P) p err s = (s', k)"
  let ?f = "failure_of p err"
  let ?rec = "then_do (on_journal (record_failure lib (rf_step ?f) (rf_code ?f))) (store (logged P))"
  obtain s1 r1 where r1: "?rec s = (s1, r1)" by (cases "?rec s")
  from triple_case [OF record_stuck I r1] have s1: "stuck_at p s1" by (cases r1) auto
  obtain s2 r2 where r2: "transition lib (logged P) PhaseQuarantined s1 = (s2, r2)"
    by (cases "transition lib (logged P) PhaseQuarantined s1")
  from triple_case [OF transition_stuck s1 r2] have "stuck_at p s2 \<or> stuck_at PhaseQuarantined s2" by (cases r2) auto
  with b r1 r2 s1 assms show "case k of Continue \<Rightarrow> False | Return r \<Rightarrow> stuck_end p s' r"
    by (auto simp: handle_failure_def Let_def stuck_end_def split: sum.splits if_splits)
qed

lemma act_stuck:
  assumes "is_rollback_phase p"
  shows "body_triple (stuck_at p) (act lib (logged P) p name c q) (\<lambda>_. False) (stuck_end p)"
  unfolding body_triple_def
proof (intro allI impI)
  fix s s' :: "TransactionEnvelope \<times> 'a \<times> event list" and k
  assume I: "stuck_at p s" and b: "act lib (logged P) p name c q s = (s', k)"
  obtain s1 r1 where r1: "run_action lib (logged P) name c s = (s1, r1)" by (cases "run_action lib (logged P) name c s")
  from triple_case [OF action_stuck I r1] obtain err where err: "r1 = Err err" and s1: "stuck_at p s1" by (cases r1) auto
  have "handle_failure lib (logged P) p err s1 = (s', k)" using b r1 err by (simp add: act_def then_do_def)
  from body_tripleD [OF failure_stuck [OF assms] s1 this]
  show "case k of Continue \<Rightarrow> False | Return r \<Rightarrow> stuck_end p s' r" .
qed

section \<open>Properties\<close>

lemma recover_returns: "\<exists>s' r. recover_transaction lib P s = Some (s', r)"
proof -
  have "body_triple (\<lambda>_. True) (recover_step lib P) (\<lambda>_. True) (\<lambda>_ _. True)"
    by (simp add: body_triple_def split: loop_control.splits)
  from loop_rule [OF this, of s] show ?thesis by (auto simp: recover_transaction_def split: sum.splits)
qed

text \<open>C14: The recovery loop returns, on every platform and from every journal, whatever fails.\<close>
theorem recover_terminates:
  "\<exists>s' r. recover_transaction lib P s = Some (s', r)"
  by (rule recover_returns)

definition calm :: "unit platform" where
  "calm = \<lparr>persist = (\<lambda>e w. ((), Ok ())), backend = (\<lambda>c e w. ((), Ok ())), now_utc = (\<lambda>w. ((), demo_utc)), elapsed_ms = (\<lambda>w. 0)\<rparr>"

lemma healthy_calm: "healthy calm" "healthy (logged calm)"
  by (simp_all add: healthy_def calm_def logged_def demo_utc_valid)

lemma digests_demo: "digests demo_lib"
  using demo_digest_hex by (simp add: digests_def demo_lib_def)

lemma healthy_finishes:
  assumes "digests lib" and "healthy P" and "validate_envelope lib e = Ok ()" and "length (timeline (transaction e)) \<le> 51"
  shows "\<exists>s'. recover_transaction lib P (e, w) = Some (s', Ok (expected_outcome (tx_phase (transaction e))))"
proof -
  have "rank (tx_phase (transaction e)) \<le> 13" by (cases "tx_phase (transaction e)") simp_all
  then have "has_room lib (expected_outcome (tx_phase (transaction e))) (e, w)"
    using assms(3,4) by (auto simp: has_room_def valid_at_def MAX_TIMELINE_ENTRIES_def)
  from loop_rule [OF step_with_room [OF assms(1,2)] this] assms(3) show ?thesis
    by (auto simp: recover_transaction_def)
qed

lemma demo_run: "\<exists>e' w' log. recover_transaction demo_lib (logged calm) (demo_envelope Prepared, (), [])
    = Some ((e', w', log), Ok Outcome_Committed)"
  using healthy_finishes [OF digests_demo healthy_calm(2) demo_envelope_valid, of Prepared "((), [])"]
  by (simp add: demo_envelope_def demo_transaction_def expected_outcome_def is_rollback_phase_def)

text \<open>C2: The updater acts only on what is on disk. Whenever it calls the backend, the last thing it did was
  to persist, with success, exactly the journal it hands over, in the phase of that call and with an
  open timeline entry naming it. And the phase on disk only ever moves along the phase table, so a
  run cut off at any point leaves a journal that tells which action may be half done.\<close>
theorem recovery_writes_ahead:
  assumes "recover_transaction lib (logged P) (e, w, []) = Some ((e', w', log), r)"
  shows "write_ahead log \<and> along_table (tx_phase (transaction e)) log"
  using recover_concluded [OF assms] by (simp add: concluded_def audited_def)

theorem recovery_writes_ahead_witness:
  "\<exists>e' w' log. recover_transaction demo_lib (logged calm) (demo_envelope Prepared, (), []) = Some ((e', w', log), Ok Outcome_Committed)
    \<and> write_ahead log \<and> along_table Prepared log"
proof -
  obtain e' w' log where run: "recover_transaction demo_lib (logged calm) (demo_envelope Prepared, (), [])
      = Some ((e', w', log), Ok Outcome_Committed)" using demo_run by blast
  from recovery_writes_ahead [OF run] run show ?thesis by (auto simp: demo_envelope_def demo_transaction_def)
qed

text \<open>C11: A run that returns a result made exactly the calls of its path, counted with those that failed. A
  committed run made, in order and with success, every forward call that was left from the phase its
  journal was in, and finalised the commit unless the journal said that this was done. A rolled back run
  made the rollback calls that were left from its phase; or it made forward calls up to one in whose phase
  something went wrong, never the verification of the handoff, and then all rollback calls, with success.
  A run that finds the journal quarantined makes no call.\<close>
theorem recovery_follows_phases:
  assumes "recover_transaction lib (logged P) (e, w, []) = Some ((e', w', log), Ok out)"
  shows "case out of
      Outcome_Committed \<Rightarrow> tx_phase (transaction e') = TargetCommitted
        \<and> (\<exists>rest. forward_left (tx_phase (transaction e)) = Some rest
             \<and> calls log = all_ok (rest @ (if completed_action e (str ''update.commit'') then [] else [Finalize_Commit])))
    | Outcome_RolledBack \<Rightarrow> tx_phase (transaction e') = RollbackComplete
        \<and> ((\<exists>rest. rollback_left (tx_phase (transaction e)) = Some rest \<and> calls log = all_ok rest)
           \<or> (\<exists>made c rest cs. forward_left (tx_phase (transaction e)) = Some (made @ c # rest) \<and> c \<noteq> Verify_Handoff
                \<and> cs \<in> {all_ok made, all_ok made @ [(c, False)], all_ok made @ [(c, True)]}
                \<and> calls log = cs @ all_ok [Stop_Target, Restore_Old_Configuration, Start_And_Abort_Old]))
    | Outcome_Quarantined \<Rightarrow> tx_phase (transaction e) = PhaseQuarantined
        \<and> tx_phase (transaction e') = PhaseQuarantined \<and> calls log = []"
  using recover_concluded [OF assms]
  by (cases out) (auto simp: concluded_def gave_up_def tried_def all_rollback_def)

theorem recovery_follows_phases_witness:
  "\<exists>e' w' log. recover_transaction demo_lib (logged calm) (demo_envelope Prepared, (), []) = Some ((e', w', log), Ok Outcome_Committed)
    \<and> tx_phase (transaction e') = TargetCommitted
    \<and> calls log = all_ok [Verify_Handoff, Install_And_Verify_Target, Stop_Old_Service, Change_To_Target, Start_Target,
        Health_And_Commit_Target, Finalize_Commit]"
proof -
  obtain e' w' log where run: "recover_transaction demo_lib (logged calm) (demo_envelope Prepared, (), [])
      = Some ((e', w', log), Ok Outcome_Committed)" using demo_run by blast
  from recovery_follows_phases [OF run] run show ?thesis
    by (auto simp: demo_envelope_def demo_transaction_def completed_action_def)
qed

text \<open>C17: When nothing fails and the timeline has at most 51 of its 64 entries, which leaves room for every
  action that may come, the updater brings a valid journal to its end from any phase it was interrupted in: a rollback is completed, a quarantined
  transaction stays so, and everything else is committed.\<close>
theorem interrupted_update_completes:
  assumes "digests lib" and "healthy P" and "validate_envelope lib e = Ok ()" and "length (timeline (transaction e)) \<le> 51"
  shows "\<exists>s'. recover_transaction lib P (e, w) = Some (s', Ok
     (if is_rollback_phase (tx_phase (transaction e)) \<or> tx_phase (transaction e) = RollbackComplete then Outcome_RolledBack
      else if tx_phase (transaction e) = PhaseQuarantined then Outcome_Quarantined else Outcome_Committed))"
  using healthy_finishes [OF assms] by (simp add: expected_outcome_def)

theorem interrupted_update_completes_witness:
  "\<exists>s'. recover_transaction demo_lib calm (demo_envelope TargetStopped, ()) = Some (s', Ok Outcome_RolledBack)"
proof -
  have "tx_phase (transaction (demo_envelope p)) = p" "timeline (transaction (demo_envelope p)) = []" for p
    by (simp_all add: demo_envelope_def demo_transaction_def)
  with interrupted_update_completes [OF digests_demo healthy_calm(1) demo_envelope_valid, of TargetStopped "()"]
  show ?thesis by (simp add: is_rollback_phase_def)
qed

text \<open>C37: Once the timeline of a journal is full, a rollback cannot be run any more: no run calls the backend
  or finishes, every run ends with an error, and it leaves the timeline full, in the same phase or
  quarantined. Every failed attempt of a rollback adds an entry to the timeline.\<close>
theorem full_timeline_blocks_rollback:
  assumes "64 \<le> length (timeline (transaction e))"
    and "tx_phase (transaction e) \<in> {RollbackRequested, TargetStopped, OldPathRestored}"
    and "recover_transaction lib (logged P) (e, w, []) = Some ((e', w', log), r)"
  shows "(\<exists>err. r = Err err)
    \<and> list_all (\<lambda>ev. case ev of Called c e b \<Rightarrow> False | _ \<Rightarrow> True) log \<and> 64 \<le> length (timeline (transaction e'))
    \<and> tx_phase (transaction e') \<in> {tx_phase (transaction e), PhaseQuarantined}"
proof -
  let ?p = "tx_phase (transaction e)"
  have roll: "is_rollback_phase ?p" and stuck: "stuck_at ?p (e, w, [])"
    using assms(1,2) by (auto simp: stuck_at_def is_rollback_phase_def MAX_TIMELINE_ENTRIES_def)
  consider err where "r = Err err" "log = []" "e' = e" | s' r' where "recover_step lib (logged P) (e, w, []) = (s', Return r')"
      "stuck_end ?p s' r'"
  proof (cases "validate_envelope lib e")
    case (Inl err)
    then show thesis using assms(3) that(1) by (auto simp: recover_transaction_def)
  next
    case (Inr u)
    obtain c name q where "recover_step lib (logged P) (e, w, []) = act lib (logged P) ?p name c q (e, w, [])"
      using assms(2) by (auto simp: recover_step_def)
    moreover obtain s' k where act: "act lib (logged P) ?p name c q (e, w, []) = (s', k)"
      by (cases "act lib (logged P) ?p name c q (e, w, [])")
    ultimately show thesis using body_tripleD [OF act_stuck [OF roll] stuck act] that(2) by (cases k) auto
  qed
  then show ?thesis
  proof cases
    case 1
    then show ?thesis using assms(1) by simp
  next
    case (2 s' r')
    then have "recover_loop lib (logged P) (e, w, []) = Some (s', r')" by (subst recover_loop.simps) simp
    then consider "s' = (e', w', log)" "r' = r" | err where "r = Err err" "log = []" "e' = e"
      using assms(3) by (auto simp: recover_transaction_def split: sum.splits)
    then show ?thesis
    proof cases
      case 1
      then show ?thesis using 2(2)
        by (auto simp: stuck_end_def stuck_at_def MAX_TIMELINE_ENTRIES_def)
    qed (use assms(1) in simp)
  qed
qed

theorem full_timeline_blocks_rollback_witness:
  "\<exists>e' w' log err. recover_transaction demo_lib (logged calm)
      ((demo_envelope TargetStopped)\<lparr>transaction := (demo_transaction TargetStopped)\<lparr>timeline := replicate 64
         \<lparr>tr_phase = str ''a'', tr_actor = Actor_Updater, started_utc = demo_utc, completed_utc = Some demo_utc, duration_ms = Some 1,
          tr_outcome = Some Transition_Failed, failure_code = None\<rparr>\<rparr>\<rparr>, (), []) = Some ((e', w', log), Err err)
    \<and> 64 \<le> length (timeline (transaction e'))"
proof -
  let ?e = "(demo_envelope TargetStopped)\<lparr>transaction := (demo_transaction TargetStopped)\<lparr>timeline := replicate 64
         \<lparr>tr_phase = str ''a'', tr_actor = Actor_Updater, started_utc = demo_utc, completed_utc = Some demo_utc, duration_ms = Some 1,
          tr_outcome = Some Transition_Failed, failure_code = None\<rparr>\<rparr>\<rparr>"
  obtain e' w' log r where run: "recover_transaction demo_lib (logged calm) (?e, (), []) = Some ((e', w', log), r)"
    using recover_returns [of demo_lib "logged calm" "(?e, (), [])"] by auto
  have "64 \<le> length (timeline (transaction ?e))" "tx_phase (transaction ?e) = TargetStopped"
    by (simp_all add: demo_transaction_def)
  with full_timeline_blocks_rollback [OF _ _ run] run show ?thesis by auto
qed

end
