(* ===== verification/Store_Index.thy ===== *)
theory Store_Index
  imports Wire_Frame
begin

text \<open>
  Chunk stores and chunk indexes, the first half of \<^verbatim>\<open>crates/lsb-store/src/cas.rs\<close>, and the flat file
  of \<^verbatim>\<open>backend.rs\<close>. A chunk store keeps byte strings under their hash; \<open>LocalChunkStore\<close> keeps them as
  files, with faults of the file system at any operation. A chunk index lists the hashes of the chunks
  of a disk and is written to a file. The BLAKE3 function is a parameter.
\<close>

section \<open>Chunk stores\<close>

definition CHUNK_SIZE :: nat where "CHUNK_SIZE = 64 * 1024"

definition ZERO_CHUNK_HASH :: bytes where "ZERO_CHUNK_HASH = str ''ZERO''"

text \<open>The trait \<^verbatim>\<open>ChunkStore\<close>; what an error says is not looked at.\<close>

record 's ChunkStore =
  chunk_put :: "bytes \<Rightarrow> 's \<Rightarrow> 's \<times> (bytes, unit) result"
  chunk_get :: "bytes \<Rightarrow> 's \<Rightarrow> 's \<times> (bytes option, unit) result"

text \<open>
  The directory of chunk files. \<open>faults\<close> is what the coming file operations run into: none, an open or
  read that fails, or a write that fails after some bytes. Once the list is used up nothing fails.
\<close>

datatype disk_fault = No_Fault | Open_Fails | Torn_Write nat

record LocalChunkStore =
  chunk_files :: "bytes \<rightharpoonup> bytes"
  faults :: "disk_fault list"

definition next_fault :: "LocalChunkStore \<Rightarrow> disk_fault" where
  "next_fault s = (case faults s of [] \<Rightarrow> No_Fault | f # _ \<Rightarrow> f)"

definition local_put ::
    "(bytes \<Rightarrow> bytes) \<Rightarrow> bytes \<Rightarrow> LocalChunkStore \<Rightarrow> LocalChunkStore \<times> (bytes, unit) result" where
  "local_put blake3_hex data s =
     (let hex = blake3_hex data; fault = next_fault s; s = s\<lparr>faults := tl (faults s)\<rparr> in
      if fault = Open_Fails then (s, Err ())
      else if chunk_files s hex \<noteq> None then (s, Ok hex)
      else
        (case fault of
           Torn_Write n \<Rightarrow> (s\<lparr>chunk_files := (chunk_files s)(hex \<mapsto> take n data)\<rparr>, Err ())
         | _ \<Rightarrow> (s\<lparr>chunk_files := (chunk_files s)(hex \<mapsto> data)\<rparr>, Ok hex)))"

definition local_get :: "bytes \<Rightarrow> LocalChunkStore \<Rightarrow> LocalChunkStore \<times> (bytes option, unit) result" where
  "local_get hash s =
     (let fault = next_fault s; s = s\<lparr>faults := tl (faults s)\<rparr> in
      if fault = Open_Fails then (s, Err ()) else (s, Ok (chunk_files s hash)))"

definition local_store :: "(bytes \<Rightarrow> bytes) \<Rightarrow> LocalChunkStore ChunkStore" where
  "local_store blake3_hex = \<lparr>chunk_put = local_put blake3_hex, chunk_get = local_get\<rparr>"

section \<open>Flat files\<close>

text \<open>
  A file that is read and written at positions. \<open>ff_size\<close> is the size when it was opened, \<open>ff_fault\<close>
  an error of the device. A position that is negative as an \<^verbatim>\<open>off_t\<close> is refused.
\<close>

record FlatFileBackend =
  ff_path :: bytes
  ff_size :: u64
  ff_data :: bytes
  ff_fault :: "io_error option"

text \<open>\<^verbatim>\<open>open\<close>, on the files by their path.\<close>

definition flat_open :: "(bytes \<rightharpoonup> bytes) \<Rightarrow> bytes \<Rightarrow> FlatFileBackend option" where
  "flat_open files path =
     map_option (\<lambda>data. \<lparr>ff_path = path, ff_size = of_nat (length data), ff_data = data, ff_fault = None\<rparr>) (files path)"

definition pread_at :: "bytes \<Rightarrow> nat \<Rightarrow> nat \<Rightarrow> bytes" where
  "pread_at data off n = take n (drop off data)"

definition pwrite_at :: "bytes \<Rightarrow> nat \<Rightarrow> bytes \<Rightarrow> bytes" where
  "pwrite_at data off bs =
     (if bs = [] then data
      else take off (data @ replicate (off - length data) 0) @ bs @ drop (off + length bs) data)"

definition ff_read :: "FlatFileBackend \<Rightarrow> u64 \<Rightarrow> nat \<Rightarrow> (bytes, io_error) result" where
  "ff_read ff off n =
     (case ff_fault ff of
        Some e \<Rightarrow> Err e
      | None \<Rightarrow> if unat off \<ge> 2 ^ 63 then Err InvalidInput else Ok (pread_at (ff_data ff) (unat off) n))"

definition ff_write :: "FlatFileBackend \<Rightarrow> u64 \<Rightarrow> bytes \<Rightarrow> FlatFileBackend \<times> (nat, io_error) result" where
  "ff_write ff off bs =
     (case ff_fault ff of
        Some e \<Rightarrow> (ff, Err e)
      | None \<Rightarrow>
          if unat off \<ge> 2 ^ 63 then (ff, Err InvalidInput)
          else (ff\<lparr>ff_data := pwrite_at (ff_data ff) (unat off) bs\<rparr>, Ok (length bs)))"

definition ff_flush :: "FlatFileBackend \<Rightarrow> (unit, io_error) result" where
  "ff_flush ff = (case ff_fault ff of Some e \<Rightarrow> Err e | None \<Rightarrow> Ok ())"

section \<open>Chunk indexes\<close>

record ChunkIndex =
  hashes :: "bytes list"
  disk_size :: u64
  parent_path :: "bytes option"
  fallback_path :: "bytes option"

definition disk_chunks :: "u64 \<Rightarrow> nat" where
  "disk_chunks sz = unat ((sz + of_nat CHUNK_SIZE - 1) div of_nat CHUNK_SIZE)"

definition index_new :: "u64 \<Rightarrow> ChunkIndex" where
  "index_new sz =
     \<lparr>hashes = replicate (disk_chunks sz) ZERO_CHUNK_HASH, disk_size = sz, parent_path = None,
      fallback_path = None\<rparr>"

definition num_chunks :: "ChunkIndex \<Rightarrow> nat" where
  "num_chunks ix = length (hashes ix)"

definition get_hash :: "ChunkIndex \<Rightarrow> nat \<Rightarrow> bytes option" where
  "get_hash ix i = (if i < length (hashes ix) then Some (hashes ix ! i) else None)"

definition set_hash :: "nat \<Rightarrow> bytes \<Rightarrow> ChunkIndex \<Rightarrow> ChunkIndex" where
  "set_hash i h ix = (if i < length (hashes ix) then ix\<lparr>hashes := (hashes ix)[i := h]\<rparr> else ix)"

text \<open>The file format: each string with the \<^verbatim>\<open>u32\<close> of its length, and no difference between an absent
  and an empty path.\<close>

definition index_field :: "bytes \<Rightarrow> bytes" where
  "index_field bs = to_le_bytes 4 (of_nat (length bs) :: u32) @ bs"

definition path_bytes :: "bytes option \<Rightarrow> bytes" where
  "path_bytes p = (case p of None \<Rightarrow> [] | Some bs \<Rightarrow> bs)"

definition index_bytes :: "ChunkIndex \<Rightarrow> bytes" where
  "index_bytes ix =
     to_le_bytes 8 (disk_size ix) @ to_le_bytes 8 (of_nat (length (hashes ix)) :: u64)
     @ index_field (path_bytes (parent_path ix)) @ index_field (path_bytes (fallback_path ix))
     @ concat (map index_field (hashes ix))"

datatype index_error = Index_Missing | Rootfs_Missing | Index_Io io_error | Index_Utf8 | Index_Capacity

definition read_part :: "reader \<Rightarrow> nat \<Rightarrow> (bytes \<times> reader, index_error) result" where
  "read_part r n = (case read_exact r n of Inl e \<Rightarrow> Err (Index_Io e) | Inr x \<Rightarrow> Ok x)"

definition load_string :: "reader \<Rightarrow> (bytes \<times> reader, index_error) result" where
  "load_string r =
     and_then (read_part r 4) (\<lambda>(len, r).
     and_then (read_part r (unat (from_le_bytes len :: u32))) (\<lambda>(bs, r).
       if utf8_valid bs then Ok (bs, r) else Err Index_Utf8))"

definition load_path :: "reader \<Rightarrow> (bytes option \<times> reader, index_error) result" where
  "load_path r = and_then (load_string r) (\<lambda>(bs, r). Ok (if bs = [] then None else Some bs, r))"

primrec load_hashes :: "nat \<Rightarrow> reader \<Rightarrow> (bytes list \<times> reader, index_error) result" where
  "load_hashes 0 r = Ok ([], r)"
| "load_hashes (Suc n) r =
     and_then (load_string r) (\<lambda>(h, r). and_then (load_hashes n r) (\<lambda>(hs, r). Ok (h # hs, r)))"

text \<open>\<^verbatim>\<open>Vec::with_capacity\<close> panics when the strings, of 24 bytes each, exceed \<^verbatim>\<open>isize::MAX\<close>.\<close>

definition index_load :: "bytes \<Rightarrow> (ChunkIndex, index_error) result" where
  "index_load file =
     and_then (read_part \<lparr>rd_data = file, rd_fail = None\<rparr> 8) (\<lambda>(b, r). let sz = from_le_bytes b in
     and_then (read_part r 8) (\<lambda>(b, r). let n = unat (from_le_bytes b :: u64) in
     and_then (load_path r) (\<lambda>(parent, r).
     and_then (load_path r) (\<lambda>(fallback, r).
     if n * 24 > 2 ^ 63 - 1 then Err Index_Capacity
     else and_then (load_hashes n r) (\<lambda>(hs, r).
       Ok \<lparr>hashes = hs, disk_size = sz, parent_path = parent, fallback_path = fallback\<rparr>)))))"

text \<open>The index files by their path. \<open>idx_room\<close> is the space left on the disk, if that is limited: a write
  that does not fit leaves what fits.\<close>

record index_dir =
  idx_files :: "bytes \<rightharpoonup> bytes"
  idx_room :: "nat option"

definition index_save :: "bytes \<Rightarrow> ChunkIndex \<Rightarrow> index_dir \<Rightarrow> index_dir \<times> (unit, index_error) result" where
  "index_save path ix fs =
     (let file = index_bytes ix in
      case idx_room fs of
        None \<Rightarrow> (fs\<lparr>idx_files := (idx_files fs)(path \<mapsto> file)\<rparr>, Ok ())
      | Some n \<Rightarrow>
          if length file \<le> n
          then (fs\<lparr>idx_files := (idx_files fs)(path \<mapsto> file), idx_room := Some (n - length file)\<rparr>, Ok ())
          else (fs\<lparr>idx_files := (idx_files fs)(path \<mapsto> take n file), idx_room := Some 0\<rparr>,
                Err (Index_Io OtherError)))"

definition index_open :: "index_dir \<Rightarrow> bytes \<Rightarrow> (ChunkIndex, index_error) result" where
  "index_open fs path =
     (case idx_files fs path of None \<Rightarrow> Err Index_Missing | Some file \<Rightarrow> index_load file)"

section \<open>What a chunk store promises\<close>

text \<open>A Rust string is UTF-8, and shorter than 4 GiB here.\<close>

definition string_ok :: "bytes \<Rightarrow> bool" where
  "string_ok bs \<longleftrightarrow> utf8_valid bs \<and> length bs < 2 ^ 32"

text \<open>
  The contract the disk relies on, for chunks of at most the chunk size. \<open>holds\<close> is what the store
  would return for a hash; \<open>ok\<close> is its invariant, which also says which of the coming faults it
  survives.
\<close>

abbreviation chunk_fits :: "bytes \<Rightarrow> bool" where
  "chunk_fits d \<equiv> length d \<le> CHUNK_SIZE"

locale chunk_store =
  fixes S :: "'s ChunkStore"
    and ok :: "'s \<Rightarrow> bool"
    and holds :: "'s \<Rightarrow> bytes \<rightharpoonup> bytes"
  assumes put_keeps: "ok s \<Longrightarrow> chunk_fits d \<Longrightarrow> chunk_put S d s = (s', r) \<Longrightarrow> ok s' \<and> holds s \<subseteq>\<^sub>m holds s'"
    and put_holds: "ok s \<Longrightarrow> chunk_fits d \<Longrightarrow> chunk_put S d s = (s', Inr h)
      \<Longrightarrow> h \<noteq> ZERO_CHUNK_HASH \<and> string_ok h \<and> holds s' h = Some d"
    and get_keeps: "ok s \<Longrightarrow> chunk_get S h s = (s', q) \<Longrightarrow> ok s' \<and> holds s' = holds s"
    and get_holds: "ok s \<Longrightarrow> chunk_get S h s = (s', Inr x) \<Longrightarrow> x = holds s h"
    and holds_fits: "ok s \<Longrightarrow> holds s h = Some d \<Longrightarrow> chunk_fits d"
begin

lemma put_mono: "ok s \<Longrightarrow> chunk_fits d \<Longrightarrow> chunk_put S d s = (s', r) \<Longrightarrow> holds s h = Some x \<Longrightarrow> holds s' h = Some x"
  using put_keeps [of s d s' r] by (auto simp: map_le_def dom_def)

end

text \<open>What is relied on of BLAKE3 printed in hexadecimal: different chunks have different hashes.\<close>

definition blake3_sound :: "(bytes \<Rightarrow> bytes) \<Rightarrow> bool" where
  "blake3_sound b \<longleftrightarrow> inj_on b {d. chunk_fits d} \<and> ZERO_CHUNK_HASH \<notin> range b \<and> (\<forall>d. chunk_fits d \<longrightarrow> string_ok (b d))"

definition chunks_intact :: "(bytes \<Rightarrow> bytes) \<Rightarrow> LocalChunkStore \<Rightarrow> bool" where
  "chunks_intact b s \<longleftrightarrow> (\<forall>h d. chunk_files s h = Some d \<longrightarrow> h = b d \<and> chunk_fits d)"

text \<open>The directory keeps the contract while no write is torn.\<close>

definition local_ok :: "(bytes \<Rightarrow> bytes) \<Rightarrow> LocalChunkStore \<Rightarrow> bool" where
  "local_ok b s \<longleftrightarrow> blake3_sound b \<and> chunks_intact b s \<and> list_all (\<lambda>f. f = No_Fault \<or> f = Open_Fails) (faults s)"

lemma local_ok_next:
  "local_ok b s \<Longrightarrow> next_fault s = No_Fault \<or> next_fault s = Open_Fails"
  "local_ok b s \<Longrightarrow> local_ok b (s\<lparr>faults := tl (faults s)\<rparr>)"
  by (cases "faults s"; auto simp: local_ok_def next_fault_def chunks_intact_def)+

lemma local_put_cases:
  assumes ok: "local_ok b s" and fits: "chunk_fits d" and put: "local_put b d s = (s', r)"
  shows "local_ok b s' \<and> chunk_files s \<subseteq>\<^sub>m chunk_files s'
    \<and> (\<forall>h. r = Inr h \<longrightarrow> h = b d \<and> chunk_files s' h = Some d)"
proof -
  let ?s = "s\<lparr>faults := tl (faults s)\<rparr>"
  have ok': "local_ok b ?s" using ok by (rule local_ok_next)
  have added: "local_ok b (?s\<lparr>chunk_files := (chunk_files s)(b d \<mapsto> d)\<rparr>)"
    using ok' fits by (simp add: local_ok_def chunks_intact_def)
  have same: "x = d" if "chunk_files s (b d) = Some x" for x
  proof -
    have "b d = b x" "chunk_fits x" "inj_on b {d. chunk_fits d}"
      using ok that by (auto simp: local_ok_def blake3_sound_def chunks_intact_def)
    with fits show ?thesis by (auto dest: inj_onD)
  qed
  from ok consider "next_fault s = No_Fault" | "next_fault s = Open_Fails" by (auto dest: local_ok_next(1))
  then show ?thesis
  proof cases
    case 1
    show ?thesis
    proof (cases "chunk_files s (b d)")
      case None
      then have "s' = ?s\<lparr>chunk_files := (chunk_files s)(b d \<mapsto> d)\<rparr>" "r = Ok (b d)"
        using put 1 by (auto simp: local_put_def Let_def)
      with added None show ?thesis by (auto simp: map_le_def)
    next
      case (Some x)
      then have "s' = ?s" "r = Ok (b d)" using put 1 by (auto simp: local_put_def Let_def)
      with ok' Some same show ?thesis by simp
    qed
  next
    case 2
    with put ok' show ?thesis by (auto simp: local_put_def Let_def)
  qed
qed

lemma local_get_cases:
  "local_ok b s \<Longrightarrow> local_get h s = (s', r)
    \<Longrightarrow> local_ok b s' \<and> chunk_files s' = chunk_files s \<and> (\<forall>x. r = Inr x \<longrightarrow> x = chunk_files s h)"
  using local_ok_next(2) [of b s] by (auto simp: local_get_def Let_def split: if_splits)

lemma local_ok_hash: "local_ok b s \<Longrightarrow> chunk_fits d \<Longrightarrow> b d \<noteq> ZERO_CHUNK_HASH \<and> string_ok (b d)"
  by (metis local_ok_def blake3_sound_def rangeI)

lemma local_store_simps [simp]:
  "chunk_put (local_store b) = local_put b" "chunk_get (local_store b) = local_get"
  by (simp_all add: local_store_def)

interpretation local_chunks: chunk_store "local_store b" "local_ok b" chunk_files
proof (unfold_locales, goal_cases)
  case (1 s d s' r)
  then show ?case using local_put_cases [of b s d s' r] by simp
next
  case (2 s d s' h)
  then show ?case using local_put_cases [of b s d s' "Inr h"] local_ok_hash [of b s d] by auto
next
  case (3 s h s' q)
  then show ?case using local_get_cases [of b s h s' q] by simp
next
  case (4 s h s' x)
  then show ?case using local_get_cases [of b s h s' "Inr x"] by simp
next
  case (5 s h d)
  then show ?case by (simp add: local_ok_def chunks_intact_def)
qed

text \<open>A store in which nothing fails.\<close>

locale reliable_store = chunk_store +
  fixes well :: "'a \<Rightarrow> bool"
  assumes put_well: "ok s \<Longrightarrow> well s \<Longrightarrow> chunk_fits d \<Longrightarrow> chunk_put S d s = (s', r) \<Longrightarrow> well s' \<and> is_ok r"
    and get_well: "ok s \<Longrightarrow> well s \<Longrightarrow> chunk_get S h s = (s', q) \<Longrightarrow> well s' \<and> is_ok q"

section \<open>Index files\<close>

lemma ZERO_not_short [simp]: "length ZERO_CHUNK_HASH = 4" "ZERO_CHUNK_HASH \<noteq> []"
  by (simp_all add: ZERO_CHUNK_HASH_def str_def)

lemma get_hash_set_hash:
  "get_hash (set_hash i h ix) j = (if i = j \<and> i < num_chunks ix then Some h else get_hash ix j)"
  by (auto simp: get_hash_def set_hash_def num_chunks_def)

lemma num_chunks_set_hash [simp]: "num_chunks (set_hash i h ix) = num_chunks ix"
  by (simp add: num_chunks_def set_hash_def)

lemma get_hash_new: "get_hash (index_new sz) i = (if i < disk_chunks sz then Some ZERO_CHUNK_HASH else None)"
  by (simp add: get_hash_def index_new_def)

lemma read_part_exact:
  "n = length a \<Longrightarrow> read_part \<lparr>rd_data = a @ b, rd_fail = f\<rparr> n = Ok (a, \<lparr>rd_data = b, rd_fail = f\<rparr>)"
  by (simp add: read_part_def read_exact_def)

lemma load_string_field:
  "string_ok bs \<Longrightarrow> load_string \<lparr>rd_data = index_field bs @ rest, rd_fail = f\<rparr> = Ok (bs, \<lparr>rd_data = rest, rd_fail = f\<rparr>)"
  by (simp add: load_string_def index_field_def string_ok_def read_part_exact unat_of_nat take_bit_nat_eq_self)

lemma load_path_field:
  "string_ok (path_bytes p) \<Longrightarrow> load_path \<lparr>rd_data = index_field (path_bytes p) @ rest, rd_fail = f\<rparr>
    = Ok (if p = Some [] then None else p, \<lparr>rd_data = rest, rd_fail = f\<rparr>)"
  by (cases p) (auto simp: load_path_def load_string_field path_bytes_def)

lemma load_hashes_fields:
  "list_all string_ok hs \<Longrightarrow> load_hashes (length hs) \<lparr>rd_data = concat (map index_field hs) @ rest, rd_fail = f\<rparr>
    = Ok (hs, \<lparr>rd_data = rest, rd_fail = f\<rparr>)"
  by (induction hs) (simp_all add: load_string_field)

definition index_ok :: "ChunkIndex \<Rightarrow> bool" where
  "index_ok ix \<longleftrightarrow> list_all string_ok (hashes ix) \<and> string_ok (path_bytes (parent_path ix))
     \<and> string_ok (path_bytes (fallback_path ix)) \<and> length (hashes ix) * 24 < 2 ^ 63
     \<and> parent_path ix \<noteq> Some [] \<and> fallback_path ix \<noteq> Some []"

lemma index_load_bytes: "index_ok ix \<Longrightarrow> index_load (index_bytes ix @ rest) = Ok ix"
  by (simp add: index_ok_def index_load_def index_bytes_def read_part_exact load_path_field
      load_hashes_fields unat_of_nat take_bit_nat_eq_self)

lemma index_open_saved:
  assumes "index_ok ix" and "index_save path ix fs = (fs', Inr u)"
  shows "index_open fs' path = Ok ix \<and> (\<forall>p. p \<noteq> path \<longrightarrow> idx_files fs' p = idx_files fs p)"
  using assms index_load_bytes [of ix "[]"]
  by (auto simp: index_save_def index_open_def Let_def split: option.splits if_splits)

end
