(* ===== verification/Store_Cas.thy ===== *)
theory Store_Cas
  imports Store_Index Rust_Map
begin

text \<open>
  The disk over a chunk store, the second half of \<^verbatim>\<open>crates/lsb-store/src/cas.rs\<close>: reads find a chunk
  among the unsaved writes, in the index, in the indexes it was started from or in the root file
  system, writes change a copy of the chunk, \<^verbatim>\<open>flush\<close> moves the copies into the store. The contents of
  the disk are a function from addresses to bytes; the lemmas say what each operation does to it.
  Addresses are \<^verbatim>\<open>u64\<close> and wrap as in a release build. The disk is served by one thread.
\<close>

section \<open>State\<close>

record 's CasBackend =
  cb_store :: 's
  cb_index :: ChunkIndex
  cb_dirty :: "(nat, bytes) hash_map"
  cb_parents :: "ChunkIndex list"
  cb_fallback :: "FlatFileBackend option"
  source_index_path :: "bytes option"

text \<open>\<^verbatim>\<open>load_parent_chain\<close>: \<open>None\<close> when it never returns.\<close>

partial_function (option) load_chain ::
    "index_dir \<Rightarrow> bytes option \<Rightarrow> ChunkIndex list \<Rightarrow> (ChunkIndex list, index_error) result option" where
  "load_chain fs parent chain =
     (case parent of
        None \<Rightarrow> Some (Ok chain)
      | Some path \<Rightarrow>
          (case index_open fs path of
             Inl e \<Rightarrow> Some (Err e)
           | Inr ix \<Rightarrow> load_chain fs (parent_path ix) (chain @ [ix])))"

definition load_parent_chain :: "index_dir \<Rightarrow> ChunkIndex \<Rightarrow> (ChunkIndex list, index_error) result option" where
  "load_parent_chain fs ix = load_chain fs (parent_path ix) []"

text \<open>\<^verbatim>\<open>new\<close> and \<^verbatim>\<open>with_fallback\<close>.\<close>

definition cas_new ::
    "index_dir \<Rightarrow> 's \<Rightarrow> ChunkIndex \<Rightarrow> FlatFileBackend option \<Rightarrow> ('s CasBackend, index_error) result option" where
  "cas_new fs s ix fallback =
     map_option (\<lambda>r. and_then r (\<lambda>parents.
       Ok \<lparr>cb_store = s, cb_index = ix, cb_dirty = [], cb_parents = parents, cb_fallback = fallback,
           source_index_path = None\<rparr>)) (load_parent_chain fs ix)"

section \<open>Operations\<close>

definition cas_size :: "'s CasBackend \<Rightarrow> u64" where
  "cas_size cb = disk_size (cb_index cb)"

definition set_disk_size :: "u64 \<Rightarrow> 's CasBackend \<Rightarrow> 's CasBackend" where
  "set_disk_size new_size cb =
     (let ix = cb_index cb in
      if new_size > disk_size ix
      then cb\<lparr>cb_index := ix\<lparr>hashes := hashes ix @ replicate (disk_chunks new_size - num_chunks ix) ZERO_CHUNK_HASH,
                             disk_size := new_size\<rparr>\<rparr>
      else cb)"

definition fetch_chunk :: "'s ChunkStore \<Rightarrow> bytes \<Rightarrow> 's CasBackend \<Rightarrow> 's CasBackend \<times> (bytes, io_error) result" where
  "fetch_chunk S hash cb =
     (case chunk_get S hash (cb_store cb) of
        (s, Inr (Some data)) \<Rightarrow> (cb\<lparr>cb_store := s\<rparr>, Ok data)
      | (s, Inr None) \<Rightarrow> (cb\<lparr>cb_store := s\<rparr>, Err NotFound)
      | (s, Inl _) \<Rightarrow> (cb\<lparr>cb_store := s\<rparr>, Err OtherError))"

definition hash_at :: "nat \<Rightarrow> ChunkIndex \<Rightarrow> bytes" where
  "hash_at i ix = (case get_hash ix i of None \<Rightarrow> ZERO_CHUNK_HASH | Some h \<Rightarrow> h)"

text \<open>The chunk of the root file system, taken into the store when it is not all zero. \<^verbatim>\<open>read\<close> fills
  the front of a zeroed buffer, and how much it filled is ignored.\<close>

definition ingest_chunk :: "'s ChunkStore \<Rightarrow> nat \<Rightarrow> 's CasBackend \<Rightarrow> 's CasBackend \<times> (bytes, io_error) result" where
  "ingest_chunk S i cb =
     (case cb_fallback cb of
        None \<Rightarrow> (cb, Ok (replicate CHUNK_SIZE 0))
      | Some ff \<Rightarrow>
          let offset = of_nat i * of_nat CHUNK_SIZE in
          if offset < ff_size ff
          then
            let read_len = min CHUNK_SIZE (unat (ff_size ff - offset)) in
            (case ff_read ff offset read_len of
               Inl e \<Rightarrow> (cb, Err e)
             | Inr got \<Rightarrow>
                 let buf = got @ replicate (read_len - length got) 0 in
                 if list_all (\<lambda>b. b = 0) buf then (cb, Ok (replicate CHUNK_SIZE 0))
                 else
                   (case chunk_put S buf (cb_store cb) of
                      (s, Inl _) \<Rightarrow> (cb\<lparr>cb_store := s\<rparr>, Err OtherError)
                    | (s, Inr h) \<Rightarrow> (cb\<lparr>cb_store := s, cb_index := set_hash i h (cb_index cb)\<rparr>, Ok buf)))
          else (cb, Ok (replicate CHUNK_SIZE 0)))"

definition read_chunk :: "'s ChunkStore \<Rightarrow> nat \<Rightarrow> 's CasBackend \<Rightarrow> 's CasBackend \<times> (bytes, io_error) result" where
  "read_chunk S i cb =
     (case map_of (cb_dirty cb) i of
        Some data \<Rightarrow> (cb, Ok data)
      | None \<Rightarrow>
          let hash = hash_at i (cb_index cb) in
          if hash \<noteq> ZERO_CHUNK_HASH then fetch_chunk S hash cb
          else
            (case find (\<lambda>h. h \<noteq> ZERO_CHUNK_HASH) (map (hash_at i) (cb_parents cb)) of
               Some h \<Rightarrow> fetch_chunk S h cb
             | None \<Rightarrow> ingest_chunk S i cb))"

definition chunk_of :: "u64 \<Rightarrow> nat" where
  "chunk_of off = unat (off div of_nat CHUNK_SIZE)"

definition within_chunk :: "u64 \<Rightarrow> nat" where
  "within_chunk off = unat (off mod of_nat CHUNK_SIZE)"

definition chunk_part :: "bytes \<Rightarrow> nat \<Rightarrow> nat \<Rightarrow> bytes" where
  "chunk_part chunk o_in n = (let got = take n (drop o_in chunk) in got @ replicate (n - length got) 0)"

definition chunk_patch :: "bytes \<Rightarrow> nat \<Rightarrow> bytes \<Rightarrow> bytes" where
  "chunk_patch chunk o_in bs =
     take o_in (chunk @ replicate (o_in + length bs - length chunk) 0) @ bs @ drop (o_in + length bs) chunk"

lemma within_chunk_less [simp]: "within_chunk off < CHUNK_SIZE"
  unfolding within_chunk_def CHUNK_SIZE_def by (simp add: unat_mod unat_of_nat)

lemma chunk_room: "within_chunk off + min (CHUNK_SIZE - within_chunk off) n \<le> CHUNK_SIZE"
  using within_chunk_less [of off] by arith

function cas_read :: "'s ChunkStore \<Rightarrow> 's CasBackend \<Rightarrow> u64 \<Rightarrow> nat \<Rightarrow> 's CasBackend \<times> (bytes, io_error) result" where
  "cas_read S cb off n =
     (if n = 0 then (cb, Ok [])
      else
        let to_read = min (CHUNK_SIZE - within_chunk off) n in
        (case read_chunk S (chunk_of off) cb of
           (cb, Inl e) \<Rightarrow> (cb, Err e)
         | (cb, Inr chunk) \<Rightarrow>
             (case cas_read S cb (off + of_nat to_read) (n - to_read) of
                (cb, Inl e) \<Rightarrow> (cb, Err e)
              | (cb, Inr rest) \<Rightarrow> (cb, Ok (chunk_part chunk (within_chunk off) to_read @ rest)))))"
  by auto
termination
  by (relation "measure (\<lambda>(_, _, _, n). n)") auto

function cas_write_loop :: "'s ChunkStore \<Rightarrow> 's CasBackend \<Rightarrow> u64 \<Rightarrow> bytes \<Rightarrow> 's CasBackend \<times> (unit, io_error) result" where
  "cas_write_loop S cb off data =
     (if data = [] then (cb, Ok ())
      else
        let to_write = min (CHUNK_SIZE - within_chunk off) (length data) in
        (case read_chunk S (chunk_of off) cb of
           (cb, Inl e) \<Rightarrow> (cb, Err e)
         | (cb, Inr chunk) \<Rightarrow>
             cas_write_loop S
               (cb\<lparr>cb_dirty := AList.update (chunk_of off) (chunk_patch chunk (within_chunk off) (take to_write data)) (cb_dirty cb)\<rparr>)
               (off + of_nat to_write) (drop to_write data)))"
  by auto
termination
  by (relation "measure (\<lambda>(_, _, _, data). length data)") auto

declare cas_read.simps [simp del] cas_write_loop.simps [simp del]

definition cas_write :: "'s ChunkStore \<Rightarrow> 's CasBackend \<Rightarrow> u64 \<Rightarrow> bytes \<Rightarrow> 's CasBackend \<times> (nat, io_error) result" where
  "cas_write S cb off data =
     (case cas_write_loop S cb off data of (cb, Inl e) \<Rightarrow> (cb, Err e) | (cb, Inr _) \<Rightarrow> (cb, Ok (length data)))"

text \<open>Leaving the loop over \<^verbatim>\<open>dirty.drain()\<close> early drops the rest of the map.\<close>

fun flush_chunks ::
    "'s ChunkStore \<Rightarrow> (nat, bytes) hash_map \<Rightarrow> 's \<times> ChunkIndex \<Rightarrow> ('s \<times> ChunkIndex) \<times> (unit, io_error) result" where
  "flush_chunks S [] (s, ix) = ((s, ix), Ok ())"
| "flush_chunks S ((i, data) # rest) (s, ix) =
     (case chunk_put S data s of
        (s, Inl _) \<Rightarrow> ((s, ix), Err OtherError)
      | (s, Inr h) \<Rightarrow> flush_chunks S rest (s, set_hash i h ix))"

definition cas_flush :: "'s ChunkStore \<Rightarrow> 's CasBackend \<Rightarrow> 's CasBackend \<times> (unit, io_error) result" where
  "cas_flush S cb =
     (case flush_chunks S (cb_dirty cb) (cb_store cb, cb_index cb) of
        ((s, ix), r) \<Rightarrow> (cb\<lparr>cb_store := s, cb_index := ix, cb_dirty := []\<rparr>, r))"

definition saved_index :: "'s CasBackend \<Rightarrow> ChunkIndex" where
  "saved_index cb =
     (let ix = (cb_index cb)\<lparr>parent_path := source_index_path cb\<rparr> in
      case fallback_path ix of
        Some _ \<Rightarrow> ix
      | None \<Rightarrow> ix\<lparr>fallback_path := map_option ff_path (cb_fallback cb)\<rparr>)"

definition save_index ::
    "'s ChunkStore \<Rightarrow> bytes \<Rightarrow> 's CasBackend \<Rightarrow> index_dir \<Rightarrow> 's CasBackend \<times> index_dir \<times> (unit, index_error) result" where
  "save_index S path cb fs =
     (case cas_flush S cb of
        (cb, Inl e) \<Rightarrow> (cb, fs, Err (Index_Io e))
      | (cb, Inr _) \<Rightarrow>
          let ix = saved_index cb; cb = cb\<lparr>cb_index := ix\<rparr> in
          (case index_save path ix fs of (fs, r) \<Rightarrow> (cb, fs, r)))"

section \<open>The contents of the disk\<close>

definition byte_of :: "bytes \<Rightarrow> nat \<Rightarrow> byte" where
  "byte_of chunk j = (if j < length chunk then chunk ! j else 0)"

definition visible_hash :: "nat \<Rightarrow> 's CasBackend \<Rightarrow> bytes option" where
  "visible_hash i cb = find (\<lambda>h. h \<noteq> ZERO_CHUNK_HASH) (map (hash_at i) (cb_index cb # cb_parents cb))"

definition fallback_chunk :: "nat \<Rightarrow> 's CasBackend \<Rightarrow> bytes" where
  "fallback_chunk i cb =
     (case cb_fallback cb of
        None \<Rightarrow> []
      | Some ff \<Rightarrow>
          let offset = of_nat i * of_nat CHUNK_SIZE in
          if offset < ff_size ff
          then pread_at (ff_data ff) (unat offset) (min CHUNK_SIZE (unat (ff_size ff - offset))) else [])"

text \<open>The bytes of a chunk, when \<open>H\<close> is what the store holds.\<close>

definition chunk_view :: "(bytes \<rightharpoonup> bytes) \<Rightarrow> 's CasBackend \<Rightarrow> nat \<Rightarrow> nat \<Rightarrow> byte" where
  "chunk_view H cb i =
     byte_of
       (case map_of (cb_dirty cb) i of
          Some data \<Rightarrow> data
        | None \<Rightarrow> (case visible_hash i cb of Some h \<Rightarrow> the (H h) | None \<Rightarrow> fallback_chunk i cb))"

definition disk :: "(bytes \<rightharpoonup> bytes) \<Rightarrow> 's CasBackend \<Rightarrow> u64 \<Rightarrow> byte" where
  "disk H cb a = chunk_view H cb (chunk_of a) (within_chunk a)"

text \<open>The bytes of \<open>f\<close> from \<open>off\<close> on replaced by \<open>data\<close>.\<close>

definition overwrite :: "u64 \<Rightarrow> bytes \<Rightarrow> (u64 \<Rightarrow> byte) \<Rightarrow> u64 \<Rightarrow> byte" where
  "overwrite off data f a = (if unat (a - off) < length data then data ! unat (a - off) else f a)"

text \<open>What an operation may do to the rest of the state: an index entry never becomes the zero entry
  again.\<close>

definition evolves :: "'s CasBackend \<Rightarrow> 's CasBackend \<Rightarrow> bool" where
  "evolves cb cb' \<longleftrightarrow>
     cb_parents cb' = cb_parents cb \<and> cb_fallback cb' = cb_fallback cb \<and> source_index_path cb' = source_index_path cb
     \<and> num_chunks (cb_index cb') = num_chunks (cb_index cb) \<and> disk_size (cb_index cb') = disk_size (cb_index cb)
     \<and> parent_path (cb_index cb') = parent_path (cb_index cb) \<and> fallback_path (cb_index cb') = fallback_path (cb_index cb)
     \<and> (\<forall>i. hash_at i (cb_index cb') = ZERO_CHUNK_HASH \<longrightarrow> hash_at i (cb_index cb) = ZERO_CHUNK_HASH)"

lemma evolves_refl [simp]: "evolves cb cb"
  by (simp add: evolves_def)

lemma evolves_trans: "evolves a b \<Longrightarrow> evolves b c \<Longrightarrow> evolves a c"
  by (simp add: evolves_def)

section \<open>Chunks and addresses\<close>

lemma CHUNK_SIZE_word: "(of_nat CHUNK_SIZE :: u64) = 65536" "CHUNK_SIZE = 65536"
  by (simp_all add: CHUNK_SIZE_def)

lemma chunk_of_nat: "chunk_of a = unat a div CHUNK_SIZE"
  by (simp add: chunk_of_def CHUNK_SIZE_word unat_div)

lemma within_chunk_nat: "within_chunk a = unat a mod CHUNK_SIZE"
  by (simp add: within_chunk_def CHUNK_SIZE_word unat_mod)

lemma chunk_arith:
  fixes n j :: nat
  assumes "n < 2 ^ 64" and "n mod 65536 + j < 65536"
  shows "n + j < 2 ^ 64 \<and> (n + j) div 65536 = n div 65536 \<and> (n + j) mod 65536 = n mod 65536 + j"
proof -
  obtain q r where n: "n = 65536 * q + r" "r < 65536" by (metis mod_less_divisor mult_div_mod_eq zero_less_numeral)
  with assms have "r + j < 65536" "q < 2 ^ 48" by simp_all
  with n show ?thesis by (simp add: add.assoc)
qed

lemma address_step:
  assumes "within_chunk off + j < CHUNK_SIZE"
  shows "chunk_of (off + of_nat j) = chunk_of off \<and> within_chunk (off + of_nat j) = within_chunk off + j"
proof -
  have "unat off < 2 ^ 64" using unat_bound [of off] by simp
  with assms have n: "unat off + j < 2 ^ 64" "(unat off + j) div 65536 = unat off div 65536"
      "(unat off + j) mod 65536 = unat off mod 65536 + j"
    using chunk_arith [of "unat off" j] by (simp_all add: within_chunk_nat CHUNK_SIZE_word)
  then have "unat (off + of_nat j) = unat off + j"
    by (simp add: unat_word_ariths unat_of_nat take_bit_nat_eq_self)
  with n show ?thesis by (simp add: chunk_of_nat within_chunk_nat CHUNK_SIZE_word)
qed

lemma address_split: "unat a = CHUNK_SIZE * chunk_of a + within_chunk a"
  by (simp add: chunk_of_nat within_chunk_nat)

lemma address_diff:
  assumes "within_chunk off + n \<le> CHUNK_SIZE"
  shows "unat (a - off) < n \<longleftrightarrow>
    chunk_of a = chunk_of off \<and> within_chunk off \<le> within_chunk a \<and> within_chunk a < within_chunk off + n"
    and "unat (a - off) < n \<Longrightarrow> unat (a - off) = within_chunk a - within_chunk off"
proof -
  have there: "chunk_of a = chunk_of off \<and> within_chunk a = within_chunk off + unat (a - off)" if "unat (a - off) < n"
    using address_step [of off "unat (a - off)"] assms that by simp
  have here: "unat (a - off) < n" if "chunk_of a = chunk_of off" "within_chunk off \<le> within_chunk a"
      "within_chunk a < within_chunk off + n"
  proof -
    have "unat a - unat off = within_chunk a - within_chunk off" "unat off \<le> unat a"
      using that address_split [of a] address_split [of off] by auto
    with that show ?thesis by (simp add: unat_sub_le)
  qed
  show "unat (a - off) < n \<longleftrightarrow>
    chunk_of a = chunk_of off \<and> within_chunk off \<le> within_chunk a \<and> within_chunk a < within_chunk off + n"
    using there here by auto
  show "unat (a - off) < n \<Longrightarrow> unat (a - off) = within_chunk a - within_chunk off"
    using there by simp
qed

lemma overwrite_split:
  assumes "length data \<le> 2 ^ 64" and "k \<le> length data"
  shows "overwrite (off + of_nat k) (drop k data) (overwrite off (take k data) f) = overwrite off data f"
proof
  fix a
  let ?d = "unat (a - off)"
  have d: "?d < 2 ^ 64" using unat_bound [of "a - off"] by simp
  have a: "a - (off + of_nat k) = a - off - of_nat k" by simp
  show "overwrite (off + of_nat k) (drop k data) (overwrite off (take k data) f) a = overwrite off data f a"
  proof (cases "k \<le> ?d")
    case True
    with d have k: "unat (of_nat k :: u64) = k" by (simp add: unat_of_nat take_bit_nat_eq_self)
    with True have "unat (a - (off + of_nat k)) = ?d - k" by (simp add: a unat_sub_le)
    with True assms show ?thesis by (auto simp: overwrite_def)
  next
    case False
    have "\<not> unat (a - (off + of_nat k)) < length data - k"
    proof (cases "k < 2 ^ 64")
      case True
      then have "unat (of_nat k :: u64) = k" by (simp add: unat_of_nat take_bit_nat_eq_self)
      with False d True have "unat (a - (off + of_nat k)) = 2 ^ 64 - (k - ?d)"
        by (simp add: a unat_sub_if_size word_size)
      with False assms show ?thesis by linarith
    next
      case False
      with assms show ?thesis by simp
    qed
    with False assms show ?thesis by (auto simp: overwrite_def)
  qed
qed

lemma overwrite_Nil [simp]: "overwrite off [] f = f"
  by (rule ext) (simp add: overwrite_def)

section \<open>Parts of chunks\<close>

lemma byte_of_append_zeros: "byte_of (d @ replicate n 0) = byte_of d"
  by (rule ext) (auto simp: byte_of_def nth_append)

lemma byte_of_zeros: "list_all (\<lambda>b. b = 0) d \<Longrightarrow> byte_of d = (\<lambda>_. 0)"
  by (rule ext) (auto simp: byte_of_def list_all_iff)

lemma map_upt_split: "k \<le> n \<Longrightarrow> map f [0..<n] = map f [0..<k] @ map (\<lambda>j. f (k + j)) [0..<n - k]"
  by (rule nth_equalityI) (auto simp: nth_append)

lemma chunk_part_bytes: "chunk_part chunk w n = map (\<lambda>j. byte_of chunk (w + j)) [0..<n]"
  by (rule nth_equalityI) (auto simp: chunk_part_def Let_def byte_of_def nth_append)

lemma chunk_patch_byte:
  "byte_of (chunk_patch chunk w bs) j = (if w \<le> j \<and> j < w + length bs then bs ! (j - w) else byte_of chunk j)"
  by (auto simp: byte_of_def chunk_patch_def nth_append min_def not_less)

lemma chunk_patch_fits: "chunk_fits chunk \<Longrightarrow> w + length bs \<le> CHUNK_SIZE \<Longrightarrow> chunk_fits (chunk_patch chunk w bs)"
  by (auto simp: chunk_patch_def)

section \<open>The invariant\<close>

text \<open>Every hash that an index names is in the store, and no chunk is longer than the chunk size.\<close>

definition cas_ok :: "('s \<Rightarrow> bool) \<Rightarrow> ('s \<Rightarrow> bytes \<rightharpoonup> bytes) \<Rightarrow> 's CasBackend \<Rightarrow> bool" where
  "cas_ok ok holds cb \<longleftrightarrow>
     ok (cb_store cb) \<and> hm_wf (cb_dirty cb) \<and> list_all (chunk_fits \<circ> snd) (cb_dirty cb)
     \<and> list_all string_ok (hashes (cb_index cb))
     \<and> (\<forall>ix \<in> set (cb_index cb # cb_parents cb). \<forall>i. hash_at i ix \<noteq> ZERO_CHUNK_HASH
          \<longrightarrow> holds (cb_store cb) (hash_at i ix) \<noteq> None)"

lemma hash_at_set_hash:
  "hash_at j (set_hash i h ix) = (if i = j \<and> i < num_chunks ix then h else hash_at j ix)"
  by (simp add: hash_at_def get_hash_set_hash)

lemma hashes_set_hash: "list_all string_ok (hashes ix) \<Longrightarrow> string_ok h \<Longrightarrow> list_all string_ok (hashes (set_hash i h ix))"
  by (auto simp: set_hash_def list_all_iff dest: set_update_subset_insert [THEN subsetD])

lemma visible_hash_cases:
  "visible_hash i cb =
     (if hash_at i (cb_index cb) \<noteq> ZERO_CHUNK_HASH then Some (hash_at i (cb_index cb))
      else find (\<lambda>h. h \<noteq> ZERO_CHUNK_HASH) (map (hash_at i) (cb_parents cb)))"
  by (simp add: visible_hash_def)

lemma visible_hash_in:
  "visible_hash i cb = Some h \<Longrightarrow> h \<noteq> ZERO_CHUNK_HASH \<and> (\<exists>ix \<in> set (cb_index cb # cb_parents cb). h = hash_at i ix)"
proof -
  have "find P xs = Some h \<Longrightarrow> P h \<and> h \<in> set xs" for P and xs :: "bytes list"
    by (auto simp: find_Some_iff)
  then show "visible_hash i cb = Some h \<Longrightarrow> ?thesis" unfolding visible_hash_def by fastforce
qed

lemma read_chunk_visible:
  "read_chunk S i cb =
     (case map_of (cb_dirty cb) i of
        Some data \<Rightarrow> (cb, Ok data)
      | None \<Rightarrow> (case visible_hash i cb of Some h \<Rightarrow> fetch_chunk S h cb | None \<Rightarrow> ingest_chunk S i cb))"
  by (simp add: read_chunk_def visible_hash_cases Let_def split: option.splits)

lemma set_hash_fields [simp]:
  "disk_size (set_hash i h ix) = disk_size ix" "parent_path (set_hash i h ix) = parent_path ix"
  "fallback_path (set_hash i h ix) = fallback_path ix"
  by (simp_all add: set_hash_def)

lemma evolves_set_hash:
  "h \<noteq> ZERO_CHUNK_HASH \<Longrightarrow> evolves cb (cb\<lparr>cb_store := s, cb_index := set_hash i h (cb_index cb)\<rparr>)"
  by (auto simp: evolves_def hash_at_set_hash)

lemma evolves_fields [simp]:
  "evolves cb (cb\<lparr>cb_store := s\<rparr>)" "evolves cb (cb\<lparr>cb_dirty := d\<rparr>)"
  by (simp_all add: evolves_def)

text \<open>An operation that keeps the invariant and the contents.\<close>

definition keeps_disk :: "('s \<Rightarrow> bool) \<Rightarrow> ('s \<Rightarrow> bytes \<rightharpoonup> bytes) \<Rightarrow> 's CasBackend \<Rightarrow> 's CasBackend \<Rightarrow> bool" where
  "keeps_disk ok holds cb cb' \<longleftrightarrow> cas_ok ok holds cb' \<and> evolves cb cb'
     \<and> chunk_view (holds (cb_store cb')) cb' = chunk_view (holds (cb_store cb)) cb"

lemma keeps_disk_trans: "keeps_disk ok holds a b \<Longrightarrow> keeps_disk ok holds b c \<Longrightarrow> keeps_disk ok holds a c"
  by (auto simp: keeps_disk_def intro: evolves_trans)

context chunk_store
begin

lemma cas_ok_visible: "cas_ok ok holds cb \<Longrightarrow> visible_hash i cb = Some h \<Longrightarrow> \<exists>d. holds (cb_store cb) h = Some d \<and> chunk_fits d"
  using holds_fits visible_hash_in [of i cb h] unfolding cas_ok_def by blast

text \<open>A change of the store that forgets nothing.\<close>

lemma cas_ok_store:
  assumes cas: "cas_ok ok holds cb" and "ok s" and "holds (cb_store cb) \<subseteq>\<^sub>m holds s"
  shows "cas_ok ok holds (cb\<lparr>cb_store := s\<rparr>)
    \<and> chunk_view (holds s) (cb\<lparr>cb_store := s\<rparr>) = chunk_view (holds (cb_store cb)) cb"
proof -
  have mono: "holds s h = Some d" if "holds (cb_store cb) h = Some d" for h d
    using assms(3) that by (auto simp: map_le_def dom_def)
  have "cas_ok ok holds (cb\<lparr>cb_store := s\<rparr>)"
    using cas \<open>ok s\<close> mono unfolding cas_ok_def by simp (metis option.exhaust)
  moreover have "visible_hash i (cb\<lparr>cb_store := s\<rparr>) = visible_hash i cb"
    and "fallback_chunk i (cb\<lparr>cb_store := s\<rparr>) = fallback_chunk i cb" for i
    by (simp_all add: visible_hash_def fallback_chunk_def)
  ultimately show ?thesis
    using cas_ok_visible [OF cas] mono by (fastforce simp: chunk_view_def fun_eq_iff split: option.splits)
qed

lemma fetch_chunk_spec:
  assumes cas: "cas_ok ok holds cb" and vis: "visible_hash i cb = Some h" and "map_of (cb_dirty cb) i = None"
    and fetch: "fetch_chunk S h cb = (cb', r)"
  shows "keeps_disk ok holds cb cb'
    \<and> (\<forall>d. r = Inr d \<longrightarrow> byte_of d = chunk_view (holds (cb_store cb)) cb i \<and> chunk_fits d)"
proof -
  obtain s q where get: "chunk_get S h (cb_store cb) = (s, q)" by force
  have s: "ok s" "holds s = holds (cb_store cb)" and q: "\<And>x. q = Inr x \<Longrightarrow> x = holds (cb_store cb) h"
    using get_keeps get_holds get cas by (auto simp: cas_ok_def)
  obtain d where d: "holds (cb_store cb) h = Some d" "chunk_fits d" using cas_ok_visible [OF cas vis] by blast
  have cb': "cb' = cb\<lparr>cb_store := s\<rparr>" using fetch get by (auto simp: fetch_chunk_def split: sum.splits option.splits)
  have r: "\<And>x. r = Inr x \<Longrightarrow> x = d"
    using fetch get q d by (auto simp: fetch_chunk_def split: sum.splits option.splits)
  have "chunk_view (holds (cb_store cb)) cb i = byte_of d"
    using assms(3) vis d by (simp add: chunk_view_def)
  with r d cb' cas_ok_store [OF cas, of s] s show ?thesis by (auto simp: keeps_disk_def)
qed

lemma ingest_put_spec:
  assumes cas: "cas_ok ok holds cb" and vis: "visible_hash i cb = None" and dirty: "map_of (cb_dirty cb) i = None"
    and put: "chunk_put S buf (cb_store cb) = (s, Inr h)" and fits: "chunk_fits buf"
    and buf: "byte_of buf = byte_of (fallback_chunk i cb)"
  shows "keeps_disk ok holds cb (cb\<lparr>cb_store := s, cb_index := set_hash i h (cb_index cb)\<rparr>)"
proof -
  have ok: "ok (cb_store cb)" using cas by (simp add: cas_ok_def)
  have s: "ok s" "holds (cb_store cb) \<subseteq>\<^sub>m holds s" using put_keeps [OF ok fits put] by auto
  have h: "h \<noteq> ZERO_CHUNK_HASH" "string_ok h" "holds s h = Some buf" using put_holds [OF ok fits put] by auto
  let ?cb = "cb\<lparr>cb_store := s\<rparr>" and ?cb' = "cb\<lparr>cb_store := s, cb_index := set_hash i h (cb_index cb)\<rparr>"
  have 1: "cas_ok ok holds ?cb" "chunk_view (holds s) ?cb = chunk_view (holds (cb_store cb)) cb"
    using cas_ok_store [OF cas s] by auto
  have "cas_ok ok holds ?cb'"
    using 1(1) h by (auto simp: cas_ok_def hash_at_set_hash hashes_set_hash)
  moreover have "chunk_view (holds s) ?cb' k = chunk_view (holds s) ?cb k" for k
  proof (cases "k = i \<and> i < num_chunks (cb_index cb)")
    case True
    with vis dirty h buf show ?thesis
      by (simp add: chunk_view_def visible_hash_cases hash_at_set_hash fallback_chunk_def split: if_splits)
  next
    case False
    then have "visible_hash k ?cb' = visible_hash k ?cb" by (auto simp: visible_hash_cases hash_at_set_hash)
    then show ?thesis by (simp add: chunk_view_def fallback_chunk_def split: option.split)
  qed
  ultimately show ?thesis using 1 evolves_set_hash [OF h(1)] by (simp add: keeps_disk_def fun_eq_iff)
qed

lemma ingest_chunk_spec:
  assumes cas: "cas_ok ok holds cb" and vis: "visible_hash i cb = None" and dirty: "map_of (cb_dirty cb) i = None"
    and ingest: "ingest_chunk S i cb = (cb', r)"
  shows "keeps_disk ok holds cb cb' \<and> (\<forall>d. r = Inr d \<longrightarrow> byte_of d = chunk_view (holds (cb_store cb)) cb i \<and> chunk_fits d)"
proof -
  have view: "chunk_view (holds (cb_store cb)) cb i = byte_of (fallback_chunk i cb)"
    using vis dirty by (simp add: chunk_view_def)
  have same: "keeps_disk ok holds cb cb" using cas by (simp add: keeps_disk_def)
  have zero: "byte_of (replicate CHUNK_SIZE 0) = byte_of []" by (simp add: byte_of_zeros list_all_length)
  have ok: "ok (cb_store cb)" using cas by (simp add: cas_ok_def)
  show ?thesis
  proof (cases "fallback_chunk i cb = [] \<and> cb' = cb \<and> r = Ok (replicate CHUNK_SIZE 0)")
    case True
    with same zero view show ?thesis by simp
  next
    case False
    then obtain ff where ff: "cb_fallback cb = Some ff"
      and less: "of_nat i * of_nat CHUNK_SIZE < ff_size ff" (is "?off < _")
      using ingest by (auto simp: ingest_chunk_def fallback_chunk_def Let_def split: option.splits if_splits)
    define n where "n = min CHUNK_SIZE (unat (ff_size ff - ?off))"
    show ?thesis
    proof (cases "ff_read ff ?off n")
      case (Inl e)
      with ingest ff less same show ?thesis by (auto simp: ingest_chunk_def Let_def n_def)
    next
      case (Inr got)
      define buf where "buf = got @ replicate (n - length got) 0"
      have "got = fallback_chunk i cb"
        using Inr ff less by (auto simp: ff_read_def fallback_chunk_def n_def Let_def split: option.splits if_splits)
      then have buf: "byte_of buf = byte_of (fallback_chunk i cb)" by (simp add: buf_def byte_of_append_zeros)
      have "length got \<le> n" "n \<le> CHUNK_SIZE"
        using Inr by (auto simp: pread_at_def ff_read_def n_def split: option.splits if_splits)
      then have fits: "chunk_fits buf" by (simp add: buf_def)
      show ?thesis
      proof (cases "list_all (\<lambda>b. b = 0) buf")
        case True
        with ingest ff less Inr have "cb' = cb" "r = Ok (replicate CHUNK_SIZE 0)"
          by (auto simp: ingest_chunk_def Let_def buf_def n_def)
        with same view zero buf byte_of_zeros [OF True] show ?thesis by (simp add: byte_of_zeros)
      next
        case nonzero: False
        obtain s q where put: "chunk_put S buf (cb_store cb) = (s, q)" by force
        have "keeps_disk ok holds cb (cb\<lparr>cb_store := s\<rparr>)"
          using cas_ok_store [OF cas, of s] put_keeps [OF ok fits put] by (simp add: keeps_disk_def)
        moreover have "q = Inr h \<Longrightarrow> keeps_disk ok holds cb (cb\<lparr>cb_store := s, cb_index := set_hash i h (cb_index cb)\<rparr>)" for h
          using ingest_put_spec [OF cas vis dirty _ fits buf] put by simp
        ultimately show ?thesis
          using ingest ff less Inr nonzero put view buf fits
          by (auto simp: ingest_chunk_def Let_def simp flip: buf_def n_def split: sum.splits)
      qed
    qed
  qed
qed

lemma read_chunk_spec:
  assumes cas: "cas_ok ok holds cb" and read: "read_chunk S i cb = (cb', r)"
  shows "keeps_disk ok holds cb cb'"
    and "r = Inr d \<Longrightarrow> byte_of d = chunk_view (holds (cb_store cb)) cb i \<and> chunk_fits d"
proof -
  have "keeps_disk ok holds cb cb' \<and> (\<forall>d. r = Inr d \<longrightarrow> byte_of d = chunk_view (holds (cb_store cb)) cb i \<and> chunk_fits d)"
  proof (cases "map_of (cb_dirty cb) i")
    case (Some d)
    have "chunk_fits d" using cas map_of_SomeD [OF Some] by (auto simp: cas_ok_def list_all_iff)
    with cas read Some show ?thesis by (auto simp: read_chunk_visible keeps_disk_def chunk_view_def)
  next
    case None
    with cas read show ?thesis
      by (cases "visible_hash i cb") (simp_all add: read_chunk_visible ingest_chunk_spec fetch_chunk_spec)
  qed
  then show "keeps_disk ok holds cb cb'"
    and "r = Inr d \<Longrightarrow> byte_of d = chunk_view (holds (cb_store cb)) cb i \<and> chunk_fits d" by auto
qed

lemma cas_read_spec:
  assumes "cas_ok ok holds cb" and "cas_read S cb off n = (cb', r)"
  shows "keeps_disk ok holds cb cb'
    \<and> (\<forall>bs. r = Inr bs \<longrightarrow> bs = map (\<lambda>j. disk (holds (cb_store cb)) cb (off + of_nat j)) [0..<n])"
  using assms
proof (induction n arbitrary: cb off cb' r rule: less_induct)
  case (less n)
  note cas = less.prems(1)
  define k where "k = min (CHUNK_SIZE - within_chunk off) n"
  show ?case
  proof (cases "n = 0")
    case True
    with less.prems show ?thesis by (auto simp: cas_read.simps keeps_disk_def)
  next
    case False
    then have k: "0 < k" "k \<le> n" "within_chunk off + k \<le> CHUNK_SIZE"
      using chunk_room [of off n] by (simp_all add: k_def)
    obtain cb1 q where rc: "read_chunk S (chunk_of off) cb = (cb1, q)" by force
    note same = read_chunk_spec [OF cas rc]
    then have view: "disk (holds (cb_store cb1)) cb1 = disk (holds (cb_store cb)) cb"
      by (simp add: keeps_disk_def disk_def fun_eq_iff)
    show ?thesis
    proof (cases q)
      case (Inl e)
      with less.prems False rc same(1) show ?thesis by (auto simp: cas_read.simps Let_def)
    next
      case (Inr chunk)
      obtain cb2 p where rest: "cas_read S cb1 (off + of_nat k) (n - k) = (cb2, p)" by force
      have IH: "keeps_disk ok holds cb1 cb2"
        "\<And>bs. p = Inr bs \<Longrightarrow> bs = map (\<lambda>j. disk (holds (cb_store cb)) cb (off + of_nat k + of_nat j)) [0..<n - k]"
        using less.IH [OF _ _ rest] k same(1) view by (auto simp: keeps_disk_def)
      have "chunk_part chunk (within_chunk off) k = map (\<lambda>j. disk (holds (cb_store cb)) cb (off + of_nat j)) [0..<k]"
        using same(2) [OF Inr] k address_step [of off] by (simp add: chunk_part_bytes disk_def)
      then have "chunk_part chunk (within_chunk off) k @ map (\<lambda>j. disk (holds (cb_store cb)) cb (off + of_nat k + of_nat j)) [0..<n - k]
          = map (\<lambda>j. disk (holds (cb_store cb)) cb (off + of_nat j)) [0..<n]"
        using map_upt_split [OF k(2), of "\<lambda>j. disk (holds (cb_store cb)) cb (off + of_nat j)"] by (simp add: add.assoc)
      then show ?thesis
        using less.prems(2) False rc Inr rest IH(2) keeps_disk_trans [OF same(1) IH(1)]
        by (auto simp: cas_read.simps [of S cb] Let_def simp flip: k_def split: sum.splits)
    qed
  qed
qed

lemma patch_spec:
  assumes cas: "cas_ok ok holds cb" and chunk: "byte_of chunk = chunk_view (holds (cb_store cb)) cb (chunk_of off)" "chunk_fits chunk"
    and fits: "within_chunk off + length bs \<le> CHUNK_SIZE"
    and cb': "cb' = cb\<lparr>cb_dirty := AList.update (chunk_of off) (chunk_patch chunk (within_chunk off) bs) (cb_dirty cb)\<rparr>"
  shows "cas_ok ok holds cb' \<and> evolves cb cb' \<and> disk (holds (cb_store cb')) cb' = overwrite off bs (disk (holds (cb_store cb)) cb)"
proof -
  have "list_all (chunk_fits \<circ> snd) (AList.update i d ds)" if "list_all (chunk_fits \<circ> snd) ds" "chunk_fits d" for i d and ds :: "(nat \<times> bytes) list"
    using that by (induction ds) auto
  then have "cas_ok ok holds cb'" using cas chunk_patch_fits [OF chunk(2) fits] by (simp add: cas_ok_def cb')
  moreover have "disk (holds (cb_store cb')) cb' a = overwrite off bs (disk (holds (cb_store cb)) cb) a" for a
  proof -
    have "chunk_view (holds (cb_store cb)) cb' i =
        (if i = chunk_of off then byte_of (chunk_patch chunk (within_chunk off) bs) else chunk_view (holds (cb_store cb)) cb i)" for i
      by (simp add: chunk_view_def cb' hm_update_lookup visible_hash_def fallback_chunk_def split: option.split)
    with chunk(1) address_diff [OF fits, of a] show ?thesis
      by (auto simp: disk_def overwrite_def chunk_patch_byte cb')
  qed
  ultimately show ?thesis by (simp add: cb' fun_eq_iff)
qed

lemma cas_write_loop_spec:
  assumes "cas_ok ok holds cb" and "length data \<le> 2 ^ 64" and "cas_write_loop S cb off data = (cb', r)"
  shows "cas_ok ok holds cb' \<and> evolves cb cb'
    \<and> (\<exists>m \<le> length data. (r = Inr () \<longrightarrow> m = length data)
        \<and> disk (holds (cb_store cb')) cb' = overwrite off (take m data) (disk (holds (cb_store cb)) cb))"
  using assms
proof (induction "length data" arbitrary: cb off data cb' r rule: less_induct)
  case less
  note cas = less.prems(1)
  define k where "k = min (CHUNK_SIZE - within_chunk off) (length data)"
  show ?case
  proof (cases "data = []")
    case True
    with less.prems show ?thesis by (auto simp: cas_write_loop.simps)
  next
    case False
    then have k: "0 < k" "k \<le> length data" "within_chunk off + k \<le> CHUNK_SIZE"
      using chunk_room [of off "length data"] by (simp_all add: k_def)
    obtain cb1 q where rc: "read_chunk S (chunk_of off) cb = (cb1, q)" by force
    note same = read_chunk_spec [OF cas rc]
    then have ok1: "cas_ok ok holds cb1" "evolves cb cb1"
      and view: "disk (holds (cb_store cb1)) cb1 = disk (holds (cb_store cb)) cb"
      and chunks: "chunk_view (holds (cb_store cb1)) cb1 = chunk_view (holds (cb_store cb)) cb"
      by (simp_all add: keeps_disk_def disk_def fun_eq_iff)
    show ?thesis
    proof (cases q)
      case (Inl e)
      with less.prems False rc ok1 view show ?thesis
        by (auto simp: cas_write_loop.simps [of S cb] Let_def intro!: exI [of _ 0])
    next
      case (Inr chunk)
      define cb2 where "cb2 = cb1\<lparr>cb_dirty := AList.update (chunk_of off) (chunk_patch chunk (within_chunk off) (take k data)) (cb_dirty cb1)\<rparr>"
      have 2: "cas_ok ok holds cb2" "evolves cb1 cb2"
        "disk (holds (cb_store cb2)) cb2 = overwrite off (take k data) (disk (holds (cb_store cb)) cb)"
        using patch_spec [OF ok1(1) _ _ _ cb2_def] same(2) [OF Inr] k view chunks by simp_all
      have run: "cas_write_loop S cb2 (off + of_nat k) (drop k data) = (cb', r)"
        using less.prems(3) False rc Inr by (simp add: cas_write_loop.simps [of S cb] Let_def cb2_def flip: k_def)
      have "length (drop k data) < length data" "length (drop k data) \<le> 2 ^ 64" using k less.prems(2) by simp_all
      from less.hyps [OF this(1) 2(1) this(2) run] obtain m where m: "cas_ok ok holds cb'" "evolves cb2 cb'"
          "m \<le> length data - k" "r = Inr () \<longrightarrow> m = length data - k"
          "disk (holds (cb_store cb')) cb' = overwrite (off + of_nat k) (take m (drop k data)) (disk (holds (cb_store cb2)) cb2)"
        by auto
      have "disk (holds (cb_store cb')) cb'
          = overwrite (off + of_nat k) (drop k (take (k + m) data)) (overwrite off (take k (take (k + m) data)) (disk (holds (cb_store cb)) cb))"
        using m(5) 2(3) by (simp add: drop_take)
      also have "\<dots> = overwrite off (take (k + m) data) (disk (holds (cb_store cb)) cb)"
        by (rule overwrite_split) (use k m(3) less.prems(2) in simp_all)
      finally have "disk (holds (cb_store cb')) cb' = overwrite off (take (k + m) data) (disk (holds (cb_store cb)) cb)" .
      with m k ok1(2) 2(2) show ?thesis
        by (intro conjI exI [of _ "k + m"]) (auto intro: evolves_trans)
    qed
  qed
qed

lemma cas_write_spec:
  assumes "cas_ok ok holds cb" and "length data \<le> 2 ^ 64" and "cas_write S cb off data = (cb', r)"
  shows "cas_ok ok holds cb'" and "evolves cb cb'"
    and "r = Inr n \<Longrightarrow> n = length data \<and> disk (holds (cb_store cb')) cb' = overwrite off data (disk (holds (cb_store cb)) cb)"
proof -
  obtain cb1 q where loop: "cas_write_loop S cb off data = (cb1, q)" by force
  then have "cb1 = cb'" "r = Inr n \<longrightarrow> q = Inr () \<and> n = length data"
    using assms(3) by (auto simp: cas_write_def split: sum.splits)
  with cas_write_loop_spec [OF assms(1,2) loop]
  show "cas_ok ok holds cb'" and "evolves cb cb'"
    and "r = Inr n \<Longrightarrow> n = length data \<and> disk (holds (cb_store cb')) cb' = overwrite off data (disk (holds (cb_store cb)) cb)"
    by auto
qed

lemma flush_step:
  assumes cas: "cas_ok ok holds cb" and dirty: "cb_dirty cb = (i, d) # rest"
    and put: "chunk_put S d (cb_store cb) = (s, Inr h)"
    and cb': "cb' = cb\<lparr>cb_store := s, cb_index := set_hash i h (cb_index cb), cb_dirty := rest\<rparr>"
  shows "cas_ok ok holds cb' \<and> evolves cb cb'
    \<and> (\<forall>k < num_chunks (cb_index cb). chunk_view (holds (cb_store cb')) cb' k = chunk_view (holds (cb_store cb)) cb k)"
proof -
  have ok: "ok (cb_store cb)" and fits: "chunk_fits d" and rest: "map_of rest i = None"
    using cas dirty by (auto simp: cas_ok_def map_of_eq_None_iff)
  have s: "ok s" "holds (cb_store cb) \<subseteq>\<^sub>m holds s" using put_keeps [OF ok fits put] by auto
  have h: "h \<noteq> ZERO_CHUNK_HASH" "string_ok h" "holds s h = Some d" using put_holds [OF ok fits put] by auto
  let ?cb = "cb\<lparr>cb_store := s\<rparr>"
  have 1: "cas_ok ok holds ?cb" "chunk_view (holds s) ?cb = chunk_view (holds (cb_store cb)) cb"
    using cas_ok_store [OF cas s] by auto
  have "cas_ok ok holds cb'" using 1(1) h dirty by (auto simp: cas_ok_def cb' hash_at_set_hash hashes_set_hash)
  moreover have "chunk_view (holds s) cb' k = chunk_view (holds s) ?cb k" if "k < num_chunks (cb_index cb)" for k
  proof (cases "k = i")
    case True
    then have "visible_hash k cb' = Some h" using h that by (simp add: visible_hash_cases hash_at_set_hash cb')
    with True rest h dirty show ?thesis by (simp add: chunk_view_def cb')
  next
    case False
    then have "visible_hash k cb' = visible_hash k ?cb" by (simp add: visible_hash_cases hash_at_set_hash cb')
    with False dirty show ?thesis by (simp add: chunk_view_def cb' fallback_chunk_def split: option.split)
  qed
  moreover have "evolves cb cb'" using h(1) by (auto simp: evolves_def hash_at_set_hash cb')
  ultimately show ?thesis using 1 by (simp add: cb')
qed

lemma flush_chunks_spec:
  assumes "cas_ok ok holds cb" and "flush_chunks S (cb_dirty cb) (cb_store cb, cb_index cb) = ((s, ix), r)"
    and "cb' = cb\<lparr>cb_store := s, cb_index := ix, cb_dirty := []\<rparr>"
  shows "cas_ok ok holds cb' \<and> evolves cb cb'
    \<and> (r = Inr () \<longrightarrow> (\<forall>k < num_chunks (cb_index cb). chunk_view (holds (cb_store cb')) cb' k = chunk_view (holds (cb_store cb)) cb k))"
  using assms
proof (induction "cb_dirty cb" arbitrary: cb)
  case Nil
  then have "cb' = cb" by simp
  with Nil show ?case by simp
next
  case (Cons x rest)
  obtain i d where x: "x = (i, d)" by force
  then have dirty: "cb_dirty cb = (i, d) # rest" using Cons.hyps(2) by simp
  have ok: "ok (cb_store cb)" and fits: "chunk_fits d" using Cons.prems(1) dirty by (auto simp: cas_ok_def)
  obtain s1 q where put: "chunk_put S d (cb_store cb) = (s1, q)" by force
  show ?case
  proof (cases q)
    case (Inl e)
    then have "cb' = (cb\<lparr>cb_store := s1\<rparr>)\<lparr>cb_dirty := []\<rparr>" "r = Err OtherError"
      using Cons.prems(2,3) put dirty by auto
    moreover have "cas_ok ok holds (cb\<lparr>cb_store := s1\<rparr>)"
      using cas_ok_store [OF Cons.prems(1)] put_keeps [OF ok fits put] by blast
    ultimately show ?thesis by (simp add: cas_ok_def evolves_def)
  next
    case (Inr h)
    define cb1 where "cb1 = cb\<lparr>cb_store := s1, cb_index := set_hash i h (cb_index cb), cb_dirty := rest\<rparr>"
    have 1: "cas_ok ok holds cb1" "evolves cb cb1"
      "\<forall>k < num_chunks (cb_index cb). chunk_view (holds (cb_store cb1)) cb1 k = chunk_view (holds (cb_store cb)) cb k"
      using flush_step [OF Cons.prems(1) dirty _ cb1_def] put Inr by simp_all
    have "flush_chunks S (cb_dirty cb1) (cb_store cb1, cb_index cb1) = ((s, ix), r)"
      using Cons.prems(2) dirty put Inr by (simp add: cb1_def)
    moreover have "cb' = cb1\<lparr>cb_store := s, cb_index := ix, cb_dirty := []\<rparr>" using Cons.prems(3) by (simp add: cb1_def)
    moreover have "rest = cb_dirty cb1" "num_chunks (cb_index cb1) = num_chunks (cb_index cb)" by (simp_all add: cb1_def)
    ultimately show ?thesis using Cons.hyps(1) [of cb1] 1 by (auto intro: evolves_trans)
  qed
qed

lemma cas_flush_spec:
  assumes "cas_ok ok holds cb" and "cas_flush S cb = (cb', r)"
  shows "cas_ok ok holds cb'" and "evolves cb cb'" and "cb_dirty cb' = []"
    and "r = Inr () \<Longrightarrow> k < num_chunks (cb_index cb)
      \<Longrightarrow> chunk_view (holds (cb_store cb')) cb' k = chunk_view (holds (cb_store cb)) cb k"
proof -
  obtain s ix q where f: "flush_chunks S (cb_dirty cb) (cb_store cb, cb_index cb) = ((s, ix), q)" by (metis surj_pair)
  have cb': "cb' = cb\<lparr>cb_store := s, cb_index := ix, cb_dirty := []\<rparr>" "r = q"
    using assms(2) f by (auto simp: cas_flush_def)
  show "cas_ok ok holds cb'" and "evolves cb cb'" and "cb_dirty cb' = []"
    and "r = Inr () \<Longrightarrow> k < num_chunks (cb_index cb)
      \<Longrightarrow> chunk_view (holds (cb_store cb')) cb' k = chunk_view (holds (cb_store cb)) cb k"
    using flush_chunks_spec [OF assms(1) f cb'(1)] cb' by auto
qed

end

section \<open>A disk on which nothing fails\<close>

definition cas_well :: "('s \<Rightarrow> bool) \<Rightarrow> 's CasBackend \<Rightarrow> bool" where
  "cas_well well cb \<longleftrightarrow>
     well (cb_store cb)
     \<and> (case cb_fallback cb of None \<Rightarrow> True | Some ff \<Rightarrow> ff_fault ff = None \<and> unat (ff_size ff) \<le> 2 ^ 63)"

context reliable_store
begin

lemma fetch_chunk_well:
  assumes cas: "cas_ok ok holds cb" and "cas_well well cb" and vis: "visible_hash i cb = Some h"
    and fetch: "fetch_chunk S h cb = (cb', r)"
  shows "cas_well well cb' \<and> is_ok r"
proof -
  obtain s q where get: "chunk_get S h (cb_store cb) = (s, q)" by force
  have ok: "ok (cb_store cb)" "well (cb_store cb)" using assms(1,2) by (simp_all add: cas_ok_def cas_well_def)
  then have "well s" and q: "is_ok q" using get_well [OF ok get] by auto
  moreover obtain d where "holds (cb_store cb) h = Some d" using cas_ok_visible [OF cas vis] by blast
  then have "q = Inr (Some d)" using q get_holds [OF ok(1)] get by (cases q) auto
  ultimately show ?thesis using fetch get assms(2) by (auto simp: fetch_chunk_def cas_well_def)
qed

lemma ingest_chunk_well:
  assumes cas: "cas_ok ok holds cb" and well: "cas_well well cb" and ingest: "ingest_chunk S i cb = (cb', r)"
  shows "cas_well well cb' \<and> is_ok r"
proof (cases "cb' = cb \<and> is_ok r")
  case True
  with well show ?thesis by simp
next
  case False
  then obtain ff where ff: "cb_fallback cb = Some ff"
    and less: "of_nat i * of_nat CHUNK_SIZE < ff_size ff" (is "?off < _")
    using ingest by (auto simp: ingest_chunk_def Let_def split: option.splits if_splits)
  have ok: "ok (cb_store cb)" "well (cb_store cb)" using cas well by (simp_all add: cas_ok_def cas_well_def)
  have "unat ?off < 2 ^ 63" using less well ff by (auto simp: cas_well_def word_less_nat_alt)
  define n where "n = min CHUNK_SIZE (unat (ff_size ff - ?off))"
  define got where "got = pread_at (ff_data ff) (unat ?off) n"
  define buf where "buf = got @ replicate (n - length got) 0"
  have got: "ff_read ff ?off n = Inr got"
    using \<open>unat ?off < 2 ^ 63\<close> well ff by (simp add: ff_read_def cas_well_def got_def)
  have "length got \<le> n" by (simp add: got_def pread_at_def)
  moreover have "n \<le> CHUNK_SIZE" by (simp add: n_def)
  ultimately have fits: "chunk_fits buf" by (simp add: buf_def)
  obtain s q where put: "chunk_put S buf (cb_store cb) = (s, q)" by force
  have "well s" "is_ok q" using put_well [OF ok fits put] by auto
  then show ?thesis
    using ingest ff less got put well False
    by (cases q) (auto simp: ingest_chunk_def Let_def cas_well_def simp flip: n_def buf_def split: if_splits)
qed

lemma read_chunk_well:
  "cas_ok ok holds cb \<Longrightarrow> cas_well well cb \<Longrightarrow> read_chunk S i cb = (cb', r) \<Longrightarrow> cas_well well cb' \<and> is_ok r"
  by (auto simp: read_chunk_visible split: option.splits dest: fetch_chunk_well ingest_chunk_well)

lemma cas_read_well:
  "cas_ok ok holds cb \<Longrightarrow> cas_well well cb \<Longrightarrow> cas_read S cb off n = (cb', r) \<Longrightarrow> cas_well well cb' \<and> is_ok r"
proof (induction n arbitrary: cb off cb' r rule: less_induct)
  case (less n)
  show ?case
  proof (cases "n = 0")
    case True
    with less.prems show ?thesis by (auto simp: cas_read.simps)
  next
    case False
    define k where "k = min (CHUNK_SIZE - within_chunk off) n"
    have k: "n - k < n" using False by (simp add: k_def)
    obtain cb1 q where rc: "read_chunk S (chunk_of off) cb = (cb1, q)" by force
    have 1: "cas_ok ok holds cb1" "cas_well well cb1" "is_ok q"
      using read_chunk_spec(1) [OF less.prems(1) rc] read_chunk_well [OF less.prems(1,2) rc] by (simp_all add: keeps_disk_def)
    then obtain chunk where q: "q = Inr chunk" by (cases q) auto
    obtain cb2 p where rest: "cas_read S cb1 (off + of_nat k) (n - k) = (cb2, p)" by force
    with less.IH [OF k 1(1,2) rest] less.prems(3) False rc q show ?thesis
      by (cases p) (auto simp: cas_read.simps [of S cb] Let_def simp flip: k_def)
  qed
qed

lemma cas_write_loop_well:
  "cas_ok ok holds cb \<Longrightarrow> cas_well well cb \<Longrightarrow> cas_write_loop S cb off data = (cb', r) \<Longrightarrow> cas_well well cb' \<and> is_ok r"
proof (induction "length data" arbitrary: cb off data cb' r rule: less_induct)
  case less
  show ?case
  proof (cases "data = []")
    case True
    with less.prems show ?thesis by (auto simp: cas_write_loop.simps)
  next
    case False
    define k where "k = min (CHUNK_SIZE - within_chunk off) (length data)"
    have k: "length (drop k data) < length data" "within_chunk off + length (take k data) \<le> CHUNK_SIZE"
      using False chunk_room [of off "length data"] by (simp_all add: k_def min_absorb2)
    obtain cb1 q where rc: "read_chunk S (chunk_of off) cb = (cb1, q)" by force
    have 1: "cas_ok ok holds cb1" "cas_well well cb1" "is_ok q" "chunk_view (holds (cb_store cb1)) cb1 = chunk_view (holds (cb_store cb)) cb"
      using read_chunk_spec(1) [OF less.prems(1) rc] read_chunk_well [OF less.prems(1,2) rc] by (simp_all add: keeps_disk_def)
    then obtain chunk where q: "q = Inr chunk" by (cases q) auto
    define cb2 where "cb2 = cb1\<lparr>cb_dirty := AList.update (chunk_of off) (chunk_patch chunk (within_chunk off) (take k data)) (cb_dirty cb1)\<rparr>"
    have "cas_ok ok holds cb2"
      using patch_spec [OF 1(1) _ _ k(2) cb2_def] read_chunk_spec(2) [OF less.prems(1) rc q] 1(4) by simp
    moreover have "cas_well well cb2" using 1(2) by (simp add: cb2_def cas_well_def)
    moreover have "cas_write_loop S cb2 (off + of_nat k) (drop k data) = (cb', r)"
      using less.prems(3) False rc q by (simp add: cas_write_loop.simps [of S cb] Let_def cb2_def flip: k_def)
    ultimately show ?thesis by (rule less.hyps [OF k(1)])
  qed
qed

lemma flush_chunks_well:
  "ok s \<Longrightarrow> well s \<Longrightarrow> list_all (chunk_fits \<circ> snd) ds \<Longrightarrow> flush_chunks S ds (s, ix) = ((s', ix'), r) \<Longrightarrow> well s' \<and> is_ok r"
proof (induction ds arbitrary: s ix)
  case Nil
  then show ?case by auto
next
  case (Cons x ds)
  obtain i d where x: "x = (i, d)" by force
  obtain s1 q where put: "chunk_put S d s = (s1, q)" by force
  have "ok s1" "well s1" "is_ok q" using put_keeps [OF _ _ put] put_well [OF _ _ _ put] Cons.prems x by auto
  with Cons.IH Cons.prems x put show ?case by (cases q) auto
qed

end

end
