(* ===== verification/Store_Nbd.thy ===== *)
theory Store_Nbd
  imports Store_Cas Session_Control
begin

text \<open>
  The NBD server of \<^verbatim>\<open>crates/lsb-store/src/nbd.rs\<close>: the handshake with its options and the loop that
  serves read, write and flush requests of a backend. \<open>block_device\<close> is the contract of a backend, a
  byte array within its extent; the disk of \<open>Store_Cas\<close> and the flat file of \<open>Store_Index\<close> keep it.
  What a client receives is then what a byte array would answer.
\<close>

section \<open>Backends\<close>

record 'd NbdBackend =
  nbd_size :: "'d \<Rightarrow> u64"
  nbd_read :: "'d \<Rightarrow> u64 \<Rightarrow> nat \<Rightarrow> 'd \<times> (bytes, io_error) result"
  nbd_write :: "'d \<Rightarrow> u64 \<Rightarrow> bytes \<Rightarrow> 'd \<times> (nat, io_error) result"
  nbd_flush :: "'d \<Rightarrow> 'd \<times> (unit, io_error) result"

definition flat_device :: "FlatFileBackend NbdBackend" where
  "flat_device =
     \<lparr>nbd_size = ff_size, nbd_read = (\<lambda>ff off n. (ff, ff_read ff off n)), nbd_write = ff_write,
      nbd_flush = (\<lambda>ff. (ff, ff_flush ff))\<rparr>"

definition cas_device :: "'s ChunkStore \<Rightarrow> 's CasBackend NbdBackend" where
  "cas_device S =
     \<lparr>nbd_size = cas_size, nbd_read = cas_read S, nbd_write = cas_write S, nbd_flush = cas_flush S\<rparr>"

section \<open>Constants\<close>

definition NBDMAGIC :: u64 where "NBDMAGIC = 0x4e42444d41474943"
definition IHAVEOPT :: u64 where "IHAVEOPT = 0x49484156454F5054"
definition REPLY_MAGIC :: u64 where "REPLY_MAGIC = 0x3e889045565a9"
definition NBD_FLAG_FIXED_NEWSTYLE :: u16 where "NBD_FLAG_FIXED_NEWSTYLE = 1"
definition NBD_FLAG_NO_ZEROES :: u16 where "NBD_FLAG_NO_ZEROES = 2"
definition NBD_FLAG_C_NO_ZEROES :: u32 where "NBD_FLAG_C_NO_ZEROES = 2"
definition NBD_FLAG_HAS_FLAGS :: u16 where "NBD_FLAG_HAS_FLAGS = 1"
definition NBD_FLAG_SEND_FLUSH :: u16 where "NBD_FLAG_SEND_FLUSH = 4"
definition NBD_OPT_EXPORT_NAME :: u32 where "NBD_OPT_EXPORT_NAME = 1"
definition NBD_OPT_ABORT :: u32 where "NBD_OPT_ABORT = 2"
definition NBD_OPT_INFO :: u32 where "NBD_OPT_INFO = 6"
definition NBD_OPT_GO :: u32 where "NBD_OPT_GO = 7"
definition NBD_REP_ACK :: u32 where "NBD_REP_ACK = 1"
definition NBD_REP_INFO :: u32 where "NBD_REP_INFO = 3"
definition NBD_REP_ERR_UNSUP :: u32 where "NBD_REP_ERR_UNSUP = 0x80000001"
definition NBD_INFO_EXPORT :: u16 where "NBD_INFO_EXPORT = 0"
definition NBD_INFO_BLOCK_SIZE :: u16 where "NBD_INFO_BLOCK_SIZE = 3"
definition NBD_CMD_READ :: u16 where "NBD_CMD_READ = 0"
definition NBD_CMD_WRITE :: u16 where "NBD_CMD_WRITE = 1"
definition NBD_CMD_DISC :: u16 where "NBD_CMD_DISC = 2"
definition NBD_CMD_FLUSH :: u16 where "NBD_CMD_FLUSH = 3"
definition NBD_REQUEST_MAGIC :: u32 where "NBD_REQUEST_MAGIC = 0x25609513"
definition NBD_SIMPLE_REPLY_MAGIC :: u32 where "NBD_SIMPLE_REPLY_MAGIC = 0x67446698"
definition NBD_OK :: u32 where "NBD_OK = 0"
definition NBD_EIO :: u32 where "NBD_EIO = 5"
definition NBD_EINVAL :: u32 where "NBD_EINVAL = 22"

lemmas nbd_constants =
  NBD_OPT_EXPORT_NAME_def NBD_OPT_ABORT_def NBD_OPT_INFO_def NBD_OPT_GO_def
  NBD_CMD_READ_def NBD_CMD_WRITE_def NBD_CMD_DISC_def NBD_CMD_FLUSH_def

section \<open>Handshake\<close>

datatype nbd_error =
  Nbd_Io io_error | Bad_Option_Magic u64 | Bad_Request_Magic u32 | Bad_Info_Request | Client_Aborted

definition nbd_read_exact :: "reader \<Rightarrow> nat \<Rightarrow> (bytes \<times> reader, nbd_error) result" where
  "nbd_read_exact r n = (case read_exact r n of Inl e \<Rightarrow> Err (Nbd_Io e) | Inr x \<Rightarrow> Ok x)"

definition nbd_send :: "writer \<Rightarrow> bytes \<Rightarrow> (writer, nbd_error) result" where
  "nbd_send w bs =
     (case and_then (write_all w bs) flush of Inl e \<Rightarrow> Err (Nbd_Io e) | Inr w \<Rightarrow> Ok w)"

definition option_reply :: "u32 \<Rightarrow> u32 \<Rightarrow> bytes \<Rightarrow> bytes" where
  "option_reply option reply_type data =
     to_be_bytes 8 REPLY_MAGIC @ to_be_bytes 4 option @ to_be_bytes 4 reply_type
     @ to_be_bytes 4 (of_nat (length data) :: u32) @ data"

definition trans_flags :: u16 where
  "trans_flags = or NBD_FLAG_HAS_FLAGS NBD_FLAG_SEND_FLUSH"

definition export_info :: "u32 \<Rightarrow> u64 \<Rightarrow> bytes" where
  "export_info option sz =
     option_reply option NBD_REP_INFO (to_be_bytes 2 NBD_INFO_EXPORT @ to_be_bytes 8 sz @ to_be_bytes 2 trans_flags)"

definition info_replies :: "u32 \<Rightarrow> u64 \<Rightarrow> u16 list \<Rightarrow> bytes" where
  "info_replies option sz infos =
     export_info option sz
     @ (if NBD_INFO_BLOCK_SIZE \<in> set infos
        then option_reply option NBD_REP_INFO
               (to_be_bytes 2 NBD_INFO_BLOCK_SIZE @ to_be_bytes 4 (512 :: u32) @ to_be_bytes 4 (4096 :: u32)
                @ to_be_bytes 4 (- 1 :: u32))
        else [])"

text \<open>The export name is only logged.\<close>

record InfoRequest =
  export_name :: bytes
  requested_infos :: "u16 list"

definition parse_info_request :: "bytes \<Rightarrow> (InfoRequest, nbd_error) result" where
  "parse_info_request data =
     (if length data < 6 then Err Bad_Info_Request
      else
        let name_end = 4 + unat (from_be_bytes (take 4 data) :: u32) in
        if length data < name_end + 2 then Err Bad_Info_Request
        else
          let info_count = unat (from_be_bytes (take 2 (drop name_end data)) :: u16) in
          if length data \<noteq> name_end + 2 + info_count * 2 then Err Bad_Info_Request
          else Ok \<lparr>export_name = take (name_end - 4) (drop 4 data),
                   requested_infos = map (\<lambda>i. from_be_bytes (take 2 (drop (name_end + 2 + i * 2) data))) [0..<info_count]\<rparr>)"

text \<open>One round of the option loop: it ends the handshake or goes on.\<close>

datatype 'a loop_step = Loop_Done 'a | Loop_Next 'a

definition handshake_option ::
    "bool \<Rightarrow> u64 \<Rightarrow> reader \<times> writer \<Rightarrow> ((reader \<times> writer) loop_step, nbd_error) result" where
  "handshake_option no_zeroes sz rw =
     and_then (nbd_read_exact (fst rw) 16) (\<lambda>(hdr, r).
       let magic = from_be_bytes (take 8 hdr);
           option = from_be_bytes (take 4 (drop 8 hdr));
           data_len = from_be_bytes (take 4 (drop 12 hdr)) :: u32 in
       if magic \<noteq> IHAVEOPT then Err (Bad_Option_Magic magic)
       else and_then (nbd_read_exact r (unat data_len)) (\<lambda>(data, r).
         if option = NBD_OPT_EXPORT_NAME
         then and_then
                (nbd_send (snd rw) (to_be_bytes 8 sz @ to_be_bytes 2 trans_flags
                   @ (if no_zeroes then [] else replicate 124 0)))
                (\<lambda>w. Ok (Loop_Done (r, w)))
         else if option = NBD_OPT_INFO \<or> option = NBD_OPT_GO
         then and_then (parse_info_request data) (\<lambda>req.
              and_then (nbd_send (snd rw) (info_replies option sz (requested_infos req) @ option_reply option NBD_REP_ACK []))
                (\<lambda>w. Ok (if option = NBD_OPT_GO then Loop_Done (r, w) else Loop_Next (r, w))))
         else if option = NBD_OPT_ABORT
         then and_then (nbd_send (snd rw) (option_reply option NBD_REP_ACK [])) (\<lambda>w. Err Client_Aborted)
         else and_then (nbd_send (snd rw) (option_reply option NBD_REP_ERR_UNSUP [])) (\<lambda>w. Ok (Loop_Next (r, w)))))"

lemma read_exact_less: "nbd_read_exact r n = Inr (bs, r') \<Longrightarrow> length (rd_data r') + n = length (rd_data r)"
  by (auto simp: nbd_read_exact_def read_exact_def split: sum.splits if_splits)

lemma handshake_option_less:
  "handshake_option z sz rw = Inr (Loop_Next rw') \<Longrightarrow> length (rd_data (fst rw')) < length (rd_data (fst rw))"
  by (auto simp: handshake_option_def and_then_Ok_iff Let_def split: if_splits dest!: read_exact_less)

function handshake_loop :: "bool \<Rightarrow> u64 \<Rightarrow> reader \<times> writer \<Rightarrow> (reader \<times> writer, nbd_error) result" where
  "handshake_loop no_zeroes sz rw =
     (case handshake_option no_zeroes sz rw of
        Inl e \<Rightarrow> Err e
      | Inr (Loop_Done rw') \<Rightarrow> Ok rw'
      | Inr (Loop_Next rw') \<Rightarrow> handshake_loop no_zeroes sz rw')"
  by auto
termination
  by (relation "measure (\<lambda>(_, _, rw). length (rd_data (fst rw)))") (auto dest: handshake_option_less)

definition handshake :: "u64 \<Rightarrow> reader \<times> writer \<Rightarrow> (reader \<times> writer, nbd_error) result" where
  "handshake sz rw =
     and_then (nbd_send (snd rw) (to_be_bytes 8 NBDMAGIC @ to_be_bytes 8 IHAVEOPT
       @ to_be_bytes 2 (or NBD_FLAG_FIXED_NEWSTYLE NBD_FLAG_NO_ZEROES))) (\<lambda>w.
     and_then (nbd_read_exact (fst rw) 4) (\<lambda>(cflags, r).
       handshake_loop (and (from_be_bytes cflags) NBD_FLAG_C_NO_ZEROES \<noteq> 0) sz (r, w)))"

section \<open>Transmission\<close>

definition simple_reply :: "u32 \<Rightarrow> bytes \<Rightarrow> bytes \<Rightarrow> bytes" where
  "simple_reply error handle data =
     to_be_bytes 4 NBD_SIMPLE_REPLY_MAGIC @ to_be_bytes 4 error @ handle @ data"

definition reply_then :: "'d \<Rightarrow> reader \<Rightarrow> writer \<Rightarrow> bytes \<Rightarrow> 'd \<times> ((reader \<times> writer) loop_step, nbd_error) result" where
  "reply_then d r w reply = (d, and_then (nbd_send w reply) (\<lambda>w. Ok (Loop_Next (r, w))))"

definition serve_request ::
    "'d NbdBackend \<Rightarrow> 'd \<Rightarrow> reader \<times> writer \<Rightarrow> 'd \<times> ((reader \<times> writer) loop_step, nbd_error) result" where
  "serve_request B d rw =
     (case read_exact (fst rw) 28 of
        Inl e \<Rightarrow>
          if e = UnexpectedEof \<or> e = WouldBlock \<or> e = TimedOut then (d, Ok (Loop_Done rw)) else (d, Err (Nbd_Io e))
      | Inr (hdr, r) \<Rightarrow>
          let magic = from_be_bytes (take 4 hdr);
              cmd = from_be_bytes (take 2 (drop 6 hdr));
              handle = take 8 (drop 8 hdr);
              offset = from_be_bytes (take 8 (drop 16 hdr));
              len = unat (from_be_bytes (take 4 (drop 24 hdr)) :: u32);
              w = snd rw in
          if magic \<noteq> NBD_REQUEST_MAGIC then (d, Err (Bad_Request_Magic magic))
          else if cmd = NBD_CMD_READ
          then (case nbd_read B d offset len of
                  (d, Inr got) \<Rightarrow> reply_then d r w (simple_reply NBD_OK handle (got @ replicate (len - length got) 0))
                | (d, Inl _) \<Rightarrow> reply_then d r w (simple_reply NBD_EIO handle []))
          else if cmd = NBD_CMD_WRITE
          then (case nbd_read_exact r len of
                  Inl e \<Rightarrow> (d, Err e)
                | Inr (data, r) \<Rightarrow>
                    (case nbd_write B d offset data of
                       (d, Inr _) \<Rightarrow> reply_then d r w (simple_reply NBD_OK handle [])
                     | (d, Inl _) \<Rightarrow> reply_then d r w (simple_reply NBD_EIO handle [])))
          else if cmd = NBD_CMD_FLUSH
          then (case nbd_flush B d of
                  (d, Inr _) \<Rightarrow> reply_then d r w (simple_reply NBD_OK handle [])
                | (d, Inl _) \<Rightarrow> reply_then d r w (simple_reply NBD_EIO handle []))
          else if cmd = NBD_CMD_DISC then (d, Ok (Loop_Done (r, w)))
          else reply_then d r w (simple_reply NBD_EINVAL handle []))"

lemma serve_request_less:
  "serve_request B d rw = (d', Inr (Loop_Next rw')) \<Longrightarrow> length (rd_data (fst rw')) < length (rd_data (fst rw))"
  by (auto simp: serve_request_def reply_then_def and_then_Ok_iff Let_def read_exact_def
      split: if_splits sum.splits prod.splits dest!: read_exact_less)

function transmission :: "'d NbdBackend \<Rightarrow> 'd \<Rightarrow> reader \<times> writer \<Rightarrow> 'd \<times> (reader \<times> writer, nbd_error) result" where
  "transmission B d rw =
     (case serve_request B d rw of
        (d, Inl e) \<Rightarrow> (d, Err e)
      | (d, Inr (Loop_Done rw')) \<Rightarrow> (d, Ok rw')
      | (d, Inr (Loop_Next rw')) \<Rightarrow> transmission B d rw')"
  by auto
termination
  by (relation "measure (\<lambda>(_, _, rw). length (rd_data (fst rw)))") (auto dest: serve_request_less [OF sym])

definition handle_client :: "'d NbdBackend \<Rightarrow> 'd \<Rightarrow> reader \<times> writer \<Rightarrow> 'd \<times> (reader \<times> writer, nbd_error) result" where
  "handle_client B d rw =
     (case handshake (nbd_size B d) rw of Inl e \<Rightarrow> (d, Err e) | Inr rw \<Rightarrow> transmission B d rw)"

declare transmission.simps [simp del] handshake_loop.simps [simp del]

section \<open>A byte array as a server\<close>

definition array_read :: "(u64 \<Rightarrow> byte) \<Rightarrow> u64 \<Rightarrow> nat \<Rightarrow> bytes" where
  "array_read f off n = map (\<lambda>j. f (off + of_nat j)) [0..<n]"

datatype nbd_request = Nbd_Read bytes u64 u32 | Nbd_Write bytes u64 bytes | Nbd_Flush bytes

definition request_header :: "u16 \<Rightarrow> bytes \<Rightarrow> u64 \<Rightarrow> u32 \<Rightarrow> bytes" where
  "request_header cmd handle off len =
     to_be_bytes 4 NBD_REQUEST_MAGIC @ to_be_bytes 2 (0 :: u16) @ to_be_bytes 2 cmd @ handle @ to_be_bytes 8 off
     @ to_be_bytes 4 len"

fun request_bytes :: "nbd_request \<Rightarrow> bytes" where
  "request_bytes (Nbd_Read handle off len) = request_header NBD_CMD_READ handle off len"
| "request_bytes (Nbd_Write handle off data) = request_header NBD_CMD_WRITE handle off (of_nat (length data)) @ data"
| "request_bytes (Nbd_Flush handle) = request_header NBD_CMD_FLUSH handle 0 0"

text \<open>Requests within the first \<open>ext\<close> bytes.\<close>

fun request_fits :: "nat \<Rightarrow> nbd_request \<Rightarrow> bool" where
  "request_fits ext (Nbd_Read handle off len) \<longleftrightarrow> length handle = 8 \<and> unat off + unat len \<le> ext"
| "request_fits ext (Nbd_Write handle off data) \<longleftrightarrow>
     length handle = 8 \<and> length data < 2 ^ 32 \<and> unat off + length data \<le> ext"
| "request_fits ext (Nbd_Flush handle) \<longleftrightarrow> length handle = 8"

fun array_serve :: "(u64 \<Rightarrow> byte) \<Rightarrow> nbd_request \<Rightarrow> (u64 \<Rightarrow> byte) \<times> bytes" where
  "array_serve f (Nbd_Read handle off len) = (f, simple_reply NBD_OK handle (array_read f off (unat len)))"
| "array_serve f (Nbd_Write handle off data) = (overwrite off data f, simple_reply NBD_OK handle [])"
| "array_serve f (Nbd_Flush handle) = (f, simple_reply NBD_OK handle [])"

fun array_replies :: "(u64 \<Rightarrow> byte) \<Rightarrow> nbd_request list \<Rightarrow> bytes" where
  "array_replies f [] = []"
| "array_replies f (q # qs) = (case array_serve f q of (f', reply) \<Rightarrow> reply @ array_replies f' qs)"

fun request_handle :: "nbd_request \<Rightarrow> bytes" where
  "request_handle (Nbd_Read handle _ _) = handle"
| "request_handle (Nbd_Write handle _ _) = handle"
| "request_handle (Nbd_Flush handle) = handle"

text \<open>One request on a backend: the reply, and whether it is an error.\<close>

fun device_serve :: "'d NbdBackend \<Rightarrow> 'd \<Rightarrow> nbd_request \<Rightarrow> 'd \<times> bytes option" where
  "device_serve B d (Nbd_Read handle off len) =
     (case nbd_read B d off (unat len) of
        (d, Inr got) \<Rightarrow> (d, Some (got @ replicate (unat len - length got) 0)) | (d, Inl _) \<Rightarrow> (d, None))"
| "device_serve B d (Nbd_Write handle off data) =
     (case nbd_write B d off data of (d, Inr _) \<Rightarrow> (d, Some []) | (d, Inl _) \<Rightarrow> (d, None))"
| "device_serve B d (Nbd_Flush handle) =
     (case nbd_flush B d of (d, Inr _) \<Rightarrow> (d, Some []) | (d, Inl _) \<Rightarrow> (d, None))"

definition device_reply :: "bytes \<Rightarrow> bytes option \<Rightarrow> bytes" where
  "device_reply handle x = (case x of None \<Rightarrow> simple_reply NBD_EIO handle [] | Some data \<Rightarrow> simple_reply NBD_OK handle data)"

lemma length_request_header [simp]: "length handle = 8 \<Longrightarrow> length (request_header cmd handle off len) = 28"
  by (simp add: request_header_def)

lemma header_fields:
  assumes "length handle = 8"
  shows "take 4 (request_header cmd handle off len) = to_be_bytes 4 NBD_REQUEST_MAGIC"
    and "take 2 (drop 6 (request_header cmd handle off len)) = to_be_bytes 2 cmd"
    and "take 8 (drop 8 (request_header cmd handle off len)) = handle"
    and "take 8 (drop 16 (request_header cmd handle off len)) = to_be_bytes 8 off"
    and "take 4 (drop 24 (request_header cmd handle off len)) = to_be_bytes 4 len"
    and "drop 24 (request_header cmd handle off len) = to_be_bytes 4 len"
  using assms by (simp_all add: request_header_def)

lemma serve_header:
  "length handle = 8 \<Longrightarrow> read_exact \<lparr>rd_data = request_header cmd handle off len @ rest, rd_fail = e\<rparr> 28
    = Ok (request_header cmd handle off len, \<lparr>rd_data = rest, rd_fail = e\<rparr>)"
  by (simp add: read_exact_def)

lemma nbd_send_open: "wr_fail w = None \<Longrightarrow> nbd_send w bs = Ok (w\<lparr>wr_data := wr_data w @ bs\<rparr>)"
  by (simp add: nbd_send_def write_all_def flush_def)

lemma serve_request_bytes:
  assumes w: "wr_fail w = None" and fits: "request_fits ext q" and dev: "device_serve B d q = (d', x)"
  shows "serve_request B d (\<lparr>rd_data = request_bytes q @ rest, rd_fail = e\<rparr>, w)
    = (d', Ok (Loop_Next (\<lparr>rd_data = rest, rd_fail = e\<rparr>, w\<lparr>wr_data := wr_data w @ device_reply (request_handle q) x\<rparr>)))"
proof (cases q)
  case (Nbd_Read handle off len)
  with fits dev show ?thesis
    by (auto simp: serve_request_def serve_header header_fields Let_def reply_then_def nbd_send_open [OF w]
        device_reply_def nbd_constants split: prod.splits sum.splits)
next
  case (Nbd_Write handle off data)
  then have "unat (of_nat (length data) :: u32) = length data"
    using fits by (simp add: unat_of_nat take_bit_nat_eq_self)
  with Nbd_Write fits dev show ?thesis
    by (auto simp: serve_request_def serve_header header_fields Let_def reply_then_def nbd_send_open [OF w]
        device_reply_def nbd_constants nbd_read_exact_def read_exact_def split: prod.splits sum.splits)
next
  case (Nbd_Flush handle)
  with fits dev show ?thesis
    by (auto simp: serve_request_def serve_header header_fields Let_def reply_then_def nbd_send_open [OF w]
        device_reply_def nbd_constants split: prod.splits sum.splits)
qed

section \<open>What a backend promises\<close>

definition same_below :: "nat \<Rightarrow> (u64 \<Rightarrow> byte) \<Rightarrow> (u64 \<Rightarrow> byte) \<Rightarrow> bool" where
  "same_below n f g \<longleftrightarrow> (\<forall>a. unat a < n \<longrightarrow> f a = g a)"

lemma same_below_refl [simp]: "same_below n f f"
  by (simp add: same_below_def)

lemma same_below_trans: "same_below n f g \<Longrightarrow> same_below n g h \<Longrightarrow> same_below n f h"
  by (simp add: same_below_def)

lemma same_below_overwrite: "same_below n f g \<Longrightarrow> same_below n (overwrite off data f) (overwrite off data g)"
  by (simp add: same_below_def overwrite_def)

lemma array_read_same:
  assumes "same_below n f g" and "unat off + k \<le> n"
  shows "array_read f off k = array_read g off k"
proof -
  have "f (off + of_nat j) = g (off + of_nat j)" if "j < k" for j
  proof -
    have "unat (off + of_nat j) \<le> unat off + j"
      by (simp add: unat_word_ariths unat_of_nat take_bit_nat_def mod_simps)
    with assms that show ?thesis by (simp add: same_below_def)
  qed
  then show ?thesis by (simp add: array_read_def)
qed

text \<open>
  A backend is an array of \<open>extent\<close> bytes. While it is \<open>healthy\<close> no request within the extent fails;
  a request that fails may do anything to the array but keeps the invariant.
\<close>

locale block_device =
  fixes B :: "'d NbdBackend"
    and ok :: "'d \<Rightarrow> bool"
    and healthy :: "'d \<Rightarrow> bool"
    and content :: "'d \<Rightarrow> u64 \<Rightarrow> byte"
    and extent :: "'d \<Rightarrow> nat"
  assumes read_keeps: "ok d \<Longrightarrow> unat off + n \<le> extent d \<Longrightarrow> nbd_read B d off n = (d', r)
      \<Longrightarrow> ok d' \<and> extent d' = extent d \<and> (healthy d \<longrightarrow> healthy d' \<and> is_ok r)"
    and read_array: "ok d \<Longrightarrow> unat off + n \<le> extent d \<Longrightarrow> nbd_read B d off n = (d', Inr bs)
      \<Longrightarrow> same_below (extent d) (content d') (content d) \<and> bs = array_read (content d) off n"
    and write_keeps: "ok d \<Longrightarrow> length data < 2 ^ 32 \<Longrightarrow> unat off + length data \<le> extent d \<Longrightarrow> nbd_write B d off data = (d', q)
      \<Longrightarrow> ok d' \<and> extent d' = extent d \<and> (healthy d \<longrightarrow> healthy d' \<and> is_ok q)"
    and write_array: "ok d \<Longrightarrow> length data < 2 ^ 32 \<Longrightarrow> unat off + length data \<le> extent d \<Longrightarrow> nbd_write B d off data = (d', Inr k)
      \<Longrightarrow> same_below (extent d) (content d') (overwrite off data (content d))"
    and flush_keeps: "ok d \<Longrightarrow> nbd_flush B d = (d', p)
      \<Longrightarrow> ok d' \<and> extent d' = extent d \<and> (healthy d \<longrightarrow> healthy d' \<and> is_ok p)"
    and flush_array: "ok d \<Longrightarrow> nbd_flush B d = (d', Inr u) \<Longrightarrow> same_below (extent d) (content d') (content d)"
begin

lemma device_serve_array:
  assumes ok: "ok d" and fits: "request_fits (extent d) q" and dev: "device_serve B d q = (d', x)"
    and f: "same_below (extent d) (content d) f"
  shows "ok d' \<and> extent d' = extent d \<and> (healthy d \<longrightarrow> healthy d' \<and> x \<noteq> None)
    \<and> (x \<noteq> None \<longrightarrow> same_below (extent d) (content d') (fst (array_serve f q))
        \<and> device_reply (request_handle q) x = snd (array_serve f q))"
proof (cases q)
  case (Nbd_Read handle off len)
  obtain d1 r where r: "nbd_read B d off (unat len) = (d1, r)" by force
  have in_ext: "unat off + unat len \<le> extent d" using fits Nbd_Read by simp
  have "same_below (extent d) (content d1) (content d) \<and> bs = array_read f off (unat len)" if "r = Inr bs" for bs
    using read_array [OF ok in_ext] r that array_read_same [OF f in_ext] by simp
  with read_keeps [OF ok in_ext r] r dev Nbd_Read f show ?thesis
    by (cases r) (auto simp: device_reply_def array_read_def intro: same_below_trans)
next
  case (Nbd_Write handle off data)
  obtain d1 r where r: "nbd_write B d off data = (d1, r)" by force
  have in_ext: "length data < 2 ^ 32" "unat off + length data \<le> extent d" using fits Nbd_Write by simp_all
  have "same_below (extent d) (content d1) (overwrite off data f)" if "r = Inr k" for k
    using write_array [OF ok in_ext] r that same_below_overwrite [OF f] by (blast intro: same_below_trans)
  with write_keeps [OF ok in_ext r] r dev Nbd_Write show ?thesis by (cases r) (auto simp: device_reply_def)
next
  case (Nbd_Flush handle)
  obtain d1 r where r: "nbd_flush B d = (d1, r)" by force
  with flush_keeps [OF ok r] flush_array [OF ok] dev Nbd_Flush f show ?thesis
    by (cases r) (auto simp: device_reply_def intro: same_below_trans)
qed

text \<open>Requests one after the other: the answers are those of the array up to the first error, and a healthy
  backend has none.\<close>

lemma session_array:
  assumes "ok d" and "list_all (request_fits (extent d)) qs" and "wr_fail w = None"
    and "same_below (extent d) (content d) f"
    and "transmission B d (\<lparr>rd_data = concat (map request_bytes qs), rd_fail = None\<rparr>, w) = (d', r)"
  shows "\<exists>rd w'. r = Ok (rd, w') \<and> ok d' \<and>
    (wr_data w' = wr_data w @ array_replies f qs
     \<or> \<not> healthy d \<and> (\<exists>k < length qs. \<exists>more.
         wr_data w' = wr_data w @ array_replies f (take k qs) @ simple_reply NBD_EIO (request_handle (qs ! k)) [] @ more))"
  using assms
proof (induction qs arbitrary: d w f)
  case Nil
  then show ?case by (auto simp: transmission.simps [of B d] serve_request_def read_exact_def)
next
  case (Cons q qs)
  obtain d1 x where dev: "device_serve B d q = (d1, x)" by force
  define w1 where "w1 = w\<lparr>wr_data := wr_data w @ device_reply (request_handle q) x\<rparr>"
  have fits: "request_fits (extent d) q" using Cons.prems(2) by simp
  note step = device_serve_array [OF Cons.prems(1) fits dev Cons.prems(4)]
  have run: "transmission B d1 (\<lparr>rd_data = concat (map request_bytes qs), rd_fail = None\<rparr>, w1) = (d', r)"
    using Cons.prems(5) serve_request_bytes [OF Cons.prems(3) fits dev]
    by (simp add: transmission.simps [of B d] w1_def)
  have prem: "ok d1" "list_all (request_fits (extent d1)) qs" "wr_fail w1 = None"
    using step Cons.prems(2,3) by (simp_all add: w1_def)
  show ?case
  proof (cases x)
    case None
    obtain rd w' where w': "r = Ok (rd, w')" "ok d'" "\<exists>more. wr_data w' = wr_data w1 @ more"
      using Cons.IH [OF prem _ run, of "content d1"] by (auto simp: same_below_def)
    moreover have "\<not> healthy d" "wr_data w1 = wr_data w @ simple_reply NBD_EIO (request_handle q) []"
      using None step by (auto simp: w1_def device_reply_def)
    ultimately show ?thesis by (auto intro!: exI [of _ 0])
  next
    case (Some data)
    obtain f1 reply where a: "array_serve f q = (f1, reply)" by force
    with Some step have f1: "same_below (extent d1) (content d1) f1" and w1: "wr_data w1 = wr_data w @ reply"
      by (simp_all add: w1_def)
    from Cons.IH [OF prem f1 run] obtain rd w' where w': "r = Ok (rd, w')" "ok d'"
        "wr_data w' = wr_data w1 @ array_replies f1 qs
         \<or> \<not> healthy d1 \<and> (\<exists>k < length qs. \<exists>more. wr_data w' = wr_data w1 @ array_replies f1 (take k qs)
             @ simple_reply NBD_EIO (request_handle (qs ! k)) [] @ more)" by blast
    from w'(3) show ?thesis
    proof
      assume "wr_data w' = wr_data w1 @ array_replies f1 qs"
      with w' a w1 show ?thesis by simp
    next
      assume "\<not> healthy d1 \<and> (\<exists>k < length qs. \<exists>more. wr_data w' = wr_data w1 @ array_replies f1 (take k qs)
          @ simple_reply NBD_EIO (request_handle (qs ! k)) [] @ more)"
      then obtain k more where "\<not> healthy d" "k < length qs" "wr_data w' = wr_data w @ array_replies f (take (Suc k) (q # qs))
          @ simple_reply NBD_EIO (request_handle ((q # qs) ! Suc k)) [] @ more" using step a w1 by auto
      with w' show ?thesis by (auto intro!: exI [of _ "Suc k"])
    qed
  qed
qed

end

section \<open>The two backends\<close>

definition cas_extent :: "'s CasBackend \<Rightarrow> nat" where
  "cas_extent cb = num_chunks (cb_index cb) * CHUNK_SIZE"

lemma below_extent: "unat a < cas_extent cb \<longleftrightarrow> chunk_of a < num_chunks (cb_index cb)"
  by (simp add: cas_extent_def chunk_of_nat CHUNK_SIZE_word less_mult_imp_div_less div_less_iff_less_mult)

lemma evolves_extent: "evolves cb cb' \<Longrightarrow> cas_extent cb' = cas_extent cb"
  by (simp add: evolves_def cas_extent_def)

sublocale reliable_store \<subseteq> device: block_device "cas_device S" "cas_ok ok holds" "cas_well well" "\<lambda>cb. disk (holds (cb_store cb)) cb" cas_extent
proof (unfold_locales, goal_cases)
  case (1 cb off n cb' r)
  then have "cas_read S cb off n = (cb', r)" by (simp add: cas_device_def)
  with 1(1) cas_read_spec [of cb off n cb' r] cas_read_well [of cb off n cb' r] show ?case
    by (auto simp: keeps_disk_def evolves_extent)
next
  case (2 cb off n cb' bs)
  then have "cas_read S cb off n = (cb', Inr bs)" by (simp add: cas_device_def)
  with 2(1) cas_read_spec [of cb off n cb' "Inr bs"] show ?case
    by (simp add: keeps_disk_def same_below_def disk_def array_read_def)
next
  case (3 cb data off cb' q)
  then have run: "cas_write S cb off data = (cb', q)" by (simp add: cas_device_def)
  obtain r where "cas_write_loop S cb off data = (cb', r)" "is_ok r \<longrightarrow> is_ok q"
    using run by (auto simp: cas_write_def split: prod.splits sum.splits)
  with 3(1,2) cas_write_spec(1,2) [OF 3(1) _ run] cas_write_loop_well [of cb off data cb' r] show ?case
    by (auto simp: evolves_extent)
next
  case (4 cb data off cb' k)
  then have run: "cas_write S cb off data = (cb', Inr k)" by (simp add: cas_device_def)
  with cas_write_spec(3) [OF 4(1) _ run] 4(2) show ?case by simp
next
  case (5 cb cb' p)
  then have run: "cas_flush S cb = (cb', p)" by (simp add: cas_device_def)
  obtain s ix where f: "flush_chunks S (cb_dirty cb) (cb_store cb, cb_index cb) = ((s, ix), p)"
      and cb': "cb' = cb\<lparr>cb_store := s, cb_index := ix, cb_dirty := []\<rparr>"
    using run by (auto simp: cas_flush_def split: prod.splits)
  have "cas_well well cb \<longrightarrow> cas_well well cb' \<and> is_ok p"
    using flush_chunks_well [OF _ _ _ f] 5(1) cb' by (auto simp: cas_ok_def cas_well_def)
  with cas_flush_spec(1,2) [OF 5(1) run] show ?case by (simp add: evolves_extent)
next
  case (6 cb cb' u)
  then have run: "cas_flush S cb = (cb', Inr ())" by (simp add: cas_device_def)
  with cas_flush_spec(4) [OF 6(1) run] show ?case by (simp add: same_below_def below_extent disk_def)
qed

lemma local_well: "local_put b d s = (s', r) \<Longrightarrow> faults s = [] \<Longrightarrow> faults s' = [] \<and> is_ok r"
  "local_get h s = (s', q) \<Longrightarrow> faults s = [] \<Longrightarrow> faults s' = [] \<and> is_ok q"
  by (auto simp: local_put_def local_get_def next_fault_def Let_def split: if_splits)

interpretation local_disk: reliable_store "local_store b" "local_ok b" chunk_files "\<lambda>s. faults s = []"
  by unfold_locales (auto dest: local_well)

definition flat_ok :: "FlatFileBackend \<Rightarrow> bool" where
  "flat_ok ff \<longleftrightarrow> length (ff_data ff) < 2 ^ 63"

definition flat_content :: "FlatFileBackend \<Rightarrow> u64 \<Rightarrow> byte" where
  "flat_content ff a = byte_of (ff_data ff) (unat a)"

lemma pread_at_array:
  assumes "unat off + n \<le> length data" and "length data < 2 ^ 64"
  shows "pread_at data (unat off) n = array_read (\<lambda>a. byte_of data (unat a)) off n"
proof (rule nth_equalityI)
  show "length (pread_at data (unat off) n) = length (array_read (\<lambda>a. byte_of data (unat a)) off n)"
    using assms by (simp add: pread_at_def array_read_def)
  fix j
  assume "j < length (pread_at data (unat off) n)"
  then have j: "j < n" "unat off + j < length data" using assms by (simp_all add: pread_at_def)
  then have "unat (off + of_nat j) = unat off + j"
    using assms by (simp add: unat_word_ariths unat_of_nat take_bit_nat_eq_self)
  with j show "pread_at data (unat off) n ! j = array_read (\<lambda>a. byte_of data (unat a)) off n ! j"
    by (simp add: pread_at_def array_read_def byte_of_def)
qed

lemma pwrite_at_array:
  assumes "unat off + length bs \<le> length data" and "length data < 2 ^ 64"
  shows "length (pwrite_at data (unat off) bs) = length data"
    and "byte_of (pwrite_at data (unat off) bs) (unat a) = overwrite off bs (\<lambda>a. byte_of data (unat a)) a"
proof -
  show "length (pwrite_at data (unat off) bs) = length data" using assms by (simp add: pwrite_at_def)
  have "unat (a - off) < length bs \<longleftrightarrow> unat off \<le> unat a \<and> unat a < unat off + length bs"
    using assms unat_bound [of a] by (auto simp: unat_sub_if_size word_size)
  moreover have "unat off \<le> unat a \<Longrightarrow> unat (a - off) = unat a - unat off" by (rule unat_sub_le)
  ultimately show "byte_of (pwrite_at data (unat off) bs) (unat a) = overwrite off bs (\<lambda>a. byte_of data (unat a)) a"
    using assms by (auto simp: byte_of_def overwrite_def pwrite_at_def nth_append)
qed

interpretation flat: block_device flat_device flat_ok "\<lambda>ff. ff_fault ff = None" flat_content "\<lambda>ff. length (ff_data ff)"
proof (unfold_locales, goal_cases)
  case (1 d off n d' r)
  then show ?case by (auto simp: flat_device_def ff_read_def flat_ok_def split: option.splits if_splits)
next
  case (2 d off n d' bs)
  then show ?case
    using pread_at_array [of off n "ff_data d"]
    by (auto simp: flat_device_def ff_read_def flat_ok_def flat_content_def [abs_def] split: option.splits if_splits)
next
  case (3 d data off d' q)
  then show ?case
    using pwrite_at_array(1) [of off data "ff_data d"]
    by (auto simp: flat_device_def ff_write_def flat_ok_def split: option.splits if_splits)
next
  case (4 d data off d' k)
  then show ?case
    using pwrite_at_array(2) [of off data "ff_data d"]
    by (auto simp: flat_device_def ff_write_def flat_ok_def flat_content_def [abs_def] same_below_def split: option.splits if_splits)
next
  case (5 d d' p)
  then show ?case by (auto simp: flat_device_def ff_flush_def split: option.splits)
next
  case (6 d d' u)
  then show ?case by (auto simp: flat_device_def)
qed

section \<open>The handshake of a client\<close>

definition option_bytes :: "u32 \<Rightarrow> bytes \<Rightarrow> bytes" where
  "option_bytes option data =
     to_be_bytes 8 IHAVEOPT @ to_be_bytes 4 option @ to_be_bytes 4 (of_nat (length data) :: u32) @ data"

definition info_payload :: "InfoRequest \<Rightarrow> bytes" where
  "info_payload req =
     to_be_bytes 4 (of_nat (length (export_name req)) :: u32) @ export_name req
     @ to_be_bytes 2 (of_nat (length (requested_infos req)) :: u16) @ concat (map (to_be_bytes 2) (requested_infos req))"

definition info_ok :: "InfoRequest \<Rightarrow> bool" where
  "info_ok req \<longleftrightarrow> length (requested_infos req) < 2 ^ 16
     \<and> length (export_name req) + 2 * length (requested_infos req) + 6 < 2 ^ 32"

text \<open>What a client may ask before it goes on: information about the export, or an option the server does not
  know.\<close>

datatype client_option = Ask_Info InfoRequest | Ask_Other u32 bytes

fun client_option_bytes :: "client_option \<Rightarrow> bytes" where
  "client_option_bytes (Ask_Info req) = option_bytes NBD_OPT_INFO (info_payload req)"
| "client_option_bytes (Ask_Other option data) = option_bytes option data"

fun client_option_ok :: "client_option \<Rightarrow> bool" where
  "client_option_ok (Ask_Info req) \<longleftrightarrow> info_ok req"
| "client_option_ok (Ask_Other option data) \<longleftrightarrow>
     length data < 2 ^ 32 \<and> option \<notin> {NBD_OPT_EXPORT_NAME, NBD_OPT_ABORT, NBD_OPT_INFO, NBD_OPT_GO}"

fun client_option_reply :: "u64 \<Rightarrow> client_option \<Rightarrow> bytes" where
  "client_option_reply sz (Ask_Info req) =
     info_replies NBD_OPT_INFO sz (requested_infos req) @ option_reply NBD_OPT_INFO NBD_REP_ACK []"
| "client_option_reply sz (Ask_Other option data) = option_reply option NBD_REP_ERR_UNSUP []"

lemma concat_be16_nth:
  "i < length xs \<Longrightarrow> take 2 (drop (i * 2) (concat (map (to_be_bytes 2) xs))) = to_be_bytes 2 (xs ! i :: u16)"
proof (induction xs arbitrary: i)
  case Nil
  then show ?case by simp
next
  case (Cons x xs)
  then show ?case by (cases i) auto
qed

lemma length_concat_be16 [simp]: "length (concat (map (to_be_bytes 2) (xs :: u16 list))) = 2 * length xs"
  by (induction xs) simp_all

lemma parse_info_payload:
  assumes "info_ok req"
  shows "parse_info_request (info_payload req) = Ok req"
proof -
  let ?n = "length (export_name req)" and ?infos = "requested_infos req"
  have n: "unat (of_nat ?n :: u32) = ?n" and c: "unat (of_nat (length ?infos) :: u16) = length ?infos"
    using assms by (simp_all add: info_ok_def unat_of_nat take_bit_nat_eq_self)
  have infos: "map (\<lambda>i. from_be_bytes (take 2 (drop (i * 2) (concat (map (to_be_bytes 2) ?infos))))) [0..<length ?infos] = ?infos"
    by (rule nth_equalityI) (simp_all add: concat_be16_nth)
  have tail: "drop (4 + ?n + 2 + i * 2) (info_payload req) = drop (i * 2) (concat (map (to_be_bytes 2) ?infos))" for i
    by (simp add: info_payload_def)
  show ?thesis
    using n c infos tail by (cases req) (simp add: parse_info_request_def Let_def info_payload_def)
qed

lemma length_info_payload: "length (info_payload req) = length (export_name req) + 2 * length (requested_infos req) + 6"
  by (simp add: info_payload_def)

lemma option_header:
  assumes "length data < 2 ^ 32"
  shows "nbd_read_exact \<lparr>rd_data = option_bytes option data @ rest, rd_fail = e\<rparr> 16
      = Ok (to_be_bytes 8 IHAVEOPT @ to_be_bytes 4 option @ to_be_bytes 4 (of_nat (length data) :: u32), \<lparr>rd_data = data @ rest, rd_fail = e\<rparr>)"
    and "nbd_read_exact \<lparr>rd_data = data @ rest, rd_fail = e\<rparr> (unat (of_nat (length data) :: u32)) = Ok (data, \<lparr>rd_data = rest, rd_fail = e\<rparr>)"
  using assms by (simp_all add: nbd_read_exact_def read_exact_def option_bytes_def unat_of_nat take_bit_nat_eq_self)

lemma handshake_client_option:
  assumes w: "wr_fail w = None" and opt: "client_option_ok opt"
  shows "handshake_option z sz (\<lparr>rd_data = client_option_bytes opt @ rest, rd_fail = e\<rparr>, w)
    = Ok (Loop_Next (\<lparr>rd_data = rest, rd_fail = e\<rparr>, w\<lparr>wr_data := wr_data w @ client_option_reply sz opt\<rparr>))"
proof (cases opt)
  case (Ask_Info req)
  then have "length (info_payload req) < 2 ^ 32" "info_ok req" using opt by (simp_all add: info_ok_def length_info_payload)
  with Ask_Info show ?thesis
    by (simp add: handshake_option_def option_header parse_info_payload nbd_send_open [OF w] nbd_constants Let_def)
next
  case (Ask_Other option data)
  with opt show ?thesis
    by (simp add: handshake_option_def option_header nbd_send_open [OF w] nbd_constants Let_def)
qed

lemma handshake_go:
  assumes w: "wr_fail w = None" and req: "info_ok req"
  shows "handshake_option z sz (\<lparr>rd_data = option_bytes NBD_OPT_GO (info_payload req) @ rest, rd_fail = e\<rparr>, w)
    = Ok (Loop_Done (\<lparr>rd_data = rest, rd_fail = e\<rparr>, w\<lparr>wr_data := wr_data w @ info_replies NBD_OPT_GO sz (requested_infos req)
        @ option_reply NBD_OPT_GO NBD_REP_ACK []\<rparr>))"
proof -
  have "length (info_payload req) < 2 ^ 32" using req by (simp add: info_ok_def length_info_payload)
  with req show ?thesis
    by (simp add: handshake_option_def option_header parse_info_payload nbd_send_open [OF w] nbd_constants Let_def)
qed

lemma handshake_loop_client:
  assumes "wr_fail w = None" and "list_all client_option_ok opts" and "info_ok req"
  shows "handshake_loop z sz (\<lparr>rd_data = concat (map client_option_bytes opts) @ option_bytes NBD_OPT_GO (info_payload req) @ rest, rd_fail = e\<rparr>, w)
    = Ok (\<lparr>rd_data = rest, rd_fail = e\<rparr>, w\<lparr>wr_data := wr_data w @ concat (map (client_option_reply sz) opts)
        @ info_replies NBD_OPT_GO sz (requested_infos req) @ option_reply NBD_OPT_GO NBD_REP_ACK []\<rparr>)"
  using assms
proof (induction opts arbitrary: w)
  case Nil
  then show ?case by (simp add: handshake_loop.simps [of z] handshake_go)
next
  case (Cons opt opts)
  then show ?case by (simp add: handshake_loop.simps [of z] handshake_client_option)
qed

definition client_stream :: "u32 \<Rightarrow> client_option list \<Rightarrow> InfoRequest \<Rightarrow> nbd_request list \<Rightarrow> bytes" where
  "client_stream cflags opts req qs =
     to_be_bytes 4 cflags @ concat (map client_option_bytes opts) @ option_bytes NBD_OPT_GO (info_payload req)
     @ concat (map request_bytes qs)"

definition server_greeting :: "u64 \<Rightarrow> client_option list \<Rightarrow> InfoRequest \<Rightarrow> bytes" where
  "server_greeting sz opts req =
     to_be_bytes 8 NBDMAGIC @ to_be_bytes 8 IHAVEOPT @ to_be_bytes 2 (or NBD_FLAG_FIXED_NEWSTYLE NBD_FLAG_NO_ZEROES)
     @ concat (map (client_option_reply sz) opts) @ info_replies NBD_OPT_GO sz (requested_infos req)
     @ option_reply NBD_OPT_GO NBD_REP_ACK []"

lemma handshake_client:
  assumes "wr_fail w = None" and "list_all client_option_ok opts" and "info_ok req"
  shows "handshake sz (\<lparr>rd_data = client_stream cflags opts req qs, rd_fail = e\<rparr>, w)
    = Ok (\<lparr>rd_data = concat (map request_bytes qs), rd_fail = e\<rparr>, w\<lparr>wr_data := wr_data w @ server_greeting sz opts req\<rparr>)"
  using assms handshake_loop_client [of "w\<lparr>wr_data := x\<rparr>" for x]
  by (simp add: handshake_def nbd_send_open client_stream_def server_greeting_def nbd_read_exact_def read_exact_def)

section \<open>An example\<close>

definition demo_blake3 :: "bytes \<Rightarrow> bytes" where
  "demo_blake3 d = str ''h'' @ handle_display d"

lemma demo_blake3_sound: "blake3_sound demo_blake3"
proof -
  have inj: "inj demo_blake3" by (rule injI) (metis demo_blake3_def hex_pairs_display same_append_eq)
  have "ZERO_CHUNK_HASH \<noteq> demo_blake3 d" for d by (simp add: demo_blake3_def ZERO_CHUNK_HASH_def str_def)
  moreover have "string_ok (demo_blake3 d)" if "chunk_fits d" for d
  proof -
    have "is_ascii (demo_blake3 d)"
      using display_is_hex [of d] by (fastforce simp: demo_blake3_def is_ascii_def str_def list_all_iff is_hex_digit_def in_range_def)
    with that show ?thesis
      by (simp add: string_ok_def utf8_valid_ascii demo_blake3_def length_display CHUNK_SIZE_word)
  qed
  ultimately show ?thesis using inj_on_subset [OF inj] by (auto simp: blake3_sound_def)
qed

definition demo_store :: LocalChunkStore where
  "demo_store = \<lparr>chunk_files = Map.empty, faults = []\<rparr>"

definition demo_rootfs :: FlatFileBackend where
  "demo_rootfs = \<lparr>ff_path = str ''rootfs'', ff_size = 3, ff_data = [1, 2, 3], ff_fault = None\<rparr>"

definition demo_disk :: "LocalChunkStore CasBackend" where
  "demo_disk = \<lparr>cb_store = demo_store, cb_index = index_new 3, cb_dirty = [], cb_parents = [],
     cb_fallback = Some demo_rootfs, source_index_path = None\<rparr>"

lemma demo_chunks: "disk_chunks 3 = 1"
  by (simp add: disk_chunks_def CHUNK_SIZE_word)

lemma demo_ok: "cas_ok (local_ok demo_blake3) chunk_files demo_disk"
proof -
  have "hash_at i (index_new 3) = ZERO_CHUNK_HASH" for i by (simp add: hash_at_def get_hash_new)
  moreover have "string_ok ZERO_CHUNK_HASH" by (simp add: string_ok_def ZERO_CHUNK_HASH_def str_def in_range_def)
  then have "list_all string_ok (hashes (index_new 3))" by (simp add: index_new_def demo_chunks)
  ultimately show ?thesis
    using demo_blake3_sound by (simp add: cas_ok_def demo_disk_def local_ok_def demo_store_def chunks_intact_def)
qed

lemma demo_contents:
  assumes "unat a < 65536"
  shows "disk (chunk_files demo_store) demo_disk a = byte_of [1, 2, 3] (unat a)"
proof -
  have "chunk_of a = 0" "within_chunk a = unat a" using assms by (simp_all add: chunk_of_nat within_chunk_nat CHUNK_SIZE_word)
  moreover have "visible_hash 0 demo_disk = None"
    by (simp add: visible_hash_def demo_disk_def hash_at_def get_hash_new)
  moreover have "fallback_chunk 0 demo_disk = [1, 2, 3]"
    by (simp add: fallback_chunk_def demo_disk_def demo_rootfs_def pread_at_def CHUNK_SIZE_word)
  ultimately show ?thesis by (simp add: disk_def chunk_view_def demo_disk_def)
qed

section \<open>What a client is served\<close>

text \<open>C3: A client that connects, asks what options it likes, starts the transmission and sends requests within
  the extent of the disk is answered as by a byte array with the contents of the disk, up to the first
  reply with an I/O error. There is no such reply while neither the chunk files nor the root file system
  fail. Chunk files may fail to open at any time; it is assumed that none is ever written in part.\<close>
theorem nbd_serves_byte_array:
  assumes "cas_ok (local_ok b) chunk_files cb" and "list_all (request_fits (cas_extent cb)) qs"
    and "list_all client_option_ok opts" and "info_ok req" and "wr_fail w = None"
  shows "\<exists>cb' rd w'.
    handle_client (cas_device (local_store b)) cb (\<lparr>rd_data = client_stream cflags opts req qs, rd_fail = None\<rparr>, w) = (cb', Ok (rd, w'))
    \<and> cas_ok (local_ok b) chunk_files cb'
    \<and> (wr_data w' = wr_data w @ server_greeting (cas_size cb) opts req @ array_replies (disk (chunk_files (cb_store cb)) cb) qs
       \<or> \<not> cas_well (\<lambda>s. faults s = []) cb
         \<and> (\<exists>k < length qs. \<exists>more. wr_data w' = wr_data w @ server_greeting (cas_size cb) opts req
              @ array_replies (disk (chunk_files (cb_store cb)) cb) (take k qs)
              @ simple_reply NBD_EIO (request_handle (qs ! k)) [] @ more))"
proof -
  let ?w = "w\<lparr>wr_data := wr_data w @ server_greeting (cas_size cb) opts req\<rparr>"
  let ?r = "\<lparr>rd_data = concat (map request_bytes qs), rd_fail = None\<rparr>"
  obtain cb' r where run: "transmission (cas_device (local_store b)) cb (?r, ?w) = (cb', r)" by force
  have "handle_client (cas_device (local_store b)) cb (\<lparr>rd_data = client_stream cflags opts req qs, rd_fail = None\<rparr>, w) = (cb', r)"
    using handshake_client [OF assms(5,3,4)] run by (simp add: handle_client_def cas_device_def)
  with local_disk.device.session_array [OF assms(1,2) _ same_below_refl run] assms(5) show ?thesis by auto
qed

definition demo_request :: InfoRequest where
  "demo_request = \<lparr>export_name = str ''export'', requested_infos = [NBD_INFO_BLOCK_SIZE]\<rparr>"

theorem nbd_serves_byte_array_witness:
  "\<exists>cb' rd w'.
    handle_client (cas_device (local_store demo_blake3)) demo_disk
      (\<lparr>rd_data = client_stream 1 [Ask_Other 3 []] demo_request
          [Nbd_Write (replicate 8 7) 1 [9], Nbd_Read (replicate 8 5) 0 4, Nbd_Flush (replicate 8 6)], rd_fail = None\<rparr>,
       \<lparr>wr_data = [], wr_fail = None\<rparr>) = (cb', Ok (rd, w'))
    \<and> wr_data w' = server_greeting 3 [Ask_Other 3 []] demo_request
        @ simple_reply NBD_OK (replicate 8 7) [] @ simple_reply NBD_OK (replicate 8 5) [1, 9, 3, 0]
        @ simple_reply NBD_OK (replicate 8 6) []"
proof -
  let ?qs = "[Nbd_Write (replicate 8 7) 1 [9], Nbd_Read (replicate 8 5) 0 4, Nbd_Flush (replicate 8 6)]"
  have ext: "cas_extent demo_disk = 65536"
    by (simp add: cas_extent_def demo_disk_def index_new_def num_chunks_def demo_chunks CHUNK_SIZE_word)
  have fits: "list_all (request_fits (cas_extent demo_disk)) ?qs" by (simp add: ext)
  have opts: "list_all client_option_ok [Ask_Other 3 []]" by (simp add: nbd_constants)
  have req: "info_ok demo_request" by (simp add: info_ok_def demo_request_def)
  have well: "cas_well (\<lambda>s. faults s = []) demo_disk"
    by (simp add: cas_well_def demo_disk_def demo_store_def demo_rootfs_def)
  have "array_read (overwrite 1 [9] (disk (chunk_files demo_store) demo_disk)) 0 4 = [1, 9, 3, 0]"
    by (simp add: array_read_def overwrite_def demo_contents byte_of_def upt_rec unsigned_minus_1_eq_mask mask_eq_exp_minus_1)
  then have "array_replies (disk (chunk_files (cb_store demo_disk)) demo_disk) ?qs
      = simple_reply NBD_OK (replicate 8 7) [] @ simple_reply NBD_OK (replicate 8 5) [1, 9, 3, 0] @ simple_reply NBD_OK (replicate 8 6) []"
    by (simp add: demo_disk_def)
  moreover have "cas_size demo_disk = 3" by (simp add: cas_size_def demo_disk_def index_new_def)
  ultimately show ?thesis
    using nbd_serves_byte_array [OF demo_ok fits opts req, of "\<lparr>wr_data = [], wr_fail = None\<rparr>" 1] well by auto
qed

end
