(* ===== verification/Store_Checkpoint.thy ===== *)
theory Store_Checkpoint
  imports Store_Nbd
begin

text \<open>
  Opening a disk and saving it as a checkpoint: the first part of \<^verbatim>\<open>start_cas_nbd_server\<close> in
  \<^verbatim>\<open>crates/lsb-store/src/lib.rs\<close> with \<^verbatim>\<open>save_index\<close> of \<^verbatim>\<open>cas.rs\<close>. A disk that is opened from a saved
  checkpoint has the contents of the disk that was saved, unless the checkpoint replaced one that the
  disk was started from. The theory ends with what goes wrong: a checkpoint saved over its own source,
  a flush that fails, and a chunk file that was written in part.
\<close>

section \<open>Opening a disk\<close>

definition open_index ::
    "index_dir \<Rightarrow> (bytes \<rightharpoonup> bytes) \<Rightarrow> bytes \<Rightarrow> bytes
      \<Rightarrow> (ChunkIndex \<times> FlatFileBackend option \<times> bytes option, index_error) result" where
  "open_index fs files rootfs_path index_path =
     (if idx_files fs index_path \<noteq> None
      then and_then (index_open fs index_path) (\<lambda>ix.
             (case fallback_path ix of
                None \<Rightarrow> Ok (ix, None, Some index_path)
              | Some path \<Rightarrow>
                  (case flat_open files path of
                     None \<Rightarrow> Err Rootfs_Missing
                   | Some ff \<Rightarrow> Ok (ix, Some ff, Some index_path))))
      else
        (case flat_open files rootfs_path of
           None \<Rightarrow> Err Rootfs_Missing
         | Some ff \<Rightarrow> Ok (index_new (ff_size ff), Some ff, None)))"

definition cas_open ::
    "index_dir \<Rightarrow> (bytes \<rightharpoonup> bytes) \<Rightarrow> 's \<Rightarrow> bytes \<Rightarrow> bytes \<Rightarrow> u64 \<Rightarrow> ('s CasBackend, index_error) result option" where
  "cas_open fs files s rootfs_path index_path sz =
     (case open_index fs files rootfs_path index_path of
        Inl e \<Rightarrow> Some (Err e)
      | Inr (ix, fallback, source) \<Rightarrow>
          map_option (\<lambda>r. and_then r (\<lambda>cb.
            let cb = cb\<lparr>source_index_path := source\<rparr> in Ok (if sz > 0 then set_disk_size sz cb else cb)))
            (cas_new fs s ix fallback))"

text \<open>Requests served by the disk, whatever their result.\<close>

datatype cas_op = Op_Read u64 nat | Op_Write u64 bytes | Op_Flush

fun cas_step :: "'s ChunkStore \<Rightarrow> cas_op \<Rightarrow> 's CasBackend \<Rightarrow> 's CasBackend" where
  "cas_step S (Op_Read off n) cb = fst (cas_read S cb off n)"
| "cas_step S (Op_Write off data) cb = fst (cas_write S cb off data)"
| "cas_step S Op_Flush cb = fst (cas_flush S cb)"

definition cas_run :: "'s ChunkStore \<Rightarrow> cas_op list \<Rightarrow> 's CasBackend \<Rightarrow> 's CasBackend" where
  "cas_run S ops cb = fold (cas_step S) ops cb"

fun op_ok :: "cas_op \<Rightarrow> bool" where
  "op_ok (Op_Write off data) \<longleftrightarrow> length data \<le> 2 ^ 64"
| "op_ok _ \<longleftrightarrow> True"

section \<open>Chains of indexes\<close>

definition parent_step :: "index_dir \<Rightarrow> bytes \<Rightarrow> bytes \<Rightarrow> bool" where
  "parent_step fs p q \<longleftrightarrow> (\<exists>ix. index_open fs p = Inr ix \<and> parent_path ix = Some q)"

text \<open>Induction over a chain that could be loaded.\<close>

lemma load_chain_induct [consumes 1, case_names None Fail Parent]:
  assumes load: "load_chain fs parent chain = Some r"
    and none: "\<And>chain. P None chain (Inr chain)"
    and fail: "\<And>p e chain. index_open fs p = Inl e \<Longrightarrow> P (Some p) chain (Inl e)"
    and parent: "\<And>p ix chain r. index_open fs p = Inr ix \<Longrightarrow> P (parent_path ix) (chain @ [ix]) r \<Longrightarrow> P (Some p) chain r"
  shows "P parent chain r"
proof -
  have "fs' = fs \<longrightarrow> P parent' chain' r'" if "load_chain fs' parent' chain' = Some r'" for fs' parent' chain' r'
    using that
  proof (rule load_chain.raw_induct [of "\<lambda>fs' parent' chain' r'. fs' = fs \<longrightarrow> P parent' chain' r'", rotated])
    fix f and fs' parent' chain' r'
    assume IH: "\<And>fs' parent' chain' r'. f fs' parent' chain' = Some r' \<Longrightarrow> fs' = fs \<longrightarrow> P parent' chain' r'"
      and body: "(case parent' of None \<Rightarrow> Some (Inr chain')
        | Some path \<Rightarrow> (case index_open fs' path of Inl e \<Rightarrow> Some (Inl e) | Inr ix \<Rightarrow> f fs' (parent_path ix) (chain' @ [ix]))) = Some r'"
    show "fs' = fs \<longrightarrow> P parent' chain' r'"
      using body none fail parent IH by (auto split: option.splits sum.splits)
  qed
  with load show ?thesis by blast
qed

lemma load_chain_unchanged:
  assumes "load_chain fs parent chain = Some r"
    and "\<And>p q. parent = Some p \<Longrightarrow> (parent_step fs)\<^sup>*\<^sup>* p q \<Longrightarrow> index_open fs' q = index_open fs q"
  shows "load_chain fs' parent chain = Some r"
  using assms
proof (induction rule: load_chain_induct)
  case (None chain)
  then show ?case by (simp add: load_chain.simps)
next
  case (Fail p e chain)
  then have "index_open fs' p = Inl e" by (metis rtranclp.rtrancl_refl)
  then show ?case by (simp add: load_chain.simps)
next
  case (Parent p ix chain r)
  have "index_open fs' p = Inr ix" using Parent by (metis rtranclp.rtrancl_refl)
  moreover have "load_chain fs' (parent_path ix) (chain @ [ix]) = Some r"
  proof (rule Parent.IH)
    fix p' q
    assume "parent_path ix = Some p'" and "(parent_step fs)\<^sup>*\<^sup>* p' q"
    moreover from this Parent.hyps have "parent_step fs p p'" by (simp add: parent_step_def)
    ultimately show "index_open fs' q = index_open fs q"
      using Parent.prems by (blast intro: converse_rtranclp_into_rtranclp)
  qed
  ultimately show ?case by (simp add: load_chain.simps [of fs' "Some p"])
qed

lemma load_chain_append:
  assumes "load_chain fs parent chain = Some r"
  shows "\<forall>hs. r = Inr hs \<longrightarrow> (\<exists>t. hs = chain @ t \<and> (\<forall>c. load_chain fs parent c = Some (Inr (c @ t))))"
  using assms
proof (induction rule: load_chain_induct)
  case (None chain)
  then show ?case by (simp add: load_chain.simps)
next
  case (Fail p e chain)
  then show ?case by simp
next
  case (Parent p ix chain r)
  show ?case
  proof (intro allI impI)
    fix hs
    assume "r = Inr hs"
    with Parent.IH obtain t where "hs = chain @ [ix] @ t" "\<And>c. load_chain fs (parent_path ix) c = Some (Inr (c @ t))" by auto
    with Parent.hyps show "\<exists>t. hs = chain @ t \<and> (\<forall>c. load_chain fs (Some p) c = Some (Inr (c @ t)))"
      by (auto simp: load_chain.simps [of fs "Some p"] intro!: exI [of _ "ix # t"])
  qed
qed

text \<open>An index that is its own parent is loaded forever.\<close>

lemma load_chain_loop:
  assumes "index_open fs p = Inr ix" and "parent_path ix = Some p"
  shows "load_chain fs (Some p) chain = None"
proof (rule ccontr)
  assume "load_chain fs (Some p) chain \<noteq> None"
  then obtain r where "load_chain fs (Some p) chain = Some r" by blast
  then have "Some p \<noteq> Some p" using assms by (induction "Some p" chain r rule: load_chain_induct) auto
  then show False by simp
qed

section \<open>Where a disk comes from\<close>

abbreviation path_ok :: "bytes \<Rightarrow> bool" where
  "path_ok p \<equiv> string_ok p \<and> p \<noteq> []"

text \<open>What ties a running disk to the files it was opened from, and stays true while it is used.\<close>

definition opened_from :: "index_dir \<Rightarrow> (bytes \<rightharpoonup> bytes) \<Rightarrow> 's CasBackend \<Rightarrow> bool" where
  "opened_from fs files cb \<longleftrightarrow>
     (case source_index_path cb of
        None \<Rightarrow> cb_parents cb = []
      | Some p \<Rightarrow> path_ok p \<and> (\<exists>ix. index_open fs p = Inr ix \<and> load_chain fs (parent_path ix) [] = Some (Inr (cb_parents cb))
          \<and> (\<forall>i. hash_at i (cb_index cb) = ZERO_CHUNK_HASH \<longrightarrow> hash_at i ix = ZERO_CHUNK_HASH)))
     \<and> (case cb_fallback cb of
          None \<Rightarrow> fallback_path (cb_index cb) = None
        | Some ff \<Rightarrow> flat_open files (ff_path ff) = Some ff \<and> path_ok (ff_path ff)
            \<and> fallback_path (cb_index cb) \<in> {None, Some (ff_path ff)})
     \<and> num_chunks (cb_index cb) * 24 < 2 ^ 63"

lemma opened_evolves: "opened_from fs files cb \<Longrightarrow> evolves cb cb' \<Longrightarrow> opened_from fs files cb'"
  unfolding opened_from_def evolves_def by (auto split: option.splits)

lemma load_string_ok: "load_string r = Inr (bs, r') \<Longrightarrow> string_ok bs"
  using unat_bound [where 'a = 32]
  by (auto simp: load_string_def and_then_Ok_iff string_ok_def read_part_def read_exact_def split: sum.splits if_splits)

lemma load_path_ok: "load_path r = Inr (p, r') \<Longrightarrow> case p of None \<Rightarrow> True | Some bs \<Rightarrow> path_ok bs"
  by (auto simp: load_path_def and_then_Ok_iff dest: load_string_ok)

lemma load_hashes_length: "load_hashes n r = Inr (hs, r') \<Longrightarrow> length hs = n"
  by (induction n arbitrary: r hs r') (auto simp: and_then_Ok_iff)

lemma index_load_ok:
  assumes "index_load file = Inr ix"
  shows "num_chunks ix * 24 < 2 ^ 63" and "case fallback_path ix of None \<Rightarrow> True | Some bs \<Rightarrow> path_ok bs"
  using assms
  by (auto simp: index_load_def and_then_Ok_iff Let_def num_chunks_def split: if_splits prod.splits
      dest!: load_hashes_length load_path_ok)

lemma disk_chunks_bound: "disk_chunks sz * 24 < 2 ^ 63"
proof -
  have "unat (sz + of_nat CHUNK_SIZE - 1) < 2 ^ 64" using unat_bound [of "sz + of_nat CHUNK_SIZE - 1"] by simp
  then have "disk_chunks sz < 2 ^ 48" by (simp add: disk_chunks_def CHUNK_SIZE_word unat_div)
  then show ?thesis by simp
qed

lemma hash_at_new: "hash_at i (index_new sz) = ZERO_CHUNK_HASH"
  by (simp add: hash_at_def get_hash_new)

lemma hash_at_grown:
  "hash_at i (ix\<lparr>hashes := hashes ix @ replicate n ZERO_CHUNK_HASH, disk_size := sz\<rparr>) = hash_at i ix"
  by (simp add: hash_at_def get_hash_def nth_append)

lemma opened_set_disk_size: "opened_from fs files cb \<Longrightarrow> opened_from fs files (set_disk_size sz cb)"
  using disk_chunks_bound [of sz]
  by (auto simp: opened_from_def set_disk_size_def Let_def hash_at_grown num_chunks_def split: option.splits)

lemma cas_open_opened:
  assumes "cas_open fs files s rootfs_path index_path sz = Some (Inr cb)" and "path_ok rootfs_path" and "path_ok index_path"
  shows "opened_from fs files cb"
proof -
  obtain ix fallback source where ix: "open_index fs files rootfs_path index_path = Inr (ix, fallback, source)"
    using assms(1) by (auto simp: cas_open_def split: sum.splits)
  then obtain parents where parents: "load_chain fs (parent_path ix) [] = Some (Inr parents)"
      and cb: "cb = (let cb = \<lparr>cb_store = s, cb_index = ix, cb_dirty = [], cb_parents = parents, cb_fallback = fallback,
        source_index_path = source\<rparr> in if sz > 0 then set_disk_size sz cb else cb)"
    using assms(1) by (auto simp: cas_open_def cas_new_def load_parent_chain_def and_then_Ok_iff Let_def split: if_splits)
  have "opened_from fs files \<lparr>cb_store = s, cb_index = ix, cb_dirty = [], cb_parents = parents, cb_fallback = fallback,
      source_index_path = source\<rparr>"
  proof (cases "idx_files fs index_path = None")
    case True
    then obtain ff where "flat_open files rootfs_path = Some ff" "ix = index_new (ff_size ff)" "fallback = Some ff" "source = None"
      using ix by (auto simp: open_index_def split: option.splits)
    with parents assms(2) disk_chunks_bound [of "ff_size ff"] show ?thesis
      by (auto simp: opened_from_def flat_open_def index_new_def num_chunks_def load_chain.simps)
  next
    case False
    then obtain content where content: "idx_files fs index_path = Some content" by blast
    have opn: "index_open fs index_path = Inr ix \<and> source = Some index_path
        \<and> (case fallback_path ix of None \<Rightarrow> fallback = None | Some path \<Rightarrow> fallback = flat_open files path \<and> fallback \<noteq> None)"
    proof (cases "index_open fs index_path")
      case (Inl e)
      with ix content show ?thesis by (simp add: open_index_def)
    next
      case (Inr ix')
      with ix content show ?thesis
        by (cases "fallback_path ix'") (auto simp: open_index_def split: option.splits dest: sym)
    qed
    have load: "index_load content = Inr ix" using opn content by (simp add: index_open_def)
    show ?thesis
      using index_load_ok [OF load] opn parents assms(3)
      by (cases "fallback_path ix") (auto simp: opened_from_def flat_open_def)
  qed
  then show ?thesis using cb opened_set_disk_size by (auto simp: Let_def)
qed

lemma open_index_source:
  "open_index fs files rootfs_path index_path = Inr (ix, fallback, source)
    \<Longrightarrow> source = (if idx_files fs index_path = None then None else Some index_path)"
proof (cases "index_open fs index_path")
  case (Inr ix')
  then show "open_index fs files rootfs_path index_path = Inr (ix, fallback, source) \<Longrightarrow> ?thesis"
    by (cases "fallback_path ix'") (auto simp: open_index_def split: option.splits if_splits)
qed (auto simp: open_index_def split: option.splits if_splits)

lemma cas_open_source:
  assumes "cas_open fs files s rootfs_path index_path sz = Some (Inr cb)"
  shows "source_index_path cb = (if idx_files fs index_path = None then None else Some index_path)"
proof -
  obtain ix fallback source where ix: "open_index fs files rootfs_path index_path = Inr (ix, fallback, source)"
    using assms by (auto simp: cas_open_def split: sum.splits)
  then have "source_index_path cb = source"
    using assms by (auto simp: cas_open_def cas_new_def and_then_Ok_iff Let_def set_disk_size_def split: if_splits)
  with open_index_source [OF ix] show ?thesis by simp
qed

context chunk_store
begin

lemma cas_run_keeps:
  "cas_ok ok holds cb \<Longrightarrow> list_all op_ok ops \<Longrightarrow> cas_ok ok holds (cas_run S ops cb) \<and> evolves cb (cas_run S ops cb)"
proof (induction ops arbitrary: cb)
  case Nil
  then show ?case by (simp add: cas_run_def)
next
  case (Cons x ops)
  have "cas_ok ok holds (cas_step S x cb) \<and> evolves cb (cas_step S x cb)"
  proof (cases x)
    case (Op_Read off n)
    then show ?thesis using cas_read_spec [OF Cons.prems(1), of off n] by (cases "cas_read S cb off n") (auto simp: keeps_disk_def)
  next
    case (Op_Write off data)
    then show ?thesis using cas_write_spec(1,2) [OF Cons.prems(1), of data off] Cons.prems(2) by (cases "cas_write S cb off data") auto
  next
    case Op_Flush
    then show ?thesis using cas_flush_spec(1,2) [OF Cons.prems(1)] by (cases "cas_flush S cb") auto
  qed
  with Cons.IH [of "cas_step S x cb"] Cons.prems(2) show ?case by (auto simp: cas_run_def intro: evolves_trans)
qed

end

section \<open>Saving and opening again\<close>

text \<open>The index that \<^verbatim>\<open>save_index\<close> writes.\<close>

lemma saved_index_fields:
  assumes "opened_from fs files cb"
  shows "hashes (saved_index cb) = hashes (cb_index cb)" "disk_size (saved_index cb) = disk_size (cb_index cb)"
    "parent_path (saved_index cb) = source_index_path cb" "fallback_path (saved_index cb) = map_option ff_path (cb_fallback cb)"
  using assms by (auto simp: saved_index_def opened_from_def Let_def split: option.splits)

lemma saved_index_ok:
  assumes "opened_from fs files cb" and "list_all string_ok (hashes (cb_index cb))"
  shows "index_ok (saved_index cb)"
  using assms saved_index_fields [OF assms(1)]
  by (auto simp: index_ok_def opened_from_def num_chunks_def path_bytes_def string_ok_def split: option.splits)

lemma save_index_success:
  assumes "save_index S path cb fs = (cb', fs', Inr u)"
  obtains cb1 where "cas_flush S cb = (cb1, Inr ())" and "cb' = cb1\<lparr>cb_index := saved_index cb1\<rparr>"
    and "index_save path (saved_index cb1) fs = (fs', Inr u)"
proof -
  obtain cb1 r where f: "cas_flush S cb = (cb1, r)" by force
  with assms have "r = Inr ()" by (cases r) (auto simp: save_index_def)
  moreover obtain fs1 q where q: "index_save path (saved_index cb1) fs = (fs1, q)" by force
  ultimately show thesis using f assms that [of cb1] by (simp add: save_index_def Let_def)
qed

lemma hash_at_hashes: "hashes a = hashes b \<Longrightarrow> hash_at i a = hash_at i b"
  by (simp add: hash_at_def get_hash_def)

text \<open>Opening what was saved: the disk is there again, with one more index in its chain.\<close>

lemma reopen_saved:
  assumes opened: "opened_from fs files cb" and saved: "index_open fs' path = Inr (saved_index cb)"
    and other: "\<And>p. p \<noteq> path \<Longrightarrow> index_open fs' p = index_open fs p"
    and fresh: "\<And>p. source_index_path cb = Some p \<Longrightarrow> \<not> (parent_step fs)\<^sup>*\<^sup>* p path"
  shows "\<exists>parents. cas_open fs' files s rootfs path 0
      = Some (Inr \<lparr>cb_store = s, cb_index = saved_index cb, cb_dirty = [], cb_parents = parents, cb_fallback = cb_fallback cb,
          source_index_path = Some path\<rparr>)
    \<and> (\<forall>i. visible_hash i \<lparr>cb_store = s, cb_index = saved_index cb, cb_dirty = [], cb_parents = parents,
          cb_fallback = cb_fallback cb, source_index_path = Some path\<rparr> = visible_hash i cb)"
proof -
  note fields = saved_index_fields [OF opened]
  have "idx_files fs' path \<noteq> None" using saved by (auto simp: index_open_def split: option.splits)
  then have idx: "open_index fs' files rootfs path = Inr (saved_index cb, cb_fallback cb, Some path)"
    using saved opened fields(4) by (auto simp: open_index_def opened_from_def split: option.splits)
  have "\<exists>parents. load_chain fs' (source_index_path cb) [] = Some (Inr parents)
      \<and> (\<forall>i. hash_at i (cb_index cb) = ZERO_CHUNK_HASH \<longrightarrow>
            find (\<lambda>h. h \<noteq> ZERO_CHUNK_HASH) (map (hash_at i) parents) = find (\<lambda>h. h \<noteq> ZERO_CHUNK_HASH) (map (hash_at i) (cb_parents cb)))"
  proof (cases "source_index_path cb")
    case None
    with opened show ?thesis by (simp add: opened_from_def load_chain.simps)
  next
    case (Some p)
    then obtain ix where ix: "index_open fs p = Inr ix" "load_chain fs (parent_path ix) [] = Some (Inr (cb_parents cb))"
        "\<forall>i. hash_at i (cb_index cb) = ZERO_CHUNK_HASH \<longrightarrow> hash_at i ix = ZERO_CHUNK_HASH"
      using opened by (auto simp: opened_from_def)
    have same: "index_open fs' q = index_open fs q" if "(parent_step fs)\<^sup>*\<^sup>* p q" for q
      using fresh [OF Some] that other by metis
    have "load_chain fs' (parent_path ix) [] = Some (Inr (cb_parents cb))"
    proof (rule load_chain_unchanged [OF ix(2)])
      fix p' q
      assume "parent_path ix = Some p'" and "(parent_step fs)\<^sup>*\<^sup>* p' q"
      moreover from this ix(1) have "parent_step fs p p'" by (simp add: parent_step_def)
      ultimately show "index_open fs' q = index_open fs q" using same by (blast intro: converse_rtranclp_into_rtranclp)
    qed
    then have "load_chain fs' (parent_path ix) c = Some (Inr (c @ cb_parents cb))" for c
      using load_chain_append by fastforce
    with Some ix same [of p] show ?thesis by (auto simp: load_chain.simps [of fs' "Some p"])
  qed
  then obtain parents where p: "load_chain fs' (source_index_path cb) [] = Some (Inr parents)"
      "\<forall>i. hash_at i (cb_index cb) = ZERO_CHUNK_HASH \<longrightarrow>
            find (\<lambda>h. h \<noteq> ZERO_CHUNK_HASH) (map (hash_at i) parents) = find (\<lambda>h. h \<noteq> ZERO_CHUNK_HASH) (map (hash_at i) (cb_parents cb))"
    by blast
  have "hash_at i (saved_index cb) = hash_at i (cb_index cb)" for i using fields(1) by (rule hash_at_hashes)
  with idx p fields(3) show ?thesis
    by (auto simp: cas_open_def cas_new_def load_parent_chain_def visible_hash_cases intro!: exI [of _ parents])
qed

context chunk_store
begin

lemma checkpoint_reopens:
  assumes opened: "opened_from fs files cb" and cas: "cas_ok ok holds cb"
    and save: "save_index S path cb fs = (cb', fs', Inr u)"
    and fresh: "\<And>p. source_index_path cb = Some p \<Longrightarrow> \<not> (parent_step fs)\<^sup>*\<^sup>* p path"
  shows "\<exists>cb2. cas_open fs' files (cb_store cb') rootfs path 0 = Some (Inr cb2) \<and> cas_size cb2 = cas_size cb
    \<and> cas_extent cb2 = cas_extent cb \<and> same_below (cas_extent cb) (disk (holds (cb_store cb2)) cb2) (disk (holds (cb_store cb)) cb)"
proof -
  obtain cb1 where f: "cas_flush S cb = (cb1, Inr ())" and cb': "cb' = cb1\<lparr>cb_index := saved_index cb1\<rparr>"
      and saved: "index_save path (saved_index cb1) fs = (fs', Inr u)"
    using save by (rule save_index_success)
  note flush = cas_flush_spec [OF cas f]
  have opened1: "opened_from fs files cb1" using opened flush(2) by (rule opened_evolves)
  have src: "source_index_path cb1 = source_index_path cb" using flush(2) by (simp add: evolves_def)
  have "index_ok (saved_index cb1)" using opened1 flush(1) by (intro saved_index_ok) (auto simp: cas_ok_def)
  from index_open_saved [OF this saved]
  have "index_open fs' path = Inr (saved_index cb1)" and "p \<noteq> path \<Longrightarrow> index_open fs' p = index_open fs p" for p
    by (auto simp: index_open_def)
  then obtain parents where
    open2: "cas_open fs' files (cb_store cb1) rootfs path 0
      = Some (Inr \<lparr>cb_store = cb_store cb1, cb_index = saved_index cb1, cb_dirty = [], cb_parents = parents,
          cb_fallback = cb_fallback cb1, source_index_path = Some path\<rparr>)"
    and vis: "\<forall>i. visible_hash i \<lparr>cb_store = cb_store cb1, cb_index = saved_index cb1, cb_dirty = [], cb_parents = parents,
          cb_fallback = cb_fallback cb1, source_index_path = Some path\<rparr> = visible_hash i cb1"
    using reopen_saved [OF opened1, of fs' path] fresh src by metis
  let ?cb2 = "\<lparr>cb_store = cb_store cb1, cb_index = saved_index cb1, cb_dirty = [], cb_parents = parents,
    cb_fallback = cb_fallback cb1, source_index_path = Some path\<rparr>"
  have fields: "hashes (saved_index cb1) = hashes (cb_index cb1)" "disk_size (saved_index cb1) = disk_size (cb_index cb1)"
    using saved_index_fields [OF opened1] by simp_all
  have "chunk_view (holds (cb_store cb1)) ?cb2 i = chunk_view (holds (cb_store cb1)) cb1 i" for i
    using vis flush(3) by (simp add: chunk_view_def fallback_chunk_def split: option.split)
  then have "same_below (cas_extent cb) (disk (holds (cb_store cb1)) ?cb2) (disk (holds (cb_store cb)) cb)"
    using flush(4) by (simp add: same_below_def below_extent disk_def)
  moreover have "cas_size ?cb2 = cas_size cb" "cas_extent ?cb2 = cas_extent cb"
    using fields flush(2) by (simp_all add: cas_size_def cas_extent_def evolves_def num_chunks_def)
  ultimately show ?thesis using open2 cb' by auto
qed

end

section \<open>An example\<close>

definition demo_files :: "bytes \<rightharpoonup> bytes" where
  "demo_files = [str ''rootfs'' \<mapsto> [1, 2, 3]]"

definition demo_dir :: index_dir where
  "demo_dir = \<lparr>idx_files = Map.empty, idx_room = None\<rparr>"

lemma demo_open: "cas_open demo_dir demo_files demo_store (str ''rootfs'') (str ''base.idx'') 0 = Some (Inr demo_disk)"
  by (simp add: cas_open_def open_index_def demo_dir_def demo_files_def flat_open_def cas_new_def load_parent_chain_def
      index_new_def load_chain.simps demo_disk_def demo_rootfs_def)

definition demo_written :: "LocalChunkStore CasBackend" where
  "demo_written = cas_run (local_store demo_blake3) [Op_Write 1 [9]] demo_disk"

lemma demo_written_facts:
  "cas_ok (local_ok demo_blake3) chunk_files demo_written" "cas_well (\<lambda>s. faults s = []) demo_written" "evolves demo_disk demo_written"
  "disk (chunk_files (cb_store demo_written)) demo_written = overwrite 1 [9] (disk (chunk_files demo_store) demo_disk)"
proof -
  obtain cb r where run: "cas_write_loop (local_store demo_blake3) demo_disk 1 [9] = (cb, r)" by force
  have well: "cas_well (\<lambda>s. faults s = []) demo_disk"
    by (simp add: cas_well_def demo_disk_def demo_store_def demo_rootfs_def)
  have cb: "cas_well (\<lambda>s. faults s = []) cb" "r = Inr ()" using local_disk.cas_write_loop_well [OF demo_ok well run] by (cases r; auto)+
  then have wr: "cas_write (local_store demo_blake3) demo_disk 1 [9] = (cb, Inr 1)" using run by (simp add: cas_write_def)
  then have "demo_written = cb" by (simp add: demo_written_def cas_run_def)
  moreover note local_chunks.cas_write_spec [OF demo_ok _ wr]
  ultimately show "cas_ok (local_ok demo_blake3) chunk_files demo_written" "cas_well (\<lambda>s. faults s = []) demo_written"
    "evolves demo_disk demo_written"
    "disk (chunk_files (cb_store demo_written)) demo_written = overwrite 1 [9] (disk (chunk_files demo_store) demo_disk)"
    using cb by (simp_all add: demo_disk_def)
qed

lemma save_index_works:
  assumes "cas_ok (local_ok b) chunk_files cb" and "cas_well (\<lambda>s. faults s = []) cb" and "idx_room fs = None"
  shows "\<exists>cb' fs'. save_index (local_store b) path cb fs = (cb', fs', Inr ())"
proof -
  obtain cb1 r where f: "nbd_flush (cas_device (local_store b)) cb = (cb1, r)" by force
  then have "r = Inr ()" using local_disk.device.flush_keeps [OF assms(1) f] assms(2) by (cases r) auto
  with f assms(3) show ?thesis by (simp add: save_index_def cas_device_def Let_def index_save_def)
qed

lemma demo_path_ok: "path_ok (str ''rootfs'')" "path_ok (str ''base.idx'')"
  by (simp_all add: string_ok_def str_def in_range_def)

section \<open>Checkpoints\<close>

text \<open>C9: Saving a disk as a checkpoint and opening the checkpoint gives the disk back: for a disk that was opened
  from any index or root file system and then used in any way, on chunk files that may fail to open but are
  never written in part, if the save succeeds and the checkpoint does not replace one that the disk was
  started from, then opening it returns, with the size and all the bytes of the saved disk.\<close>
theorem checkpoint_restores_disk:
  assumes "cas_open fs files s rootfs_path index_path sz = Some (Inr cb0)" and "path_ok rootfs_path" and "path_ok index_path"
    and "cas_ok (local_ok b) chunk_files cb0" and "list_all op_ok ops" and "cb = cas_run (local_store b) ops cb0"
    and "save_index (local_store b) path cb fs = (cb', fs', Inr ())"
    and "source_index_path cb = None \<or> \<not> (parent_step fs)\<^sup>*\<^sup>* index_path path"
  shows "\<exists>cb2. cas_open fs' files (cb_store cb') rootfs_path path 0 = Some (Inr cb2) \<and> cas_size cb2 = cas_size cb
    \<and> same_below (cas_extent cb) (disk (chunk_files (cb_store cb2)) cb2) (disk (chunk_files (cb_store cb)) cb)"
proof -
  have run: "cas_ok (local_ok b) chunk_files cb" "evolves cb0 cb"
    using local_chunks.cas_run_keeps [OF assms(4,5)] assms(6) by auto
  have opened: "opened_from fs files cb" using cas_open_opened [OF assms(1-3)] run(2) by (rule opened_evolves)
  have "source_index_path cb0 \<in> {None, Some index_path}" using cas_open_source [OF assms(1)] by auto
  with run(2) assms(8) have "\<And>p. source_index_path cb = Some p \<Longrightarrow> \<not> (parent_step fs)\<^sup>*\<^sup>* p path" by (auto simp: evolves_def)
  from local_chunks.checkpoint_reopens [OF opened run(1) assms(7) this] show ?thesis by blast
qed

theorem checkpoint_restores_disk_witness:
  "\<exists>cb' fs' cb2. save_index (local_store demo_blake3) (str ''new.idx'') demo_written demo_dir = (cb', fs', Inr ())
    \<and> cas_open fs' demo_files (cb_store cb') (str ''rootfs'') (str ''new.idx'') 0 = Some (Inr cb2)
    \<and> map (disk (chunk_files (cb_store cb2)) cb2) [0, 1, 2, 3] = [1, 9, 3, 0]"
proof -
  obtain cb' fs' where save: "save_index (local_store demo_blake3) (str ''new.idx'') demo_written demo_dir = (cb', fs', Inr ())"
    using save_index_works [OF demo_written_facts(1,2), of demo_dir "str ''new.idx''"] by (auto simp: demo_dir_def)
  have src: "source_index_path demo_written = None" using demo_written_facts(3) by (simp add: evolves_def demo_disk_def)
  have ext: "cas_extent demo_written = 65536"
    using evolves_extent [OF demo_written_facts(3)]
    by (simp add: cas_extent_def demo_disk_def index_new_def num_chunks_def demo_chunks CHUNK_SIZE_word)
  obtain cb2 where cb2: "cas_open fs' demo_files (cb_store cb') (str ''rootfs'') (str ''new.idx'') 0 = Some (Inr cb2)"
      "same_below 65536 (disk (chunk_files (cb_store cb2)) cb2) (disk (chunk_files (cb_store demo_written)) demo_written)"
    using checkpoint_restores_disk [OF demo_open demo_path_ok demo_ok _ demo_written_def save] src ext by auto
  then have "map (disk (chunk_files (cb_store cb2)) cb2) [0, 1, 2, 3] = [1, 9, 3, 0]"
    by (simp add: same_below_def demo_written_facts(4) overwrite_def demo_contents byte_of_def
        unsigned_minus_1_eq_mask mask_eq_exp_minus_1)
  with save cb2(1) show ?thesis by (intro exI conjI) assumption+
qed

text \<open>C38: A checkpoint saved over the one the disk was started from can never be opened again: the saved index
  names itself as its parent, and following the chain of parents does not end. (For chunk files that are never
  written in part.)\<close>
theorem checkpoint_over_source_never_opens:
  assumes "cas_open fs files s rootfs_path path sz = Some (Inr cb0)" and "path_ok rootfs_path" and "path_ok path"
    and "idx_files fs path \<noteq> None" and "cas_ok (local_ok b) chunk_files cb0" and "list_all op_ok ops"
    and "save_index (local_store b) path (cas_run (local_store b) ops cb0) fs = (cb', fs', Inr ())"
  shows "cas_open fs' files (cb_store cb') rootfs_path path sz' = None"
proof -
  let ?cb = "cas_run (local_store b) ops cb0"
  have run: "cas_ok (local_ok b) chunk_files ?cb" "evolves cb0 ?cb"
    using local_chunks.cas_run_keeps [OF assms(5,6)] by auto
  obtain cb1 where f: "cas_flush (local_store b) ?cb = (cb1, Inr ())"
      and saved: "index_save path (saved_index cb1) fs = (fs', Inr ())"
    using assms(7) by (rule save_index_success)
  note flush = local_chunks.cas_flush_spec [OF run(1) f]
  have "evolves cb0 cb1" using run(2) flush(2) by (rule evolves_trans)
  with cas_open_opened [OF assms(1-3)] have opened: "opened_from fs files cb1" by (rule opened_evolves)
  have "source_index_path cb0 = Some path" using cas_open_source [OF assms(1)] assms(4) by auto
  with \<open>evolves cb0 cb1\<close> saved_index_fields [OF opened] have parent: "parent_path (saved_index cb1) = Some path"
    by (simp add: evolves_def)
  have "index_ok (saved_index cb1)" using opened flush(1) by (intro saved_index_ok) (auto simp: cas_ok_def)
  then have there: "index_open fs' path = Inr (saved_index cb1)" using index_open_saved saved by blast
  have "idx_files fs' path \<noteq> None" using there by (auto simp: index_open_def split: option.splits)
  then have "open_index fs' files rootfs_path path = Inr (saved_index cb1, cb_fallback cb1, Some path)"
    using there opened saved_index_fields [OF opened] by (auto simp: open_index_def opened_from_def split: option.splits)
  with load_chain_loop [OF there parent] parent show ?thesis
    by (simp add: cas_open_def cas_new_def load_parent_chain_def)
qed

definition demo_base :: index_dir where
  "demo_base = \<lparr>idx_files = [str ''base.idx'' \<mapsto> index_bytes (index_new 3)], idx_room = None\<rparr>"

definition demo_from_base :: "LocalChunkStore CasBackend" where
  "demo_from_base = demo_disk\<lparr>cb_fallback := None, source_index_path := Some (str ''base.idx'')\<rparr>"

theorem checkpoint_over_source_never_opens_witness:
  "\<exists>cb' fs'. cas_open demo_base demo_files demo_store (str ''rootfs'') (str ''base.idx'') 0 = Some (Inr demo_from_base)
    \<and> save_index (local_store demo_blake3) (str ''base.idx'') demo_from_base demo_base = (cb', fs', Inr ())
    \<and> cas_open fs' demo_files (cb_store cb') (str ''rootfs'') (str ''base.idx'') 0 = None"
proof -
  have ok: "cas_ok (local_ok demo_blake3) chunk_files demo_from_base"
    using demo_ok by (simp add: cas_ok_def demo_from_base_def demo_disk_def)
  have well: "cas_well (\<lambda>s. faults s = []) demo_from_base" by (simp add: cas_well_def demo_from_base_def demo_disk_def demo_store_def)
  have "index_ok (index_new 3)"
    using demo_ok by (simp add: index_ok_def cas_ok_def demo_disk_def index_new_def demo_chunks path_bytes_def string_ok_def)
  from index_load_bytes [OF this, of "[]"]
  have open0: "cas_open demo_base demo_files demo_store (str ''rootfs'') (str ''base.idx'') 0 = Some (Inr demo_from_base)"
    by (simp add: cas_open_def open_index_def index_open_def demo_base_def cas_new_def load_parent_chain_def
        load_chain.simps index_new_def demo_from_base_def demo_disk_def)
  obtain cb' fs' where save: "save_index (local_store demo_blake3) (str ''base.idx'') demo_from_base demo_base = (cb', fs', Inr ())"
    using save_index_works [OF ok well, of demo_base "str ''base.idx''"] by (auto simp: demo_base_def)
  have "cas_open fs' demo_files (cb_store cb') (str ''rootfs'') (str ''base.idx'') 0 = None"
    using checkpoint_over_source_never_opens [OF open0 demo_path_ok _ ok, of "[]"] save
    by (simp add: cas_run_def demo_base_def)
  with open0 save show ?thesis by blast
qed

section \<open>Faults\<close>

text \<open>C39: When the first chunk of a flush cannot be stored, the flush fails and every write since the last
  successful flush is forgotten: the disk reads as if there had been none.\<close>
theorem failed_flush_forgets_writes:
  assumes "cb_dirty cb \<noteq> []" and "next_fault (cb_store cb) = Open_Fails"
  shows "\<exists>cb'. cas_flush (local_store b) cb = (cb', Inl OtherError) \<and> cb_dirty cb' = []
    \<and> disk (chunk_files (cb_store cb')) cb' = disk (chunk_files (cb_store cb)) (cb\<lparr>cb_dirty := []\<rparr>)"
proof -
  obtain i d rest where dirty: "cb_dirty cb = (i, d) # rest" using assms(1) by (cases "cb_dirty cb") auto
  let ?s = "(cb_store cb)\<lparr>faults := tl (faults (cb_store cb))\<rparr>" and ?cb = "cb\<lparr>cb_dirty := []\<rparr>"
  have "cas_flush (local_store b) cb = (?cb\<lparr>cb_store := ?s\<rparr>, Inl OtherError)"
    using dirty assms(2) by (simp add: cas_flush_def local_put_def Let_def)
  moreover have "chunk_view (chunk_files ?s) (?cb\<lparr>cb_store := ?s\<rparr>) k = chunk_view (chunk_files (cb_store cb)) ?cb k" for k
    by (simp add: chunk_view_def visible_hash_def fallback_chunk_def split: option.split)
  then have "disk (chunk_files ?s) (?cb\<lparr>cb_store := ?s\<rparr>) = disk (chunk_files (cb_store cb)) ?cb"
    by (simp add: disk_def fun_eq_iff)
  ultimately show ?thesis by auto
qed

theorem failed_flush_forgets_writes_witness:
  "\<exists>cb'. cas_flush (local_store demo_blake3) (demo_disk\<lparr>cb_dirty := [(0, [8, 8])], cb_store := demo_store\<lparr>faults := [Open_Fails]\<rparr>\<rparr>)
      = (cb', Inl OtherError)
    \<and> disk (chunk_files (cb_store cb')) cb' 0 = 1
    \<and> disk (chunk_files demo_store) (demo_disk\<lparr>cb_dirty := [(0, [8, 8])]\<rparr>) 0 = 8"
proof -
  let ?cb = "demo_disk\<lparr>cb_dirty := [(0, [8, 8])], cb_store := demo_store\<lparr>faults := [Open_Fails]\<rparr>\<rparr>"
  have "disk (chunk_files (cb_store ?cb)) (?cb\<lparr>cb_dirty := []\<rparr>) 0 = disk (chunk_files demo_store) demo_disk 0"
    by (simp add: disk_def chunk_view_def visible_hash_def fallback_chunk_def demo_disk_def demo_store_def split: option.split)
  moreover have "disk (chunk_files demo_store) (demo_disk\<lparr>cb_dirty := [(0, [8, 8])]\<rparr>) 0 = 8"
    by (simp add: disk_def chunk_view_def chunk_of_nat within_chunk_nat byte_of_def)
  ultimately show ?thesis
    using failed_flush_forgets_writes [of ?cb demo_blake3] demo_contents [of 0] by (auto simp: next_fault_def byte_of_def)
qed

text \<open>Any later use of the directory of chunks.\<close>

datatype chunk_call = Put_Chunk bytes | Get_Chunk bytes

fun chunk_calls :: "(bytes \<Rightarrow> bytes) \<Rightarrow> chunk_call list \<Rightarrow> LocalChunkStore \<Rightarrow> LocalChunkStore" where
  "chunk_calls b [] s = s"
| "chunk_calls b (Put_Chunk d # cs) s = chunk_calls b cs (fst (local_put b d s))"
| "chunk_calls b (Get_Chunk h # cs) s = chunk_calls b cs (fst (local_get h s))"

lemma chunk_calls_keep: "chunk_files s h = Some x \<Longrightarrow> chunk_files (chunk_calls b cs s) h = Some x"
proof (induction b cs s rule: chunk_calls.induct)
  case (2 b d cs s)
  then have "chunk_files (fst (local_put b d s)) h = Some x"
    by (auto simp: local_put_def Let_def split: disk_fault.splits)
  with "2.IH" show ?case by simp
next
  case (3 b h' cs s)
  then have "chunk_files (fst (local_get h' s)) h = Some x" by (simp add: local_get_def Let_def)
  with "3.IH" show ?case by simp
qed simp

text \<open>C40: A chunk file that was written in part is taken for the chunk from then on. The call that wrote it
  fails; after any further calls, with whatever faults, the file still holds the part, and unless it cannot be
  opened, storing the chunk again succeeds and reading it gives the part.\<close>
theorem torn_chunk_is_taken_for_whole:
  assumes "chunk_files s (b d) = None" and "next_fault s = Torn_Write n" and "n < length d"
    and "local_put b d s = (s1, r)"
  shows "r = Inl () \<and> take n d \<noteq> d
    \<and> chunk_files (chunk_calls b cs s1) (b d) = Some (take n d)
    \<and> snd (local_put b d (chunk_calls b cs s1))
        = (if next_fault (chunk_calls b cs s1) = Open_Fails then Inl () else Inr (b d))
    \<and> snd (local_get (b d) (chunk_calls b cs s1))
        = (if next_fault (chunk_calls b cs s1) = Open_Fails then Inl () else Inr (Some (take n d)))"
proof -
  have "take n d \<noteq> d" using assms(3) by (metis length_take min.absorb4 nat_neq_iff)
  moreover have "r = Inl ()" "chunk_files s1 (b d) = Some (take n d)"
    using assms by (auto simp: local_put_def Let_def)
  moreover from this(2) have "chunk_files (chunk_calls b cs s1) (b d) = Some (take n d)" by (rule chunk_calls_keep)
  ultimately show ?thesis by (auto simp: local_put_def local_get_def Let_def)
qed

theorem torn_chunk_is_taken_for_whole_witness:
  "\<exists>s1 s2. local_put demo_blake3 [1, 2] (demo_store\<lparr>faults := [Torn_Write 1]\<rparr>) = (s1, Inl ())
    \<and> s2 = chunk_calls demo_blake3 [Put_Chunk [1, 2], Get_Chunk (demo_blake3 [1, 2])] s1
    \<and> snd (local_put demo_blake3 [1, 2] s2) = Inr (demo_blake3 [1, 2])
    \<and> snd (local_get (demo_blake3 [1, 2]) s2) = Inr (Some [1])"
proof -
  let ?s = "demo_store\<lparr>faults := [Torn_Write 1]\<rparr>"
  let ?cs = "[Put_Chunk [1, 2], Get_Chunk (demo_blake3 [1, 2])]"
  obtain s1 r where s1: "local_put demo_blake3 [1, 2] ?s = (s1, r)" by force
  have absent: "chunk_files ?s (demo_blake3 [1, 2]) = None" "next_fault ?s = Torn_Write 1"
    by (auto simp: demo_store_def next_fault_def)
  have "faults s1 = []" using s1 absent by (auto simp: local_put_def Let_def)
  then have "next_fault (chunk_calls demo_blake3 ?cs s1) = No_Fault"
    by (simp add: next_fault_def local_put_def local_get_def Let_def)
  with torn_chunk_is_taken_for_whole [OF absent _ s1, of ?cs] s1 show ?thesis by simp
qed

end
