(* ===== verification/Ledger_Schema.thy ===== *)
theory Ledger_Schema
  imports Session_Quota
begin

text \<open>
  The documents of the resource ledger, \<^verbatim>\<open>crates/lsb-seawork-service/src/ledger/schema.rs\<close>. Before the
  service creates a process, a directory, an account or a share for a sandbox it writes a record of it
  into the document of the sandbox, so that a later start can find and remove what a crash left behind.
  A document is checked as a whole before it is written and after it is read. The JSON library is a
  parameter.
\<close>

section \<open>Documents\<close>

definition LEDGER_SCHEMA_VERSION :: u32 where "LEDGER_SCHEMA_VERSION = 1"
definition MAX_LEDGER_DOCUMENTS :: nat where "MAX_LEDGER_DOCUMENTS = 1024"
definition MAX_LEDGER_DOCUMENT_SIZE :: nat where "MAX_LEDGER_DOCUMENT_SIZE = 256 * 1024"
definition MAX_LEDGER_RESOURCES :: nat where "MAX_LEDGER_RESOURCES = 256"
definition MAX_LEDGER_TOTAL_SIZE :: nat where "MAX_LEDGER_TOTAL_SIZE = 64 * 1024 * 1024"

lemmas ledger_limits =
  MAX_LEDGER_DOCUMENTS_def MAX_LEDGER_DOCUMENT_SIZE_def MAX_LEDGER_RESOURCES_def MAX_LEDGER_TOTAL_SIZE_def

record OwnerIdentity =
  owner_user_sid :: bytes
  owner_logon_sid :: bytes
  owner_luid :: bytes
  owner_session_id :: u32

datatype LifecycleState =
    Reserved | Preparing | Running | Draining | Cleaning | FailedSetup | StateQuarantined

text \<open>
  The fields of the records, in the order of the source. The last one of each says whether the resource
  is known to exist (committed) or may exist (intent).
\<close>

datatype ResourceRecord =
    AuthorizedMountRoot bytes u32 bytes bytes bytes bytes bool
  | ProtectedFile bytes bool
  | TemporaryAccount bytes bytes bool
  | Share bytes bytes bytes bool
  | PinnedAce bytes bytes u32 u32 bool
  | StagingRoot bytes bytes bool
  | QemuProcess u32 u64 bytes bytes bool
  | WfpFilter bytes bytes bytes bool

record LedgerDocument =
  schema_version :: u32
  bundle_version :: bytes
  ownership_id :: bytes
  doc_owner :: OwnerIdentity
  doc_state :: LifecycleState
  doc_resources :: "ResourceRecord list"
  created_unix_ms :: u64
  updated_unix_ms :: u64

fun committed :: "ResourceRecord \<Rightarrow> bool" where
  "committed (AuthorizedMountRoot _ _ _ _ _ _ c) = c"
| "committed (ProtectedFile _ c) = c"
| "committed (TemporaryAccount _ _ c) = c"
| "committed (Share _ _ _ c) = c"
| "committed (PinnedAce _ _ _ _ c) = c"
| "committed (StagingRoot _ _ c) = c"
| "committed (QemuProcess _ _ _ _ c) = c"
| "committed (WfpFilter _ _ _ c) = c"

fun set_committed :: "bool \<Rightarrow> ResourceRecord \<Rightarrow> ResourceRecord" where
  "set_committed v (AuthorizedMountRoot a b c d e f _) = AuthorizedMountRoot a b c d e f v"
| "set_committed v (ProtectedFile a _) = ProtectedFile a v"
| "set_committed v (TemporaryAccount a b _) = TemporaryAccount a b v"
| "set_committed v (Share a b c _) = Share a b c v"
| "set_committed v (PinnedAce a b c d _) = PinnedAce a b c d v"
| "set_committed v (StagingRoot a b _) = StagingRoot a b v"
| "set_committed v (QemuProcess a b c d _) = QemuProcess a b c d v"
| "set_committed v (WfpFilter a b c _) = WfpFilter a b c v"

section \<open>Validation\<close>

definition is_hex_id :: "bytes \<Rightarrow> bool" where
  "is_hex_id value \<longleftrightarrow> is_lower_hex value 32"

definition is_file_id :: "bytes \<Rightarrow> bool" where
  "is_file_id value \<longleftrightarrow>
     length value = 25 \<and> value ! 8 = 58 \<and> list_all is_hex_digit (take 8 value @ drop 9 value)"

definition is_ascii_hexdigit :: "byte \<Rightarrow> bool" where
  "is_ascii_hexdigit b \<longleftrightarrow> in_range 48 57 b \<or> in_range 65 70 b \<or> in_range 97 102 b"

definition is_guid :: "bytes \<Rightarrow> bool" where
  "is_guid value \<longleftrightarrow>
     length value = 36
     \<and> list_all (\<lambda>i. i < length value \<and> value ! i = 45) [8, 13, 18, 23]
     \<and> list_all (\<lambda>(i, b). i \<in> set [8, 13, 18, 23] \<or> is_ascii_hexdigit b) (enumerate 0 value)"

text \<open>A path component ends at either kind of slash.\<close>

definition path_components :: "bytes \<Rightarrow> bytes list" where
  "path_components value = split_on 47 (map (\<lambda>b. if b = 92 then 47 else b) value)"

definition safe_relative_path :: "bytes \<Rightarrow> bool" where
  "safe_relative_path value \<longleftrightarrow>
     \<not> (value = [] \<or> starts_with value (str ''/'') \<or> starts_with value [92] \<or> 58 \<in> set value
        \<or> list_ex (\<lambda>c. c = [] \<or> c = str ''.'' \<or> c = str ''..'') (path_components value))"

fun resource_validate :: "bytes \<Rightarrow> ResourceRecord \<Rightarrow> bool" where
  "resource_validate _ (AuthorizedMountRoot mount_id _ file_index final_path access backend _) \<longleftrightarrow>
     is_hex_id mount_id \<and> is_lower_hex file_index 16 \<and> final_path \<noteq> [] \<and> access \<noteq> [] \<and> backend \<noteq> []"
| "resource_validate _ (ProtectedFile relative_path _) \<longleftrightarrow> safe_relative_path relative_path"
| "resource_validate _ (TemporaryAccount name sid _) \<longleftrightarrow>
     starts_with name (str ''lsbsw_'') \<and> starts_with sid (str ''S-'')"
| "resource_validate owner_id (Share name ownership_comment root_file_id _) \<longleftrightarrow>
     starts_with name (str ''lsbsw-'') \<and> ownership_comment = str ''lsbsw:'' @ owner_id \<and> root_file_id \<noteq> []"
| "resource_validate _ (PinnedAce root_file_id sid _ _ _) \<longleftrightarrow>
     root_file_id \<noteq> [] \<and> starts_with sid (str ''S-'')"
| "resource_validate _ (StagingRoot relative_path file_id c) \<longleftrightarrow>
     safe_relative_path relative_path
     \<and> \<not> ((c \<and> \<not> is_file_id file_id) \<or> (\<not> c \<and> file_id \<noteq> str ''pending''))"
| "resource_validate _ (QemuProcess pid creation_time image_relative_path job_id c) \<longleftrightarrow>
     safe_relative_path image_relative_path \<and> is_hex_id job_id
     \<and> \<not> ((c \<and> (pid = 0 \<or> creation_time = 0)) \<or> (\<not> c \<and> (pid \<noteq> 0 \<or> creation_time \<noteq> 0)))"
| "resource_validate _ (WfpFilter provider_guid sublayer_guid filter_guid _) \<longleftrightarrow>
     is_guid provider_guid \<and> is_guid sublayer_guid \<and> is_guid filter_guid"

text \<open>What a record is about, whatever its proof values are.\<close>

fun stable_key :: "ResourceRecord \<Rightarrow> bytes" where
  "stable_key (AuthorizedMountRoot mount_id _ _ _ _ _ _) = str ''mount:'' @ mount_id"
| "stable_key (ProtectedFile relative_path _) = str ''file:'' @ relative_path"
| "stable_key (TemporaryAccount name _ _) = str ''account:'' @ name"
| "stable_key (Share name _ _ _) = str ''share:'' @ name"
| "stable_key (PinnedAce root_file_id sid ace_mask inheritance _) =
     str ''ace:'' @ root_file_id @ str '':'' @ sid @ str '':'' @ str (show_dec (unat ace_mask)) @ str '':''
     @ str (show_dec (unat inheritance))"
| "stable_key (StagingRoot relative_path _ _) = str ''staging:'' @ relative_path"
| "stable_key (QemuProcess _ _ _ job_id _) = str ''qemu:'' @ job_id"
| "stable_key (WfpFilter _ _ filter_guid _) = str ''wfp:'' @ filter_guid"

datatype ledger_error =
    BadSchema | BadOwnershipId | BadOwner | BadTimestamps | TooManyResources | BadResource
  | DuplicateResource | EncodeFailed | DocumentTooLarge | BadEncoding | StringTooLong
  | IoFailed | NotUtf8 | NoUniqueTemporary | RandomFailed | ClockFailed | AlreadyReserved
  | BadSandboxId | IndexOutOfRange | IdentityUnproven | EntryRejected | CleanerFailed

fun validate_resources :: "bytes \<Rightarrow> bytes list \<Rightarrow> ResourceRecord list \<Rightarrow> (unit, ledger_error) result" where
  "validate_resources owner_id resource_keys [] = Ok ()"
| "validate_resources owner_id resource_keys (r # rs) =
     (if \<not> resource_validate owner_id r then Err BadResource
      else if stable_key r \<in> set resource_keys then Err DuplicateResource
      else validate_resources owner_id (stable_key r # resource_keys) rs)"

text \<open>
  The JSON library: the compact and the indented encoding of a document, the decoder of documents, and
  the decoder of arbitrary values.
\<close>

datatype json_value =
    JsonNull | JsonBool bool | JsonNumber | JsonString bytes
  | JsonArray "json_value list" | JsonObject "(bytes \<times> json_value) list"

record ledger_json =
  to_vec :: "LedgerDocument \<Rightarrow> bytes option"
  to_vec_pretty :: "LedgerDocument \<Rightarrow> bytes option"
  from_slice :: "bytes \<Rightarrow> LedgerDocument option"
  value_from_slice :: "bytes \<Rightarrow> json_value option"

fun visit_strings :: "json_value \<Rightarrow> bool" where
  "visit_strings (JsonString v) = (length v \<le> MAX_STRING_LEN)"
| "visit_strings (JsonArray vs) = (\<forall>v \<in> set vs. visit_strings v)"
| "visit_strings (JsonObject kvs) = (\<forall>kv \<in> set kvs. visit_strings (snd kv))"
| "visit_strings _ = True"

definition validate_strings :: "ledger_json \<Rightarrow> bytes \<Rightarrow> (unit, ledger_error) result" where
  "validate_strings lib encoded =
     (case value_from_slice lib encoded of
        None \<Rightarrow> Err BadEncoding
      | Some v \<Rightarrow> ensure (visit_strings v) StringTooLong)"

definition ledger_validate :: "ledger_json \<Rightarrow> LedgerDocument \<Rightarrow> (unit, ledger_error) result" where
  "ledger_validate lib d =
     and_then (ensure (schema_version d = LEDGER_SCHEMA_VERSION) BadSchema) (\<lambda>_.
     and_then (ensure (is_hex_id (ownership_id d)) BadOwnershipId) (\<lambda>_.
     and_then (ensure (\<not> (bundle_version d = [] \<or> \<not> starts_with (owner_user_sid (doc_owner d)) (str ''S-'')
                       \<or> \<not> starts_with (owner_logon_sid (doc_owner d)) (str ''S-'')
                       \<or> \<not> is_lower_hex (owner_luid (doc_owner d)) 16)) BadOwner) (\<lambda>_.
     and_then (ensure (\<not> (created_unix_ms d = 0 \<or> updated_unix_ms d = 0
                       \<or> updated_unix_ms d < created_unix_ms d)) BadTimestamps) (\<lambda>_.
     and_then (ensure (\<not> length (doc_resources d) > MAX_LEDGER_RESOURCES) TooManyResources) (\<lambda>_.
     and_then (validate_resources (ownership_id d) [] (doc_resources d)) (\<lambda>_.
     case to_vec lib d of
       None \<Rightarrow> Err EncodeFailed
     | Some encoded \<Rightarrow>
         and_then (ensure (\<not> length encoded > MAX_LEDGER_DOCUMENT_SIZE) DocumentTooLarge) (\<lambda>_.
         validate_strings lib encoded)))))))"

abbreviation ledger_valid :: "ledger_json \<Rightarrow> LedgerDocument \<Rightarrow> bool" where
  "ledger_valid lib d \<equiv> ledger_validate lib d = Ok ()"

section \<open>What validation shows\<close>

lemma stable_key_set_committed [simp]: "stable_key (set_committed v r) = stable_key r"
  by (cases r) auto

lemma committed_set_committed [simp]: "committed (set_committed v r) = v"
  by (cases r) auto

lemma validate_resources_iff:
  "validate_resources oid ks rs = Ok u \<longleftrightarrow>
     list_all (resource_validate oid) rs \<and> distinct (map stable_key rs) \<and> stable_key ` set rs \<inter> set ks = {}"
  by (induction rs arbitrary: ks) auto

lemma ledger_valid_iff:
  "ledger_valid lib d \<longleftrightarrow>
     schema_version d = LEDGER_SCHEMA_VERSION \<and> is_hex_id (ownership_id d) \<and> bundle_version d \<noteq> []
     \<and> starts_with (owner_user_sid (doc_owner d)) (str ''S-'')
     \<and> starts_with (owner_logon_sid (doc_owner d)) (str ''S-'') \<and> is_lower_hex (owner_luid (doc_owner d)) 16
     \<and> created_unix_ms d \<noteq> 0 \<and> created_unix_ms d \<le> updated_unix_ms d
     \<and> length (doc_resources d) \<le> MAX_LEDGER_RESOURCES
     \<and> list_all (resource_validate (ownership_id d)) (doc_resources d)
     \<and> distinct (map stable_key (doc_resources d))
     \<and> (\<exists>b v. to_vec lib d = Some b \<and> length b \<le> MAX_LEDGER_DOCUMENT_SIZE
              \<and> value_from_slice lib b = Some v \<and> visit_strings v)"
  by (auto simp: ledger_validate_def and_then_Ok_iff validate_resources_iff validate_strings_def
      not_less split: option.splits)

text \<open>The keys of the resources that a document accounts for.\<close>

definition doc_keys :: "LedgerDocument \<Rightarrow> bytes set" where
  "doc_keys d = stable_key ` set (doc_resources d)"

lemma doc_keys_update [simp]:
  "doc_keys (d\<lparr>doc_state := st\<rparr>) = doc_keys d"
  "doc_keys (d\<lparr>updated_unix_ms := t\<rparr>) = doc_keys d"
  "doc_keys (d\<lparr>doc_resources := rs\<rparr>) = stable_key ` set rs"
  by (simp_all add: doc_keys_def)

end
