(* ===== verification/Ledger_Atomic.thy ===== *)
theory Ledger_Atomic
  imports Ledger_Schema
begin

text \<open>
  Durable files of the ledger, \<^verbatim>\<open>crates/lsb-seawork-service/src/ledger/atomic.rs\<close>: a document is created
  under a new name, or written to a temporary file that then replaces the old document. Every operation
  on the file system may fail, and a write may fail after some bytes. A crash of the service is the run
  in which every operation fails from some point on, the removal of the temporary file included.
\<close>

section \<open>The machine\<close>

text \<open>
  The directory of the ledger and the one for documents that were set aside, by file name; what the
  coming file operations, reads of the random source and of the clock meet; and everything else that
  exists on the host.
\<close>

datatype dir_entry = Regular bytes | Directory | Symlink bool

datatype io_outcome = Io_Done | Io_Failed nat

record 'w machine =
  ledger_dir :: "(bytes, dir_entry) hash_map"
  quarantine_dir :: "(bytes, dir_entry) hash_map"
  io_outcomes :: "nat \<Rightarrow> io_outcome"
  randoms :: "nat \<Rightarrow> (nat \<Rightarrow> byte) option"
  clocks :: "nat \<Rightarrow> u64 option"
  world :: 'w

definition io_next :: "'w machine \<Rightarrow> 'w machine \<times> io_outcome" where
  "io_next m = (m\<lparr>io_outcomes := \<lambda>n. io_outcomes m (Suc n)\<rparr>, io_outcomes m 0)"

definition io_try :: "'w machine \<Rightarrow> 'w machine \<times> bool" where
  "io_try m = (case io_next m of (m, r) \<Rightarrow> (m, r = Io_Done))"

text \<open>\<^verbatim>\<open>getrandom::fill\<close> on \<open>k\<close> bytes.\<close>

definition next_random :: "nat \<Rightarrow> 'w machine \<Rightarrow> 'w machine \<times> bytes option" where
  "next_random k m =
     (m\<lparr>randoms := \<lambda>n. randoms m (Suc n)\<rparr>, map_option (\<lambda>f. map f [0..<k]) (randoms m 0))"

text \<open>\<^verbatim>\<open>SystemTime::now\<close> in milliseconds, which fails before 1970 and beyond 64 bits.\<close>

definition now_unix_ms :: "'w machine \<Rightarrow> 'w machine \<times> (u64, ledger_error) result" where
  "now_unix_ms m =
     (m\<lparr>clocks := \<lambda>n. clocks m (Suc n)\<rparr>, case clocks m 0 of None \<Rightarrow> Err ClockFailed | Some t \<Rightarrow> Ok t)"

definition put_file :: "bytes \<Rightarrow> dir_entry \<Rightarrow> 'w machine \<Rightarrow> 'w machine" where
  "put_file n e m = m\<lparr>ledger_dir := AList.update n e (ledger_dir m)\<rparr>"

definition drop_file :: "bytes \<Rightarrow> 'w machine \<Rightarrow> 'w machine" where
  "drop_file n m = m\<lparr>ledger_dir := AList.delete n (ledger_dir m)\<rparr>"

section \<open>Operations\<close>

text \<open>\<^verbatim>\<open>Path::file_stem\<close> of a file name: what is before the last dot, unless that is nothing.\<close>

definition file_stem :: "bytes \<Rightarrow> bytes" where
  "file_stem name =
     (let rest = dropWhile (\<lambda>b. b \<noteq> 46) (rev name) in
      if rest = [] \<or> tl rest = [] then name else rev (tl rest))"

definition temporary_name :: "bytes \<Rightarrow> bytes \<Rightarrow> bytes" where
  "temporary_name stem random = str ''.'' @ stem @ str ''-'' @ handle_display random @ str ''.tmp''"

fun create_temporary :: "nat \<Rightarrow> bytes \<Rightarrow> 'w machine \<Rightarrow> 'w machine \<times> (bytes, ledger_error) result" where
  "create_temporary 0 stem m = (m, Err NoUniqueTemporary)"
| "create_temporary (Suc tries) stem m =
     (case next_random 8 m of
        (m, None) \<Rightarrow> (m, Err RandomFailed)
      | (m, Some random) \<Rightarrow>
          let temporary = temporary_name stem random in
          (case io_try m of (m, ok) \<Rightarrow>
             if \<not> ok then (m, Err IoFailed)
             else if map_of (ledger_dir m) temporary \<noteq> None then create_temporary tries stem m
             else (put_file temporary (Regular []) m, Ok temporary)))"

text \<open>Renames the temporary file to the document; a directory of that name is not replaced.\<close>

definition replace_file :: "bytes \<Rightarrow> bytes \<Rightarrow> 'w machine \<Rightarrow> 'w machine \<times> bool" where
  "replace_file temporary p m =
     (case io_try m of (m, ok) \<Rightarrow>
        if \<not> ok \<or> map_of (ledger_dir m) p = Some Directory then (m, False)
        else
          (case map_of (ledger_dir m) temporary of
             None \<Rightarrow> (m, False)
           | Some e \<Rightarrow> (put_file p e (drop_file temporary m), True)))"

definition sync_parent :: "'w machine \<Rightarrow> 'w machine \<times> (unit, ledger_error) result" where
  "sync_parent m = (case io_try m of (m, ok) \<Rightarrow> (m, ensure ok IoFailed))"

text \<open>\<^verbatim>\<open>write_all\<close> and \<^verbatim>\<open>sync_all\<close> on a file that was opened empty.\<close>

definition write_synced :: "bytes \<Rightarrow> bytes \<Rightarrow> 'w machine \<Rightarrow> 'w machine \<times> bool" where
  "write_synced n bs m =
     (case io_next m of
        (m, Io_Failed k) \<Rightarrow> (put_file n (Regular (take k bs)) m, False)
      | (m, Io_Done) \<Rightarrow> io_try (put_file n (Regular bs) m))"

definition write_temporary :: "bytes \<Rightarrow> bytes \<Rightarrow> bytes \<Rightarrow> 'w machine \<Rightarrow> 'w machine \<times> (unit, ledger_error) result" where
  "write_temporary p temporary bs m =
     (case write_synced temporary bs m of (m, ok) \<Rightarrow>
        if \<not> ok then (m, Err IoFailed)
        else
          (case replace_file temporary p m of (m, ok) \<Rightarrow>
             if \<not> ok then (m, Err IoFailed) else sync_parent m))"

text \<open>\<^verbatim>\<open>let _ = remove_file(..)\<close>.\<close>

definition remove_ignored :: "bytes \<Rightarrow> 'w machine \<Rightarrow> 'w machine" where
  "remove_ignored n m = (case io_try m of (m, ok) \<Rightarrow> if ok then drop_file n m else m)"

text \<open>\<open>encoded\<close> is the indented JSON of the document, or \<open>None\<close> if it cannot be encoded.\<close>

definition write_value :: "bytes \<Rightarrow> bytes option \<Rightarrow> 'w machine \<Rightarrow> 'w machine \<times> (unit, ledger_error) result" where
  "write_value p encoded m =
     (case io_try m of (m, ok) \<Rightarrow>
        if \<not> ok then (m, Err IoFailed)
        else if \<not> utf8_valid (file_stem p) then (m, Err NotUtf8)
        else
          (case encoded of
             None \<Rightarrow> (m, Err EncodeFailed)
           | Some bs \<Rightarrow>
               (case create_temporary 16 (file_stem p) m of
                  (m, Inl e) \<Rightarrow> (m, Err e)
                | (m, Inr temporary) \<Rightarrow>
                    (case write_temporary p temporary bs m of
                       (m, Inl e) \<Rightarrow> (remove_ignored temporary m, Err e)
                     | (m, Inr _) \<Rightarrow> (m, Ok ())))))"

definition atomic_write ::
    "ledger_json \<Rightarrow> bytes \<Rightarrow> LedgerDocument \<Rightarrow> 'w machine \<Rightarrow> 'w machine \<times> (unit, ledger_error) result" where
  "atomic_write lib p d m =
     (case ledger_validate lib d of
        Inl e \<Rightarrow> (m, Err e)
      | Inr _ \<Rightarrow> write_value p (to_vec_pretty lib d) m)"

definition atomic_create ::
    "ledger_json \<Rightarrow> bytes \<Rightarrow> LedgerDocument \<Rightarrow> 'w machine \<Rightarrow> 'w machine \<times> (unit, ledger_error) result" where
  "atomic_create lib p d m =
     (case ledger_validate lib d of
        Inl e \<Rightarrow> (m, Err e)
      | Inr _ \<Rightarrow>
          (case io_try m of (m, ok) \<Rightarrow>
             if \<not> ok then (m, Err IoFailed)
             else
               (case to_vec_pretty lib d of
                  None \<Rightarrow> (m, Err EncodeFailed)
                | Some bs \<Rightarrow>
                    (case io_try m of (m, ok) \<Rightarrow>
                       if \<not> ok then (m, Err IoFailed)
                       else if map_of (ledger_dir m) p \<noteq> None then (m, Err AlreadyReserved)
                       else
                         (case write_synced p bs (put_file p (Regular []) m) of (m, ok) \<Rightarrow>
                            if \<not> ok then (remove_ignored p m, Err IoFailed) else sync_parent m)))))"

definition remove_if_exists :: "bytes \<Rightarrow> 'w machine \<Rightarrow> 'w machine \<times> (bool, ledger_error) result" where
  "remove_if_exists p m =
     (case io_try m of (m, ok) \<Rightarrow>
        if \<not> ok then (m, Err IoFailed)
        else
          (case map_of (ledger_dir m) p of
             None \<Rightarrow> (m, Ok False)
           | Some Directory \<Rightarrow> (m, Err IoFailed)
           | Some _ \<Rightarrow>
               (case sync_parent (drop_file p m) of (m, r) \<Rightarrow> (m, and_then r (\<lambda>_. Ok True)))))"

section \<open>What the operations change\<close>

text \<open>A step that changes nothing but what is about to be met.\<close>

definition same_files :: "'w machine \<Rightarrow> 'w machine \<Rightarrow> bool" where
  "same_files m m' \<longleftrightarrow>
     ledger_dir m' = ledger_dir m \<and> quarantine_dir m' = quarantine_dir m \<and> world m' = world m"

lemma same_files_refl [simp]: "same_files m m"
  by (simp add: same_files_def)

lemma io_next_same: "io_next m = (m', r) \<Longrightarrow> same_files m m'"
  by (auto simp: io_next_def same_files_def)

lemma io_try_same: "io_try m = (m', ok) \<Longrightarrow> same_files m m'"
  by (auto simp: io_try_def dest: io_next_same split: prod.splits)

lemma next_random_same: "next_random k m = (m', r) \<Longrightarrow> same_files m m'"
  by (auto simp: next_random_def same_files_def)

lemma now_unix_ms_same: "now_unix_ms m = (m', r) \<Longrightarrow> same_files m m'"
  by (auto simp: now_unix_ms_def same_files_def)

lemma sync_parent_same: "sync_parent m = (m', r) \<Longrightarrow> same_files m m'"
  by (auto simp: sync_parent_def dest: io_try_same split: prod.splits)

lemmas same_dests = io_next_same io_try_same next_random_same now_unix_ms_same sync_parent_same

text \<open>
  The names of documents do not start with a dot, those of temporary files do. An operation on the
  document \<open>p\<close> keeps all other entries and adds at most entries with a dotted name; one that leaves no
  trace beside \<open>p\<close> adds none.
\<close>

definition plain_name :: "bytes \<Rightarrow> bool" where
  "plain_name n \<longleftrightarrow> \<not> starts_with n (str ''.'')"

definition keeps_others :: "bytes \<Rightarrow> 'w machine \<Rightarrow> 'w machine \<Rightarrow> bool" where
  "keeps_others p m m' \<longleftrightarrow>
     quarantine_dir m' = quarantine_dir m
     \<and> (hm_wf (ledger_dir m) \<longrightarrow> hm_wf (ledger_dir m'))
     \<and> (\<forall>n. n \<noteq> p \<longrightarrow> map_of (ledger_dir m) n \<noteq> None \<or> plain_name n
            \<longrightarrow> map_of (ledger_dir m') n = map_of (ledger_dir m) n)"

definition touches_only :: "bytes \<Rightarrow> 'w machine \<Rightarrow> 'w machine \<Rightarrow> bool" where
  "touches_only p m m' \<longleftrightarrow> world m' = world m \<and> keeps_others p m m'"

definition leaves_no_trace :: "bytes \<Rightarrow> 'w machine \<Rightarrow> 'w machine \<Rightarrow> bool" where
  "leaves_no_trace p m m' \<longleftrightarrow> (\<forall>n. n \<noteq> p \<longrightarrow> map_of (ledger_dir m') n = map_of (ledger_dir m) n)"

lemma touches_only_same: "same_files m m' \<Longrightarrow> touches_only p m m'"
  by (simp add: same_files_def touches_only_def keeps_others_def)

lemma leaves_no_trace_same: "same_files m m' \<Longrightarrow> leaves_no_trace p m m'"
  by (simp add: same_files_def leaves_no_trace_def)

lemma keeps_others_same: "same_files m m' \<Longrightarrow> keeps_others p m m'"
  by (simp add: same_files_def keeps_others_def)

lemma keeps_others_trans: "keeps_others p m m1 \<Longrightarrow> keeps_others p m1 m2 \<Longrightarrow> keeps_others p m m2"
  by (auto simp: keeps_others_def)

lemma touches_only_trans: "touches_only p m m1 \<Longrightarrow> touches_only p m1 m2 \<Longrightarrow> touches_only p m m2"
  by (auto simp: touches_only_def keeps_others_def)

lemma leaves_no_trace_trans:
  "leaves_no_trace p m m1 \<Longrightarrow> leaves_no_trace p m1 m2 \<Longrightarrow> leaves_no_trace p m m2"
  by (auto simp: leaves_no_trace_def)

lemma touches_only_put: "touches_only p m (put_file p e m)"
  by (auto simp: touches_only_def keeps_others_def put_file_def hm_update_lookup)

lemma touches_only_drop: "touches_only p m (drop_file p m)"
  by (auto simp: touches_only_def keeps_others_def drop_file_def hm_delete_lookup)

lemma temporary_not_plain [simp]: "\<not> plain_name (temporary_name stem r)"
  by (simp add: plain_name_def temporary_name_def starts_with_def str_def)

text \<open>The allocation of a temporary file adds one empty file under a new dotted name.\<close>

lemma create_temporary_result:
  assumes "create_temporary k stem m = (m', r)"
  shows "(\<exists>e. r = Inl e \<and> same_files m m')
     \<or> (\<exists>t m1. r = Inr t \<and> \<not> plain_name t \<and> map_of (ledger_dir m) t = None \<and> same_files m m1
            \<and> m' = put_file t (Regular []) m1)"
  using assms
proof (induction k stem m rule: create_temporary.induct)
  case (2 k stem m)
  obtain m1 x where r: "next_random 8 m = (m1, x)" by (cases "next_random 8 m")
  show ?case
  proof (cases x)
    case None
    with 2 r show ?thesis by (auto dest: same_dests)
  next
    case (Some random)
    let ?t = "temporary_name stem random"
    obtain m2 ok where io: "io_try m1 = (m2, ok)" by (cases "io_try m1")
    have same: "same_files m m2"
      using next_random_same [OF r] io_try_same [OF io] by (simp add: same_files_def)
    show ?thesis
    proof (cases "ok \<and> map_of (ledger_dir m2) ?t \<noteq> None")
      case True
      then have "create_temporary k stem m2 = (m', r)" using 2 r io Some by (simp add: Let_def)
      from "2.IH" [OF r [symmetric] Some refl io [symmetric] _ _ this] True same show ?thesis
        by (fastforce simp: same_files_def)
    next
      case False
      with 2 r io Some same show ?thesis
        by (fastforce simp: Let_def same_files_def split: if_splits)
    qed
  qed
qed auto

lemma write_synced_lookup:
  assumes "write_synced n bs m = (m', ok)"
  shows "\<exists>c. map_of (ledger_dir m') = (map_of (ledger_dir m))(n \<mapsto> Regular c) \<and> (ok \<longrightarrow> c = bs)"
    and "world m' = world m" and "quarantine_dir m' = quarantine_dir m"
    and "hm_wf (ledger_dir m) \<Longrightarrow> hm_wf (ledger_dir m')"
  using assms
  by (auto simp: write_synced_def put_file_def hm_update_lookup same_files_def
      split: prod.splits io_outcome.splits dest!: same_dests)

lemma replace_file_result:
  assumes "replace_file t p m = (m', ok)" and "map_of (ledger_dir m) t = Some e"
  shows "\<not> ok \<Longrightarrow> same_files m m'"
    and "ok \<Longrightarrow> map_of (ledger_dir m') = (map_of (ledger_dir m))(t := None, p \<mapsto> e)"
    and "world m' = world m" and "quarantine_dir m' = quarantine_dir m"
    and "hm_wf (ledger_dir m) \<Longrightarrow> hm_wf (ledger_dir m')"
  using assms
  by (auto simp: replace_file_def put_file_def drop_file_def hm_update_lookup hm_delete_lookup same_files_def
      split: prod.splits if_splits option.splits dest!: same_dests)

text \<open>Whatever fails, the document is the old one or the new one, and the latter if the write succeeds.\<close>

lemma write_temporary_result:
  assumes w: "write_temporary p t bs m = (m', r)" and "p \<noteq> t"
  shows "world m' = world m" "quarantine_dir m' = quarantine_dir m"
    "hm_wf (ledger_dir m) \<Longrightarrow> hm_wf (ledger_dir m')"
    "n \<noteq> p \<Longrightarrow> n \<noteq> t \<Longrightarrow> map_of (ledger_dir m') n = map_of (ledger_dir m) n"
    "map_of (ledger_dir m') p \<in> {map_of (ledger_dir m) p, Some (Regular bs)}"
    "r = Inr u \<Longrightarrow> map_of (ledger_dir m') p = Some (Regular bs) \<and> map_of (ledger_dir m') t = None"
proof -
  obtain m1 ok where m1: "write_synced t bs m = (m1, ok)" by (cases "write_synced t bs m")
  obtain c where c: "map_of (ledger_dir m1) = (map_of (ledger_dir m))(t \<mapsto> Regular c)" "ok \<longrightarrow> c = bs"
    using write_synced_lookup(1) [OF m1] by blast
  note l1 = write_synced_lookup(2-4) [OF m1] c
  obtain m2 ok2 where m2: "replace_file t p m1 = (m2, ok2)" by (cases "replace_file t p m1")
  have "map_of (ledger_dir m1) t = Some (Regular c)" using c by simp
  note l2 = replace_file_result [OF m2 this]
  have *: "ok = False \<and> m' = m1 \<and> r = Err IoFailed \<or> ok \<and> ok2 = False \<and> m' = m2 \<and> r = Err IoFailed
      \<or> ok \<and> ok2 \<and> sync_parent m2 = (m', r)"
    using w m1 m2 by (auto simp: write_temporary_def split: if_splits)
  have "ok \<and> ok2 \<Longrightarrow> same_files m2 m'" using * sync_parent_same by blast
  note facts = * l1 l2 this \<open>p \<noteq> t\<close>
  show "world m' = world m" using facts by (auto simp: same_files_def)
  show "quarantine_dir m' = quarantine_dir m" using facts by (auto simp: same_files_def)
  show "hm_wf (ledger_dir m')" if "hm_wf (ledger_dir m)" using facts that by (auto simp: same_files_def)
  show "map_of (ledger_dir m') n = map_of (ledger_dir m) n" if "n \<noteq> p" "n \<noteq> t"
    using facts that by (auto simp: same_files_def)
  show "map_of (ledger_dir m') p \<in> {map_of (ledger_dir m) p, Some (Regular bs)}"
    using facts by (auto simp: same_files_def)
  show "map_of (ledger_dir m') p = Some (Regular bs) \<and> map_of (ledger_dir m') t = None" if "r = Inr u"
    using facts that by (auto simp: same_files_def)
qed

text \<open>The document \<open>d\<close> is on disk under the name \<open>n\<close>.\<close>

definition doc_at :: "ledger_json \<Rightarrow> 'w machine \<Rightarrow> bytes \<Rightarrow> LedgerDocument \<Rightarrow> bool" where
  "doc_at lib m n d \<longleftrightarrow> (\<exists>b. to_vec_pretty lib d = Some b \<and> map_of (ledger_dir m) n = Some (Regular b))"

lemma doc_at_frame: "keeps_others p m m' \<Longrightarrow> n \<noteq> p \<Longrightarrow> doc_at lib m n d \<Longrightarrow> doc_at lib m' n d"
  by (auto simp: keeps_others_def doc_at_def)

lemma doc_at_same: "same_files m m' \<Longrightarrow> doc_at lib m' n d = doc_at lib m n d"
  by (simp add: same_files_def doc_at_def)

lemma touches_only_temporary:
  assumes "map_of (ledger_dir m) t = None" "\<not> plain_name t" "world m' = world m" "quarantine_dir m' = quarantine_dir m"
    "hm_wf (ledger_dir m) \<Longrightarrow> hm_wf (ledger_dir m')"
    "\<And>n. n \<noteq> p \<Longrightarrow> n \<noteq> t \<Longrightarrow> map_of (ledger_dir m') n = map_of (ledger_dir m) n"
  shows "touches_only p m m'"
  using assms by (simp add: touches_only_def keeps_others_def) (metis option.distinct(1))

lemma write_value_result:
  assumes w: "write_value p enc m = (m', r)" and p: "plain_name p"
  shows "touches_only p m m'"
    and "map_of (ledger_dir m') p = map_of (ledger_dir m) p
         \<or> (\<exists>bs. enc = Some bs \<and> map_of (ledger_dir m') p = Some (Regular bs))"
    and "r = Inr u \<Longrightarrow> leaves_no_trace p m m' \<and> (\<exists>bs. enc = Some bs \<and> map_of (ledger_dir m') p = Some (Regular bs))"
proof -
  obtain m1 ok where m1: "io_try m = (m1, ok)" by (cases "io_try m")
  obtain m2 r2 where m2: "create_temporary 16 (file_stem p) m1 = (m2, r2)"
    by (cases "create_temporary 16 (file_stem p) m1")
  note s1 = io_try_same [OF m1]
  consider (early) e where "m' = m1" "r = Inl e" | (no_tmp) e where "m' = m2" "r = Inl e" "r2 = Inl e"
    | (tmp) bs t m3 r3 where "enc = Some bs" "r2 = Inr t" "write_temporary p t bs m2 = (m3, r3)"
        "m' = (if is_ok r3 then m3 else remove_ignored t m3)" "is_ok r \<longleftrightarrow> is_ok r3"
    using w m1 m2
    by (cases enc; cases r2; cases "write_temporary p (projr r2) (the enc) m2"; cases "snd (write_temporary p (projr r2) (the enc) m2)")
      (auto simp: write_value_def split: if_splits)
  then have "touches_only p m m' \<and> (map_of (ledger_dir m') p = map_of (ledger_dir m) p
         \<or> (\<exists>bs. enc = Some bs \<and> map_of (ledger_dir m') p = Some (Regular bs)))
     \<and> (is_ok r \<longrightarrow> leaves_no_trace p m m' \<and> (\<exists>bs. enc = Some bs \<and> map_of (ledger_dir m') p = Some (Regular bs)))"
  proof cases
    case early
    with s1 show ?thesis by (simp add: touches_only_same) (simp add: same_files_def)
  next
    case no_tmp
    with s1 create_temporary_result [OF m2] have "same_files m m'" by (auto simp: same_files_def)
    with no_tmp show ?thesis by (simp add: touches_only_same) (simp add: same_files_def)
  next
    case tmp
    obtain m1' where t: "\<not> plain_name t" "map_of (ledger_dir m1) t = None" "same_files m1 m1'"
        "m2 = put_file t (Regular []) m1'"
      using create_temporary_result [OF m2] tmp by auto
    have pt: "p \<noteq> t" using p t by auto
    note l = write_temporary_result [OF tmp(3) pt]
    have l2: "map_of (ledger_dir m2) = (map_of (ledger_dir m))(t \<mapsto> Regular [])" "world m2 = world m"
      "quarantine_dir m2 = quarantine_dir m" "hm_wf (ledger_dir m) \<Longrightarrow> hm_wf (ledger_dir m2)"
      "map_of (ledger_dir m) t = None"
      using s1 t by (auto simp: same_files_def put_file_def hm_update_lookup)
    have l3: "world m' = world m3" "quarantine_dir m' = quarantine_dir m3"
      "hm_wf (ledger_dir m3) \<Longrightarrow> hm_wf (ledger_dir m')"
      "\<And>n. n \<noteq> t \<Longrightarrow> map_of (ledger_dir m') n = map_of (ledger_dir m3) n"
      using tmp(4) by (auto simp: remove_ignored_def drop_file_def hm_delete_lookup same_files_def
          split: prod.splits if_splits dest!: io_try_same)
    have "touches_only p m m'"
      by (rule touches_only_temporary [of m t]) (use l l2 l3 t in auto)
    moreover have "map_of (ledger_dir m') p \<in> {map_of (ledger_dir m) p, Some (Regular bs)}"
      using l(5) l2 l3 pt by auto
    moreover have "leaves_no_trace p m m' \<and> map_of (ledger_dir m') p = Some (Regular bs)" if ok: "is_ok r"
    proof -
      obtain u where u: "r3 = Inr u" using ok tmp(5) by (cases r3) auto
      have "m' = m3" using tmp(4) u by simp
      with l(4) l(6) [OF u] l2 show ?thesis
        by (auto simp: leaves_no_trace_def) (metis fun_upd_apply)
    qed
    ultimately show ?thesis using tmp(1) by auto
  qed
  then show "touches_only p m m'"
    and "map_of (ledger_dir m') p = map_of (ledger_dir m) p
         \<or> (\<exists>bs. enc = Some bs \<and> map_of (ledger_dir m') p = Some (Regular bs))"
    and "r = Inr u \<Longrightarrow> leaves_no_trace p m m' \<and> (\<exists>bs. enc = Some bs \<and> map_of (ledger_dir m') p = Some (Regular bs))"
    by auto
qed

lemma Inl_eq_isl: "Inl e = r \<Longrightarrow> isl r"
  by auto

lemma atomic_write_result:
  assumes w: "atomic_write lib p d m = (m', r)" and p: "plain_name p"
  shows "touches_only p m m'"
    and "map_of (ledger_dir m') p = map_of (ledger_dir m) p \<or> doc_at lib m' p d"
    and "r = Inr u \<Longrightarrow> leaves_no_trace p m m' \<and> doc_at lib m' p d \<and> ledger_valid lib d"
proof -
  consider "isl r" "m' = m" | "ledger_valid lib d" "write_value p (to_vec_pretty lib d) m = (m', r)"
    using w by (auto simp: atomic_write_def split: sum.splits dest: Inl_eq_isl)
  then have "touches_only p m m' \<and> (map_of (ledger_dir m') p = map_of (ledger_dir m) p \<or> doc_at lib m' p d)
      \<and> (r = Inr u \<longrightarrow> leaves_no_trace p m m' \<and> doc_at lib m' p d \<and> ledger_valid lib d)"
  proof cases
    case 1
    then show ?thesis by (auto simp: touches_only_same)
  next
    case 2
    with write_value_result [OF 2(2) p] show ?thesis by (auto simp: doc_at_def)
  qed
  then show "touches_only p m m'"
    and "map_of (ledger_dir m') p = map_of (ledger_dir m) p \<or> doc_at lib m' p d"
    and "r = Inr u \<Longrightarrow> leaves_no_trace p m m' \<and> doc_at lib m' p d \<and> ledger_valid lib d"
    by auto
qed

lemma remove_ignored_frame:
  "touches_only p m (remove_ignored p m)" "leaves_no_trace p m (remove_ignored p m)"
  by (auto simp: remove_ignored_def touches_only_def keeps_others_def leaves_no_trace_def drop_file_def hm_delete_lookup
      same_files_def split: prod.splits dest!: io_try_same)

lemma write_synced_frame:
  assumes "write_synced p bs m = (m', ok)"
  shows "touches_only p m m'" "leaves_no_trace p m m'"
  using write_synced_lookup [OF assms] by (auto simp: touches_only_def keeps_others_def leaves_no_trace_def)

lemma atomic_create_result:
  assumes "atomic_create lib p d m = (m', r)"
  shows "touches_only p m m'"
    and "leaves_no_trace p m m'"
    and "map_of (ledger_dir m) p \<noteq> None \<Longrightarrow> map_of (ledger_dir m') p = map_of (ledger_dir m) p"
    and "r = Inr u \<Longrightarrow> doc_at lib m' p d \<and> ledger_valid lib d \<and> map_of (ledger_dir m) p = None"
proof -
  obtain m1 ok1 where m1: "io_try m = (m1, ok1)" by (cases "io_try m")
  obtain m2 ok2 where m2: "io_try m1 = (m2, ok2)" by (cases "io_try m1")
  obtain bs where bs: "bs = the (to_vec_pretty lib d)" by simp
  let ?m2 = "put_file p (Regular []) m2"
  obtain m3 ok3 where m3: "write_synced p bs ?m2 = (m3, ok3)" by (cases "write_synced p bs ?m2")
  note same = io_try_same [OF m1] io_try_same [OF m2]
  consider (early) "isl r" "same_files m m'"
    | (torn) "isl r" "m' = remove_ignored p m3" "map_of (ledger_dir m2) p = None"
    | (written) "ok3" "sync_parent m3 = (m', r)" "map_of (ledger_dir m2) p = None" "ledger_valid lib d"
        "to_vec_pretty lib d = Some bs"
    using assms m1 m2 m3 same bs
    by (cases "to_vec_pretty lib d") (auto simp: atomic_create_def same_files_def split: if_splits sum.splits
        dest: Inl_eq_isl)
  then have "touches_only p m m' \<and> leaves_no_trace p m m'
     \<and> (map_of (ledger_dir m) p \<noteq> None \<longrightarrow> map_of (ledger_dir m') p = map_of (ledger_dir m) p)
     \<and> (r = Inr u \<longrightarrow> doc_at lib m' p d \<and> ledger_valid lib d \<and> map_of (ledger_dir m) p = None)"
  proof cases
    case early
    then show ?thesis by (auto simp: touches_only_same leaves_no_trace_same same_files_def)
  next
    case torn
    with same write_synced_frame [OF m3] remove_ignored_frame [of p m3] show ?thesis
      by (auto simp: touches_only_def keeps_others_def leaves_no_trace_def same_files_def put_file_def hm_update_lookup)
  next
    case written
    with same write_synced_frame [OF m3] write_synced_lookup(1) [OF m3] sync_parent_same [OF written(2)]
    show ?thesis
      by (auto simp: touches_only_def keeps_others_def leaves_no_trace_def same_files_def put_file_def hm_update_lookup doc_at_def)
  qed
  then show "touches_only p m m'" "leaves_no_trace p m m'"
    "map_of (ledger_dir m) p \<noteq> None \<Longrightarrow> map_of (ledger_dir m') p = map_of (ledger_dir m) p"
    "r = Inr u \<Longrightarrow> doc_at lib m' p d \<and> ledger_valid lib d \<and> map_of (ledger_dir m) p = None"
    by auto
qed

lemma remove_if_exists_result:
  assumes "remove_if_exists p m = (m', r)"
  shows "touches_only p m m'" and "leaves_no_trace p m m'"
    and "map_of (ledger_dir m') p = map_of (ledger_dir m) p \<or> map_of (ledger_dir m') p = None"
    and "r = Inr b \<Longrightarrow> map_of (ledger_dir m') p = None"
  using assms
  by (auto simp: remove_if_exists_def touches_only_def keeps_others_def leaves_no_trace_def drop_file_def hm_delete_lookup
      same_files_def sync_parent_def split: prod.splits if_splits option.splits dir_entry.splits dest!: io_try_same)

end
