(* ===== verification/Ledger_Recovery.thy ===== *)
theory Ledger_Recovery
  imports Ledger_Atomic
begin

text \<open>
  The life of a ledger document. \<^verbatim>\<open>resource/transaction.rs\<close> reserves a document for a sandbox and writes
  an intent into it before a resource is created; \<^verbatim>\<open>ledger/recovery.rs\<close> removes, after a crash, the
  resources of a document one by one from the last to the first and records each removal before the next.
  What removes a resource is a parameter with the contract its trait documents.
\<close>

section \<open>Recovery of a document\<close>

datatype RecoveryProof = ProofRemoved | AlreadyAbsent | IdentityMismatch | TemporarilyUnavailable

datatype LedgerOutcome = OutcomeRemoved | OutcomeQuarantined | RetryRequired

text \<open>The trait \<^verbatim>\<open>ExternalResourceCleaner\<close>, on the rest of the host.\<close>

type_synonym 'w cleaner =
  "bytes \<Rightarrow> LedgerDocument \<Rightarrow> ResourceRecord \<Rightarrow> 'w \<Rightarrow> 'w \<times> (RecoveryProof, ledger_error) result"

text \<open>The trait \<^verbatim>\<open>RecoveryStore\<close>, and its implementation by atomic writes.\<close>

record 'w RecoveryStore =
  rs_persist :: "bytes \<Rightarrow> LedgerDocument \<Rightarrow> 'w machine \<Rightarrow> 'w machine \<times> (unit, ledger_error) result"
  rs_remove :: "bytes \<Rightarrow> 'w machine \<Rightarrow> 'w machine \<times> (unit, ledger_error) result"

definition durable_remove :: "bytes \<Rightarrow> 'w machine \<Rightarrow> 'w machine \<times> (unit, ledger_error) result" where
  "durable_remove p m = (case remove_if_exists p m of (m, r) \<Rightarrow> (m, and_then r (\<lambda>_. Ok ())))"

definition durable_store :: "ledger_json \<Rightarrow> 'w RecoveryStore" where
  "durable_store lib = \<lparr>rs_persist = atomic_write lib, rs_remove = durable_remove\<rparr>"

text \<open>\<^verbatim>\<open>file_stem().and_then(to_str).unwrap_or_default()\<close>.\<close>

definition ledger_id :: "bytes \<Rightarrow> bytes" where
  "ledger_id p = (if utf8_valid (file_stem p) then file_stem p else [])"

definition touch_document :: "LedgerDocument \<Rightarrow> 'w machine \<Rightarrow> 'w machine \<times> (LedgerDocument, ledger_error) result" where
  "touch_document d m =
     (case now_unix_ms m of
        (m, Inl e) \<Rightarrow> (m, Err e)
      | (m, Inr now) \<Rightarrow> (m, Ok (d\<lparr>updated_unix_ms := max (updated_unix_ms d) now\<rparr>)))"

text \<open>\<^verbatim>\<open>touch(&mut document)?; store.persist(path, &document)?\<close>.\<close>

definition touch_and_store ::
    "'w RecoveryStore \<Rightarrow> bytes \<Rightarrow> LedgerDocument \<Rightarrow> 'w machine \<Rightarrow> 'w machine \<times> (LedgerDocument, ledger_error) result" where
  "touch_and_store S p d m =
     (case touch_document d m of
        (m, Inl e) \<Rightarrow> (m, Err e)
      | (m, Inr d) \<Rightarrow> (case rs_persist S p d m of (m, r) \<Rightarrow> (m, and_then r (\<lambda>_. Ok d))))"

definition call_cleaner ::
    "'w cleaner \<Rightarrow> bytes \<Rightarrow> LedgerDocument \<Rightarrow> ResourceRecord \<Rightarrow> 'w machine \<Rightarrow> 'w machine \<times> (RecoveryProof, ledger_error) result" where
  "call_cleaner C stem d r m = (case C stem d r (world m) of (w, res) \<Rightarrow> (m\<lparr>world := w\<rparr>, res))"

lemma touch_and_store_resources:
  "touch_and_store S p d m = (m', Inr d') \<Longrightarrow> doc_resources d' = doc_resources d"
  by (auto simp: touch_and_store_def touch_document_def and_then_Ok_iff split: prod.splits sum.splits)

function recover_resources ::
    "'w cleaner \<Rightarrow> 'w RecoveryStore \<Rightarrow> bytes \<Rightarrow> LedgerDocument \<Rightarrow> 'w machine \<Rightarrow> 'w machine \<times> (LedgerOutcome, ledger_error) result" where
  "recover_resources C S p d m =
     (if doc_resources d = [] then
        (case rs_remove S p m of (m, r) \<Rightarrow> (m, and_then r (\<lambda>_. Ok OutcomeRemoved)))
      else
        (case call_cleaner C (ledger_id p) d (last (doc_resources d)) m of
           (m, Inl e) \<Rightarrow> (m, Err e)
         | (m, Inr TemporarilyUnavailable) \<Rightarrow> (m, Ok RetryRequired)
         | (m, Inr IdentityMismatch) \<Rightarrow>
             (case touch_and_store S p (d\<lparr>doc_state := StateQuarantined\<rparr>) m of
                (m, r) \<Rightarrow> (m, and_then r (\<lambda>_. Ok OutcomeQuarantined)))
         | (m, Inr _) \<Rightarrow>
             (case touch_and_store S p (d\<lparr>doc_resources := butlast (doc_resources d)\<rparr>) m of
                (m, Inl e) \<Rightarrow> (m, Err e)
              | (m, Inr d) \<Rightarrow> recover_resources C S p d m)))"
  by pat_completeness auto

termination
  by (relation "measure (\<lambda>(C, S, p, d, m). length (doc_resources d))")
    (auto dest: touch_and_store_resources [OF sym])

declare recover_resources.simps [simp del]

definition recover_with_store ::
    "ledger_json \<Rightarrow> 'w cleaner \<Rightarrow> 'w RecoveryStore \<Rightarrow> bytes \<Rightarrow> LedgerDocument \<Rightarrow> 'w machine \<Rightarrow> 'w machine \<times> (LedgerOutcome, ledger_error) result" where
  "recover_with_store lib C S p d m =
     (case ledger_validate lib d of
        Inl e \<Rightarrow> (m, Err e)
      | Inr _ \<Rightarrow>
          if doc_state d = StateQuarantined then (m, Ok OutcomeQuarantined)
          else
            (case touch_and_store S p (d\<lparr>doc_state := Cleaning\<rparr>) m of
               (m, Inl e) \<Rightarrow> (m, Err e)
             | (m, Inr d) \<Rightarrow> recover_resources C S p d m))"

definition recover_document ::
    "ledger_json \<Rightarrow> 'w cleaner \<Rightarrow> bytes \<Rightarrow> LedgerDocument \<Rightarrow> 'w machine \<Rightarrow> 'w machine \<times> (LedgerOutcome, ledger_error) result" where
  "recover_document lib C p d m = recover_with_store lib C (durable_store lib) p d m"

section \<open>No resource is forgotten\<close>

text \<open>
  The contract of a cleaner: nothing comes into being while it runs, and when it reports a resource as
  removed or absent then the resource does not exist. \<open>present\<close> gives what exists on the host, by the
  ledger it belongs to and the key of its record.
\<close>

definition cleaner_exact :: "('w \<Rightarrow> (bytes \<times> bytes) set) \<Rightarrow> 'w cleaner \<Rightarrow> bool" where
  "cleaner_exact present C \<longleftrightarrow>
     (\<forall>stem d r w w' res. C stem d r w = (w', res) \<longrightarrow>
        present w' \<subseteq> present w
        \<and> (res = Ok ProofRemoved \<or> res = Ok AlreadyAbsent \<longrightarrow> (stem, stable_key r) \<notin> present w'))"

text \<open>
  What a recovery may do to the machine: of the resources of the document, those that still exist are in
  the document that is on disk now.
\<close>

definition recovery_sound ::
    "ledger_json \<Rightarrow> ('w \<Rightarrow> (bytes \<times> bytes) set) \<Rightarrow> bytes \<Rightarrow> LedgerDocument \<Rightarrow> 'w machine \<Rightarrow> 'w machine
      \<Rightarrow> (LedgerOutcome, ledger_error) result \<Rightarrow> bool" where
  "recovery_sound lib present p d m m' r \<longleftrightarrow>
     keeps_others p m m' \<and> present (world m') \<subseteq> present (world m)
     \<and> (\<forall>k \<in> doc_keys d. (ledger_id p, k) \<in> present (world m') \<longrightarrow> (\<exists>d'. doc_at lib m' p d' \<and> k \<in> doc_keys d'))
     \<and> (is_ok r \<longrightarrow> leaves_no_trace p m m')
     \<and> (r = Ok OutcomeRemoved \<longrightarrow> map_of (ledger_dir m') p = None)"

lemma call_cleaner_result:
  assumes "call_cleaner C stem d r m = (m', res)" and "cleaner_exact present C"
  shows "ledger_dir m' = ledger_dir m" "quarantine_dir m' = quarantine_dir m"
    "present (world m') \<subseteq> present (world m)"
    "res = Inr ProofRemoved \<or> res = Inr AlreadyAbsent \<Longrightarrow> (stem, stable_key r) \<notin> present (world m')"
  using assms by (auto simp: call_cleaner_def cleaner_exact_def split: prod.splits) blast+

text \<open>What the recovery relies on: a store replaces or removes one document, or leaves it as it was.\<close>

locale recovery_store =
  fixes lib :: ledger_json and S :: "'w RecoveryStore"
  assumes persist_keeps: "plain_name p \<Longrightarrow> rs_persist S p d m = (m', r) \<Longrightarrow> touches_only p m m'"
    and persist_either: "plain_name p \<Longrightarrow> rs_persist S p d m = (m', r)
      \<Longrightarrow> map_of (ledger_dir m') p = map_of (ledger_dir m) p \<or> doc_at lib m' p d"
    and persist_ok: "plain_name p \<Longrightarrow> rs_persist S p d m = (m', Inr u)
      \<Longrightarrow> leaves_no_trace p m m' \<and> doc_at lib m' p d"
    and remove_keeps: "plain_name p \<Longrightarrow> rs_remove S p m = (m', r)
      \<Longrightarrow> touches_only p m m' \<and> leaves_no_trace p m m'"
    and remove_ok: "rs_remove S p m = (m', Inr u) \<Longrightarrow> map_of (ledger_dir m') p = None"
begin

lemma touch_and_store_result:
  assumes "touch_and_store S p d m = (m', r)" and p: "plain_name p"
  shows "touches_only p m m'"
    and "map_of (ledger_dir m') p = map_of (ledger_dir m) p
      \<or> (\<exists>d'. doc_at lib m' p d' \<and> doc_resources d' = doc_resources d)"
    and "r = Inr d' \<Longrightarrow> leaves_no_trace p m m' \<and> doc_at lib m' p d' \<and> doc_resources d' = doc_resources d"
proof -
  obtain m1 t where t: "touch_document d m = (m1, t)" by (cases "touch_document d m")
  have s: "same_files m m1"
    using t by (auto simp: touch_document_def dest: same_dests split: prod.splits sum.splits)
  have "touches_only p m m' \<and> (map_of (ledger_dir m') p = map_of (ledger_dir m) p
      \<or> (\<exists>d'. doc_at lib m' p d' \<and> doc_resources d' = doc_resources d))
    \<and> (r = Inr d' \<longrightarrow> leaves_no_trace p m m' \<and> doc_at lib m' p d' \<and> doc_resources d' = doc_resources d)"
  proof (cases t)
    case (Inl e)
    with assms t s show ?thesis
      by (auto simp: touch_and_store_def touches_only_same leaves_no_trace_same) (simp add: same_files_def)
  next
    case (Inr d1)
    obtain m2 r2 where m2: "rs_persist S p d1 m1 = (m2, r2)" by (cases "rs_persist S p d1 m1")
    have r: "m' = m2" "r = and_then r2 (\<lambda>_. Ok d1)" and d1: "doc_resources d1 = doc_resources d"
      using assms t Inr m2 by (auto simp: touch_and_store_def touch_document_def split: prod.splits sum.splits)
    have "touches_only p m m'"
      using touches_only_same [OF s] persist_keeps [OF p m2] r(1) touches_only_trans by blast
    moreover have "map_of (ledger_dir m') p = map_of (ledger_dir m) p \<or> doc_at lib m' p d1"
      using persist_either [OF p m2] s r(1) by (auto simp: same_files_def)
    moreover have "leaves_no_trace p m m' \<and> doc_at lib m' p d1" if ok: "r2 = Inr ()"
      using persist_ok [OF p] m2 ok leaves_no_trace_same [OF s] leaves_no_trace_trans r(1) by blast
    ultimately show ?thesis using r(2) d1 by (auto simp: and_then_Ok_iff)
  qed
  then show "touches_only p m m'"
    and "map_of (ledger_dir m') p = map_of (ledger_dir m) p
      \<or> (\<exists>d'. doc_at lib m' p d' \<and> doc_resources d' = doc_resources d)"
    and "r = Inr d' \<Longrightarrow> leaves_no_trace p m m' \<and> doc_at lib m' p d' \<and> doc_resources d' = doc_resources d"
    by auto
qed

lemma doc_keys_butlast:
  assumes "doc_resources d \<noteq> []" and "doc_resources d' = butlast (doc_resources d)"
  shows "doc_keys d = insert (stable_key (last (doc_resources d))) (doc_keys d')"
proof -
  have "set (doc_resources d) = insert (last (doc_resources d)) (set (butlast (doc_resources d)))"
    using append_butlast_last_id [OF assms(1)] by (metis list.simps(15) rotate1.simps(2) set_rotate1)
  then show ?thesis using assms(2) by (simp add: doc_keys_def)
qed

text \<open>One checkpoint after a removal: a failed one leaves the old or the shortened document.\<close>

lemma checkpoint_covers:
  assumes exact: "cleaner_exact present C" and p: "plain_name p" and d: "doc_at lib m p d" "doc_resources d \<noteq> []"
    and c: "call_cleaner C (ledger_id p) d (last (doc_resources d)) m = (m1, Inr evidence)"
    and evidence: "evidence = ProofRemoved \<or> evidence = AlreadyAbsent"
    and t: "touch_and_store S p (d\<lparr>doc_resources := butlast (doc_resources d)\<rparr>) m1 = (m2, t)"
  shows "recovery_sound lib present p d m m2 (Err e)"
    and "t = Inr d' \<Longrightarrow> recovery_sound lib present p d' m2 m' r \<Longrightarrow> recovery_sound lib present p d m m' r"
proof -
  note cl = call_cleaner_result [OF c exact] and ts = touch_and_store_result [OF t p]
  have keeps: "keeps_others p m m2" using ts(1) cl by (simp add: touches_only_def keeps_others_def)
  have w: "world m2 = world m1" using ts(1) by (simp add: touches_only_def)
  have gone: "(ledger_id p, stable_key (last (doc_resources d))) \<notin> present (world m2)"
    using cl(4) evidence w by auto
  have "doc_at lib m2 p d \<or> (\<exists>d'. doc_at lib m2 p d' \<and> doc_resources d' = butlast (doc_resources d))"
    using ts(2) d(1) cl(1) by (auto simp: doc_at_def)
  with keeps gone cl(3) w doc_keys_butlast [OF d(2)] show "recovery_sound lib present p d m m2 (Err e)"
    by (auto simp: recovery_sound_def)
  assume "t = Inr d'" and r: "recovery_sound lib present p d' m2 m' r"
  with ts(3) have l: "leaves_no_trace p m m2" and "doc_resources d' = butlast (doc_resources d)"
    using cl(1) by (auto simp: leaves_no_trace_def)
  with doc_keys_butlast [OF d(2)] have "doc_keys d = insert (stable_key (last (doc_resources d))) (doc_keys d')"
    by simp
  with r gone cl(3) w l show "recovery_sound lib present p d m m' r"
    using keeps_others_trans [OF keeps] leaves_no_trace_trans [OF l] by (auto simp: recovery_sound_def)
qed

lemma recover_resources_sound:
  assumes exact: "cleaner_exact present C" and p: "plain_name p"
    and "recover_resources C S p d m = (m', r)" and "doc_at lib m p d"
  shows "recovery_sound lib present p d m m' r"
  using assms(3,4)
proof (induction "length (doc_resources d)" arbitrary: d m rule: less_induct)
  case less
  obtain m1 c where c: "call_cleaner C (ledger_id p) d (last (doc_resources d)) m = (m1, c)"
    by (cases "call_cleaner C (ledger_id p) d (last (doc_resources d)) m")
  note cl = call_cleaner_result [OF c exact]
  consider (empty) "doc_resources d = []"
    | (stopped) "doc_resources d \<noteq> []" "m' = m1" "r \<noteq> Ok OutcomeRemoved"
    | (mismatch) "doc_resources d \<noteq> []" "c = Inr IdentityMismatch"
    | (gone) evidence where "doc_resources d \<noteq> []" "c = Inr evidence" "evidence = ProofRemoved \<or> evidence = AlreadyAbsent"
    using less.prems(1) c
    by (subst (asm) recover_resources.simps) (auto split: if_splits sum.splits RecoveryProof.splits)
  then show ?case
  proof cases
    case empty
    obtain m2 r2 where m2: "rs_remove S p m = (m2, r2)" by (cases "rs_remove S p m")
    with less.prems(1) empty have "m' = m2" "r = and_then r2 (\<lambda>_. Ok OutcomeRemoved)"
      by (simp_all add: recover_resources.simps)
    with remove_keeps [OF p m2] remove_ok [of p m m2] m2 empty show ?thesis
      by (auto simp: recovery_sound_def doc_keys_def touches_only_def and_then_Ok_iff)
  next
    case stopped
    with cl less.prems(2) show ?thesis
      by (auto simp: recovery_sound_def keeps_others_def leaves_no_trace_def doc_at_def)
  next
    case mismatch
    obtain m2 t where t: "touch_and_store S p (d\<lparr>doc_state := StateQuarantined\<rparr>) m1 = (m2, t)"
      by (cases "touch_and_store S p (d\<lparr>doc_state := StateQuarantined\<rparr>) m1")
    note ts = touch_and_store_result [OF t p]
    have r: "m' = m2" "r = and_then t (\<lambda>_. Ok OutcomeQuarantined)"
      using less.prems(1) mismatch c t by (simp_all add: recover_resources.simps)
    have "\<exists>d'. doc_at lib m2 p d' \<and> doc_keys d' = doc_keys d"
      using ts(2) less.prems(2) cl(1) by (auto simp: doc_at_def doc_keys_def)
    with r ts cl show ?thesis
      by (auto simp: recovery_sound_def touches_only_def keeps_others_def leaves_no_trace_def and_then_Ok_iff
          split: sum.splits) (cases t; auto)+
  next
    case gone
    obtain m2 t where t: "touch_and_store S p (d\<lparr>doc_resources := butlast (doc_resources d)\<rparr>) m1 = (m2, t)"
      by (cases "touch_and_store S p (d\<lparr>doc_resources := butlast (doc_resources d)\<rparr>) m1")
    note covers = checkpoint_covers [OF exact p less.prems(2) gone(1) _ gone(3) t]
    show ?thesis
    proof (cases t)
      case (Inl e)
      then have "m' = m2" "r = Err e"
        using less.prems(1) gone c t by (auto simp: recover_resources.simps)
      then show ?thesis using covers(1) c gone(2) by simp
    next
      case (Inr d')
      then have "recover_resources C S p d' m2 = (m', r)"
        using less.prems(1) gone c t by (auto simp: recover_resources.simps [of C S p d])
      moreover have "doc_at lib m2 p d'" "length (doc_resources d') < length (doc_resources d)"
        using touch_and_store_result(3) [OF t p Inr] gone(1) by auto
      ultimately show ?thesis using less.hyps covers(2) Inr c gone(2) by simp
    qed
  qed
qed

lemma recover_with_store_sound:
  assumes exact: "cleaner_exact present C" and p: "plain_name p" and rec: "recover_with_store lib C S p d m = (m', r)"
  shows "keeps_others p m m'" and "present (world m') \<subseteq> present (world m)"
    and "k \<in> doc_keys d \<Longrightarrow> (ledger_id p, k) \<in> present (world m')
      \<Longrightarrow> map_of (ledger_dir m') p = map_of (ledger_dir m) p \<or> (\<exists>d'. doc_at lib m' p d' \<and> k \<in> doc_keys d')"
    and "is_ok r \<Longrightarrow> leaves_no_trace p m m'"
    and "r = Ok OutcomeRemoved \<Longrightarrow> map_of (ledger_dir m') p = None"
    and "r = Ok OutcomeRemoved \<Longrightarrow> k \<in> doc_keys d \<Longrightarrow> (ledger_id p, k) \<notin> present (world m')"
proof -
  obtain m1 t where t: "touch_and_store S p (d\<lparr>doc_state := Cleaning\<rparr>) m = (m1, t)"
    by (cases "touch_and_store S p (d\<lparr>doc_state := Cleaning\<rparr>) m")
  note ts = touch_and_store_result [OF t p]
  consider (early) "m' = m" "r \<noteq> Ok OutcomeRemoved" | (failed) e where "m' = m1" "r = Err e"
    | (running) d1 where "t = Inr d1" "recover_resources C S p d1 m1 = (m', r)"
    using rec t by (cases t) (auto simp: recover_with_store_def split: sum.splits if_splits)
  then have "keeps_others p m m' \<and> present (world m') \<subseteq> present (world m)
    \<and> (\<forall>k \<in> doc_keys d. (ledger_id p, k) \<in> present (world m')
        \<longrightarrow> map_of (ledger_dir m') p = map_of (ledger_dir m) p \<or> (\<exists>d'. doc_at lib m' p d' \<and> k \<in> doc_keys d'))
    \<and> (is_ok r \<longrightarrow> leaves_no_trace p m m')
    \<and> (r = Ok OutcomeRemoved \<longrightarrow> map_of (ledger_dir m') p = None
         \<and> (\<forall>k \<in> doc_keys d. (ledger_id p, k) \<notin> present (world m')))"
  proof cases
    case early
    then show ?thesis by (simp add: keeps_others_same leaves_no_trace_same)
  next
    case failed
    with ts(1,2) show ?thesis by (auto simp: touches_only_def doc_keys_def)
  next
    case running
    have d1: "leaves_no_trace p m m1" "doc_at lib m1 p d1" "doc_keys d1 = doc_keys d"
      using ts(3) [OF running(1)] by (simp_all add: doc_keys_def)
    from recover_resources_sound [OF exact p running(2) d1(2)] d1(1,3) ts(1) show ?thesis
      using keeps_others_trans [of p m m1 m'] leaves_no_trace_trans [of p m m1 m']
      by (auto simp: recovery_sound_def touches_only_def doc_at_def)
  qed
  then show "keeps_others p m m'" and "present (world m') \<subseteq> present (world m)"
    and "k \<in> doc_keys d \<Longrightarrow> (ledger_id p, k) \<in> present (world m')
      \<Longrightarrow> map_of (ledger_dir m') p = map_of (ledger_dir m) p \<or> (\<exists>d'. doc_at lib m' p d' \<and> k \<in> doc_keys d')"
    and "is_ok r \<Longrightarrow> leaves_no_trace p m m'"
    and "r = Ok OutcomeRemoved \<Longrightarrow> map_of (ledger_dir m') p = None"
    and "r = Ok OutcomeRemoved \<Longrightarrow> k \<in> doc_keys d \<Longrightarrow> (ledger_id p, k) \<notin> present (world m')"
    by auto
qed

end

interpretation durable: recovery_store lib "durable_store lib" for lib
proof
  fix p :: bytes and d and m m' :: "'w machine" and r and u :: unit
  assume p: "plain_name p"
  show "rs_persist (durable_store lib) p d m = (m', r) \<Longrightarrow> touches_only p m m'"
    using atomic_write_result(1) p by (simp add: durable_store_def)
  show "rs_persist (durable_store lib) p d m = (m', r)
      \<Longrightarrow> map_of (ledger_dir m') p = map_of (ledger_dir m) p \<or> doc_at lib m' p d"
    using atomic_write_result(2) p by (simp add: durable_store_def)
  show "rs_persist (durable_store lib) p d m = (m', Inr u) \<Longrightarrow> leaves_no_trace p m m' \<and> doc_at lib m' p d"
    by (auto simp: durable_store_def dest: atomic_write_result(3) [OF _ p refl])
  show "rs_remove (durable_store lib) p m = (m', r) \<Longrightarrow> touches_only p m m' \<and> leaves_no_trace p m m'"
    by (auto simp: durable_store_def durable_remove_def dest: remove_if_exists_result(1,2) split: prod.splits)
next
  fix p :: bytes and m m' :: "'w machine" and u
  show "rs_remove (durable_store lib) p m = (m', Inr u) \<Longrightarrow> map_of (ledger_dir m') p = None"
    by (auto simp: durable_store_def durable_remove_def and_then_Ok_iff dest: remove_if_exists_result(4)
        split: prod.splits)
qed

end
