(* ===== verification/Ledger_Transaction.thy ===== *)
theory Ledger_Transaction
  imports Ledger_Recovery
begin

text \<open>
  \<^verbatim>\<open>crates/lsb-seawork-service/src/resource/transaction.rs\<close>: the document of a running sandbox. The service
  keeps it in memory and writes it out after every change; a change stays in memory when the write fails.
\<close>

unbundle bit_operations_syntax

section \<open>Transactions\<close>

definition CARGO_PKG_VERSION :: bytes where "CARGO_PKG_VERSION = str ''0.7.0''"
definition ACCOUNT_PREFIX :: bytes where "ACCOUNT_PREFIX = str ''lsbsw_''"
definition SHARE_PREFIX :: bytes where "SHARE_PREFIX = str ''lsbsw-''"
definition OWNERSHIP_MARKER_PREFIX :: bytes where "OWNERSHIP_MARKER_PREFIX = str ''lsbsw:''"

record ResourceTransaction =
  tx_path :: bytes
  tx_document :: LedgerDocument

definition document_name :: "bytes \<Rightarrow> bytes" where
  "document_name sandbox_id = sandbox_id @ str ''.json''"

definition random_hex_id :: "'w machine \<Rightarrow> 'w machine \<times> (bytes, ledger_error) result" where
  "random_hex_id m =
     (case next_random 16 m of
        (m, None) \<Rightarrow> (m, Err RandomFailed)
      | (m, Some bs) \<Rightarrow> (m, Ok (handle_display bs)))"

definition owner_identity :: "ClientIdentityKey \<Rightarrow> OwnerIdentity" where
  "owner_identity owner =
     \<lparr>owner_user_sid = user_sid owner, owner_logon_sid = logon_sid owner,
      owner_luid = hex_u64_display (authentication_luid owner), owner_session_id = identity_session owner\<rparr>"

definition reserved_document :: "u64 \<Rightarrow> bytes \<Rightarrow> ClientIdentityKey \<Rightarrow> LedgerDocument" where
  "reserved_document now ownership owner =
     \<lparr>schema_version = LEDGER_SCHEMA_VERSION, bundle_version = CARGO_PKG_VERSION, ownership_id = ownership,
      doc_owner = owner_identity owner, doc_state = Reserved, doc_resources = [], created_unix_ms = now,
      updated_unix_ms = now\<rparr>"

definition reserve ::
    "ledger_json \<Rightarrow> bytes \<Rightarrow> ClientIdentityKey \<Rightarrow> 'w machine \<Rightarrow> 'w machine \<times> (ResourceTransaction, ledger_error) result" where
  "reserve lib sandbox_id owner m =
     (if \<not> is_hex_id sandbox_id then (m, Err BadSandboxId)
      else
        (case now_unix_ms m of
           (m, Inl e) \<Rightarrow> (m, Err e)
         | (m, Inr now) \<Rightarrow>
             (case random_hex_id m of
                (m, Inl e) \<Rightarrow> (m, Err e)
              | (m, Inr ownership) \<Rightarrow>
                  let tx = \<lparr>tx_path = document_name sandbox_id,
                            tx_document = reserved_document now ownership owner\<rparr> in
                  (case atomic_create lib (tx_path tx) (tx_document tx) m of
                     (m, r) \<Rightarrow> (m, and_then r (\<lambda>_. Ok tx))))))"

definition ownership_marker :: "ResourceTransaction \<Rightarrow> bytes" where
  "ownership_marker tx = OWNERSHIP_MARKER_PREFIX @ ownership_id (tx_document tx)"

type_synonym ('w, 'a) tx_op =
  "ResourceTransaction \<Rightarrow> 'w machine \<Rightarrow> ResourceTransaction \<times> 'w machine \<times> ('a, ledger_error) result"

definition touch_and_persist :: "ledger_json \<Rightarrow> ('w, unit) tx_op" where
  "touch_and_persist lib tx m =
     (case now_unix_ms m of
        (m, Inl e) \<Rightarrow> (tx, m, Err e)
      | (m, Inr now) \<Rightarrow>
          let tx = tx\<lparr>tx_document := (tx_document tx)\<lparr>updated_unix_ms := now\<rparr>\<rparr> in
          (tx, atomic_write lib (tx_path tx) (tx_document tx) m))"

definition set_resources :: "ResourceRecord list \<Rightarrow> ResourceTransaction \<Rightarrow> ResourceTransaction" where
  "set_resources rs tx = tx\<lparr>tx_document := (tx_document tx)\<lparr>doc_resources := rs\<rparr>\<rparr>"

definition set_state :: "ledger_json \<Rightarrow> LifecycleState \<Rightarrow> ('w, unit) tx_op" where
  "set_state lib st tx m =
     touch_and_persist lib (tx\<lparr>tx_document := (tx_document tx)\<lparr>doc_state := st\<rparr>\<rparr>) m"

definition intent :: "ledger_json \<Rightarrow> ResourceRecord \<Rightarrow> ('w, nat) tx_op" where
  "intent lib resource tx m =
     (let tx = set_resources (doc_resources (tx_document tx) @ [set_committed False resource]) tx in
      case touch_and_persist lib tx m of
        (tx, m, r) \<Rightarrow> (tx, m, and_then r (\<lambda>_. Ok (length (doc_resources (tx_document tx)) - 1))))"

definition commit :: "ledger_json \<Rightarrow> nat \<Rightarrow> ('w, unit) tx_op" where
  "commit lib index tx m =
     (let rs = doc_resources (tx_document tx) in
      if index < length rs
      then touch_and_persist lib (set_resources (rs[index := set_committed True (rs ! index)]) tx) m
      else (tx, m, Err IndexOutOfRange))"

definition replace_and_commit :: "ledger_json \<Rightarrow> nat \<Rightarrow> ResourceRecord \<Rightarrow> ('w, unit) tx_op" where
  "replace_and_commit lib index resource tx m =
     (let rs = doc_resources (tx_document tx) in
      if index < length rs
      then touch_and_persist lib (set_resources (rs[index := set_committed True resource]) tx) m
      else (tx, m, Err IndexOutOfRange))"

definition finish :: "ledger_json \<Rightarrow> ('w, unit) tx_op" where
  "finish lib tx m =
     (case touch_and_persist lib (tx\<lparr>tx_document := (tx_document tx)\<lparr>doc_state := Cleaning\<rparr>\<rparr>) m of
        (tx, m, Inl e) \<Rightarrow> (tx, m, Err e)
      | (tx, m, Inr _) \<Rightarrow>
          (case touch_and_persist lib (set_resources [] tx) m of
             (tx, m, Inl e) \<Rightarrow> (tx, m, Err e)
           | (tx, m, Inr _) \<Rightarrow> (tx, durable_remove (tx_path tx) m)))"

definition require_staging_identity :: "bytes \<Rightarrow> bytes \<Rightarrow> ResourceTransaction \<Rightarrow> (unit, ledger_error) result" where
  "require_staging_identity relative_path file_id tx =
     ensure (length (filter (\<lambda>r. case r of
                StagingRoot expected_path expected_id c \<Rightarrow>
                  c \<and> expected_path = relative_path \<and> expected_id = file_id
              | _ \<Rightarrow> False) (doc_resources (tx_document tx))) = 1) IdentityUnproven"

text \<open>What a change of the document in memory does to the one on disk.\<close>

lemma touch_and_persist_result:
  assumes "touch_and_persist lib tx m = (tx', m', r)" and p: "plain_name (tx_path tx)"
  shows "tx_path tx' = tx_path tx" "doc_resources (tx_document tx') = doc_resources (tx_document tx)"
    and "touches_only (tx_path tx) m m'"
    and "map_of (ledger_dir m') (tx_path tx) = map_of (ledger_dir m) (tx_path tx)
      \<or> doc_at lib m' (tx_path tx) (tx_document tx')"
    and "is_ok r \<Longrightarrow> doc_at lib m' (tx_path tx) (tx_document tx')"
proof -
  obtain m1 now where m1: "now_unix_ms m = (m1, now)" by (cases "now_unix_ms m")
  note same = now_unix_ms_same [OF m1]
  have "tx_path tx' = tx_path tx \<and> doc_resources (tx_document tx') = doc_resources (tx_document tx)
    \<and> touches_only (tx_path tx) m m'
    \<and> (map_of (ledger_dir m') (tx_path tx) = map_of (ledger_dir m) (tx_path tx)
       \<or> doc_at lib m' (tx_path tx) (tx_document tx'))
    \<and> (is_ok r \<longrightarrow> doc_at lib m' (tx_path tx) (tx_document tx'))"
  proof (cases now)
    case (Inl e)
    with assms(1) m1 same show ?thesis
      by (auto simp: touch_and_persist_def touches_only_same) (simp add: same_files_def)
  next
    case (Inr t)
    with assms(1) m1 have tx': "tx' = tx\<lparr>tx_document := (tx_document tx)\<lparr>updated_unix_ms := t\<rparr>\<rparr>"
      and w: "atomic_write lib (tx_path tx) (tx_document tx') m1 = (m', r)"
      by (auto simp: touch_and_persist_def Let_def)
    from atomic_write_result [OF w p] touches_only_trans [OF touches_only_same [OF same]] same show ?thesis
      by (cases r) (auto simp: tx' same_files_def)
  qed
  then show "tx_path tx' = tx_path tx" "doc_resources (tx_document tx') = doc_resources (tx_document tx)"
    and "touches_only (tx_path tx) m m'"
    and "map_of (ledger_dir m') (tx_path tx) = map_of (ledger_dir m) (tx_path tx)
      \<or> doc_at lib m' (tx_path tx) (tx_document tx')"
    and "is_ok r \<Longrightarrow> doc_at lib m' (tx_path tx) (tx_document tx')"
    by auto
qed

lemma set_resources_simps [simp]:
  "tx_path (set_resources rs tx) = tx_path tx" "doc_resources (tx_document (set_resources rs tx)) = rs"
  "doc_keys (tx_document (set_resources rs tx)) = stable_key ` set rs"
  by (simp_all add: set_resources_def)

section \<open>Random names\<close>

text \<open>\<open>base32_emit\<close> is the inner loop over the bits collected so far, \<open>base32_loop\<close> the loop over the bytes.\<close>

definition BASE32_ALPHABET :: bytes where
  "BASE32_ALPHABET = str ''abcdefghijklmnopqrstuvwxyz234567''"

fun base32_emit :: "nat \<Rightarrow> u32 \<Rightarrow> nat \<Rightarrow> bytes \<Rightarrow> nat \<times> bytes" where
  "base32_emit n accumulator bits out =
     (if bits \<ge> 5 \<and> length out < n
      then base32_emit n accumulator (bits - 5)
             (out @ [BASE32_ALPHABET ! unat (drop_bit (bits - 5) accumulator AND 31)])
      else (bits, out))"

declare base32_emit.simps [simp del]

fun base32_loop :: "nat \<Rightarrow> u32 \<Rightarrow> nat \<Rightarrow> bytes \<Rightarrow> bytes \<Rightarrow> bytes" where
  "base32_loop n accumulator bits out [] = out"
| "base32_loop n accumulator bits out (b # bs) =
     (let accumulator = push_bit 8 accumulator OR ucast b;
          (bits, out) = base32_emit n accumulator (bits + 8) out
      in base32_loop n accumulator bits out bs)"

definition random_base32 :: "nat \<Rightarrow> 'w machine \<Rightarrow> 'w machine \<times> (bytes, ledger_error) result" where
  "random_base32 n m =
     (case next_random ((n * 5 + 7) div 8) m of
        (m, None) \<Rightarrow> (m, Err RandomFailed)
      | (m, Some bs) \<Rightarrow> (m, Ok (base32_loop n 0 0 [] bs)))"

definition generate_account_name :: "'w machine \<Rightarrow> 'w machine \<times> (bytes, ledger_error) result" where
  "generate_account_name m = (case random_base32 13 m of (m, r) \<Rightarrow> (m, and_then r (\<lambda>s. Ok (ACCOUNT_PREFIX @ s))))"

definition generate_share_name :: "'w machine \<Rightarrow> 'w machine \<times> (bytes, ledger_error) result" where
  "generate_share_name m = (case random_base32 26 m of (m, r) \<Rightarrow> (m, and_then r (\<lambda>s. Ok (SHARE_PREFIX @ s))))"

text \<open>A random name has exactly the asked number of letters of the alphabet.\<close>

lemma base32_letter: "BASE32_ALPHABET ! unat (x AND 31 :: u32) \<in> set BASE32_ALPHABET"
proof -
  have "x AND 31 \<le> 31" by (rule word_and_le1)
  then have "unat (x AND 31) < length BASE32_ALPHABET"
    by (simp add: BASE32_ALPHABET_def word_le_nat_alt)
  then show ?thesis by (rule nth_mem)
qed

lemma base32_emit_result:
  "base32_emit n acc bits out = (bits', out') \<Longrightarrow> length out \<le> n \<Longrightarrow>
     5 * length out' + bits' = 5 * length out + bits \<and> (bits' < 5 \<or> length out' = n) \<and> length out' \<le> n
     \<and> set out' \<subseteq> set out \<union> set BASE32_ALPHABET"
proof (induction n acc bits out rule: base32_emit.induct)
  case (1 n acc bits out)
  show ?case
  proof (cases "bits \<ge> 5 \<and> length out < n")
    case True
    let ?out = "out @ [BASE32_ALPHABET ! unat (drop_bit (bits - 5) acc AND 31)]"
    from True "1.prems"(1) have "base32_emit n acc (bits - 5) ?out = (bits', out')"
      by (simp add: base32_emit.simps [of n acc bits])
    with "1.IH" [OF True] True base32_letter [of "drop_bit (bits - 5) acc"] show ?thesis by auto
  next
    case False
    with "1.prems" show ?thesis by (subst (asm) base32_emit.simps) auto
  qed
qed

lemma base32_loop_result:
  "length out \<le> n \<Longrightarrow> bits < 5 \<or> length out = n \<Longrightarrow> 5 * n \<le> 5 * length out + bits + 8 * length bs \<Longrightarrow>
     length (base32_loop n acc bits out bs) = n \<and> set (base32_loop n acc bits out bs) \<subseteq> set out \<union> set BASE32_ALPHABET"
proof (induction bs arbitrary: acc bits out)
  case (Cons b bs)
  let ?acc = "push_bit 8 acc OR ucast b :: u32"
  obtain bits' out' where e: "base32_emit n ?acc (bits + 8) out = (bits', out')"
    by (cases "base32_emit n ?acc (bits + 8) out")
  note r = base32_emit_result [OF e Cons.prems(1)]
  have "length (base32_loop n ?acc bits' out' bs) = n
      \<and> set (base32_loop n ?acc bits' out' bs) \<subseteq> set out' \<union> set BASE32_ALPHABET"
    by (rule Cons.IH) (use r Cons.prems(3) in auto)
  with r e show ?case by (auto simp: Let_def)
qed auto

lemma random_base32_shape:
  assumes "random_base32 n m = (m', Inr s)"
  shows "length s = n" and "set s \<subseteq> set BASE32_ALPHABET"
proof -
  obtain bs where "s = base32_loop n 0 0 [] bs" "length bs = (n * 5 + 7) div 8"
    using assms by (auto simp: random_base32_def next_random_def split: option.splits)
  with base32_loop_result [of "[]" n 0 bs 0] show "length s = n" and "set s \<subseteq> set BASE32_ALPHABET" by auto
qed

text \<open>The generated names are accepted in the records of a document.\<close>

lemma generated_names_accepted:
  "generate_account_name m = (m', Inr name) \<Longrightarrow> starts_with sid (str ''S-'') \<Longrightarrow>
     length name = 19 \<and> resource_validate oid (TemporaryAccount name sid c)"
  "generate_share_name m = (m', Inr name) \<Longrightarrow> root \<noteq> [] \<Longrightarrow>
     length name = 32 \<and> resource_validate oid (Share name (OWNERSHIP_MARKER_PREFIX @ oid) root c)"
  by (auto simp: generate_account_name_def generate_share_name_def and_then_Ok_iff starts_with_def
      ACCOUNT_PREFIX_def SHARE_PREFIX_def OWNERSHIP_MARKER_PREFIX_def dest!: random_base32_shape(1) split: prod.splits)

end
