(* ===== verification/Ledger_Reconcile.thy ===== *)
theory Ledger_Reconcile
  imports Ledger_Transaction "HOL-Library.List_Lexorder"
begin

text \<open>
  \<^verbatim>\<open>crates/lsb-seawork-service/src/ledger/reconcile.rs\<close>: what the service does with the ledger when it
  starts. Entries that are not documents, and documents with the same ownership id, are moved to the
  quarantine directory; the resources of the others are removed. Work is admitted only when nothing is left.
\<close>

section \<open>Setting entries aside\<close>

record ReconcileSummary =
  valid_documents :: nat
  quarantined_documents :: nat
  unproven_documents :: nat
  admissions_open :: bool

text \<open>\<^verbatim>\<open>{sequence:04}\<close>.\<close>

definition quarantine_name :: "nat \<Rightarrow> bytes" where
  "quarantine_name sequence =
     (let digits = str (show_dec sequence) in
      str ''ledger-corrupt-'' @ replicate (4 - length digits) 48 @ digits @ str ''.entry'')"

text \<open>\<^verbatim>\<open>Path::exists\<close> follows a symbolic link.\<close>

definition quarantine_exists :: "'w machine \<Rightarrow> bytes \<Rightarrow> bool" where
  "quarantine_exists m n \<longleftrightarrow> map_of (quarantine_dir m) n \<noteq> None \<and> map_of (quarantine_dir m) n \<noteq> Some (Symlink False)"

fun free_sequence :: "nat \<Rightarrow> nat \<Rightarrow> 'w machine \<Rightarrow> nat option" where
  "free_sequence 0 sequence m = None"
| "free_sequence (Suc left) sequence m =
     (if quarantine_exists m (quarantine_name sequence) then free_sequence left (Suc sequence) m
      else Some sequence)"

text \<open>
  \<^verbatim>\<open>rename\<close> into the quarantine directory. A directory does not replace a link whose target is missing;
  anything else does.
\<close>

definition move_to_quarantine :: "bytes \<Rightarrow> bytes \<Rightarrow> 'w machine \<Rightarrow> 'w machine \<times> bool" where
  "move_to_quarantine p destination m =
     (case io_try m of (m, ok) \<Rightarrow>
        (case map_of (ledger_dir m) p of
           None \<Rightarrow> (m, False)
         | Some e \<Rightarrow>
             if \<not> ok \<or> (e = Directory \<and> map_of (quarantine_dir m) destination \<noteq> None) then (m, False)
             else ((drop_file p m)\<lparr>quarantine_dir := AList.update destination e (quarantine_dir m)\<rparr>, True)))"

definition quarantine_or_mark_unproven ::
    "bytes \<Rightarrow> ReconcileSummary \<Rightarrow> 'w machine \<Rightarrow> 'w machine \<times> ReconcileSummary" where
  "quarantine_or_mark_unproven p summary m =
     (let summary = summary\<lparr>admissions_open := False\<rparr>;
          unproven = summary\<lparr>unproven_documents := unproven_documents summary + 1\<rparr> in
      case free_sequence (MAX_LEDGER_DOCUMENTS + 1) 0 m of
        None \<Rightarrow> (m, unproven)
      | Some sequence \<Rightarrow>
          (case move_to_quarantine p (quarantine_name sequence) m of (m, ok) \<Rightarrow>
             (m, if ok then summary\<lparr>quarantined_documents := quarantined_documents summary + 1\<rparr> else unproven)))"

section \<open>Reading the directory\<close>

fun read_entries ::
    "nat \<Rightarrow> (bytes \<times> dir_entry) list \<Rightarrow> 'w machine \<Rightarrow> 'w machine \<times> ((bytes \<times> dir_entry) list option, ledger_error) result" where
  "read_entries room [] m = (m, Ok (Some []))"
| "read_entries room (e # es) m =
     (if room = 0 then (m, Ok None)
      else
        (case io_try m of (m, ok) \<Rightarrow>
           if \<not> ok then (m, Err IoFailed)
           else
             (case read_entries (room - 1) es m of
                (m, r) \<Rightarrow> (m, and_then r (\<lambda>found. Ok (map_option (\<lambda>es. e # es) found))))))"

definition read_bounded_entries ::
    "'w machine \<Rightarrow> 'w machine \<times> ((bytes \<times> dir_entry) list option, ledger_error) result" where
  "read_bounded_entries m =
     (case io_try m of (m, ok) \<Rightarrow>
        if \<not> ok then (m, Err IoFailed) else read_entries MAX_LEDGER_DOCUMENTS (ledger_dir m) m)"

definition strip_json :: "bytes \<Rightarrow> bytes option" where
  "strip_json name =
     (if ends_with name (str ''.json'') then Some (take (length name - 5) name) else None)"

text \<open>The size of an entry is added to the total before it is compared with its bound.\<close>

definition validate_entry ::
    "bytes \<times> dir_entry \<Rightarrow> nat \<Rightarrow> 'w machine \<Rightarrow> 'w machine \<times> nat \<times> (bytes, ledger_error) result" where
  "validate_entry entry total_size m =
     (case io_try m of (m, ok) \<Rightarrow>
        (case snd entry of
           Regular content \<Rightarrow>
             if \<not> ok \<or> \<not> utf8_valid (fst entry) then (m, total_size, Err EntryRejected)
             else
               (case strip_json (fst entry) of
                  None \<Rightarrow> (m, total_size, Err EntryRejected)
                | Some stem \<Rightarrow>
                    if \<not> is_hex_id stem then (m, total_size, Err EntryRejected)
                    else
                      (case io_try m of (m, ok) \<Rightarrow>
                         (case checked_add_usize total_size (length content) of
                            None \<Rightarrow> (m, total_size, Err EntryRejected)
                          | Some grown \<Rightarrow>
                              if \<not> ok then (m, total_size, Err EntryRejected)
                              else (m, grown,
                                    and_then (ensure (length content \<le> MAX_LEDGER_DOCUMENT_SIZE
                                                      \<and> grown \<le> MAX_LEDGER_TOTAL_SIZE) EntryRejected)
                                      (\<lambda>_. Ok content)))))
         | _ \<Rightarrow> (m, total_size, Err EntryRejected)))"

definition read_document_bounded ::
    "ledger_json \<Rightarrow> bytes \<Rightarrow> 'w machine \<Rightarrow> 'w machine \<times> (LedgerDocument, ledger_error) result" where
  "read_document_bounded lib content m =
     (case io_try m of (m, opened) \<Rightarrow>
        if \<not> opened then (m, Err IoFailed)
        else
          (case io_try m of (m, ok) \<Rightarrow>
             if \<not> ok then (m, Err IoFailed)
             else if length content > MAX_LEDGER_DOCUMENT_SIZE then (m, Err DocumentTooLarge)
             else
               (case from_slice lib content of
                  None \<Rightarrow> (m, Err BadEncoding)
                | Some d \<Rightarrow> (m, and_then (ledger_validate lib d) (\<lambda>_. Ok d)))))"

text \<open>The loop over the sorted entries: the documents found, and what became of the other entries.\<close>

type_synonym candidate = "bytes \<times> LedgerDocument"

fun scan_entries ::
    "ledger_json \<Rightarrow> (bytes \<times> dir_entry) list \<Rightarrow> nat \<Rightarrow> ReconcileSummary \<Rightarrow> 'w machine
      \<Rightarrow> 'w machine \<times> ReconcileSummary \<times> candidate list" where
  "scan_entries lib [] total_size summary m = (m, summary, [])"
| "scan_entries lib (e # es) total_size summary m =
     (case validate_entry e total_size m of
        (m, total_size, Inl _) \<Rightarrow>
          (case quarantine_or_mark_unproven (fst e) summary m of
             (m, summary) \<Rightarrow> scan_entries lib es total_size summary m)
      | (m, total_size, Inr content) \<Rightarrow>
          (case read_document_bounded lib content m of
             (m, Inl _) \<Rightarrow>
               (case quarantine_or_mark_unproven (fst e) summary m of
                  (m, summary) \<Rightarrow> scan_entries lib es total_size summary m)
           | (m, Inr d) \<Rightarrow>
               (case scan_entries lib es total_size summary m of
                  (m, summary, cs) \<Rightarrow> (m, summary, (fst e, d) # cs))))"

section \<open>Reconciliation\<close>

definition ownership_count :: "candidate list \<Rightarrow> bytes \<Rightarrow> nat" where
  "ownership_count cs oid = length (filter (\<lambda>c. ownership_id (snd c) = oid) cs)"

fun settle_candidates ::
    "candidate list \<Rightarrow> candidate list \<Rightarrow> ReconcileSummary \<Rightarrow> 'w machine \<Rightarrow> 'w machine \<times> ReconcileSummary" where
  "settle_candidates all_cs [] summary m = (m, summary)"
| "settle_candidates all_cs (c # cs) summary m =
     (if ownership_count all_cs (ownership_id (snd c)) = 1
      then settle_candidates all_cs cs (summary\<lparr>valid_documents := valid_documents summary + 1\<rparr>) m
      else
        (case quarantine_or_mark_unproven (fst c) summary m of
           (m, summary) \<Rightarrow> settle_candidates all_cs cs summary m))"

definition start_summary :: "bool \<Rightarrow> nat \<Rightarrow> ReconcileSummary" where
  "start_summary open_now unproven =
     \<lparr>valid_documents = 0, quarantined_documents = 0, unproven_documents = unproven, admissions_open = open_now\<rparr>"

definition reconcile :: "ledger_json \<Rightarrow> 'w machine \<Rightarrow> 'w machine \<times> (ReconcileSummary, ledger_error) result" where
  "reconcile lib m =
     (case io_try m of (m, ledger_ok) \<Rightarrow>
      (case (if ledger_ok then io_try m else (m, False)) of (m, ok) \<Rightarrow>
        if \<not> ok then (m, Err IoFailed)
        else
          (case read_bounded_entries m of
             (m, Inl e) \<Rightarrow> (m, Err e)
           | (m, Inr None) \<Rightarrow> (m, Ok (start_summary False 1))
           | (m, Inr (Some entries)) \<Rightarrow>
               (case scan_entries lib (sort_key fst entries) 0 (start_summary True 0) m of
                  (m, summary, candidates) \<Rightarrow>
                    (case settle_candidates candidates candidates summary m of
                       (m, summary) \<Rightarrow>
                         (m, Ok (if valid_documents summary \<noteq> 0
                                 then summary\<lparr>admissions_open := False\<rparr> else summary)))))))"

fun recover_candidates ::
    "ledger_json \<Rightarrow> 'w cleaner \<Rightarrow> candidate list \<Rightarrow> ReconcileSummary \<Rightarrow> 'w machine
      \<Rightarrow> 'w machine \<times> (ReconcileSummary, ledger_error) result" where
  "recover_candidates lib C [] summary m = (m, Ok summary)"
| "recover_candidates lib C (c # cs) summary m =
     (case recover_document lib C (fst c) (snd c) m of
        (m, Inl e) \<Rightarrow> (m, Err e)
      | (m, Inr OutcomeRemoved) \<Rightarrow> recover_candidates lib C cs summary m
      | (m, Inr _) \<Rightarrow>
          recover_candidates lib C cs (summary\<lparr>valid_documents := valid_documents summary + 1\<rparr>) m)"

definition close_unproven :: "ReconcileSummary \<Rightarrow> ReconcileSummary" where
  "close_unproven summary =
     summary\<lparr>unproven_documents := unproven_documents summary + 1, admissions_open := False\<rparr>"

definition recover_directory ::
    "ledger_json \<Rightarrow> 'w cleaner \<Rightarrow> nat \<Rightarrow> ReconcileSummary \<Rightarrow> (bytes \<times> dir_entry) list \<Rightarrow> 'w machine
      \<Rightarrow> 'w machine \<times> (ReconcileSummary, ledger_error) result" where
  "recover_directory lib C expected_documents summary entries m =
     (case scan_entries lib (sort_key fst entries) 0 summary m of
        (m, summary, candidates) \<Rightarrow>
          if quarantined_documents summary \<noteq> 0 \<or> unproven_documents summary \<noteq> 0
          then (m, Ok (summary\<lparr>admissions_open := False\<rparr>))
          else if length candidates \<noteq> expected_documents
               \<or> list_ex (\<lambda>c. ownership_count candidates (ownership_id (snd c)) \<noteq> 1) candidates
          then (m, Ok (close_unproven summary))
          else
            (case recover_candidates lib C candidates summary m of
               (m, Inl e) \<Rightarrow> (m, Err e)
             | (m, Inr summary) \<Rightarrow>
                 (m, Ok (summary\<lparr>admissions_open :=
                     valid_documents summary = 0 \<and> quarantined_documents summary = 0
                     \<and> unproven_documents summary = 0\<rparr>))))"

definition reconcile_and_recover ::
    "ledger_json \<Rightarrow> 'w cleaner \<Rightarrow> 'w machine \<Rightarrow> 'w machine \<times> (ReconcileSummary, ledger_error) result" where
  "reconcile_and_recover lib C m =
     (case reconcile lib m of
        (m, Inl e) \<Rightarrow> (m, Err e)
      | (m, Inr summary) \<Rightarrow>
          if valid_documents summary = 0 then (m, Ok summary)
          else
            let expected_documents = valid_documents summary; summary = summary\<lparr>valid_documents := 0\<rparr> in
            (case read_bounded_entries m of
               (m, Inl e) \<Rightarrow> (m, Err e)
             | (m, Inr None) \<Rightarrow> (m, Ok (close_unproven summary))
             | (m, Inr (Some entries)) \<Rightarrow> recover_directory lib C expected_documents summary entries m))"

section \<open>Nothing is deleted\<close>

text \<open>
  Entries may move from the ledger to the quarantine directory and are kept there. A link whose target is
  missing looks like a free name and may be overwritten, so nothing is said about such links.
\<close>

definition only_moves :: "'w machine \<Rightarrow> 'w machine \<Rightarrow> bool" where
  "only_moves m m' \<longleftrightarrow>
     world m' = world m \<and> (hm_wf (ledger_dir m) \<longrightarrow> hm_wf (ledger_dir m'))
     \<and> (\<forall>n e. map_of (ledger_dir m') n = Some e \<longrightarrow> map_of (ledger_dir m) n = Some e)
     \<and> (\<forall>n e. map_of (ledger_dir m) n = Some e \<longrightarrow> e \<noteq> Symlink False
          \<longrightarrow> map_of (ledger_dir m') n = Some e \<or> (\<exists>q. map_of (quarantine_dir m') q = Some e))
     \<and> (\<forall>q e. map_of (quarantine_dir m) q = Some e \<longrightarrow> e \<noteq> Symlink False
          \<longrightarrow> map_of (quarantine_dir m') q = Some e)"

lemma only_moves_same: "same_files m m' \<Longrightarrow> only_moves m m'"
  by (simp add: same_files_def only_moves_def)

lemma only_moves_trans:
  assumes a: "only_moves m m1" and b: "only_moves m1 m2"
  shows "only_moves m m2"
proof -
  have "map_of (ledger_dir m2) n = Some e \<or> (\<exists>q. map_of (quarantine_dir m2) q = Some e)"
    if n: "map_of (ledger_dir m) n = Some e" "e \<noteq> Symlink False" for n e
  proof -
    from a n consider "map_of (ledger_dir m1) n = Some e" | q where "map_of (quarantine_dir m1) q = Some e"
      unfolding only_moves_def by blast
    then show ?thesis using b n(2) unfolding only_moves_def by cases blast+
  qed
  with a b show ?thesis by (simp add: only_moves_def)
qed

lemma free_sequence_free: "free_sequence k i m = Some j \<Longrightarrow> \<not> quarantine_exists m (quarantine_name j)"
  by (induction k i m rule: free_sequence.induct) (auto split: if_splits)

declare free_sequence.simps [simp del]

lemma move_to_quarantine_result:
  assumes "move_to_quarantine p q m = (m', ok)"
    and free: "\<not> quarantine_exists m q"
  shows "only_moves m m'"
    and "n \<noteq> p \<Longrightarrow> map_of (ledger_dir m') n = map_of (ledger_dir m) n"
  using assms
  by (auto simp: move_to_quarantine_def only_moves_def same_files_def drop_file_def hm_delete_lookup
      hm_update_lookup quarantine_exists_def split: prod.splits option.splits if_splits dest!: io_try_same)

text \<open>How a count of entries that were set aside or could not be moves on.\<close>

definition refused :: "ReconcileSummary \<Rightarrow> nat" where
  "refused s = quarantined_documents s + unproven_documents s"

lemma quarantine_or_mark_unproven_result:
  assumes "quarantine_or_mark_unproven p s m = (m', s')"
  shows "only_moves m m'" and "n \<noteq> p \<Longrightarrow> map_of (ledger_dir m') n = map_of (ledger_dir m) n"
    and "\<not> admissions_open s'" and "refused s' = Suc (refused s)" and "valid_documents s' = valid_documents s"
  using assms
  by (auto simp: quarantine_or_mark_unproven_def Let_def refused_def only_moves_same
      dest: move_to_quarantine_result [OF _ free_sequence_free] split: option.splits prod.splits if_splits)

lemma read_entries_same: "read_entries room es m = (m', r) \<Longrightarrow> same_files m m'"
proof (induction es arbitrary: room m m' r)
  case (Cons e es)
  obtain m1 ok where m1: "io_try m = (m1, ok)" by (cases "io_try m")
  obtain m2 r2 where m2: "read_entries (room - 1) es m1 = (m2, r2)" by (cases "read_entries (room - 1) es m1")
  have "m' \<in> {m, m1, m2}" using Cons.prems m1 m2 by (auto split: if_splits)
  with io_try_same [OF m1] Cons.IH [OF m2] show ?case by (auto simp: same_files_def)
qed auto

lemma read_entries_all: "read_entries room es m = (m', Inr (Some es')) \<Longrightarrow> es' = es \<and> length es \<le> room"
proof (induction es arbitrary: room m es')
  case (Cons e es)
  obtain m1 ok where m1: "io_try m = (m1, ok)" by (cases "io_try m")
  obtain m2 r2 where m2: "read_entries (room - 1) es m1 = (m2, r2)" by (cases "read_entries (room - 1) es m1")
  from Cons.prems m1 m2 obtain found where "room \<noteq> 0" "m' = m2" "r2 = Inr (Some found)" "es' = e # found"
    by (auto simp: and_then_Ok_iff split: if_splits)
  with Cons.IH [of "room - 1" m1 found] m2 show ?case by auto
qed auto

lemma read_bounded_entries_result:
  "read_bounded_entries m = (m', r) \<Longrightarrow> same_files m m'"
  "read_bounded_entries m = (m', Inr (Some es)) \<Longrightarrow> es = ledger_dir m \<and> length es \<le> MAX_LEDGER_DOCUMENTS"
proof -
  assume "read_bounded_entries m = (m', r)"
  then show "same_files m m'"
    by (auto simp: read_bounded_entries_def same_files_def split: prod.splits if_splits
        dest!: io_try_same read_entries_same)
next
  assume "read_bounded_entries m = (m', Inr (Some es))"
  then show "es = ledger_dir m \<and> length es \<le> MAX_LEDGER_DOCUMENTS"
    by (auto simp: read_bounded_entries_def same_files_def split: prod.splits if_splits
        dest!: io_try_same read_entries_all)
qed

lemma validate_entry_result:
  assumes "validate_entry e total_size m = (m', total', r)"
  shows "same_files m m'"
    and "r = Inr content \<Longrightarrow> snd e = Regular content \<and> (\<exists>stem. strip_json (fst e) = Some stem \<and> is_hex_id stem)"
  using assms
  by (auto simp: validate_entry_def same_files_def and_then_Ok_iff
      split: prod.splits if_splits option.splits dir_entry.splits dest!: io_try_same)

lemma read_document_bounded_result:
  assumes "read_document_bounded lib content m = (m', r)"
  shows "same_files m m'"
    and "r = Inr d \<Longrightarrow> length content \<le> MAX_LEDGER_DOCUMENT_SIZE \<and> from_slice lib content = Some d
      \<and> ledger_valid lib d"
  using assms
  by (auto simp: read_document_bounded_def same_files_def and_then_Ok_iff
      split: prod.splits if_splits option.splits dest!: io_try_same)

section \<open>Scanning\<close>

definition is_document :: "ledger_json \<Rightarrow> bytes \<Rightarrow> bytes \<Rightarrow> LedgerDocument \<Rightarrow> bool" where
  "is_document lib n b d \<longleftrightarrow>
     (\<exists>stem. strip_json n = Some stem \<and> is_hex_id stem) \<and> length b \<le> MAX_LEDGER_DOCUMENT_SIZE
     \<and> from_slice lib b = Some d \<and> ledger_valid lib d"

lemma scan_entries_cases:
  assumes "scan_entries lib (e # es) t s m = (m', s', cs)"
  obtains (refuse) m1 m2 t1 s1 where "same_files m m1" "quarantine_or_mark_unproven (fst e) s m1 = (m2, s1)"
      "scan_entries lib es t1 s1 m2 = (m', s', cs)"
    | (accept) m1 t1 b d cs1 where "same_files m m1" "snd e = Regular b" "is_document lib (fst e) b d"
      "scan_entries lib es t1 s m1 = (m', s', cs1)" "cs = (fst e, d) # cs1"
proof -
  obtain m1 t1 r1 where v: "validate_entry e t m = (m1, t1, r1)" by (cases "validate_entry e t m") auto
  obtain m2 r2 where rd: "read_document_bounded lib (projr r1) m1 = (m2, r2)"
    by (cases "read_document_bounded lib (projr r1) m1")
  note v' = validate_entry_result [OF v] and rd' = read_document_bounded_result [OF rd]
  have same: "same_files m m2" using v'(1) rd'(1) by (simp add: same_files_def)
  show thesis
  proof (cases r1)
    case (Inl err)
    with v'(1) v assms show thesis by (auto split: prod.splits intro: refuse)
  next
    case b: (Inr b)
    show thesis
    proof (cases r2)
      case (Inl err)
      with same b v rd assms show thesis by (auto split: prod.splits intro: refuse)
    next
      case (Inr d)
      with b v'(2) [OF b] rd'(2) have "snd e = Regular b" "is_document lib (fst e) b d"
        by (auto simp: is_document_def)
      with same b Inr v rd assms show thesis by (auto split: prod.splits intro: accept)
    qed
  qed
qed

lemma scan_entries_moves:
  "scan_entries lib es t s m = (m', s', cs) \<Longrightarrow> only_moves m m'"
proof (induction es arbitrary: t s m cs)
  case (Cons e es)
  from Cons.prems show ?case
  proof (cases rule: scan_entries_cases)
    case refuse
    show ?thesis
      by (rule only_moves_trans [OF only_moves_same [OF refuse(1)]
            only_moves_trans [OF quarantine_or_mark_unproven_result(1) [OF refuse(2)] Cons.IH [OF refuse(3)]]])
  next
    case accept
    show ?thesis by (rule only_moves_trans [OF only_moves_same [OF accept(1)] Cons.IH [OF accept(4)]])
  qed
qed (auto simp: only_moves_same)

lemma scan_entries_counts:
  "scan_entries lib es t s m = (m', s', cs) \<Longrightarrow>
     length cs + refused s' = length es + refused s \<and> valid_documents s' = valid_documents s
     \<and> (admissions_open s' \<longrightarrow> admissions_open s \<and> refused s' = refused s)"
proof (induction es arbitrary: t s m cs)
  case (Cons e es)
  from Cons.prems show ?case
  proof (cases rule: scan_entries_cases)
    case refuse
    with Cons.IH [OF refuse(3)] quarantine_or_mark_unproven_result(3-5) [OF refuse(2)] show ?thesis by auto
  next
    case accept
    with Cons.IH [OF accept(4)] show ?thesis by auto
  qed
qed auto

lemma scan_entries_found:
  "scan_entries lib es t s m = (m', s', cs) \<Longrightarrow>
     subseq (map fst cs) (map fst es) \<and> (\<forall>(n, d) \<in> set cs. \<exists>b. (n, Regular b) \<in> set es \<and> is_document lib n b d)"
proof (induction es arbitrary: t s m cs)
  case (Cons e es)
  from Cons.prems show ?case
  proof (cases rule: scan_entries_cases)
    case refuse
    with Cons.IH [OF refuse(3)] show ?thesis by fastforce
  next
    case (accept m1 t1 b d cs1)
    then have "(fst e, Regular b) \<in> set (e # es)" by (cases e) auto
    with accept(3,5) Cons.IH [OF accept(4)] show ?thesis by auto
  qed
qed auto

lemma subseq_subset: "subseq xs ys \<Longrightarrow> set xs \<subseteq> set ys"
  by (induction rule: list_emb.induct) auto

lemma subseq_distinct: "subseq xs ys \<Longrightarrow> distinct ys \<Longrightarrow> distinct xs"
  by (induction rule: list_emb.induct) (auto dest: subseq_subset)

lemma scan_entries_names:
  assumes "scan_entries lib es t s m = (m', s', cs)"
  shows "fst ` set cs \<subseteq> fst ` set es" and "distinct (map fst es) \<Longrightarrow> distinct (map fst cs)"
proof -
  have sub: "subseq (map fst cs) (map fst es)" using scan_entries_found [OF assms] by simp
  from subseq_subset [OF sub] show "fst ` set cs \<subseteq> fst ` set es" by simp
  from subseq_distinct [OF sub] show "distinct (map fst es) \<Longrightarrow> distinct (map fst cs)" .
qed

lemma scan_entries_keeps:
  "scan_entries lib es t s m = (m', s', cs) \<Longrightarrow> distinct (map fst es) \<Longrightarrow>
     n \<notin> fst ` set es \<or> n \<in> fst ` set cs \<Longrightarrow> map_of (ledger_dir m') n = map_of (ledger_dir m) n"
proof (induction es arbitrary: t s m cs)
  case (Cons e es)
  from Cons.prems(1) show ?case
  proof (cases rule: scan_entries_cases)
    case refuse
    have sub: "fst ` set cs \<subseteq> fst ` set es"
      using scan_entries_names [OF refuse(3)] by simp
    with Cons.prems(2,3) have "n \<noteq> fst e" by auto
    moreover have "n \<notin> fst ` set es \<or> n \<in> fst ` set cs" using Cons.prems(3) by auto
    ultimately show ?thesis
      using Cons.IH [OF refuse(3)] Cons.prems(2) quarantine_or_mark_unproven_result(2) [OF refuse(2)] refuse(1)
      by (simp add: same_files_def)
  next
    case (accept m1 t1 b d cs1)
    have "fst ` set cs1 \<subseteq> fst ` set es"
      using scan_entries_names [OF accept(4)] by simp
    with Cons.prems(2,3) accept(5) have "n \<notin> fst ` set es \<or> n \<in> fst ` set cs1"
      by (cases "n = fst e") auto
    with Cons.IH [OF accept(4)] Cons.prems(2) accept(1) show ?thesis by (simp add: same_files_def)
  qed
qed auto

lemma scan_entries_mono:
  assumes "scan_entries lib es t s m = (m', s', cs)"
  shows "refused s \<le> refused s'"
proof -
  have "length cs \<le> length es"
    using scan_entries_found [OF assms] list_emb_length [of "(=)" "map fst cs" "map fst es"] by simp
  with scan_entries_counts [OF assms] show ?thesis by arith
qed

text \<open>A scan that refuses nothing changes nothing and finds a document under every name.\<close>

lemma scan_entries_clean:
  "scan_entries lib es t s m = (m', s', cs) \<Longrightarrow> refused s' = refused s \<Longrightarrow>
     same_files m m' \<and> map fst cs = map fst es"
proof (induction es arbitrary: t s m cs)
  case (Cons e es)
  from Cons.prems(1) show ?case
  proof (cases rule: scan_entries_cases)
    case refuse
    with scan_entries_mono [OF refuse(3)] quarantine_or_mark_unproven_result(4) [OF refuse(2)] Cons.prems(2)
    show ?thesis by simp
  next
    case accept
    with Cons.IH [OF accept(4) Cons.prems(2)] show ?thesis by (simp add: same_files_def)
  qed
qed auto

lemma settle_candidates_result:
  "settle_candidates all_cs cs s m = (m', s') \<Longrightarrow>
     only_moves m m' \<and> valid_documents s' + refused s' = valid_documents s + refused s + length cs
     \<and> refused s \<le> refused s' \<and> (admissions_open s' \<longrightarrow> admissions_open s \<and> refused s' = refused s)
     \<and> (refused s' = refused s \<longrightarrow> m' = m)"
proof (induction cs arbitrary: s m)
  case (Cons c cs)
  show ?case
  proof (cases "ownership_count all_cs (ownership_id (snd c)) = 1")
    case True
    with Cons.prems have "settle_candidates all_cs cs (s\<lparr>valid_documents := valid_documents s + 1\<rparr>) m = (m', s')"
      by simp
    from Cons.IH [OF this] show ?thesis by (simp add: refused_def)
  next
    case False
    obtain m1 s1 where q: "quarantine_or_mark_unproven (fst c) s m = (m1, s1)"
      by (cases "quarantine_or_mark_unproven (fst c) s m")
    with Cons.prems False have "settle_candidates all_cs cs s1 m1 = (m', s')" by simp
    from Cons.IH [OF this] quarantine_or_mark_unproven_result [OF q] show ?thesis
      using only_moves_trans [of m m1 m'] by auto
  qed
qed (auto simp: only_moves_same)

lemma reconcile_cases:
  assumes "reconcile lib m = (m', r)"
  obtains (failed) "same_files m m'" "isl r"
    | (full) "same_files m m'" "r = Inr (start_summary False 1)"
    | (listed) m3 m4 s4 cs s5 where "same_files m m3"
        "scan_entries lib (sort_key fst (ledger_dir m)) 0 (start_summary True 0) m3 = (m4, s4, cs)"
        "settle_candidates cs cs s4 m4 = (m', s5)"
        "r = Inr (if valid_documents s5 \<noteq> 0 then s5\<lparr>admissions_open := False\<rparr> else s5)"
proof -
  obtain m1 ok1 where m1: "io_try m = (m1, ok1)" by (cases "io_try m")
  obtain m2 ok2 where m2: "(if ok1 then io_try m1 else (m1, False)) = (m2, ok2)"
    by (cases "if ok1 then io_try m1 else (m1, False)")
  obtain m3 r3 where m3: "read_bounded_entries m2 = (m3, r3)" by (cases "read_bounded_entries m2")
  have same2: "same_files m m2"
    using io_try_same [OF m1] m2 by (auto simp: same_files_def split: if_splits dest!: io_try_same)
  have same: "same_files m m3"
    using same2 read_bounded_entries_result(1) [OF m3] by (simp add: same_files_def)
  show thesis
  proof (cases ok2)
    case False
    with assms m1 m2 same2 failed show thesis by (auto simp: reconcile_def)
  next
    case ok: True
    show thesis
    proof (cases r3)
      case (Inl e)
      with assms m1 m2 m3 ok same failed show thesis by (auto simp: reconcile_def)
    next
      case found: (Inr found)
      show thesis
      proof (cases found)
        case None
        with assms m1 m2 m3 ok found same full show thesis by (auto simp: reconcile_def)
      next
        case (Some es)
        with m3 found have es: "es = ledger_dir m"
          using read_bounded_entries_result(2) [of m2 m3 es] same2 by (simp add: same_files_def)
        obtain m4 s4 cs where m4: "scan_entries lib (sort_key fst (ledger_dir m)) 0 (start_summary True 0) m3 = (m4, s4, cs)"
          by (cases "scan_entries lib (sort_key fst (ledger_dir m)) 0 (start_summary True 0) m3")
        obtain m5 s5 where m5: "settle_candidates cs cs s4 m4 = (m5, s5)" by (cases "settle_candidates cs cs s4 m4")
        have "m' = m5" "r = Inr (if valid_documents s5 \<noteq> 0 then s5\<lparr>admissions_open := False\<rparr> else s5)"
          using assms m1 m2 m3 ok found Some es m4 m5 by (auto simp: reconcile_def)
        with listed [OF same m4] m5 found Some es show thesis by simp
      qed
    qed
  qed
qed

lemma reconcile_result:
  assumes "reconcile lib m = (m', r)"
  shows "only_moves m m'"
    and "r = Inr s \<Longrightarrow> admissions_open s \<Longrightarrow> ledger_dir m = [] \<and> same_files m m' \<and> valid_documents s = 0"
    and "r = Inr s \<Longrightarrow> refused s = 0 \<Longrightarrow> same_files m m'"
    and "r = Inr s \<Longrightarrow> valid_documents s \<noteq> 0 \<Longrightarrow> \<not> admissions_open s"
proof -
  from assms have "only_moves m m' \<and> (\<forall>s. r = Inr s \<longrightarrow>
      (admissions_open s \<longrightarrow> ledger_dir m = [] \<and> same_files m m' \<and> valid_documents s = 0)
      \<and> (refused s = 0 \<longrightarrow> same_files m m') \<and> (valid_documents s \<noteq> 0 \<longrightarrow> \<not> admissions_open s))"
  proof (cases rule: reconcile_cases)
    case (listed m3 m4 s4 cs s5)
    note sc = scan_entries_counts [OF listed(2)] and se = settle_candidates_result [OF listed(3)]
    have moves: "only_moves m m'"
      using only_moves_trans [OF only_moves_same [OF listed(1)] only_moves_trans [OF scan_entries_moves [OF listed(2)]]] se
      by blast
    have start: "refused (start_summary True 0) = 0" "valid_documents (start_summary True 0) = 0"
      by (simp_all add: refused_def start_summary_def)
    have clean: "same_files m m'" if "refused s5 = 0"
      using that se scan_entries_mono [OF listed(2)] scan_entries_clean [OF listed(2)] start listed(1)
      by (auto simp: same_files_def)
    have "ledger_dir m = []" if "admissions_open s5" "valid_documents s5 = 0"
      using that sc se start by auto
    moreover have "refused s5 = 0" if "admissions_open s5"
      using that sc se start by auto
    ultimately show ?thesis using moves clean listed(4) by (auto simp: refused_def)
  qed (auto simp: only_moves_same start_summary_def refused_def)
  then show "only_moves m m'"
    and "r = Inr s \<Longrightarrow> admissions_open s \<Longrightarrow> ledger_dir m = [] \<and> same_files m m' \<and> valid_documents s = 0"
    and "r = Inr s \<Longrightarrow> refused s = 0 \<Longrightarrow> same_files m m'"
    and "r = Inr s \<Longrightarrow> valid_documents s \<noteq> 0 \<Longrightarrow> \<not> admissions_open s"
    by auto
qed

section \<open>Recovering the documents\<close>

lemma recover_document_sound:
  assumes "cleaner_exact present C" and "plain_name p" and "recover_document lib C p d m = (m', r)"
  shows "keeps_others p m m'" and "present (world m') \<subseteq> present (world m)"
    and "k \<in> doc_keys d \<Longrightarrow> (ledger_id p, k) \<in> present (world m')
      \<Longrightarrow> map_of (ledger_dir m') p = map_of (ledger_dir m) p \<or> (\<exists>d'. doc_at lib m' p d' \<and> k \<in> doc_keys d')"
    and "is_ok r \<Longrightarrow> leaves_no_trace p m m'"
    and "r = Ok OutcomeRemoved \<Longrightarrow> map_of (ledger_dir m') p = None"
    and "r = Ok OutcomeRemoved \<Longrightarrow> k \<in> doc_keys d \<Longrightarrow> (ledger_id p, k) \<notin> present (world m')"
  using durable.recover_with_store_sound [OF assms(1,2) assms(3) [unfolded recover_document_def]] by auto

lemma recover_candidates_cases:
  assumes "recover_candidates lib C (c # cs) s m = (m', r)"
  obtains (stopped) e where "recover_document lib C (fst c) (snd c) m = (m', Inl e)" "r = Inl e"
    | (gone_on) m1 outcome s1 where "recover_document lib C (fst c) (snd c) m = (m1, Inr outcome)"
        "recover_candidates lib C cs s1 m1 = (m', r)" "refused s1 = refused s"
        "valid_documents s1 = (if outcome = OutcomeRemoved then valid_documents s else Suc (valid_documents s))"
proof -
  obtain m1 r1 where "recover_document lib C (fst c) (snd c) m = (m1, r1)"
    by (cases "recover_document lib C (fst c) (snd c) m")
  with assms show thesis
    by (auto intro: stopped gone_on simp: refused_def split: sum.splits LedgerOutcome.splits)
qed

lemma recover_candidates_frame:
  assumes "cleaner_exact present C" and "\<forall>n \<in> fst ` set cs. plain_name n"
    and "recover_candidates lib C cs s m = (m', r)"
  shows "present (world m') \<subseteq> present (world m) \<and> quarantine_dir m' = quarantine_dir m
     \<and> (hm_wf (ledger_dir m) \<longrightarrow> hm_wf (ledger_dir m'))
     \<and> (\<forall>n. n \<notin> fst ` set cs \<longrightarrow> map_of (ledger_dir m) n \<noteq> None \<or> plain_name n
            \<longrightarrow> map_of (ledger_dir m') n = map_of (ledger_dir m) n)"
  using assms(2,3)
proof (induction cs arbitrary: s m)
  case (Cons c cs)
  from Cons.prems(2) show ?case
  proof (cases rule: recover_candidates_cases)
    case (stopped e)
    have p: "plain_name (fst c)" using Cons.prems(1) by simp
    from recover_document_sound(1,2) [OF assms(1) p stopped(1)] show ?thesis by (auto simp: keeps_others_def)
  next
    case (gone_on m1 outcome s1)
    have p: "plain_name (fst c)" using Cons.prems(1) by simp
    from Cons.IH [OF _ gone_on(2)] Cons.prems(1) recover_document_sound(1,2) [OF assms(1) p gone_on(1)]
    show ?thesis by (auto simp: keeps_others_def)
  qed
qed auto

lemma recover_candidates_covers:
  assumes "cleaner_exact present C" and "\<forall>n \<in> fst ` set cs. plain_name n" and "distinct (map fst cs)"
    and "recover_candidates lib C cs s m = (m', r)"
    and "(n, d) \<in> set cs" and "k \<in> doc_keys d" and "(ledger_id n, k) \<in> present (world m')"
  shows "map_of (ledger_dir m') n = map_of (ledger_dir m) n \<or> (\<exists>d'. doc_at lib m' n d' \<and> k \<in> doc_keys d')"
  using assms(2-5)
proof (induction cs arbitrary: s m)
  case (Cons c cs)
  have p: "plain_name (fst c)" using Cons.prems(1) by simp
  have later: "n \<noteq> fst c \<and> plain_name n \<and> (n, d) \<in> set cs" if "c \<noteq> (n, d)"
  proof -
    have mem: "(n, d) \<in> set cs" using that Cons.prems(4) by auto
    then have "n \<in> fst ` set cs" by force
    moreover have "fst c \<notin> fst ` set cs" using Cons.prems(2) by simp
    ultimately have "n \<noteq> fst c" by metis
    with mem Cons.prems(1) show ?thesis by auto
  qed
  from Cons.prems(3) show ?case
  proof (cases rule: recover_candidates_cases)
    case (stopped e)
    show ?thesis
    proof (cases "c = (n, d)")
      case True
      with recover_document_sound(3) [OF assms(1) p stopped(1)] assms(6,7) show ?thesis by simp
    next
      case False
      with later recover_document_sound(1) [OF assms(1) p stopped(1)] show ?thesis by (simp add: keeps_others_def)
    qed
  next
    case (gone_on m1 outcome s1)
    note doc = recover_document_sound [OF assms(1) p gone_on(1)]
    have names: "\<forall>n \<in> fst ` set cs. plain_name n" using Cons.prems(1) by simp
    note rest = recover_candidates_frame [OF assms(1) names gone_on(2)]
    show ?thesis
    proof (cases "c = (n, d)")
      case True
      with Cons.prems(2) p have "n \<notin> fst ` set cs" "plain_name n" by auto
      then have "map_of (ledger_dir m') n = map_of (ledger_dir m1) n" using rest by blast
      moreover have "(ledger_id n, k) \<in> present (world m1)" using rest assms(7) by blast
      ultimately show ?thesis using doc(3) True assms(6) by (auto simp: doc_at_def)
    next
      case False
      with later have n: "n \<noteq> fst c" "plain_name n" "(n, d) \<in> set cs" by blast+
      with doc(1) have "map_of (ledger_dir m1) n = map_of (ledger_dir m) n" by (simp add: keeps_others_def)
      with Cons.IH [OF names _ gone_on(2) n(3)] Cons.prems(2) show ?thesis by simp
    qed
  qed
qed auto

lemma recover_candidates_all:
  assumes "cleaner_exact present C" and "\<forall>n \<in> fst ` set cs. plain_name n" and "distinct (map fst cs)"
    and "recover_candidates lib C cs s m = (m', Inr s')"
  shows "valid_documents s \<le> valid_documents s' \<and> refused s' = refused s
     \<and> (valid_documents s' = valid_documents s \<longrightarrow>
          (\<forall>n. map_of (ledger_dir m') n = (if n \<in> fst ` set cs then None else map_of (ledger_dir m) n))
          \<and> (\<forall>(n, d) \<in> set cs. \<forall>k \<in> doc_keys d. (ledger_id n, k) \<notin> present (world m')))"
  using assms(2-4)
proof (induction cs arbitrary: s m)
  case (Cons c cs)
  have p: "plain_name (fst c)" and names: "\<forall>n \<in> fst ` set cs. plain_name n" using Cons.prems(1) by simp_all
  from Cons.prems(3) show ?case
  proof (cases rule: recover_candidates_cases)
    case (gone_on m1 outcome s1)
    note doc = recover_document_sound [OF assms(1) p gone_on(1)]
    have IH: "valid_documents s1 \<le> valid_documents s' \<and> refused s' = refused s1
     \<and> (valid_documents s' = valid_documents s1 \<longrightarrow>
          (\<forall>n. map_of (ledger_dir m') n = (if n \<in> fst ` set cs then None else map_of (ledger_dir m1) n))
          \<and> (\<forall>(n, d) \<in> set cs. \<forall>k \<in> doc_keys d. (ledger_id n, k) \<notin> present (world m')))"
      using Cons.IH [OF names _ gone_on(2)] Cons.prems(2) by simp
    show ?thesis
    proof (cases "valid_documents s' = valid_documents s")
      case True
      with IH gone_on(4) have removed: "outcome = OutcomeRemoved" "valid_documents s' = valid_documents s1"
        by (auto split: if_splits)
      have gone: "\<forall>k \<in> doc_keys (snd c). (ledger_id (fst c), k) \<notin> present (world m')"
        using doc(6) removed(1) recover_candidates_frame [OF assms(1) names gone_on(2)] by blast
      have "map_of (ledger_dir m1) n = (if n = fst c then None else map_of (ledger_dir m) n)" for n
        using doc(4,5) removed(1) by (auto simp: leaves_no_trace_def)
      with IH removed(2) gone gone_on(3) True show ?thesis by (auto simp: case_prod_beta)
    next
      case False
      with IH gone_on(3,4) show ?thesis by (auto split: if_splits)
    qed
  qed auto
qed auto

section \<open>Starting the service\<close>

text \<open>
  A resource of the sandbox \<open>sid\<close> is accounted for when its key is in the document of the sandbox, or in a
  document that was set aside. The decoder of the JSON library undoes the encoder.
\<close>

definition json_faithful :: "ledger_json \<Rightarrow> bool" where
  "json_faithful lib \<longleftrightarrow> (\<forall>d b. to_vec_pretty lib d = Some b \<longrightarrow> from_slice lib b = Some d)"

definition on_disk :: "ledger_json \<Rightarrow> 'w machine \<Rightarrow> bytes \<Rightarrow> bytes \<Rightarrow> bool" where
  "on_disk lib m sid k \<longleftrightarrow> (\<exists>d. doc_at lib m (document_name sid) d \<and> k \<in> doc_keys d)"

definition set_aside :: "ledger_json \<Rightarrow> 'w machine \<Rightarrow> bytes \<Rightarrow> bool" where
  "set_aside lib m k \<longleftrightarrow>
     (\<exists>q b d. map_of (quarantine_dir m) q = Some (Regular b) \<and> to_vec_pretty lib d = Some b \<and> k \<in> doc_keys d)"

definition accounted_for :: "ledger_json \<Rightarrow> 'w machine \<Rightarrow> bytes \<Rightarrow> bytes \<Rightarrow> bool" where
  "accounted_for lib m sid k \<longleftrightarrow> on_disk lib m sid k \<or> set_aside lib m k"

lemma only_moves_accounted: "only_moves m m' \<Longrightarrow> accounted_for lib m sid k \<Longrightarrow> accounted_for lib m' sid k"
  unfolding only_moves_def accounted_for_def on_disk_def set_aside_def doc_at_def by blast

lemma only_moves_set_aside: "only_moves m m' \<Longrightarrow> set_aside lib m k \<Longrightarrow> set_aside lib m' k"
  unfolding only_moves_def set_aside_def by blast

text \<open>The names of documents.\<close>

lemma hex_not_dot: "is_hex_id sid \<Longrightarrow> b \<in> set sid \<Longrightarrow> b \<noteq> 46"
  by (auto simp: is_hex_id_def is_lower_hex_def list_all_iff is_hex_digit_def in_range_def)

lemma hex_nonempty: "is_hex_id sid \<Longrightarrow> sid \<noteq> []"
  by (auto simp: is_hex_id_def is_lower_hex_def)

lemma plain_document_name [simp]: "is_hex_id sid \<Longrightarrow> plain_name (document_name sid)"
  using hex_nonempty [of sid] hex_not_dot [of sid]
  by (cases sid) (auto simp: plain_name_def document_name_def starts_with_def str_def)

lemma file_stem_document [simp]:
  assumes "is_hex_id sid"
  shows "file_stem (document_name sid) = sid"
proof -
  have "dropWhile (\<lambda>b. b \<noteq> 46) (rev (document_name sid)) = 46 # rev sid"
    by (simp add: document_name_def str_def)
  then show ?thesis using hex_nonempty [OF assms] by (simp add: file_stem_def)
qed

lemma ledger_id_document [simp]: "is_hex_id sid \<Longrightarrow> ledger_id (document_name sid) = sid"
  using utf8_valid_ascii [of sid]
  by (force simp: ledger_id_def is_ascii_def is_hex_id_def is_lower_hex_def list_all_iff is_hex_digit_def in_range_def)

lemma document_name_eq [simp]: "document_name a = document_name b \<longleftrightarrow> a = b"
  by (simp add: document_name_def)

lemma strip_json_document: "strip_json n = Some sid \<Longrightarrow> n = document_name sid"
  by (auto simp: strip_json_def document_name_def ends_with_def suffix_def split: if_splits)

lemma is_document_name:
  assumes "is_document lib n b d"
  obtains sid where "n = document_name sid" "is_hex_id sid"
  using assms strip_json_document by (auto simp: is_document_def)

lemma candidate_names:
  assumes "\<And>n d. (n, d) \<in> set cs \<Longrightarrow> \<exists>b. is_document lib n b d"
  shows "\<forall>n \<in> fst ` set cs. plain_name n"
proof
  fix n
  assume "n \<in> fst ` set cs"
  then obtain d where "(n, d) \<in> set cs" by auto
  with assms obtain b where "is_document lib n b d" by blast
  then show "plain_name n" by (rule is_document_name) simp
qed

text \<open>A batch of recoveries keeps account of what still exists.\<close>

lemma recover_candidates_accounted:
  assumes exact: "cleaner_exact present C" and json: "json_faithful lib"
    and cs: "\<forall>(n, d) \<in> set cs. \<exists>b. map_of (ledger_dir m) n = Some (Regular b) \<and> is_document lib n b d"
    and dist: "distinct (map fst cs)"
    and rec: "recover_candidates lib C cs s m = (m', r)"
    and sid: "is_hex_id sid" and k: "accounted_for lib m sid k" "(sid, k) \<in> present (world m')"
  shows "accounted_for lib m' sid k"
proof -
  have names: "\<forall>n \<in> fst ` set cs. plain_name n" by (rule candidate_names) (use cs in fast)
  note frame = recover_candidates_frame [OF exact names rec]
  consider (aside) "set_aside lib m k" | (disk) d where "doc_at lib m (document_name sid) d" "k \<in> doc_keys d"
    using k(1) by (auto simp: accounted_for_def on_disk_def)
  then show ?thesis
  proof cases
    case aside
    with frame show ?thesis by (simp add: accounted_for_def set_aside_def)
  next
    case disk
    then obtain b where b: "to_vec_pretty lib d = Some b" "map_of (ledger_dir m) (document_name sid) = Some (Regular b)"
      by (auto simp: doc_at_def)
    have "map_of (ledger_dir m') (document_name sid) = map_of (ledger_dir m) (document_name sid)
        \<or> (\<exists>d'. doc_at lib m' (document_name sid) d' \<and> k \<in> doc_keys d')"
    proof (cases "document_name sid \<in> fst ` set cs")
      case True
      then obtain d' where d': "(document_name sid, d') \<in> set cs" by auto
      with cs b(2) have "from_slice lib b = Some d'" by (auto simp: is_document_def)
      with json b(1) have "d' = d" by (auto simp: json_faithful_def)
      with recover_candidates_covers [OF exact names dist rec] d' disk(2) k(2) sid show ?thesis by simp
    next
      case False
      with frame sid show ?thesis by simp
    qed
    with disk show ?thesis by (auto simp: accounted_for_def on_disk_def doc_at_def)
  qed
qed

lemma recover_directory_cases:
  assumes "recover_directory lib C expected s es m = (m', r)"
  obtains (closed) s1 cs s2 where "scan_entries lib (sort_key fst es) 0 s m = (m', s1, cs)" "r = Inr s2"
      "\<not> admissions_open s2"
    | (recovering) m1 s1 cs r1 where "scan_entries lib (sort_key fst es) 0 s m = (m1, s1, cs)" "refused s1 = 0"
      "recover_candidates lib C cs s1 m1 = (m', r1)"
      "and_then r1 (\<lambda>s. Ok (s\<lparr>admissions_open := valid_documents s = 0 \<and> refused s = 0\<rparr>)) = r"
proof -
  obtain m1 s1 cs where sc: "scan_entries lib (sort_key fst es) 0 s m = (m1, s1, cs)"
    by (cases "scan_entries lib (sort_key fst es) 0 s m")
  obtain m2 r1 where m2: "recover_candidates lib C cs s1 m1 = (m2, r1)"
    by (cases "recover_candidates lib C cs s1 m1")
  let ?clear = "quarantined_documents s1 = 0 \<and> unproven_documents s1 = 0 \<and> length cs = expected
    \<and> \<not> list_ex (\<lambda>c. ownership_count cs (ownership_id (snd c)) \<noteq> 1) cs"
  show thesis
  proof (cases ?clear)
    case True
    then have "m' = m2" "r = and_then r1 (\<lambda>s. Ok (s\<lparr>admissions_open := valid_documents s = 0 \<and> refused s = 0\<rparr>))"
      using assms sc m2 by (auto simp: recover_directory_def refused_def split: sum.splits if_splits)
    with recovering [OF sc] True m2 show thesis by (simp add: refused_def)
  next
    case False
    with assms sc have "m' = m1" "\<exists>s2. r = Inr s2 \<and> \<not> admissions_open s2"
      by (auto simp: recover_directory_def close_unproven_def split: if_splits)
    with closed sc show thesis by blast
  qed
qed

lemma reconcile_and_recover_cases:
  assumes "reconcile_and_recover lib C m = (m', r)"
  obtains (ended) "reconcile lib m = (m', r)" "\<And>s. r = Inr s \<Longrightarrow> valid_documents s = 0"
    | (closed) m1 s where "reconcile lib m = (m1, Inr s)" "same_files m1 m'"
        "\<And>s'. r = Inr s' \<Longrightarrow> \<not> admissions_open s'"
    | (directory) m1 s m2 where "reconcile lib m = (m1, Inr s)" "valid_documents s \<noteq> 0" "same_files m1 m2"
        "recover_directory lib C (valid_documents s) (s\<lparr>valid_documents := 0\<rparr>) (ledger_dir m2) m2 = (m', r)"
proof -
  obtain m1 r1 where m1: "reconcile lib m = (m1, r1)" by (cases "reconcile lib m")
  obtain m2 r2 where m2: "read_bounded_entries m1 = (m2, r2)" by (cases "read_bounded_entries m1")
  note same = read_bounded_entries_result(1) [OF m2]
  show thesis
  proof (cases "\<exists>s. r1 = Inr s \<and> valid_documents s \<noteq> 0")
    case False
    then have "reconcile lib m = (m', r)" "\<And>s. r = Inr s \<Longrightarrow> valid_documents s = 0"
      using assms m1 by (auto simp: reconcile_and_recover_def split: sum.splits)
    then show thesis by (rule ended)
  next
    case True
    then obtain s where s: "r1 = Inr s" "valid_documents s \<noteq> 0" by blast
    show thesis
    proof (cases "\<exists>es. r2 = Inr (Some es)")
      case True
      then obtain es where es: "r2 = Inr (Some es)" by blast
      with m2 have "es = ledger_dir m2"
        using read_bounded_entries_result(2) [of m1 m2 es] same by (simp add: same_files_def)
      with assms m1 s m2 es
      have "recover_directory lib C (valid_documents s) (s\<lparr>valid_documents := 0\<rparr>) (ledger_dir m2) m2 = (m', r)"
        by (simp add: reconcile_and_recover_def Let_def)
      with directory m1 s same show thesis by blast
    next
      case False
      with assms m1 s m2 have "m' = m2" "isl r \<or> r = Inr (close_unproven (s\<lparr>valid_documents := 0\<rparr>))"
        by (auto simp: reconcile_and_recover_def Let_def split: sum.splits option.splits)
      with m1 s same show thesis by (intro closed [of m1 s]) (auto simp: close_unproven_def)
    qed
  qed
qed

lemma sorted_entries [simp]:
  "distinct (map fst (sort_key f es)) = distinct (map fst es)"
  by (simp add: distinct_map mset_eq_setD [of "sort_key f es" es] distinct_sort)

lemma scanned_documents:
  assumes "scan_entries lib (sort_key fst (ledger_dir m)) t s m = (m', s', cs)" and "hm_wf (ledger_dir m)"
  shows "\<forall>(n, d) \<in> set cs. \<exists>b. map_of (ledger_dir m') n = Some (Regular b) \<and> is_document lib n b d"
proof safe
  fix n d
  assume nd: "(n, d) \<in> set cs"
  with scan_entries_found [OF assms(1)] obtain b where b: "(n, Regular b) \<in> set (ledger_dir m)" "is_document lib n b d"
    by auto
  have "map_of (ledger_dir m') n = map_of (ledger_dir m) n"
    by (rule scan_entries_keeps [OF assms(1)]) (use nd assms(2) in \<open>force+\<close>)
  with b assms(2) show "\<exists>b. map_of (ledger_dir m') n = Some (Regular b) \<and> is_document lib n b d"
    by (auto simp: hm_lookup_mem)
qed

lemma recover_directory_accounted:
  assumes exact: "cleaner_exact present C" and json: "json_faithful lib" and wf: "hm_wf (ledger_dir m)"
    and rec: "recover_directory lib C expected s (ledger_dir m) m = (m', r)"
  shows "present (world m') \<subseteq> present (world m)" and "hm_wf (ledger_dir m')"
    and "is_hex_id sid \<Longrightarrow> accounted_for lib m sid k \<Longrightarrow> (sid, k) \<in> present (world m') \<Longrightarrow> accounted_for lib m' sid k"
    and "set_aside lib m k \<Longrightarrow> set_aside lib m' k"
proof -
  from rec have "present (world m') \<subseteq> present (world m) \<and> hm_wf (ledger_dir m')
    \<and> (is_hex_id sid \<longrightarrow> accounted_for lib m sid k \<longrightarrow> (sid, k) \<in> present (world m') \<longrightarrow> accounted_for lib m' sid k)
    \<and> (set_aside lib m k \<longrightarrow> set_aside lib m' k)"
  proof (cases rule: recover_directory_cases)
    case (closed s1 cs s2)
    note mv = scan_entries_moves [OF closed(1)]
    with wf show ?thesis using only_moves_accounted [OF mv] only_moves_set_aside [OF mv] by (auto simp: only_moves_def)
  next
    case (recovering m1 s1 cs r1)
    note mv = scan_entries_moves [OF recovering(1)] and docs = scanned_documents [OF recovering(1) wf]
    have dist: "distinct (map fst cs)" using scan_entries_names(2) [OF recovering(1)] wf by simp
    have names: "\<forall>n \<in> fst ` set cs. plain_name n" by (rule candidate_names) (use docs in fast)
    from recover_candidates_frame [OF exact names recovering(3)]
    have "present (world m') \<subseteq> present (world m)" "hm_wf (ledger_dir m')" "quarantine_dir m' = quarantine_dir m1"
      using mv wf by (auto simp: only_moves_def)
    moreover have "is_hex_id sid \<longrightarrow> accounted_for lib m sid k \<longrightarrow> (sid, k) \<in> present (world m') \<longrightarrow> accounted_for lib m' sid k"
      using recover_candidates_accounted [OF exact json docs dist recovering(3)] only_moves_accounted [OF mv] by blast
    ultimately show ?thesis using only_moves_set_aside [OF mv] by (simp add: set_aside_def)
  qed
  then show "present (world m') \<subseteq> present (world m)" and "hm_wf (ledger_dir m')"
    and "is_hex_id sid \<Longrightarrow> accounted_for lib m sid k \<Longrightarrow> (sid, k) \<in> present (world m') \<Longrightarrow> accounted_for lib m' sid k"
    and "set_aside lib m k \<Longrightarrow> set_aside lib m' k"
    by auto
qed

lemma same_files_accounted: "same_files m m' \<Longrightarrow> accounted_for lib m' sid k = accounted_for lib m sid k"
  by (simp add: same_files_def accounted_for_def on_disk_def set_aside_def doc_at_def)

text \<open>A start of the service keeps account of every resource that still exists.\<close>

lemma reconcile_and_recover_accounted:
  assumes exact: "cleaner_exact present C" and json: "json_faithful lib" and wf: "hm_wf (ledger_dir m)"
    and rec: "reconcile_and_recover lib C m = (m', r)"
  shows "present (world m') \<subseteq> present (world m)" and "hm_wf (ledger_dir m')"
    and "is_hex_id sid \<Longrightarrow> accounted_for lib m sid k \<Longrightarrow> (sid, k) \<in> present (world m') \<Longrightarrow> accounted_for lib m' sid k"
proof -
  from rec have "present (world m') \<subseteq> present (world m) \<and> hm_wf (ledger_dir m')
    \<and> (is_hex_id sid \<longrightarrow> accounted_for lib m sid k \<longrightarrow> (sid, k) \<in> present (world m') \<longrightarrow> accounted_for lib m' sid k)"
  proof (cases rule: reconcile_and_recover_cases)
    case ended
    note mv = reconcile_result(1) [OF ended(1)]
    with wf only_moves_accounted [OF mv] show ?thesis by (auto simp: only_moves_def)
  next
    case (closed m1 s)
    have mv: "only_moves m m'"
      by (rule only_moves_trans [OF reconcile_result(1) [OF closed(1)] only_moves_same [OF closed(2)]])
    with wf only_moves_accounted [OF mv] show ?thesis by (auto simp: only_moves_def)
  next
    case (directory m1 s m2)
    have mv: "only_moves m m2"
      by (rule only_moves_trans [OF reconcile_result(1) [OF directory(1)] only_moves_same [OF directory(3)]])
    then have wf2: "hm_wf (ledger_dir m2)" and w: "world m2 = world m" using wf by (simp_all add: only_moves_def)
    from recover_directory_accounted(1-3) [OF exact json wf2 directory(4)] only_moves_accounted [OF mv] w
    show ?thesis by auto
  qed
  then show "present (world m') \<subseteq> present (world m)" and "hm_wf (ledger_dir m')"
    and "is_hex_id sid \<Longrightarrow> accounted_for lib m sid k \<Longrightarrow> (sid, k) \<in> present (world m') \<Longrightarrow> accounted_for lib m' sid k"
    by auto
qed

lemma recover_directory_open:
  assumes exact: "cleaner_exact present C" and wf: "hm_wf (ledger_dir m)"
    and rec: "recover_directory lib C expected s (ledger_dir m) m = (m', Inr s')"
    and start: "admissions_open s'" "valid_documents s = 0"
  shows "refused s = 0" and "ledger_dir m' = []"
    and "map_of (ledger_dir m) n = Some (Regular b) \<Longrightarrow> from_slice lib b = Some d \<Longrightarrow> k \<in> doc_keys d
      \<Longrightarrow> (ledger_id n, k) \<notin> present (world m')"
proof -
  from rec obtain m1 s1 cs s2 where sc: "scan_entries lib (sort_key fst (ledger_dir m)) 0 s m = (m1, s1, cs)" "refused s1 = 0"
    and rc: "recover_candidates lib C cs s1 m1 = (m', Inr s2)"
    and s': "s' = s2\<lparr>admissions_open := valid_documents s2 = 0 \<and> refused s2 = 0\<rparr>"
    by (cases rule: recover_directory_cases) (use start(1) in \<open>auto simp: and_then_Ok_iff\<close>)
  show s0: "refused s = 0" using scan_entries_mono [OF sc(1)] sc(2) by simp
  have v1: "valid_documents s1 = 0" using scan_entries_counts [OF sc(1)] start(2) by simp
  have clean: "same_files m m1" "map fst cs = map fst (sort_key fst (ledger_dir m))"
    using scan_entries_clean [OF sc(1)] sc(2) s0 by auto
  note docs = scanned_documents [OF sc(1) wf]
  have names: "\<forall>n \<in> fst ` set cs. plain_name n" by (rule candidate_names) (use docs in fast)
  have dist: "distinct (map fst cs)" using scan_entries_names(2) [OF sc(1)] wf by simp
  have settled: "map_of (ledger_dir m') n = (if n \<in> fst ` set cs then None else map_of (ledger_dir m1) n)"
      "(n, d) \<in> set cs \<Longrightarrow> k \<in> doc_keys d \<Longrightarrow> (ledger_id n, k) \<notin> present (world m')" for n d k
    using recover_candidates_all [OF exact names dist rc] s' v1 start(1) by auto
  have all_names: "fst ` set cs = fst ` set (ledger_dir m)"
    using arg_cong [OF clean(2), of set] by simp
  have "map_of (ledger_dir m') n = None" for n
    using settled(1) [of n] clean(1) all_names by (simp add: same_files_def map_of_eq_None_iff)
  then have "n \<notin> fst ` set (ledger_dir m')" for n by (simp flip: map_of_eq_None_iff)
  then show "ledger_dir m' = []" by (cases "ledger_dir m'") force+
  assume b: "map_of (ledger_dir m) n = Some (Regular b)" "from_slice lib b = Some d" "k \<in> doc_keys d"
  have "n \<in> fst ` set cs" using b(1) all_names map_of_SomeD by force
  then obtain d' where d': "(n, d') \<in> set cs" by auto
  with docs b clean(1) have "d' = d" by (auto simp: is_document_def same_files_def)
  with settled(2) d' b(3) show "(ledger_id n, k) \<notin> present (world m')" by blast
qed

lemma open_start_clean:
  assumes "cleaner_exact present C" and "hm_wf (ledger_dir m)"
    and "reconcile_and_recover lib C m = (m', Ok s)" and "admissions_open s"
  shows "ledger_dir m' = []
    \<and> (\<forall>n b d k. map_of (ledger_dir m) n = Some (Regular b) \<and> from_slice lib b = Some d \<and> k \<in> doc_keys d
         \<longrightarrow> (ledger_id n, k) \<notin> present (world m'))"
  using assms(3)
proof (cases rule: reconcile_and_recover_cases)
  case ended
  from reconcile_result(2) [OF ended(1) refl assms(4)] show ?thesis by (auto simp: same_files_def)
next
  case closed
  with assms(4) show ?thesis by blast
next
  case (directory m1 s1 m2)
  have "hm_wf (ledger_dir m2)"
    using reconcile_result(1) [OF directory(1)] directory(3) assms(2) by (simp add: only_moves_def same_files_def)
  note open_dir = recover_directory_open [OF assms(1) this directory(4) assms(4)]
  have "refused s1 = 0" using open_dir(1) by (simp add: refused_def)
  with reconcile_result(3) [OF directory(1) refl] directory(3) have "ledger_dir m2 = ledger_dir m"
    by (simp add: same_files_def)
  with open_dir(2,3) show ?thesis by simp
qed

end
