(* ===== verification/Ledger_System.thy ===== *)
theory Ledger_System
  imports Ledger_Reconcile
begin

text \<open>
  The ledger as the service uses it: sandboxes reserve documents, write intents, create resources and
  finish; the service may crash at any point and start again; every file operation may fail. Whatever
  happens, a resource that exists is recorded in a document on disk.
\<close>

section \<open>Steps of the service\<close>

text \<open>
  The machine, and the open transaction of each sandbox with the keys whose intent was written. The
  callers create a resource only after its intent was written, commit a record under the key of its
  intent, and finish a transaction only when the resources of the sandbox are gone
  (\<^verbatim>\<open>rpc/sandbox.rs\<close>, \<^verbatim>\<open>engine.rs\<close>, \<^verbatim>\<open>windows/job.rs\<close>).
\<close>

record 'w service =
  host :: "'w machine"
  transactions :: "bytes \<Rightarrow> (ResourceTransaction \<times> bytes set) option"

definition with_tx :: "'w service \<Rightarrow> bytes \<Rightarrow> ResourceTransaction \<Rightarrow> bytes set \<Rightarrow> 'w machine \<Rightarrow> 'w service" where
  "with_tx s sid tx granted m = \<lparr>host = m, transactions = (transactions s)(sid \<mapsto> (tx, granted))\<rparr>"

definition same_key_at :: "ResourceTransaction \<Rightarrow> nat \<Rightarrow> ResourceRecord \<Rightarrow> bool" where
  "same_key_at tx i resource \<longleftrightarrow>
     (let rs = doc_resources (tx_document tx) in i < length rs \<longrightarrow> stable_key resource = stable_key (rs ! i))"

inductive ledger_step ::
    "ledger_json \<Rightarrow> 'w cleaner \<Rightarrow> ('w \<Rightarrow> (bytes \<times> bytes) set) \<Rightarrow> 'w service \<Rightarrow> 'w service \<Rightarrow> bool"
  for lib :: ledger_json and C :: "'w cleaner" and present :: "'w \<Rightarrow> (bytes \<times> bytes) set"
where
  step_reserve: "transactions s sid = None \<Longrightarrow> reserve lib sid owner (host s) = (m, Inr tx)
    \<Longrightarrow> ledger_step lib C present s (with_tx s sid tx {} m)"
| step_reserve_fails: "transactions s sid = None \<Longrightarrow> reserve lib sid owner (host s) = (m, Inl e)
    \<Longrightarrow> ledger_step lib C present s (s\<lparr>host := m\<rparr>)"
| step_set_state: "transactions s sid = Some (tx, granted) \<Longrightarrow> set_state lib st tx (host s) = (tx', m, r)
    \<Longrightarrow> ledger_step lib C present s (with_tx s sid tx' granted m)"
| step_intent: "transactions s sid = Some (tx, granted) \<Longrightarrow> intent lib resource tx (host s) = (tx', m, r)
    \<Longrightarrow> ledger_step lib C present s
          (with_tx s sid tx' (if is_ok r then insert (stable_key resource) granted else granted) m)"
| step_commit: "transactions s sid = Some (tx, granted) \<Longrightarrow> commit lib i tx (host s) = (tx', m, r)
    \<Longrightarrow> ledger_step lib C present s (with_tx s sid tx' granted m)"
| step_replace: "transactions s sid = Some (tx, granted) \<Longrightarrow> same_key_at tx i resource
    \<Longrightarrow> replace_and_commit lib i resource tx (host s) = (tx', m, r)
    \<Longrightarrow> ledger_step lib C present s (with_tx s sid tx' granted m)"
| step_finish: "transactions s sid = Some (tx, granted) \<Longrightarrow> (\<And>k. (sid, k) \<notin> present (world (host s)))
    \<Longrightarrow> finish lib tx (host s) = (tx', m, r) \<Longrightarrow> ledger_step lib C present s (with_tx s sid tx' {} m)"
| step_drop: "ledger_step lib C present s (s\<lparr>transactions := (transactions s)(sid := None)\<rparr>)"
| step_create: "transactions s sid = Some (tx, granted) \<Longrightarrow> k \<in> granted
    \<Longrightarrow> present w \<subseteq> insert (sid, k) (present (world (host s)))
    \<Longrightarrow> ledger_step lib C present s (s\<lparr>host := (host s)\<lparr>world := w\<rparr>\<rparr>)"
| step_vanish: "present w \<subseteq> present (world (host s))
    \<Longrightarrow> ledger_step lib C present s (s\<lparr>host := (host s)\<lparr>world := w\<rparr>\<rparr>)"
| step_crash: "ledger_step lib C present s (s\<lparr>transactions := Map.empty\<rparr>)"
| step_start: "transactions s = Map.empty \<Longrightarrow> reconcile_and_recover lib C (host s) = (m, r)
    \<Longrightarrow> ledger_step lib C present s (s\<lparr>host := m\<rparr>)"
| step_start_health_only: "transactions s = Map.empty \<Longrightarrow> reconcile lib (host s) = (m, r)
    \<Longrightarrow> ledger_step lib C present s (s\<lparr>host := m\<rparr>)"

text \<open>At first nothing of the service exists on the host; the directories may hold anything.\<close>

definition ledger_init :: "ledger_json \<Rightarrow> 'w cleaner \<Rightarrow> ('w \<Rightarrow> (bytes \<times> bytes) set) \<Rightarrow> 'w service \<Rightarrow> bool" where
  "ledger_init lib C present s \<longleftrightarrow>
     cleaner_exact present C \<and> json_faithful lib \<and> hm_wf (ledger_dir (host s)) \<and> transactions s = Map.empty
     \<and> present (world (host s)) = {}"

section \<open>The invariant\<close>

definition tx_ok :: "ledger_json \<Rightarrow> 'w machine \<Rightarrow> bytes \<Rightarrow> ResourceTransaction \<Rightarrow> bytes set \<Rightarrow> bool" where
  "tx_ok lib m sid tx granted \<longleftrightarrow>
     is_hex_id sid \<and> tx_path tx = document_name sid \<and> granted \<subseteq> doc_keys (tx_document tx)
     \<and> (\<forall>k \<in> granted. on_disk lib m sid k)"

definition known :: "ledger_json \<Rightarrow> 'w service \<Rightarrow> bytes \<Rightarrow> bytes \<Rightarrow> bool" where
  "known lib s sid k \<longleftrightarrow>
     (\<exists>tx granted. transactions s sid = Some (tx, granted) \<and> k \<in> granted)
     \<or> (transactions s sid = None \<and> on_disk lib (host s) sid k) \<or> set_aside lib (host s) k"

definition ledger_inv :: "ledger_json \<Rightarrow> 'w cleaner \<Rightarrow> ('w \<Rightarrow> (bytes \<times> bytes) set) \<Rightarrow> 'w service \<Rightarrow> bool" where
  "ledger_inv lib C present s \<longleftrightarrow>
     cleaner_exact present C \<and> json_faithful lib \<and> hm_wf (ledger_dir (host s))
     \<and> (\<forall>sid tx granted. transactions s sid = Some (tx, granted) \<longrightarrow> tx_ok lib (host s) sid tx granted)
     \<and> (\<forall>sid k. (sid, k) \<in> present (world (host s)) \<longrightarrow> is_hex_id sid \<and> known lib s sid k)"

lemma ledger_invD:
  assumes "ledger_inv lib C present s"
  shows "transactions s sid = Some (tx, granted) \<Longrightarrow> tx_ok lib (host s) sid tx granted"
    and "(sid, k) \<in> present (world (host s)) \<Longrightarrow> is_hex_id sid \<and> known lib s sid k"
  using assms by (auto simp: ledger_inv_def)

text \<open>What is known of a sandbox is recorded on disk.\<close>

lemma known_accounted: "ledger_inv lib C present s \<Longrightarrow> known lib s sid k \<Longrightarrow> accounted_for lib (host s) sid k"
  by (auto simp: known_def accounted_for_def ledger_inv_def tx_ok_def split: option.splits)

lemma on_disk_frame:
  "touches_only p m m' \<Longrightarrow> document_name sid \<noteq> p \<Longrightarrow> on_disk lib m sid k \<Longrightarrow> on_disk lib m' sid k"
  by (auto simp: on_disk_def touches_only_def intro: doc_at_frame)

text \<open>
  An operation on the document of one sandbox that leaves the keys of its intents on disk and in memory
  keeps the invariant.
\<close>

lemma tx_update_inv:
  assumes inv: "ledger_inv lib C present s" and frame: "touches_only (document_name sid) (host s) m"
    and ok: "tx_ok lib m sid tx' granted'"
    and keeps: "\<And>k. (sid, k) \<in> present (world (host s)) \<Longrightarrow> known lib s sid k \<Longrightarrow> k \<in> granted' \<or> set_aside lib m k"
  shows "ledger_inv lib C present (with_tx s sid tx' granted' m)"
proof -
  have aside: "set_aside lib m k = set_aside lib (host s) k" for k
    using frame by (simp add: set_aside_def touches_only_def keeps_others_def)
  have other: "on_disk lib m x k" if "x \<noteq> sid" "on_disk lib (host s) x k" for x k
    using that on_disk_frame [OF frame] by simp
  have "tx_ok lib m x tx granted" if "transactions s x = Some (tx, granted)" "x \<noteq> sid" for x tx granted
    using ledger_invD(1) [OF inv that(1)] other [OF that(2)] by (auto simp: tx_ok_def)
  moreover have "is_hex_id x \<and> known lib (with_tx s sid tx' granted' m) x k" if "(x, k) \<in> present (world m)" for x k
  proof -
    have "(x, k) \<in> present (world (host s))" using that frame by (simp add: touches_only_def)
    note known = ledger_invD(2) [OF inv this]
    show ?thesis
    proof (cases "x = sid")
      case True
      with keeps known \<open>(x, k) \<in> present (world (host s))\<close> show ?thesis by (auto simp: known_def with_tx_def)
    next
      case False
      with known other aside show ?thesis by (auto simp: known_def with_tx_def split: option.splits)
    qed
  qed
  ultimately show ?thesis using inv ok frame
    by (auto simp: ledger_inv_def with_tx_def touches_only_def keeps_others_def)
qed

lemma persist_inv:
  assumes inv: "ledger_inv lib C present s" and tx0: "transactions s sid = Some (tx0, granted)"
    and tx: "tx_path tx = tx_path tx0" "granted \<subseteq> doc_keys (tx_document tx)"
    and w: "touch_and_persist lib tx (host s) = (tx', m, r)"
    and new: "new \<subseteq> doc_keys (tx_document tx)" "new = {} \<or> is_ok r"
  shows "ledger_inv lib C present (with_tx s sid tx' (new \<union> granted) m)"
proof -
  note ok = ledger_invD(1) [OF inv tx0]
  have sid: "is_hex_id sid" and path: "tx_path tx = document_name sid" using ok tx(1) by (simp_all add: tx_ok_def)
  then have plain: "plain_name (tx_path tx)" by simp
  note res = touch_and_persist_result [OF w plain]
  have keys: "doc_keys (tx_document tx') = doc_keys (tx_document tx)" using res(2) by (simp add: doc_keys_def)
  have disk: "on_disk lib m sid k" if "k \<in> new \<union> granted" for k
  proof (cases "doc_at lib m (document_name sid) (tx_document tx')")
    case True
    with that keys tx(2) new(1) show ?thesis by (auto simp: on_disk_def)
  next
    case False
    with res(4,5) path have "map_of (ledger_dir m) (document_name sid) = map_of (ledger_dir (host s)) (document_name sid)"
      and "\<not> is_ok r" by auto
    with that new(2) ok show ?thesis by (auto simp: tx_ok_def on_disk_def doc_at_def)
  qed
  have aside: "set_aside lib m k = set_aside lib (host s) k" for k
    using res(3) by (simp add: set_aside_def touches_only_def keeps_others_def)
  show ?thesis
  proof (rule tx_update_inv [OF inv])
    show "touches_only (document_name sid) (host s) m" using res(3) path by simp
    show "tx_ok lib m sid tx' (new \<union> granted)"
      using sid path res(1) keys tx(2) new(1) disk by (auto simp: tx_ok_def)
    show "\<And>k. known lib s sid k \<Longrightarrow> k \<in> new \<union> granted \<or> set_aside lib m k"
      using tx0 aside by (auto simp: known_def)
  qed
qed

section \<open>Every step keeps the invariant\<close>

lemma reserve_result:
  assumes "reserve lib sid owner m = (m', r)"
  shows "touches_only (document_name sid) m m'"
    and "map_of (ledger_dir m) (document_name sid) \<noteq> None
      \<Longrightarrow> map_of (ledger_dir m') (document_name sid) = map_of (ledger_dir m) (document_name sid)"
    and "r = Inr tx \<Longrightarrow> is_hex_id sid \<and> tx_path tx = document_name sid
      \<and> map_of (ledger_dir m) (document_name sid) = None"
proof -
  obtain m1 r1 where m1: "now_unix_ms m = (m1, r1)" by (cases "now_unix_ms m")
  obtain m2 r2 where m2: "random_hex_id m1 = (m2, r2)" by (cases "random_hex_id m1")
  have same1: "same_files m m1" by (rule now_unix_ms_same [OF m1])
  have same: "same_files m m2"
    using same1 m2 by (auto simp: random_hex_id_def same_files_def dest!: next_random_same split: prod.splits option.splits)
  consider (early) "same_files m m'" "isl r"
    | (created) d r3 where "is_hex_id sid" "atomic_create lib (document_name sid) d m2 = (m', r3)"
        "r = and_then r3 (\<lambda>_. Ok \<lparr>tx_path = document_name sid, tx_document = d\<rparr>)"
    using assms m1 m2 same same1
    by (cases r1; cases r2) (auto simp: reserve_def Let_def split: prod.splits if_splits)
  then have "touches_only (document_name sid) m m'
    \<and> (map_of (ledger_dir m) (document_name sid) \<noteq> None
      \<longrightarrow> map_of (ledger_dir m') (document_name sid) = map_of (ledger_dir m) (document_name sid))
    \<and> (r = Inr tx \<longrightarrow> is_hex_id sid \<and> tx_path tx = document_name sid
      \<and> map_of (ledger_dir m) (document_name sid) = None)"
  proof cases
    case early
    then show ?thesis by (auto simp: touches_only_same same_files_def)
  next
    case (created d r3)
    note c = atomic_create_result [OF created(2)]
    from c(1) same have "touches_only (document_name sid) m m'"
      using touches_only_trans [OF touches_only_same] by blast
    with c(3,4) created(1,3) same show ?thesis by (auto simp: same_files_def and_then_Ok_iff)
  qed
  then show "touches_only (document_name sid) m m'"
    and "map_of (ledger_dir m) (document_name sid) \<noteq> None
      \<Longrightarrow> map_of (ledger_dir m') (document_name sid) = map_of (ledger_dir m) (document_name sid)"
    and "r = Inr tx \<Longrightarrow> is_hex_id sid \<and> tx_path tx = document_name sid
      \<and> map_of (ledger_dir m) (document_name sid) = None"
    by auto
qed

lemma finish_result:
  assumes "finish lib tx m = (tx', m', r)" and p: "plain_name (tx_path tx)"
  shows "tx_path tx' = tx_path tx" and "touches_only (tx_path tx) m m'"
proof -
  let ?tx1 = "tx\<lparr>tx_document := (tx_document tx)\<lparr>doc_state := Cleaning\<rparr>\<rparr>"
  obtain tx2 m2 r2 where w1: "touch_and_persist lib ?tx1 m = (tx2, m2, r2)"
    by (cases "touch_and_persist lib ?tx1 m")
  note res1 = touch_and_persist_result [OF w1]
  obtain tx3 m3 r3 where w2: "touch_and_persist lib (set_resources [] tx2) m2 = (tx3, m3, r3)"
    by (cases "touch_and_persist lib (set_resources [] tx2) m2")
  note res2 = touch_and_persist_result [OF w2]
  obtain m4 r4 where w3: "remove_if_exists (tx_path tx3) m3 = (m4, r4)" by (cases "remove_if_exists (tx_path tx3) m3")
  have "tx' = tx2 \<and> m' = m2 \<or> tx' = tx3 \<and> (m' = m3 \<or> m' = m4)"
    using assms(1) w1 w2 w3 by (auto simp: finish_def durable_remove_def split: sum.splits)
  with res1(1,3) res2(1,3) remove_if_exists_result(1) [OF w3] p touches_only_trans
  show "tx_path tx' = tx_path tx" and "touches_only (tx_path tx) m m'" by auto
qed

lemma reserve_inv:
  assumes inv: "ledger_inv lib C present s" and "transactions s sid = None"
    and "reserve lib sid owner (host s) = (m, Inr tx)"
  shows "ledger_inv lib C present (with_tx s sid tx {} m)"
proof -
  note r = reserve_result [OF assms(3)]
  show ?thesis
  proof (rule tx_update_inv [OF inv r(1)])
    show "tx_ok lib m sid tx {}" using r(3) by (simp add: tx_ok_def)
    fix k
    assume "known lib s sid k"
    then have "set_aside lib (host s) k" using assms(2) r(3) by (auto simp: known_def on_disk_def doc_at_def)
    then show "k \<in> {} \<or> set_aside lib m k" using r(1) by (simp add: set_aside_def touches_only_def keeps_others_def)
  qed
qed

text \<open>A step that keeps all documents and creates nothing.\<close>

lemma quiet_inv:
  assumes inv: "ledger_inv lib C present s"
    and disk: "\<And>x k. on_disk lib (host s) x k \<Longrightarrow> on_disk lib m x k"
    and aside: "\<And>k. set_aside lib (host s) k \<Longrightarrow> set_aside lib m k"
    and world: "present (world m) \<subseteq> present (world (host s))" and wf: "hm_wf (ledger_dir m)"
  shows "ledger_inv lib C present (s\<lparr>host := m\<rparr>)"
proof -
  have "tx_ok lib m x tx granted" if "transactions s x = Some (tx, granted)" for x tx granted
    using ledger_invD(1) [OF inv that] disk by (auto simp: tx_ok_def)
  moreover have "is_hex_id x \<and> known lib (s\<lparr>host := m\<rparr>) x k" if "(x, k) \<in> present (world m)" for x k
  proof -
    have "is_hex_id x \<and> known lib s x k" using that world ledger_invD(2) [OF inv] by blast
    then show ?thesis using disk aside by (auto simp: known_def split: option.splits)
  qed
  ultimately show ?thesis using inv wf by (simp add: ledger_inv_def)
qed

lemma reserve_fails_inv:
  assumes inv: "ledger_inv lib C present s" and "reserve lib sid owner (host s) = (m, Inl e)"
  shows "ledger_inv lib C present (s\<lparr>host := m\<rparr>)"
proof -
  note r = reserve_result [OF assms(2)]
  have "on_disk lib m x k" if "on_disk lib (host s) x k" for x k
    using that r(2) on_disk_frame [OF r(1)] by (cases "x = sid") (auto simp: on_disk_def doc_at_def)
  with r(1) inv show ?thesis
    by (intro quiet_inv) (auto simp: set_aside_def touches_only_def keeps_others_def ledger_inv_def)
qed

lemma granted_keys:
  "ledger_inv lib C present s \<Longrightarrow> transactions s sid = Some (tx, granted) \<Longrightarrow> granted \<subseteq> doc_keys (tx_document tx)"
  using ledger_invD(1) by (fastforce simp: tx_ok_def)

lemma set_state_inv:
  assumes "ledger_inv lib C present s" and "transactions s sid = Some (tx, granted)"
    and "set_state lib st tx (host s) = (tx', m, r)"
  shows "ledger_inv lib C present (with_tx s sid tx' granted m)"
  using persist_inv [OF assms(1,2) _ _ assms(3) [unfolded set_state_def], of "{}"] granted_keys [OF assms(1,2)] by simp

lemma intent_inv:
  assumes "ledger_inv lib C present s" and "transactions s sid = Some (tx, granted)"
    and "intent lib resource tx (host s) = (tx', m, r)"
  shows "ledger_inv lib C present
    (with_tx s sid tx' (if is_ok r then insert (stable_key resource) granted else granted) m)"
proof -
  let ?tx = "set_resources (doc_resources (tx_document tx) @ [set_committed False resource]) tx"
  obtain tx2 m2 r2 where w: "touch_and_persist lib ?tx (host s) = (tx2, m2, r2)"
    by (cases "touch_and_persist lib ?tx (host s)")
  with assms(3) have eq: "tx' = tx2" "m = m2" "r = and_then r2 (\<lambda>_. Ok (length (doc_resources (tx_document tx2)) - 1))"
    by (auto simp: intent_def Let_def)
  then have ok: "is_ok r = is_ok r2" by (cases r2) simp_all
  have "ledger_inv lib C present (with_tx s sid tx2 ((if is_ok r then {stable_key resource} else {}) \<union> granted) m2)"
    by (rule persist_inv [OF assms(1,2) _ _ w]) (use granted_keys [OF assms(1,2)] ok in \<open>auto simp: doc_keys_def\<close>)
  with eq show ?thesis by (cases "is_ok r") simp_all
qed

text \<open>A record that is replaced under its key.\<close>

lemma replace_inv:
  assumes inv: "ledger_inv lib C present s" and tx: "transactions s sid = Some (tx, granted)"
    and key: "same_key_at tx i resource" and "replace_and_commit lib i resource tx (host s) = (tx', m, r)"
  shows "ledger_inv lib C present (with_tx s sid tx' granted m)"
proof (cases "i < length (doc_resources (tx_document tx))")
  case True
  let ?rs = "doc_resources (tx_document tx)"
  have "map stable_key (?rs[i := set_committed True resource]) = map stable_key ?rs"
    using True key by (simp add: map_update list_update_same_conv same_key_at_def)
  from arg_cong [OF this, of set]
  have "stable_key ` set (?rs[i := set_committed True resource]) = doc_keys (tx_document tx)"
    by (simp add: doc_keys_def)
  with granted_keys [OF inv tx]
  have g: "granted \<subseteq> doc_keys (tx_document (set_resources (?rs[i := set_committed True resource]) tx))" by simp
  have w: "touch_and_persist lib (set_resources (?rs[i := set_committed True resource]) tx) (host s) = (tx', m, r)"
    using assms(4) True by (simp add: replace_and_commit_def Let_def)
  from persist_inv [OF inv tx _ g w, of "{}"] show ?thesis by simp
next
  case False
  with assms(4) have "tx' = tx" "m = host s" by (simp_all add: replace_and_commit_def Let_def)
  then have "with_tx s sid tx' granted m = s" using tx by (simp add: with_tx_def fun_upd_idem)
  with inv show ?thesis by simp
qed

lemma commit_is_replace:
  "commit lib i tx m = replace_and_commit lib i (doc_resources (tx_document tx) ! i) tx m"
  by (simp add: commit_def replace_and_commit_def)

lemma finish_inv:
  assumes inv: "ledger_inv lib C present s" and tx: "transactions s sid = Some (tx, granted)"
    and gone: "\<And>k. (sid, k) \<notin> present (world (host s))" and "finish lib tx (host s) = (tx', m, r)"
  shows "ledger_inv lib C present (with_tx s sid tx' {} m)"
proof -
  have ok: "tx_ok lib (host s) sid tx granted" by (rule ledger_invD(1) [OF inv tx])
  then have "plain_name (tx_path tx)" by (simp add: tx_ok_def)
  note r = finish_result [OF assms(4) this]
  show ?thesis by (rule tx_update_inv [OF inv]) (use r ok gone in \<open>auto simp: tx_ok_def\<close>)
qed

text \<open>Closing transactions: what their resources need is on disk.\<close>

lemma forget_inv:
  assumes inv: "ledger_inv lib C present s" and sub: "\<And>sid. txs sid = None \<or> txs sid = transactions s sid"
  shows "ledger_inv lib C present (s\<lparr>transactions := txs\<rparr>)"
proof -
  have "known lib (s\<lparr>transactions := txs\<rparr>) sid k" if "known lib s sid k" for sid k
  proof (cases "txs sid")
    case None
    with known_accounted [OF inv that] show ?thesis by (simp add: known_def accounted_for_def)
  next
    case (Some a)
    with sub [of sid] that show ?thesis by (simp add: known_def)
  qed
  moreover have "tx_ok lib (host s) sid tx granted" if "txs sid = Some (tx, granted)" for sid tx granted
    using that sub [of sid] ledger_invD(1) [OF inv] by simp
  ultimately show ?thesis using inv by (simp add: ledger_inv_def)
qed

lemma create_inv:
  assumes inv: "ledger_inv lib C present s" and tx: "transactions s sid = Some (tx, granted)" "k \<in> granted"
    and w: "present w \<subseteq> insert (sid, k) (present (world (host s)))"
  shows "ledger_inv lib C present (s\<lparr>host := (host s)\<lparr>world := w\<rparr>\<rparr>)"
proof -
  let ?m = "(host s)\<lparr>world := w\<rparr>"
  have same: "on_disk lib ?m = on_disk lib (host s)" "set_aside lib ?m = set_aside lib (host s)"
    by (simp_all add: on_disk_def set_aside_def doc_at_def fun_eq_iff)
  have "is_hex_id x \<and> known lib s x j" if "(x, j) \<in> present w" for x j
  proof (cases "(x, j) = (sid, k)")
    case True
    with tx ledger_invD(1) [OF inv tx(1)] show ?thesis by (simp add: known_def tx_ok_def)
  next
    case False
    with that w have "(x, j) \<in> present (world (host s))" by blast
    then show ?thesis by (rule ledger_invD(2) [OF inv])
  qed
  then show ?thesis using inv same by (simp add: ledger_inv_def known_def tx_ok_def)
qed

lemma vanish_inv:
  assumes "ledger_inv lib C present s" and "present w \<subseteq> present (world (host s))"
  shows "ledger_inv lib C present (s\<lparr>host := (host s)\<lparr>world := w\<rparr>\<rparr>)"
  using assms by (intro quiet_inv) (auto simp: on_disk_def set_aside_def doc_at_def ledger_inv_def)

lemma start_inv:
  assumes inv: "ledger_inv lib C present s" and tx: "transactions s = Map.empty"
    and m: "present (world m) \<subseteq> present (world (host s))" "hm_wf (ledger_dir m)"
    and acc: "\<And>sid k. is_hex_id sid \<Longrightarrow> accounted_for lib (host s) sid k \<Longrightarrow> (sid, k) \<in> present (world m)
      \<Longrightarrow> accounted_for lib m sid k"
  shows "ledger_inv lib C present (s\<lparr>host := m\<rparr>)"
proof -
  have "is_hex_id sid \<and> accounted_for lib m sid k" if "(sid, k) \<in> present (world m)" for sid k
  proof -
    have "is_hex_id sid \<and> known lib s sid k" using that m(1) ledger_invD(2) [OF inv] by blast
    then show ?thesis using acc that known_accounted [OF inv] by blast
  qed
  then show ?thesis using inv tx m(2) by (simp add: ledger_inv_def known_def accounted_for_def)
qed

lemma ledger_step_inv:
  assumes "ledger_step lib C present s t" and inv: "ledger_inv lib C present s"
  shows "ledger_inv lib C present t"
  using assms(1)
proof cases
  case (step_commit sid tx granted i tx' m r)
  have "same_key_at tx i (doc_resources (tx_document tx) ! i)" by (simp add: same_key_at_def)
  from replace_inv [OF inv step_commit(2) this] step_commit(1,3) show ?thesis by (simp add: commit_is_replace)
next
  case (step_start m r)
  have "cleaner_exact present C" "json_faithful lib" "hm_wf (ledger_dir (host s))"
    using inv by (simp_all add: ledger_inv_def)
  note rec = reconcile_and_recover_accounted [OF this step_start(3)]
  show ?thesis unfolding step_start(1) by (rule start_inv [OF inv step_start(2) rec])
next
  case (step_start_health_only m r)
  note mv = reconcile_result(1) [OF step_start_health_only(3)]
  show ?thesis unfolding step_start_health_only(1)
    by (rule start_inv [OF inv step_start_health_only(2)])
      (use mv inv only_moves_accounted [OF mv] in \<open>auto simp: only_moves_def ledger_inv_def\<close>)
next
  case (step_intent sid tx granted resource tx' m r)
  show ?thesis unfolding step_intent(1) by (rule intent_inv [OF inv step_intent(2,3)])
next
  case (step_drop sid)
  show ?thesis unfolding step_drop by (rule forget_inv [OF inv]) simp
qed (use inv in \<open>auto intro: reserve_inv reserve_fails_inv set_state_inv replace_inv finish_inv
      forget_inv create_inv vanish_inv\<close>)

interpretation ledger_safety: safety "ledger_init lib C present" "ledger_step lib C present" "ledger_inv lib C present"
  for lib C present
proof
  show "ledger_inv lib C present s" if "ledger_init lib C present s" for s
    using that by (simp add: ledger_init_def ledger_inv_def)
  show "ledger_inv lib C present t" if "ledger_inv lib C present s" "ledger_step lib C present s t" for s t
    using ledger_step_inv that by blast
qed

end
