(* ===== verification/Ledger_Progress.thy ===== *)
theory Ledger_Progress
  imports Ledger_System
begin

text \<open>
  When nothing fails, a start of the service removes what the documents record and opens for work. The
  assumptions are on the operating system, on the cleaner and on the documents found in the directory.
\<close>

section \<open>A host without faults\<close>

definition fault_free :: "'w machine \<Rightarrow> bool" where
  "fault_free m \<longleftrightarrow> (\<forall>i. io_outcomes m i = Io_Done) \<and> (\<forall>i. randoms m i \<noteq> None) \<and> (\<forall>i. clocks m i \<noteq> None)"

lemma healthy_io_next: "fault_free m \<Longrightarrow> \<exists>m'. io_next m = (m', Io_Done) \<and> fault_free m' \<and> same_files m m'"
  by (auto simp: fault_free_def io_next_def same_files_def)

lemma healthy_io_try: "fault_free m \<Longrightarrow> \<exists>m'. io_try m = (m', True) \<and> fault_free m' \<and> same_files m m'"
  by (auto simp: fault_free_def io_next_def io_try_def same_files_def)

lemma healthy_next_random: "fault_free m \<Longrightarrow> \<exists>m' bs. next_random k m = (m', Some bs) \<and> fault_free m' \<and> same_files m m'"
  by (auto simp: fault_free_def next_random_def same_files_def)

lemma healthy_now: "fault_free m \<Longrightarrow> \<exists>m' t. now_unix_ms m = (m', Inr t) \<and> fault_free m' \<and> same_files m m'"
  by (cases "clocks m 0") (auto simp: fault_free_def now_unix_ms_def same_files_def, metis option.distinct(1))

lemma healthy_update [simp]:
  "fault_free (put_file n e m) = fault_free m" "fault_free (drop_file n m) = fault_free m" "fault_free (m\<lparr>world := w\<rparr>) = fault_free m"
  by (simp_all add: fault_free_def put_file_def drop_file_def)

text \<open>No entry of the directory has the name of a temporary file.\<close>

definition no_dotted :: "'w machine \<Rightarrow> bool" where
  "no_dotted m \<longleftrightarrow> (\<forall>n. map_of (ledger_dir m) n \<noteq> None \<longrightarrow> plain_name n)"

lemma no_dotted_same: "same_files m m' \<Longrightarrow> no_dotted m' = no_dotted m"
  by (simp add: no_dotted_def same_files_def)

lemma healthy_create_temporary:
  assumes "fault_free m" and "no_dotted m"
  shows "\<exists>m' t. create_temporary (Suc k) stem m = (m', Inr t) \<and> fault_free m' \<and> \<not> plain_name t"
proof -
  obtain m1 random where m1: "next_random 8 m = (m1, Some random)" "fault_free m1" "same_files m m1"
    using healthy_next_random [OF assms(1)] by blast
  obtain m2 where m2: "io_try m1 = (m2, True)" "fault_free m2" "same_files m1 m2"
    using healthy_io_try [OF m1(2)] by blast
  have "map_of (ledger_dir m2) (temporary_name stem random) = None"
    using assms(2) m1(3) m2(3) temporary_not_plain [of stem random] by (auto simp: no_dotted_def same_files_def)
  with m1 m2 show ?thesis by (simp add: Let_def)
qed

lemma healthy_write_temporary:
  assumes "fault_free m" and "p \<noteq> t" and "map_of (ledger_dir m) p \<noteq> Some Directory"
  shows "\<exists>m'. write_temporary p t bs m = (m', Inr ()) \<and> fault_free m'"
proof -
  obtain m1 where m1: "io_next m = (m1, Io_Done)" "fault_free m1" "same_files m m1"
    using healthy_io_next [OF assms(1)] by blast
  let ?m1 = "put_file t (Regular bs) m1"
  obtain m2 where m2: "io_try ?m1 = (m2, True)" "fault_free m2" "same_files ?m1 m2"
    using healthy_io_try [of ?m1] m1(2) by auto
  obtain m3 where m3: "io_try m2 = (m3, True)" "fault_free m3" "same_files m2 m3"
    using healthy_io_try [OF m2(2)] by blast
  have L3: "map_of (ledger_dir m3) = (map_of (ledger_dir m))(t \<mapsto> Regular bs)"
    using m1(3) m2(3) m3(3) by (simp add: same_files_def put_file_def hm_update_lookup)
  let ?m3 = "put_file p (Regular bs) (drop_file t m3)"
  obtain m4 where m4: "io_try ?m3 = (m4, True)" "fault_free m4" using healthy_io_try [of ?m3] m3(2) by auto
  have "write_synced t bs m = (m2, True)" using m1(1) m2(1) by (simp add: write_synced_def)
  moreover have "replace_file t p m2 = (?m3, True)" using m3(1) L3 assms(2,3) by (simp add: replace_file_def)
  moreover have "sync_parent ?m3 = (m4, Inr ())" using m4(1) by (simp add: sync_parent_def ensure_def)
  ultimately show ?thesis using m4(2) by (simp add: write_temporary_def)
qed

lemma healthy_atomic_write:
  assumes "fault_free m" "no_dotted m" "plain_name p" "utf8_valid (file_stem p)"
    and "map_of (ledger_dir m) p \<noteq> Some Directory" "ledger_valid lib d" "to_vec_pretty lib d \<noteq> None"
  shows "\<exists>m'. atomic_write lib p d m = (m', Inr ()) \<and> fault_free m'"
proof -
  obtain bs where bs: "to_vec_pretty lib d = Some bs" using assms(7) by auto
  obtain m1 where m1: "io_try m = (m1, True)" "fault_free m1" "same_files m m1"
    using healthy_io_try [OF assms(1)] by blast
  have dots: "no_dotted m1" using assms(2) no_dotted_same [OF m1(3)] by simp
  obtain m2 t where m2: "create_temporary 16 (file_stem p) m1 = (m2, Inr t)" "fault_free m2" "\<not> plain_name t"
    using healthy_create_temporary [OF m1(2) dots, of 15 "file_stem p"] by (auto simp: eval_nat_numeral)
  have "p \<noteq> t" using assms(3) m2(3) by auto
  obtain m1' where "same_files m1 m1'" "m2 = put_file t (Regular []) m1'"
    using create_temporary_result [OF m2(1)] by auto
  then have "map_of (ledger_dir m2) p \<noteq> Some Directory"
    using assms(5) \<open>p \<noteq> t\<close> m1(3) by (simp add: same_files_def put_file_def hm_update_lookup)
  from healthy_write_temporary [OF m2(2) \<open>p \<noteq> t\<close> this] obtain m3
    where "write_temporary p t bs m2 = (m3, Inr ())" "fault_free m3" by blast
  with assms(4,6) bs m1(1) m2(1) show ?thesis by (simp add: atomic_write_def write_value_def)
qed

lemma healthy_remove:
  assumes "fault_free m" and "map_of (ledger_dir m) p \<noteq> Some Directory"
  shows "\<exists>m'. durable_remove p m = (m', Inr ()) \<and> fault_free m'"
proof -
  obtain m1 where m1: "io_try m = (m1, True)" "fault_free m1" "same_files m m1"
    using healthy_io_try [OF assms(1)] by blast
  obtain m2 where m2: "io_try (drop_file p m1) = (m2, True)" "fault_free m2"
    using healthy_io_try [of "drop_file p m1"] m1(2) by auto
  have "map_of (ledger_dir m1) p \<noteq> Some Directory" using assms(2) m1(3) by (simp add: same_files_def)
  with m1 m2 show ?thesis
    by (auto simp: durable_remove_def remove_if_exists_def sync_parent_def ensure_def
        split: option.splits dir_entry.splits)
qed

section \<open>A document that can be recovered\<close>

text \<open>The cleaner removes whatever it is asked to remove.\<close>

definition willing :: "'w cleaner \<Rightarrow> bool" where
  "willing C \<longleftrightarrow> (\<forall>stem d r w. snd (C stem d r w) = Ok ProofRemoved \<or> snd (C stem d r w) = Ok AlreadyAbsent)"

text \<open>The document stays valid while its records are removed, and can be encoded.\<close>

definition roomy :: "ledger_json \<Rightarrow> LedgerDocument \<Rightarrow> bool" where
  "roomy lib d \<longleftrightarrow>
     (\<forall>rs st t. prefix rs (doc_resources d) \<longrightarrow> updated_unix_ms d \<le> t \<longrightarrow>
        ledger_valid lib (d\<lparr>doc_state := st, doc_resources := rs, updated_unix_ms := t\<rparr>)
        \<and> to_vec_pretty lib (d\<lparr>doc_state := st, doc_resources := rs, updated_unix_ms := t\<rparr>) \<noteq> None)"

lemma roomy_shrinks:
  assumes "roomy lib d" and "prefix rs (doc_resources d)" and "updated_unix_ms d \<le> t"
  shows "roomy lib (d\<lparr>doc_state := st, doc_resources := rs, updated_unix_ms := t\<rparr>)"
  using assms by (auto simp: roomy_def intro: prefix_order.trans order.trans)

lemma roomy_valid:
  assumes "roomy lib d"
  shows "ledger_valid lib d" and "to_vec_pretty lib d \<noteq> None"
proof -
  have "d\<lparr>doc_state := doc_state d, doc_resources := doc_resources d, updated_unix_ms := updated_unix_ms d\<rparr> = d" by simp
  with assms show "ledger_valid lib d" and "to_vec_pretty lib d \<noteq> None"
    unfolding roomy_def by (metis order.refl prefix_order.order_refl)+
qed

definition file_ready :: "bytes \<Rightarrow> 'w machine \<Rightarrow> bool" where
  "file_ready p m \<longleftrightarrow>
     fault_free m \<and> no_dotted m \<and> plain_name p \<and> utf8_valid (file_stem p) \<and> map_of (ledger_dir m) p \<noteq> Some Directory"

lemma healthy_touch_and_store:
  assumes ready: "file_ready p m" and room: "roomy lib d"
    and rs: "prefix rs (doc_resources d)"
  shows "\<exists>m' d'. touch_and_store (durable_store lib) p (d\<lparr>doc_state := st, doc_resources := rs\<rparr>) m = (m', Inr d')
    \<and> file_ready p m' \<and> roomy lib d' \<and> doc_resources d' = rs"
proof -
  obtain m1 now where m1: "now_unix_ms m = (m1, Inr now)" "fault_free m1" "same_files m m1"
    using healthy_now ready unfolding file_ready_def by blast
  let ?t = "max (updated_unix_ms d) now"
  let ?d = "d\<lparr>doc_state := st, doc_resources := rs, updated_unix_ms := ?t\<rparr>"
  have room': "roomy lib ?d" by (rule roomy_shrinks [OF room rs]) simp
  have "file_ready p m1" using ready m1(2,3) by (simp add: file_ready_def same_files_def no_dotted_def)
  then obtain m2 where m2: "atomic_write lib p ?d m1 = (m2, Inr ())" "fault_free m2"
    using healthy_atomic_write [of m1 p lib ?d] roomy_valid [OF room'] by (auto simp: file_ready_def)
  have p: "plain_name p" using ready by (simp add: file_ready_def)
  note w = atomic_write_result(3) [OF m2(1) p refl]
  have "file_ready p m2"
    using m2(2) w m1(3) ready by (auto simp: file_ready_def no_dotted_def leaves_no_trace_def same_files_def doc_at_def)
  moreover have "touch_and_store (durable_store lib) p (d\<lparr>doc_state := st, doc_resources := rs\<rparr>) m = (m2, Inr ?d)"
    using m1(1) m2(1) by (simp add: touch_and_store_def touch_document_def durable_store_def)
  ultimately show ?thesis using room' by fastforce
qed

lemma healthy_recover_resources:
  assumes "willing C"
  shows "file_ready p m \<Longrightarrow> roomy lib d \<Longrightarrow>
    \<exists>m'. recover_resources C (durable_store lib) p d m = (m', Ok OutcomeRemoved) \<and> fault_free m'"
proof (induction "length (doc_resources d)" arbitrary: d m)
  case 0
  then obtain m' where "durable_remove p m = (m', Inr ())" "fault_free m'"
    using healthy_remove by (auto simp: file_ready_def)
  with 0 show ?case by (simp add: recover_resources.simps durable_store_def)
next
  case (Suc n)
  obtain w r where C: "C (ledger_id p) d (last (doc_resources d)) (world m) = (w, r)"
    by (cases "C (ledger_id p) d (last (doc_resources d)) (world m)")
  have r: "r = Ok ProofRemoved \<or> r = Ok AlreadyAbsent" using assms C unfolding willing_def by (metis snd_conv)
  let ?m = "m\<lparr>world := w\<rparr>"
  have ready: "file_ready p ?m" using Suc.prems(1) by (simp add: file_ready_def no_dotted_def)
  have "prefix (butlast (doc_resources d)) (doc_resources d)" by (simp add: prefixeq_butlast)
  from healthy_touch_and_store [OF ready Suc.prems(2) this, of "doc_state d"] obtain m1 d1
    where t: "touch_and_store (durable_store lib) p (d\<lparr>doc_resources := butlast (doc_resources d)\<rparr>) ?m = (m1, Inr d1)"
      "file_ready p m1" "roomy lib d1" "doc_resources d1 = butlast (doc_resources d)"
    by auto
  have "n = length (doc_resources d1)" using t(4) Suc.hyps(2) by simp
  from Suc.hyps(1) [OF this t(2,3)] obtain m' where
    "recover_resources C (durable_store lib) p d1 m1 = (m', Ok OutcomeRemoved)" "fault_free m'" by blast
  moreover have "doc_resources d \<noteq> []" using Suc.hyps(2) by auto
  ultimately show ?case
    using C r t(1) by (auto simp: recover_resources.simps [of C _ p d] call_cleaner_def)
qed

lemma healthy_recover_document:
  assumes "willing C" and "file_ready p m" and "roomy lib d" and "doc_state d \<noteq> StateQuarantined"
  shows "\<exists>m'. recover_document lib C p d m = (m', Ok OutcomeRemoved) \<and> fault_free m'"
proof -
  obtain m1 d1 where t: "touch_and_store (durable_store lib) p (d\<lparr>doc_state := Cleaning\<rparr>) m = (m1, Inr d1)"
      "file_ready p m1" "roomy lib d1"
    using healthy_touch_and_store [OF assms(2,3), of "doc_resources d" Cleaning] by auto
  from healthy_recover_resources [OF assms(1) t(2,3)] obtain m' where
    "recover_resources C (durable_store lib) p d1 m1 = (m', Ok OutcomeRemoved)" "fault_free m'" by blast
  with t(1) assms(4) roomy_valid(1) [OF assms(3)] show ?thesis
    by (simp add: recover_document_def recover_with_store_def)
qed

section \<open>A directory that can be recovered\<close>

lemma any_cleaner_exact: "cleaner_exact (\<lambda>_. {}) C"
  by (simp add: cleaner_exact_def)

lemma healthy_recover_candidates:
  assumes "willing C"
  shows "fault_free m \<Longrightarrow> no_dotted m \<Longrightarrow> distinct (map fst cs) \<Longrightarrow>
    \<forall>(n, d) \<in> set cs. plain_name n \<and> utf8_valid (file_stem n) \<and> map_of (ledger_dir m) n \<noteq> Some Directory
      \<and> roomy lib d \<and> doc_state d \<noteq> StateQuarantined \<Longrightarrow>
    \<exists>m'. recover_candidates lib C cs s m = (m', Ok s) \<and> fault_free m'"
proof (induction cs arbitrary: m)
  case (Cons c cs)
  obtain n d where c: "c = (n, d)" by (cases c)
  have "file_ready n m" "roomy lib d" "doc_state d \<noteq> StateQuarantined"
    using Cons.prems c by (auto simp: file_ready_def)
  from healthy_recover_document [OF assms this] obtain m1
    where m1: "recover_document lib C n d m = (m1, Ok OutcomeRemoved)" "fault_free m1" by blast
  have n: "plain_name n" using Cons.prems(4) c by simp
  note res = recover_document_sound(4,5) [OF any_cleaner_exact n m1(1)]
  have L1: "map_of (ledger_dir m1) x = (if x = n then None else map_of (ledger_dir m) x)" for x
    using res by (simp add: leaves_no_trace_def)
  have "no_dotted m1" using Cons.prems(2) L1 by (simp add: no_dotted_def)
  moreover have "\<forall>(n, d) \<in> set cs. plain_name n \<and> utf8_valid (file_stem n)
      \<and> map_of (ledger_dir m1) n \<noteq> Some Directory \<and> roomy lib d \<and> doc_state d \<noteq> StateQuarantined"
    using Cons.prems(4) L1 by (auto split: prod.splits)
  ultimately have "\<exists>m'. recover_candidates lib C cs s m1 = (m', Ok s) \<and> fault_free m'"
    using Cons.IH m1(2) Cons.prems(3) by simp
  with m1(1) c show ?case by auto
qed auto

lemma healthy_read_entries:
  "fault_free m \<Longrightarrow> length es \<le> room \<Longrightarrow> \<exists>m'. read_entries room es m = (m', Inr (Some es)) \<and> fault_free m'"
proof (induction es arbitrary: room m)
  case (Cons e es)
  obtain m1 where m1: "io_try m = (m1, True)" "fault_free m1" using healthy_io_try [OF Cons.prems(1)] by blast
  have "length es \<le> room - 1" using Cons.prems(2) by simp
  from Cons.IH [OF m1(2) this] obtain m2 where "read_entries (room - 1) es m1 = (m2, Inr (Some es))" "fault_free m2"
    by blast
  with m1(1) Cons.prems(2) show ?case by auto
qed auto

lemma healthy_read_bounded:
  assumes "fault_free m" and "length (ledger_dir m) \<le> MAX_LEDGER_DOCUMENTS"
  shows "\<exists>m'. read_bounded_entries m = (m', Inr (Some (ledger_dir m))) \<and> fault_free m' \<and> same_files m m'"
proof -
  obtain m1 where m1: "io_try m = (m1, True)" "fault_free m1" "same_files m m1"
    using healthy_io_try [OF assms(1)] by blast
  from healthy_read_entries [OF m1(2) assms(2)] obtain m2
    where m2: "read_entries MAX_LEDGER_DOCUMENTS (ledger_dir m) m1 = (m2, Inr (Some (ledger_dir m)))" "fault_free m2" by blast
  have "read_bounded_entries m = (m2, Inr (Some (ledger_dir m)))"
    using m1(1,3) m2(1) by (simp add: read_bounded_entries_def same_files_def)
  with m2(2) read_bounded_entries_result(1) show ?thesis by blast
qed

definition entry_size :: "bytes \<times> dir_entry \<Rightarrow> nat" where
  "entry_size e = (case snd e of Regular b \<Rightarrow> length b | _ \<Rightarrow> 0)"

definition entry_document :: "ledger_json \<Rightarrow> bytes \<times> dir_entry \<Rightarrow> LedgerDocument option" where
  "entry_document lib e = (case snd e of Regular b \<Rightarrow> from_slice lib b | _ \<Rightarrow> None)"

definition good_entry :: "ledger_json \<Rightarrow> bytes \<times> dir_entry \<Rightarrow> bool" where
  "good_entry lib e \<longleftrightarrow>
     (\<exists>sid b d. is_hex_id sid \<and> e = (document_name sid, Regular b) \<and> length b \<le> MAX_LEDGER_DOCUMENT_SIZE
        \<and> from_slice lib b = Some d \<and> roomy lib d \<and> doc_state d \<noteq> StateQuarantined)"

lemma utf8_hex: "is_hex_id sid \<Longrightarrow> utf8_valid (sid @ bs) = utf8_valid bs"
  by (rule utf8_valid_ascii_append)
    (auto simp: is_ascii_def is_hex_id_def is_lower_hex_def list_all_iff is_hex_digit_def in_range_def)

lemma utf8_document_name: "is_hex_id sid \<Longrightarrow> utf8_valid (document_name sid)"
  by (simp add: document_name_def utf8_hex) (simp add: str_def in_range_def)

lemma strip_document_name [simp]: "strip_json (document_name sid) = Some sid"
  by (simp add: strip_json_def document_name_def ends_with_def suffix_def)

lemma healthy_good_entry:
  assumes "fault_free m" and good: "good_entry lib e" and "t + entry_size e \<le> MAX_LEDGER_TOTAL_SIZE"
  shows "\<exists>m1 m2 b. validate_entry e t m = (m1, t + entry_size e, Inr b)
    \<and> read_document_bounded lib b m1 = (m2, Inr (the (entry_document lib e))) \<and> fault_free m2"
proof -
  obtain sid b d where e: "is_hex_id sid" "e = (document_name sid, Regular b)" "length b \<le> MAX_LEDGER_DOCUMENT_SIZE"
      "from_slice lib b = Some d" "roomy lib d"
    using good by (auto simp: good_entry_def)
  obtain m1 where m1: "io_try m = (m1, True)" "fault_free m1" using healthy_io_try [OF assms(1)] by blast
  obtain m2 where m2: "io_try m1 = (m2, True)" "fault_free m2" using healthy_io_try [OF m1(2)] by blast
  obtain m3 where m3: "io_try m2 = (m3, True)" "fault_free m3" using healthy_io_try [OF m2(2)] by blast
  obtain m4 where m4: "io_try m3 = (m4, True)" "fault_free m4" using healthy_io_try [OF m3(2)] by blast
  have "t + length b \<le> usize_max" "t + length b \<le> MAX_LEDGER_TOTAL_SIZE"
    using assms(3) e(2) by (simp_all add: entry_size_def ledger_limits usize_max_def)
  then have "validate_entry e t m = (m2, t + entry_size e, Inr b)"
    using m1 m2 e by (simp add: validate_entry_def utf8_document_name checked_add_usize_def entry_size_def ensure_def)
  moreover have "read_document_bounded lib b m2 = (m4, Inr (the (entry_document lib e)))"
    using m3 m4 e roomy_valid(1) [OF e(5)] by (simp add: read_document_bounded_def entry_document_def)
  ultimately show ?thesis using m4(2) by blast
qed

lemma healthy_scan:
  "fault_free m \<Longrightarrow> list_all (good_entry lib) es \<Longrightarrow> t + sum_list (map entry_size es) \<le> MAX_LEDGER_TOTAL_SIZE \<Longrightarrow>
    \<exists>m'. scan_entries lib es t s m = (m', s, map (\<lambda>e. (fst e, the (entry_document lib e))) es) \<and> fault_free m'"
proof (induction es arbitrary: m t)
  case (Cons e es)
  have "t + entry_size e \<le> MAX_LEDGER_TOTAL_SIZE" using Cons.prems(3) by simp
  with healthy_good_entry [OF Cons.prems(1), of lib e t] Cons.prems(2) obtain m1 m2 b
    where v: "validate_entry e t m = (m1, t + entry_size e, Inr b)"
      "read_document_bounded lib b m1 = (m2, Inr (the (entry_document lib e)))" "fault_free m2" by auto
  have "\<exists>m'. scan_entries lib es (t + entry_size e) s m2
      = (m', s, map (\<lambda>e. (fst e, the (entry_document lib e))) es) \<and> fault_free m'"
    by (rule Cons.IH) (use v(3) Cons.prems in \<open>simp_all add: add.assoc\<close>)
  with v(1,2) show ?case by auto
qed auto

lemma filter_same_key:
  "distinct (map f xs) \<Longrightarrow> x \<in> set xs \<Longrightarrow> length (filter (\<lambda>y. f y = f x) xs) = 1"
proof (induction xs)
  case (Cons a xs)
  show ?case
  proof (cases "x = a")
    case True
    with Cons.prems(1) have "f x \<notin> f ` set xs" by simp
    then have "filter (\<lambda>y. f y = f x) xs = []" by (auto simp: filter_empty_conv image_iff)
    with True show ?thesis by simp
  next
    case False
    with Cons.prems(2) have "x \<in> set xs" by simp
    moreover from this Cons.prems(1) have "f a \<noteq> f x" by auto
    ultimately show ?thesis using Cons by simp
  qed
qed auto

lemma healthy_settle:
  assumes "distinct (map (\<lambda>c. ownership_id (snd c)) all_cs)"
  shows "set cs \<subseteq> set all_cs \<Longrightarrow>
    settle_candidates all_cs cs s m = (m, s\<lparr>valid_documents := valid_documents s + length cs\<rparr>)"
proof (induction cs arbitrary: s)
  case (Cons c cs)
  have "ownership_count all_cs (ownership_id (snd c)) = 1"
    unfolding ownership_count_def by (rule filter_same_key [OF assms]) (use Cons.prems in simp)
  with Cons show ?case by simp
qed auto

text \<open>The documents of the directory can be recovered, within the bounds, and have different owners.\<close>

definition recoverable :: "ledger_json \<Rightarrow> 'w machine \<Rightarrow> bool" where
  "recoverable lib m \<longleftrightarrow>
     hm_wf (ledger_dir m) \<and> length (ledger_dir m) \<le> MAX_LEDGER_DOCUMENTS
     \<and> sum_list (map entry_size (ledger_dir m)) \<le> MAX_LEDGER_TOTAL_SIZE
     \<and> list_all (good_entry lib) (ledger_dir m)
     \<and> distinct (map (\<lambda>e. ownership_id (the (entry_document lib e))) (ledger_dir m))"

lemma sum_list_sort: "sum_list (map f (sort_key g xs)) = sum_list (map f xs :: nat list)"
  by (metis mset_map mset_sort sum_mset_sum_list)

lemma distinct_map_sort: "distinct (map f (sort_key g xs)) = distinct (map f xs)"
  by (simp add: distinct_map)

definition directory_candidates :: "ledger_json \<Rightarrow> 'w machine \<Rightarrow> candidate list" where
  "directory_candidates lib m =
     map (\<lambda>e. (fst e, the (entry_document lib e))) (sort_key fst (ledger_dir m))"

lemma healthy_scan_directory:
  assumes "fault_free m" and "recoverable lib m"
  shows "\<exists>m'. scan_entries lib (sort_key fst (ledger_dir m)) 0 s m = (m', s, directory_candidates lib m)
    \<and> fault_free m' \<and> same_files m m'"
proof -
  have "list_all (good_entry lib) (sort_key fst (ledger_dir m))"
    "0 + sum_list (map entry_size (sort_key fst (ledger_dir m))) \<le> MAX_LEDGER_TOTAL_SIZE"
    using assms(2) by (simp_all add: recoverable_def list_all_iff sum_list_sort)
  from healthy_scan [OF assms(1) this, of s] obtain m'
    where m': "scan_entries lib (sort_key fst (ledger_dir m)) 0 s m = (m', s, directory_candidates lib m)" "fault_free m'"
    by (auto simp: directory_candidates_def)
  with scan_entries_clean [OF m'(1)] show ?thesis by blast
qed

lemma recoverable_same: "same_files m m' \<Longrightarrow> recoverable lib m' = recoverable lib m"
  by (simp add: same_files_def recoverable_def)

lemma candidates_same: "same_files m m' \<Longrightarrow> directory_candidates lib m' = directory_candidates lib m"
  by (simp add: same_files_def directory_candidates_def)

lemma candidate_owners:
  "recoverable lib m \<Longrightarrow> distinct (map (\<lambda>c. ownership_id (snd c)) (directory_candidates lib m))"
  by (simp add: recoverable_def directory_candidates_def o_def distinct_map_sort)

lemma healthy_reconcile:
  assumes "fault_free m" and "recoverable lib m"
  shows "\<exists>m'. reconcile lib m = (m', Ok \<lparr>valid_documents = length (ledger_dir m), quarantined_documents = 0,
      unproven_documents = 0, admissions_open = (ledger_dir m = [])\<rparr>) \<and> fault_free m' \<and> same_files m m'"
proof -
  obtain m1 where m1: "io_try m = (m1, True)" "fault_free m1" "same_files m m1"
    using healthy_io_try [OF assms(1)] by blast
  obtain m2 where m2: "io_try m1 = (m2, True)" "fault_free m2" "same_files m1 m2"
    using healthy_io_try [OF m1(2)] by blast
  have L2: "same_files m m2" using m1(3) m2(3) by (simp add: same_files_def)
  then have rec2: "recoverable lib m2" using assms(2) recoverable_same by blast
  then obtain m3 where m3: "read_bounded_entries m2 = (m3, Inr (Some (ledger_dir m2)))" "fault_free m3" "same_files m2 m3"
    using healthy_read_bounded [OF m2(2)] by (auto simp: recoverable_def)
  have rec3: "recoverable lib m3" using rec2 recoverable_same [OF m3(3)] by blast
  from healthy_scan_directory [OF m3(2) rec3] obtain m4
    where m4: "scan_entries lib (sort_key fst (ledger_dir m3)) 0 (start_summary True 0) m3
        = (m4, start_summary True 0, directory_candidates lib m3)" "fault_free m4" "same_files m3 m4" by blast
  note settle = healthy_settle [OF candidate_owners [OF rec3] subset_refl, of "start_summary True 0" m4]
  have L3: "ledger_dir m3 = ledger_dir m2" "ledger_dir m2 = ledger_dir m" "same_files m m4"
    using L2 m3(3) m4(3) by (simp_all add: same_files_def)
  have len: "length (directory_candidates lib m3) = length (ledger_dir m)"
    using L3 by (simp add: directory_candidates_def)
  have "reconcile lib m = (m4, Ok \<lparr>valid_documents = length (ledger_dir m), quarantined_documents = 0,
      unproven_documents = 0, admissions_open = (ledger_dir m = [])\<rparr>)"
    using m1(1) m2(1) m3(1) m4(1) settle len L3 by (simp add: reconcile_def start_summary_def)
  with m4(2) L3(3) show ?thesis by blast
qed

lemma healthy_recover_directory:
  assumes "willing C" and "fault_free m" and "recoverable lib m" and "refused s = 0" "valid_documents s = 0"
    and "expected = length (ledger_dir m)"
  shows "\<exists>m' s'. recover_directory lib C expected s (ledger_dir m) m = (m', Ok s') \<and> admissions_open s'"
proof -
  let ?cs = "directory_candidates lib m"
  from healthy_scan_directory [OF assms(2,3)] obtain m1
    where m1: "scan_entries lib (sort_key fst (ledger_dir m)) 0 s m = (m1, s, ?cs)" "fault_free m1" "same_files m m1" by blast
  have "no_dotted m" using assms(3)
    by (fastforce simp: recoverable_def no_dotted_def list_all_iff good_entry_def dest: map_of_SomeD)
  then have dots: "no_dotted m1" using no_dotted_same [OF m1(3)] by simp
  have dist: "distinct (map fst ?cs)"
    using assms(3) by (simp add: recoverable_def directory_candidates_def o_def distinct_map_sort)
  have docs: "\<forall>(n, d) \<in> set ?cs. plain_name n \<and> utf8_valid (file_stem n) \<and> map_of (ledger_dir m1) n \<noteq> Some Directory
      \<and> roomy lib d \<and> doc_state d \<noteq> StateQuarantined"
  proof safe
    fix n d
    assume "(n, d) \<in> set ?cs"
    then obtain e where e: "e \<in> set (ledger_dir m)" "n = fst e" "d = the (entry_document lib e)"
      by (auto simp: directory_candidates_def)
    with assms(3) have "good_entry lib e" by (simp add: recoverable_def list_all_iff)
    then obtain sid b where sid: "is_hex_id sid" "e = (document_name sid, Regular b)" "roomy lib d"
        "doc_state d \<noteq> StateQuarantined"
      using e(3) by (auto simp: good_entry_def entry_document_def)
    have "map_of (ledger_dir m1) n = Some (Regular b)"
      using e(1,2) sid(2) assms(3) m1(3) by (simp add: recoverable_def same_files_def)
    with sid e(2) utf8_hex [of sid "[]"]
    show "plain_name n" "utf8_valid (file_stem n)" "map_of (ledger_dir m1) n = Some Directory \<Longrightarrow> False"
      "roomy lib d" "doc_state d = StateQuarantined \<Longrightarrow> False" by simp_all
  qed
  from healthy_recover_candidates [OF assms(1) m1(2) dots dist docs] obtain m2
    where m2: "recover_candidates lib C ?cs s m1 = (m2, Ok s)" by blast
  have "list_all (\<lambda>c. ownership_count ?cs (ownership_id (snd c)) = 1) ?cs"
    using filter_same_key [OF candidate_owners [OF assms(3)]] by (simp add: list_all_iff ownership_count_def)
  then have one: "\<not> list_ex (\<lambda>c. ownership_count ?cs (ownership_id (snd c)) \<noteq> 1) ?cs"
    by (simp add: list_ex_iff list_all_iff)
  have "length ?cs = expected" using assms(6) by (simp add: directory_candidates_def)
  then show ?thesis using m1(1) m2 one assms(4,5) by (simp add: recover_directory_def refused_def)
qed

lemma healthy_start:
  assumes "willing C" and "fault_free m" and "recoverable lib m"
  shows "\<exists>m' s. reconcile_and_recover lib C m = (m', Ok s) \<and> admissions_open s"
proof -
  obtain m1 where m1: "reconcile lib m = (m1, Ok \<lparr>valid_documents = length (ledger_dir m), quarantined_documents = 0,
      unproven_documents = 0, admissions_open = (ledger_dir m = [])\<rparr>)" "fault_free m1" "same_files m m1"
    using healthy_reconcile [OF assms(2,3)] by blast
  show ?thesis
  proof (cases "ledger_dir m = []")
    case True
    with m1(1) show ?thesis by (simp add: reconcile_and_recover_def)
  next
    case False
    have rec1: "recoverable lib m1" using assms(3) recoverable_same [OF m1(3)] by simp
    then obtain m2 where m2: "read_bounded_entries m1 = (m2, Inr (Some (ledger_dir m1)))" "fault_free m2" "same_files m1 m2"
      using healthy_read_bounded [OF m1(2)] by (auto simp: recoverable_def)
    have L: "ledger_dir m1 = ledger_dir m2" "ledger_dir m1 = ledger_dir m" using m1(3) m2(3) by (simp_all add: same_files_def)
    have rec2: "recoverable lib m2" using rec1 recoverable_same [OF m2(3)] by simp
    let ?s = "\<lparr>valid_documents = 0, quarantined_documents = 0, unproven_documents = 0, admissions_open = (ledger_dir m = [])\<rparr>"
    have "\<exists>m' s'. recover_directory lib C (length (ledger_dir m)) ?s (ledger_dir m2) m2 = (m', Ok s') \<and> admissions_open s'"
      by (rule healthy_recover_directory [OF assms(1) m2(2) rec2]) (use L in \<open>simp_all add: refused_def\<close>)
    with m1(1) m2(1) L False show ?thesis by (auto simp: reconcile_and_recover_def Let_def)
  qed
qed

section \<open>Documents that are not recovered\<close>

lemma validate_entry_total:
  assumes "validate_entry e t m = (m', t', r)"
  shows "t \<le> t'" and "is_ok r \<Longrightarrow> t' \<le> MAX_LEDGER_TOTAL_SIZE"
    and "is_ok r \<Longrightarrow> entry_size e \<le> MAX_LEDGER_DOCUMENT_SIZE"
  using assms
  by (auto simp: validate_entry_def checked_add_usize_def ensure_def entry_size_def
      split: prod.splits if_splits option.splits dir_entry.splits)

lemma scan_over_total:
  "scan_entries lib es t s m = (m', s', cs) \<Longrightarrow> MAX_LEDGER_TOTAL_SIZE < t \<Longrightarrow> cs = []"
proof (induction es arbitrary: t s m cs)
  case (Cons e es)
  obtain m1 t1 r1 where v: "validate_entry e t m = (m1, t1, r1)" by (cases "validate_entry e t m")
  have t1: "MAX_LEDGER_TOTAL_SIZE < t1" using validate_entry_total(1) [OF v] Cons.prems(2) by simp
  then obtain err where r1: "r1 = Inl err" using validate_entry_total(2) [OF v] by (cases r1) auto
  obtain m2 s2 where "quarantine_or_mark_unproven (fst e) s m1 = (m2, s2)"
    by (cases "quarantine_or_mark_unproven (fst e) s m1")
  with v r1 Cons.prems(1) have "scan_entries lib es t1 s2 m2 = (m', s', cs)" by simp
  from Cons.IH [OF this t1] show ?case .
qed auto

lemma oversized_entry:
  assumes "fault_free m" and "is_hex_id sid" and "MAX_LEDGER_TOTAL_SIZE < length b" "length b \<le> usize_max"
  shows "\<exists>m' e. validate_entry (document_name sid, Regular b) 0 m = (m', length b, Inl e)"
proof -
  obtain m1 where m1: "io_try m = (m1, True)" "fault_free m1" using healthy_io_try [OF assms(1)] by blast
  obtain m2 where m2: "io_try m1 = (m2, True)" using healthy_io_try [OF m1(2)] by blast
  show ?thesis
    using assms(2-4) m1 m2 by (simp add: validate_entry_def utf8_document_name checked_add_usize_def ensure_def)
qed

text \<open>One file with the name of a document that is larger than the bound on all documents together makes a
start of the service refuse every document that comes after it in the order of names, whatever it holds: the
size of a refused file counts against the total.\<close>

theorem oversized_file_refuses_others:
  assumes "fault_free m" and "length (ledger_dir m) \<le> MAX_LEDGER_DOCUMENTS"
    and "sort_key fst (ledger_dir m) = (document_name sid, Regular b) # es" and "is_hex_id sid"
    and "MAX_LEDGER_TOTAL_SIZE < length b" and "length b \<le> usize_max"
  shows "\<exists>m' s. reconcile lib m = (m', Ok s) \<and> valid_documents s = 0
    \<and> quarantined_documents s + unproven_documents s = length (ledger_dir m)"
proof -
  obtain m1 where m1: "io_try m = (m1, True)" "fault_free m1" "same_files m m1"
    using healthy_io_try [OF assms(1)] by blast
  obtain m2 where m2: "io_try m1 = (m2, True)" "fault_free m2" "same_files m1 m2"
    using healthy_io_try [OF m1(2)] by blast
  have L2: "ledger_dir m2 = ledger_dir m" using m1(3) m2(3) by (simp add: same_files_def)
  with healthy_read_bounded [OF m2(2)] assms(2) obtain m3
    where m3: "read_bounded_entries m2 = (m3, Inr (Some (ledger_dir m)))" "fault_free m3" by auto
  obtain m4 err where m4: "validate_entry (document_name sid, Regular b) 0 m3 = (m4, length b, Inl err)"
    using oversized_entry [OF m3(2) assms(4-6)] by blast
  obtain m5 s5 where m5: "quarantine_or_mark_unproven (document_name sid) (start_summary True 0) m4 = (m5, s5)"
    by (cases "quarantine_or_mark_unproven (document_name sid) (start_summary True 0) m4")
  obtain m6 s6 cs where m6: "scan_entries lib es (length b) s5 m5 = (m6, s6, cs)"
    by (cases "scan_entries lib es (length b) s5 m5")
  have cs: "cs = []" by (rule scan_over_total [OF m6 assms(5)])
  have "reconcile lib m = (m6, Ok s6)" if "valid_documents s6 = 0"
    using m1(1) m2(1) m3(1) m4 m5 m6 cs assms(3) that by (simp add: reconcile_def)
  moreover have "valid_documents s6 = 0" "refused s6 = length (ledger_dir m)"
    using scan_entries_counts [OF m6] cs quarantine_or_mark_unproven_result(4,5) [OF m5]
      arg_cong [OF assms(3), of length] by (simp_all add: refused_def start_summary_def)
  ultimately show ?thesis by (auto simp: refused_def)
qed

lemma reconcile_open_refused:
  assumes "reconcile lib m = (m', Inr s)" and "admissions_open s"
  shows "refused s = 0"
  using assms(1)
proof (cases rule: reconcile_cases)
  case (listed m3 m4 s4 cs s5)
  then have "admissions_open s5" "s = s5" using assms(2) by (auto split: if_splits)
  with scan_entries_counts [OF listed(2)] settle_candidates_result [OF listed(3)] show ?thesis
    by (simp add: start_summary_def refused_def)
qed (use assms(2) in \<open>auto simp: start_summary_def\<close>)

text \<open>An entry that is not a document is refused.\<close>

lemma reconcile_refuses:
  assumes "reconcile lib m = (m', r)" and "r = Inr s" and stored: "map_of (ledger_dir m) n = Some (Regular b)"
    and no: "\<And>d. \<not> is_document lib n b d" and wf: "hm_wf (ledger_dir m)"
  shows "refused s \<noteq> 0"
  using assms(1)
proof (cases rule: reconcile_cases)
  case (listed m3 m4 s4 cs s5)
  have s: "refused s = refused s5" using listed(4) assms(2) by (auto simp: refused_def split: if_splits)
  show ?thesis
  proof
    assume "refused s = 0"
    then have "refused s4 = 0" using settle_candidates_result [OF listed(3)] s by simp
    with scan_entries_clean [OF listed(2)]
    have names: "map fst cs = map fst (sort_key fst (ledger_dir m))" by (simp add: start_summary_def refused_def)
    have "n \<in> fst ` set (ledger_dir m)" using map_of_SomeD [OF stored] by force
    then have "n \<in> fst ` set cs" using arg_cong [OF names, of set] by simp
    then obtain d where "(n, d) \<in> set cs" by auto
    with scan_entries_found [OF listed(2)] obtain b' where b': "(n, Regular b') \<in> set (ledger_dir m)" "is_document lib n b' d"
      by auto
    have "map_of (ledger_dir m) n = Some (Regular b')" using b'(1) wf by (simp add: hm_lookup_mem)
    with stored b'(2) no show False by simp
  qed
qed (use assms(2) in \<open>auto simp: start_summary_def refused_def\<close>)

text \<open>When a document is refused, nothing is removed and the service stays closed.\<close>

lemma refused_reconcile:
  assumes "reconcile lib m = (m1, Inr s1)" and "refused s1 \<noteq> 0" and "reconcile_and_recover lib C m = (m', Ok s)"
  shows "world m' = world m \<and> \<not> admissions_open s"
  using assms(3)
proof (cases rule: reconcile_and_recover_cases)
  case ended
  with assms(1) have "s = s1" by simp
  have "admissions_open s1 \<Longrightarrow> refused s1 = 0"
    by (rule reconcile_open_refused [OF assms(1)])
  with \<open>s = s1\<close> reconcile_result(1) [OF ended(1)] assms(2) show ?thesis by (auto simp: only_moves_def)
next
  case (closed m2 s2)
  with reconcile_result(1) [OF closed(1)] show ?thesis by (auto simp: only_moves_def same_files_def)
next
  case (directory m2 s2 m3)
  with assms(1) have s2: "s2 = s1" by simp
  have w: "world m3 = world m"
    using reconcile_result(1) [OF directory(1)] directory(3) by (simp add: only_moves_def same_files_def)
  from directory(4) show ?thesis
  proof (cases rule: recover_directory_cases)
    case (closed s3 cs s4)
    with scan_entries_moves [OF closed(1)] w show ?thesis by (simp add: only_moves_def)
  next
    case (recovering m4 s3 cs r3)
    with scan_entries_mono [OF recovering(1)] s2 assms(2) show ?thesis by (simp add: refused_def)
  qed
qed

text \<open>A document is checked against the size bound in its compact form and written in its indented form. One
that fits in the first form and not in the second is written without an error; a later start of the service
refuses it, removes nothing and stays closed.\<close>

theorem large_document_is_refused:
  assumes "is_hex_id sid" and "hm_wf (ledger_dir m)"
    and "to_vec_pretty lib d = Some b" and "MAX_LEDGER_DOCUMENT_SIZE < length b"
    and "atomic_write lib (document_name sid) d m = (m1, Ok ())"
    and "reconcile_and_recover lib C m1 = (m2, Ok s)"
  shows "ledger_valid lib d \<and> world m2 = world m1 \<and> \<not> admissions_open s"
proof -
  have p: "plain_name (document_name sid)" using assms(1) by simp
  note w = atomic_write_result [OF assms(5) p]
  then have stored: "map_of (ledger_dir m1) (document_name sid) = Some (Regular b)" using assms(3) by (simp add: doc_at_def)
  have wf: "hm_wf (ledger_dir m1)" using w(1) assms(2) by (simp add: touches_only_def keeps_others_def)
  obtain m3 r3 where r3: "reconcile lib m1 = (m3, r3)" by (cases "reconcile lib m1")
  have "refused s3 \<noteq> 0" if "r3 = Inr s3" for s3
    using reconcile_refuses [OF r3 that stored _ wf] assms(4) by (simp add: is_document_def)
  moreover obtain s3 where "r3 = Inr s3" using assms(6) r3 by (cases r3) (auto simp: reconcile_and_recover_def)
  ultimately show ?thesis using refused_reconcile [of lib m1 m3 s3 C m2 s] r3 assms(6) w(3) by simp
qed

lemma healthy_move:
  assumes "fault_free m" and "map_of (ledger_dir m) n = Some (Regular b)" and "quarantine_dir m = []"
  shows "\<exists>m'. quarantine_or_mark_unproven n s m
      = (m', s\<lparr>admissions_open := False, quarantined_documents := quarantined_documents s + 1\<rparr>)
    \<and> fault_free m' \<and> ledger_dir m' = AList.delete n (ledger_dir m) \<and> world m' = world m"
proof -
  obtain m1 where m1: "io_try m = (m1, True)" "fault_free m1" "same_files m m1"
    using healthy_io_try [OF assms(1)] by blast
  let ?m = "(drop_file n m1)\<lparr>quarantine_dir := AList.update (quarantine_name 0) (Regular b) (quarantine_dir m1)\<rparr>"
  have "free_sequence (MAX_LEDGER_DOCUMENTS + 1) 0 m = Some 0"
    using assms(3) by (simp add: free_sequence.simps quarantine_exists_def)
  moreover have "move_to_quarantine n (quarantine_name 0) m = (?m, True)"
    using m1 assms(2) by (simp add: move_to_quarantine_def same_files_def)
  moreover have "fault_free ?m" using m1(2) by (simp add: fault_free_def drop_file_def)
  ultimately show ?thesis using m1(3) by (auto simp: quarantine_or_mark_unproven_def Let_def drop_file_def same_files_def)
qed

lemma healthy_scan_refused:
  assumes "fault_free m" and "map_of (ledger_dir m) n = Some (Regular b)" and "quarantine_dir m = []"
    and no: "from_slice lib b = None \<or> MAX_LEDGER_DOCUMENT_SIZE < length b"
  shows "\<exists>m'. scan_entries lib [(n, Regular b)] 0 s m
      = (m', s\<lparr>admissions_open := False, quarantined_documents := quarantined_documents s + 1\<rparr>, [])
    \<and> fault_free m' \<and> ledger_dir m' = AList.delete n (ledger_dir m) \<and> world m' = world m"
proof -
  let ?e = "(n, Regular b)"
  obtain m1 t1 r1 where v: "validate_entry ?e 0 m = (m1, t1, r1)" by (cases "validate_entry ?e 0 m")
  have h1: "fault_free m1" "same_files m m1"
    using v assms(1) validate_entry_result(1) [OF v]
    by (auto simp: validate_entry_def fault_free_def io_try_def io_next_def split: if_splits option.splits)
  obtain m2 r2 where rd: "read_document_bounded lib (projr r1) m1 = (m2, r2)"
    by (cases "read_document_bounded lib (projr r1) m1")
  have h2: "fault_free m2" "same_files m1 m2"
    using rd h1(1) read_document_bounded_result(1) [OF rd]
    by (auto simp: read_document_bounded_def fault_free_def io_try_def io_next_def split: if_splits option.splits)
  have stored: "map_of (ledger_dir m1) n = Some (Regular b)" "map_of (ledger_dir m2) n = Some (Regular b)"
      "quarantine_dir m1 = []" "quarantine_dir m2 = []"
    using h1(2) h2(2) assms(2,3) by (simp_all add: same_files_def)
  show ?thesis
  proof (cases r1)
    case (Inl err)
    with healthy_move [OF h1(1) stored(1,3), of s] v h1(2) show ?thesis by (auto simp: same_files_def)
  next
    case (Inr c)
    with validate_entry_result(2) [OF v] have "c = b" by simp
    with Inr rd no obtain err where "r2 = Inl err" by (cases r2) (auto dest: read_document_bounded_result(2))
    with Inr healthy_move [OF h2(1) stored(2,4), of s] v rd h1(2) h2(2) show ?thesis by (auto simp: same_files_def)
  qed
qed

text \<open>A start with a document that is refused is closed, and the next start opens although nothing was repaired:
the documents in the quarantine directory are not looked at.\<close>

theorem restart_forgets_refused_document:
  assumes "fault_free m" and "ledger_dir m = [(n, Regular b)]" and "quarantine_dir m = []"
    and "from_slice lib b = None \<or> MAX_LEDGER_DOCUMENT_SIZE < length b"
  shows "\<exists>m1 s1 m2 s2. reconcile_and_recover lib C m = (m1, Ok s1) \<and> \<not> admissions_open s1
    \<and> reconcile_and_recover lib C m1 = (m2, Ok s2) \<and> admissions_open s2 \<and> world m2 = world m"
proof -
  obtain m1 where m1: "io_try m = (m1, True)" "fault_free m1" "same_files m m1"
    using healthy_io_try [OF assms(1)] by blast
  obtain m2 where m2: "io_try m1 = (m2, True)" "fault_free m2" "same_files m1 m2"
    using healthy_io_try [OF m1(2)] by blast
  have L2: "ledger_dir m2 = [(n, Regular b)]" using m1(3) m2(3) assms(2) by (simp add: same_files_def)
  with healthy_read_bounded [OF m2(2)] obtain m3
    where m3: "read_bounded_entries m2 = (m3, Inr (Some [(n, Regular b)]))" "fault_free m3" "same_files m2 m3"
    by (auto simp: ledger_limits)
  have L3: "ledger_dir m3 = [(n, Regular b)]" using L2 m3(3) by (simp add: same_files_def)
  have "map_of (ledger_dir m3) n = Some (Regular b)" using L3 by simp
  moreover have "quarantine_dir m3 = []" "world m3 = world m"
    using m1(3) m2(3) m3(3) assms(3) by (simp_all add: same_files_def)
  ultimately obtain m4
    where m4: "scan_entries lib [(n, Regular b)] 0 (start_summary True 0) m3
        = (m4, (start_summary True 0)\<lparr>admissions_open := False, quarantined_documents := 1\<rparr>, [])"
      "fault_free m4" "ledger_dir m4 = AList.delete n (ledger_dir m3)" "world m4 = world m"
    using healthy_scan_refused [OF m3(2) _ _ assms(4), of n "start_summary True 0"] by (auto simp: start_summary_def)
  have L4: "ledger_dir m4 = []" using m4(3) L3 by simp
  have "reconcile lib m = (m4, Ok ((start_summary True 0)\<lparr>admissions_open := False, quarantined_documents := 1\<rparr>))"
    using m1(1) m2(1) m3(1) m4(1) by (simp add: reconcile_def start_summary_def)
  then have first: "reconcile_and_recover lib C m
      = (m4, Ok ((start_summary True 0)\<lparr>admissions_open := False, quarantined_documents := 1\<rparr>))"
    by (simp add: reconcile_and_recover_def start_summary_def)
  obtain m5 s5 where "reconcile lib m4 = (m5, Ok s5)" "admissions_open s5" "valid_documents s5 = 0" "same_files m4 m5"
    using healthy_reconcile [OF m4(2), of lib] L4 by (auto simp: recoverable_def)
  then have "reconcile_and_recover lib C m4 = (m5, Ok s5)" "world m5 = world m"
    using m4(4) by (simp_all add: reconcile_and_recover_def same_files_def)
  with first \<open>admissions_open s5\<close> show ?thesis by fastforce
qed

section \<open>An example\<close>

text \<open>
  A host on which nothing fails, a cleaner that removes what it is asked to, a JSON library for the documents
  of one sandbox with at most one record, and the ledger of that sandbox after a crash.
\<close>

definition demo_sid :: bytes where "demo_sid = replicate 32 97"

definition demo_record :: ResourceRecord where "demo_record = ProtectedFile (str ''f'') False"

definition demo_owner :: ClientIdentityKey where
  "demo_owner = \<lparr>user_sid = str ''S-1'', logon_sid = str ''S-2'', authentication_luid = 7, identity_session = 2\<rparr>"

definition demo_document :: "LifecycleState \<Rightarrow> ResourceRecord list \<Rightarrow> u64 \<Rightarrow> LedgerDocument" where
  "demo_document st rs t =
     (reserved_document 1 demo_sid demo_owner)\<lparr>doc_state := st, doc_resources := rs, updated_unix_ms := t\<rparr>"

fun state_code :: "LifecycleState \<Rightarrow> byte" where
  "state_code Reserved = 0" | "state_code Preparing = 1" | "state_code Running = 2" | "state_code Draining = 3"
| "state_code Cleaning = 4" | "state_code FailedSetup = 5" | "state_code StateQuarantined = 6"

definition demo_encode :: "LedgerDocument \<Rightarrow> bytes option" where
  "demo_encode d =
     (if d = demo_document (doc_state d) (doc_resources d) (updated_unix_ms d)
         \<and> (doc_resources d = [] \<or> doc_resources d = [demo_record])
      then Some (state_code (doc_state d) # of_nat (length (doc_resources d)) # to_le_bytes 8 (updated_unix_ms d))
      else None)"

definition demo_decode :: "bytes \<Rightarrow> LedgerDocument option" where
  "demo_decode b =
     (if length b = 10
      then Some (demo_document
             ([Reserved, Preparing, Running, Draining, Cleaning, FailedSetup, StateQuarantined] ! unat (b ! 0))
             (take (unat (b ! 1)) [demo_record]) (from_le_bytes (drop 2 b)))
      else None)"

definition demo_json :: ledger_json where
  "demo_json = \<lparr>to_vec = (\<lambda>_. Some []), to_vec_pretty = demo_encode, from_slice = demo_decode,
     value_from_slice = (\<lambda>_. Some JsonNull)\<rparr>"

definition demo_cleaner :: "(bytes \<times> bytes) list cleaner" where
  "demo_cleaner stem d r w = (filter (\<lambda>x. x \<noteq> (stem, stable_key r)) w, Ok ProofRemoved)"

definition demo_host :: "(bytes, dir_entry) hash_map \<Rightarrow> (bytes \<times> bytes) list \<Rightarrow> (bytes \<times> bytes) list machine" where
  "demo_host files w = \<lparr>ledger_dir = files, quarantine_dir = [], io_outcomes = (\<lambda>_. Io_Done),
     randoms = (\<lambda>_. Some (\<lambda>_. 170)), clocks = (\<lambda>_. Some 1), world = w\<rparr>"

lemma demo_host_healthy [simp]: "fault_free (demo_host files w)"
  by (simp add: fault_free_def demo_host_def)

lemma demo_host_simps [simp]:
  "ledger_dir (demo_host files w) = files" "quarantine_dir (demo_host files w) = []" "world (demo_host files w) = w"
  by (simp_all add: demo_host_def)

lemma demo_sid_hex [simp]: "is_hex_id demo_sid"
  by (simp add: demo_sid_def is_hex_id_def is_lower_hex_def list_all_iff is_hex_digit_def in_range_def)

lemma demo_faithful: "json_faithful demo_json"
proof -
  have "demo_decode b = Some d" if "demo_encode d = Some b" for d b
  proof -
    have "[Reserved, Preparing, Running, Draining, Cleaning, FailedSetup, StateQuarantined] ! unat (state_code (doc_state d))
        = doc_state d" by (cases "doc_state d") simp_all
    with that show ?thesis by (auto simp: demo_encode_def demo_decode_def split: if_splits)
  qed
  then show ?thesis by (simp add: json_faithful_def demo_json_def)
qed

lemma demo_exact: "cleaner_exact set demo_cleaner"
  by (auto simp: cleaner_exact_def demo_cleaner_def)

lemma demo_willing: "willing demo_cleaner"
  by (simp add: willing_def demo_cleaner_def)

lemma demo_valid:
  assumes "rs = [] \<or> rs = [demo_record]" and "1 \<le> t"
  shows "ledger_valid demo_json (demo_document st rs t)"
    and "to_vec_pretty demo_json (demo_document st rs t) \<noteq> None"
proof -
  have "is_lower_hex (hex_u64_display 7) 16" by code_simp
  moreover have "safe_relative_path (str ''f'')" by code_simp
  ultimately show "ledger_valid demo_json (demo_document st rs t)"
    using assms
    by (auto simp: ledger_valid_iff demo_document_def reserved_document_def owner_identity_def demo_owner_def demo_json_def
        demo_record_def starts_with_def str_def CARGO_PKG_VERSION_def ledger_limits)
  show "to_vec_pretty demo_json (demo_document st rs t) \<noteq> None"
    using assms(1) by (auto simp: demo_json_def demo_encode_def demo_document_def)
qed

lemma demo_roomy: "rs = [] \<or> rs = [demo_record] \<Longrightarrow> 1 \<le> t \<Longrightarrow> roomy demo_json (demo_document st rs t)"
  using demo_valid by (auto simp: roomy_def prefix_Cons demo_document_def)

text \<open>The document of the crashed sandbox, as it is on disk.\<close>

definition demo_file :: bytes where "demo_file = the (demo_encode (demo_document Running [demo_record] 1))"

lemma demo_file_decodes: "demo_decode demo_file = Some (demo_document Running [demo_record] 1)" "length demo_file = 10"
  using demo_faithful by (simp_all add: demo_file_def json_faithful_def demo_json_def demo_encode_def demo_document_def)

definition demo_crashed :: "(bytes \<times> bytes) list machine" where
  "demo_crashed = demo_host [(document_name demo_sid, Regular demo_file)] [(demo_sid, stable_key demo_record)]"

lemma demo_recoverable: "recoverable demo_json demo_crashed"
  using demo_file_decodes demo_roomy [of "[demo_record]" 1 Running]
  by (auto simp: recoverable_def demo_crashed_def entry_size_def good_entry_def entry_document_def ledger_limits
      demo_json_def demo_document_def)

text \<open>The same sandbox while the service runs: the document is reserved, the intent is written, the file is created.\<close>

lemma demo_host_ops [simp]:
  "io_next (demo_host f w) = (demo_host f w, Io_Done)" "io_try (demo_host f w) = (demo_host f w, True)"
  "next_random k (demo_host f w) = (demo_host f w, Some (replicate k 170))"
  "now_unix_ms (demo_host f w) = (demo_host f w, Inr 1)"
  "put_file n e (demo_host f w) = demo_host (AList.update n e f) w"
  "drop_file n (demo_host f w) = demo_host (AList.delete n f) w"
  "(demo_host f w)\<lparr>world := w'\<rparr> = demo_host f w'"
  by (simp_all add: demo_host_def io_next_def io_try_def next_random_def now_unix_ms_def put_file_def drop_file_def
      map_replicate_const)

definition demo_tx :: "ResourceRecord list \<Rightarrow> ResourceTransaction" where
  "demo_tx rs = \<lparr>tx_path = document_name demo_sid, tx_document = demo_document Reserved rs 1\<rparr>"

definition demo_reserved :: "(bytes \<times> bytes) list machine" where
  "demo_reserved = demo_host [(document_name demo_sid, Regular (the (demo_encode (demo_document Reserved [] 1))))] []"

lemma demo_reserve: "reserve demo_json demo_sid demo_owner (demo_host [] []) = (demo_reserved, Inr (demo_tx []))"
proof -
  have "handle_display (replicate 16 170) = demo_sid" by code_simp
  moreover have "demo_document Reserved [] 1 = reserved_document 1 demo_sid demo_owner"
    by (simp add: demo_document_def reserved_document_def)
  moreover have "to_vec_pretty demo_json = demo_encode" by (simp add: demo_json_def)
  ultimately show ?thesis using demo_valid [of "[]" 1 Reserved]
    by (auto simp: reserve_def random_hex_id_def atomic_create_def write_synced_def sync_parent_def ensure_def
        demo_reserved_def demo_tx_def Let_def)
qed

lemma demo_intent:
  "\<exists>m'. intent demo_json demo_record (demo_tx []) demo_reserved = (demo_tx [demo_record], m', Ok 0) \<and> world m' = []"
proof -
  let ?d = "demo_document Reserved [demo_record] 1"
  have "no_dotted demo_reserved" by (simp add: no_dotted_def demo_reserved_def)
  then obtain m' where m': "atomic_write demo_json (document_name demo_sid) ?d demo_reserved = (m', Inr ())"
    using healthy_atomic_write [of demo_reserved "document_name demo_sid" demo_json ?d] demo_valid [of "[demo_record]" 1 Reserved]
      utf8_hex [OF demo_sid_hex, of "[]"]
    by (auto simp: demo_reserved_def)
  have "world m' = []"
    using atomic_write_result(1) [OF m'] by (simp add: touches_only_def demo_reserved_def)
  moreover have "touch_and_persist demo_json (demo_tx [demo_record]) demo_reserved = (demo_tx [demo_record], m', Inr ())"
    using m' by (simp add: touch_and_persist_def demo_tx_def demo_reserved_def demo_document_def)
  moreover have "set_resources [demo_record] (demo_tx []) = demo_tx [demo_record]"
    by (simp add: set_resources_def demo_tx_def demo_document_def)
  moreover have "set_committed False demo_record = demo_record" by (simp add: demo_record_def)
  moreover have "doc_resources (tx_document (demo_tx rs)) = rs" for rs by (simp add: demo_tx_def demo_document_def)
  ultimately show ?thesis by (auto simp: intent_def Let_def)
qed

lemma demo_ledger_reachable:
  "\<exists>s. reachable (ledger_init demo_json demo_cleaner set) (ledger_step demo_json demo_cleaner set) s
     \<and> (demo_sid, stable_key demo_record) \<in> set (world (host s))"
proof -
  let ?R = "reachable (ledger_init demo_json demo_cleaner set) (ledger_step demo_json demo_cleaner set)"
  let ?s0 = "\<lparr>host = demo_host [] [], transactions = Map.empty\<rparr>"
  let ?s1 = "with_tx ?s0 demo_sid (demo_tx []) {} demo_reserved"
  let ?k = "stable_key demo_record"
  have "?R ?s0" using demo_exact demo_faithful by (auto intro: reachable.intros simp: ledger_init_def)
  then have s1: "?R ?s1"
    using step_reserve [of ?s0 demo_sid demo_json demo_owner demo_reserved "demo_tx []" demo_cleaner set] demo_reserve
    by (auto intro: reachable.intros)
  obtain m where m: "intent demo_json demo_record (demo_tx []) demo_reserved = (demo_tx [demo_record], m, Ok 0)"
      "world m = []"
    using demo_intent by blast
  let ?s2 = "with_tx ?s1 demo_sid (demo_tx [demo_record]) {?k} m"
  have s2: "?R ?s2"
    using step_intent [of ?s1 demo_sid "demo_tx []" "{}" demo_json demo_record _ m "Ok 0" demo_cleaner set] m(1) s1
    by (auto simp: with_tx_def intro: reachable.intros)
  have "ledger_step demo_json demo_cleaner set ?s2 (?s2\<lparr>host := (host ?s2)\<lparr>world := [(demo_sid, ?k)]\<rparr>\<rparr>)"
    by (rule step_create [of _ demo_sid "demo_tx [demo_record]" "{?k}" ?k]) (simp_all add: with_tx_def)
  with s2 have "?R (?s2\<lparr>host := (host ?s2)\<lparr>world := [(demo_sid, ?k)]\<rparr>\<rparr>)" by (rule reachable.intros)
  then show ?thesis by force
qed

section \<open>Guarantees of the ledger\<close>



text \<open>C8: When the service starts and opens for work, the ledger is empty, and none of the resources that the
documents of the ledger recorded before the start still exists on the host.\<close>

theorem open_service_is_clean:
  assumes "cleaner_exact present C" and "hm_wf (ledger_dir m)"
    and "reconcile_and_recover lib C m = (m', Ok s)" and "admissions_open s"
  shows "ledger_dir m' = []
    \<and> (\<forall>n b d k. map_of (ledger_dir m) n = Some (Regular b) \<and> from_slice lib b = Some d \<and> k \<in> doc_keys d
         \<longrightarrow> (ledger_id n, k) \<notin> present (world m'))"
  by (rule open_start_clean [OF assms])

theorem open_service_is_clean_witness:
  "\<exists>m' s. reconcile_and_recover demo_json demo_cleaner demo_crashed = (m', Ok s) \<and> admissions_open s
     \<and> (demo_sid, stable_key demo_record) \<in> set (world demo_crashed)
     \<and> ledger_dir m' = [] \<and> (demo_sid, stable_key demo_record) \<notin> set (world m')"
proof -
  obtain m' s where m': "reconcile_and_recover demo_json demo_cleaner demo_crashed = (m', Ok s)" "admissions_open s"
    using healthy_start [OF demo_willing _ demo_recoverable] by (auto simp: demo_crashed_def)
  have "hm_wf (ledger_dir demo_crashed)" by (simp add: demo_crashed_def)
  note clean = open_service_is_clean [OF demo_exact this m']
  moreover have "map_of (ledger_dir demo_crashed) (document_name demo_sid) = Some (Regular demo_file)"
    by (simp add: demo_crashed_def)
  moreover have "from_slice demo_json demo_file = Some (demo_document Running [demo_record] 1)"
    using demo_file_decodes by (simp add: demo_json_def)
  moreover have "stable_key demo_record \<in> doc_keys (demo_document Running [demo_record] 1)"
    by (simp add: doc_keys_def demo_document_def)
  moreover have "ledger_id (document_name demo_sid) = demo_sid" by simp
  ultimately have "ledger_dir m' = [] \<and> (demo_sid, stable_key demo_record) \<notin> set (world m')" by metis
  with m' show ?thesis by (auto simp: demo_crashed_def)
qed

text \<open>C15: When no file operation fails, the cleaner removes what it is asked to, and the directory holds within
its bounds only documents that can be shortened and rewritten, none of them quarantined and no two with the
same owner, then a start of the service succeeds and opens it for work.\<close>

theorem healthy_start_opens:
  assumes "willing C" and "fault_free m" and "recoverable lib m"
  shows "\<exists>m' s. reconcile_and_recover lib C m = (m', Ok s) \<and> admissions_open s"
  by (rule healthy_start [OF assms])

theorem healthy_start_opens_witness:
  "ledger_dir demo_crashed \<noteq> []
     \<and> (\<exists>m' s. reconcile_and_recover demo_json demo_cleaner demo_crashed = (m', Ok s) \<and> admissions_open s)"
  using healthy_start_opens [OF demo_willing _ demo_recoverable] by (auto simp: demo_crashed_def)

end
