(* ===== verification/Spec2Isabelle.thy ===== *)
theory Spec2Isabelle
  imports Mux_System Mux_Wakeup Session_Safety Update_Outcome Store_Checkpoint Ledger_Progress
begin

text \<open>
  \<^bold>\<open>Verification of the core of LocalSandbox.\<close>

  LocalSandbox runs commands in virtual machines. A Windows service
  (\<^verbatim>\<open>crates/lsb-seawork-service\<close>) owns the machines; clients speak to it over a named pipe with the
  protocol of \<^verbatim>\<open>crates/lsb-service-proto\<close>; the host side of a machine
  (\<^verbatim>\<open>crates/lsb-platform\<close>) speaks to the agent inside it (\<^verbatim>\<open>crates/lsb-guest\<close>) over one serial line,
  on which many sessions are multiplexed with the frames of \<^verbatim>\<open>crates/lsb-proto\<close>; and a separate
  program (\<^verbatim>\<open>crates/lsb-seawork-updater\<close>) replaces the installed service by a new version, driven by
  a journal (\<^verbatim>\<open>crates/lsb-seawork-update\<close>) that survives crashes. The service keeps a ledger of the accounts,
  shares, files and other things it creates on the host, to remove them after a crash.

  \<^bold>\<open>Foundations.\<close> \<open>LSB_Prelude\<close> has the vocabulary of the Rust standard library (bytes, fixed-width
  integers and their big and little endian encodings, results, UTF-8, checked and saturating
  arithmetic), \<open>Rust_Text\<close> the operations on strings the validators use, and \<open>Rust_Map\<close> hash maps.
  A \<^verbatim>\<open>Result<T, E>\<close> is a sum with the error on the left, a \<^verbatim>\<open>String\<close> the list of its bytes, an
  integer a word of its width; \<^verbatim>\<open>usize\<close> is a natural number where it counts elements in memory.
  The locale \<open>fixed_width_codec\<close> is the interface of the integer encodings, \<open>safety\<close> that of an
  inductive invariant of a transition system; \<open>reachable\<close> are the states of such a system.

  \<^bold>\<open>Frames of the serial line.\<close> \<open>Wire_Frame\<close> models \<^verbatim>\<open>lsb-proto/src/frame.rs\<close>: writing, reading and
  buffer parsing of length-prefixed frames, with the locale \<open>stream_codec\<close> for the round trip of a
  sequence of frames. \<open>Mux_Codec\<close> models \<^verbatim>\<open>lsb-proto/src/mux.rs\<close>, the frames of the multiplexer;
  its decoder is shown to be the exact inverse of its encoder.

  \<^bold>\<open>The multiplexer.\<close> \<open>Mux_Session\<close> has what the managers of the two ends share, \<open>Mux_Host\<close> the
  Windows host's (\<^verbatim>\<open>lsb-platform/src/windows_x86_64/control/mux.rs\<close>), \<open>Mux_Guest\<close> the guest's
  (\<^verbatim>\<open>GuestMux\<close> in \<^verbatim>\<open>lsb-guest/src/main.rs\<close>). A manager's state is everything behind its mutex; an
  operation that waits on the condition variable is one attempt from one wake-up to the next, with
  the value \<open>Wait\<close> when it sleeps. \<open>host_step\<close> and \<open>guest_step\<close> interleave all threads of one end
  with an arbitrary peer: memory stays bounded, and the guest admits only session ids of the host. In these
  and in \<open>Mux_System\<close> the reader's handling of a bad frame and the failure of the manager that follows are
  one step. \<open>Mux_Wakeup\<close> has them as two steps, and adds to every operation whether its code calls
  \<^verbatim>\<open>notify_all\<close> and to the state whether the writer sleeps; the locale \<open>notified_writer\<close> derives that a
  sleeping writer has nothing to send, so that no wake-up is lost. Other threads that wait on the condition
  variable have no sleep flag: a step retries their operation at any time. \<open>Mux_Flow\<close> summarises each operation by its effect on the
  bytes and the credit of one session, and \<open>Mux_System\<close> composes both ends, the writer threads'
  frames in hand and the stream between them, with faults at any point. Its invariant accounts for
  every byte of data and credit; so what a client reads is a prefix of what was written at the other
  end, nothing is lost while both ends run and the session is not reset, a data frame always fits the receive window and the
  credit never overflows.

  \<^bold>\<open>The service protocol.\<close> \<open>Service_Proto\<close> models \<^verbatim>\<open>frame.rs\<close>, \<^verbatim>\<open>version.rs\<close>, \<^verbatim>\<open>error.rs\<close> and
  \<^verbatim>\<open>limits.rs\<close> of \<^verbatim>\<open>lsb-service-proto\<close>, \<open>Service_Message\<close> the requests and their validation in
  \<^verbatim>\<open>message.rs\<close>: what a request that was accepted satisfies, that the guest paths accepted are exactly
  the canonical ones, and that the byte scan for nesting depth agrees with the depth of the JSON
  value. The JSON decoder and the semver crate are parameters.

  \<^bold>\<open>Sessions of the service.\<close> \<open>Session_Control\<close> models handles, cancellation tokens and the admission
  controller (\<^verbatim>\<open>session/handle.rs\<close>, \<^verbatim>\<open>session/cancel.rs\<close>, \<^verbatim>\<open>admission.rs\<close>), \<open>Session_Quota\<close> the quota
  book (\<^verbatim>\<open>session/quota.rs\<close>) with a multiset ledger of what was granted as its specification, and
  \<open>Session_Manager\<close> the manager (\<^verbatim>\<open>session/manager.rs\<close>), one definition for each critical section.
  \<open>Session_System\<close> interleaves the critical sections of all clients and threads; its invariant says
  that the book represents exactly what sessions and threads hold and that the admission controller
  counts their leases. The random handles of processes and watches are assumed not to repeat
  (\<open>fresh_process\<close>, \<open>fresh_watch\<close>); those of sessions and sandboxes are checked by the code. \<open>Session_Safety\<close>
  draws the consequences: limits hold of what is really held, a sealed service is idle but for a VM whose
  start was given up, everything but connections is given back, clients do not touch each other's sessions.

  \<^bold>\<open>Updates.\<close> \<open>Update_Journal\<close> models the transaction, its timeline and its checksummed envelope
  (\<^verbatim>\<open>lsb-seawork-update/src/journal.rs\<close> and the checks of \<^verbatim>\<open>lib.rs\<close>). \<open>Update_Recovery\<close> models the loop of
  \<^verbatim>\<open>lsb-seawork-updater/src/recovery.rs\<close> over an arbitrary platform: the store, the calls that act on
  the system and the clock, each of which may fail. Its rules are a small Hoare logic
  (\<open>triple\<close>, \<open>body_triple\<close>); \<open>logged\<close> instruments any platform with the list of what it was asked to
  do. \<open>Update_Outcome\<close> shows that the loop returns, that it acts only when its intent is on disk, that
  a run makes exactly the calls of its path through the phase table, and that an interrupted update is
  completed when nothing fails and its timeline has at most 51 of its 64 entries (13 actions at most are to
  come).

  \<^bold>\<open>The disk store.\<close> On Unix a machine's disk is served to it over the NBD protocol by
  \<^verbatim>\<open>crates/lsb-store\<close>. \<open>Store_Index\<close> models chunk stores, chunk indexes with their files, and flat files
  (\<^verbatim>\<open>cas.rs\<close>, \<^verbatim>\<open>backend.rs\<close>), with faults of the file system; the locale \<open>chunk_store\<close> is the contract of
  a store and \<open>reliable_store\<close> that of one in which nothing fails. \<open>Store_Cas\<close> models the disk over a
  store (\<^verbatim>\<open>CasBackend\<close>): its contents are a function from addresses to bytes, and each operation is
  specified by what it does to that function. \<open>Store_Nbd\<close> models the server (\<^verbatim>\<open>nbd.rs\<close>); \<open>block_device\<close>
  is the contract of its backends, which the disk (by a sublocale) and a flat file keep, and a client is
  served as by a byte array. \<open>Store_Checkpoint\<close> shows that a saved checkpoint opens as the disk that was
  saved, when it does not replace an ancestor, and what faults and such replacements do. The hash is a
  parameter that is assumed to be injective on chunks (\<open>blake3_sound\<close>), an idealisation of BLAKE3; and the
  invariant \<open>local_ok\<close> of the directory of chunks excludes a write that stops half way, whose effect is
  shown separately.

  \<^bold>\<open>The ledger.\<close> \<open>Ledger_Schema\<close> models the documents and records (\<^verbatim>\<open>ledger/schema.rs\<close>), \<open>Ledger_Atomic\<close> their files
  (\<^verbatim>\<open>ledger/atomic.rs\<close>), \<open>Ledger_Recovery\<close> the removal of what a document records (\<^verbatim>\<open>ledger/recovery.rs\<close>),
  \<open>Ledger_Transaction\<close> the document of a running sandbox (\<^verbatim>\<open>resource/transaction.rs\<close>) and \<open>Ledger_Reconcile\<close> what a
  start of the service does with the directory (\<^verbatim>\<open>ledger/reconcile.rs\<close>). A \<open>machine\<close> has the two directories,
  the outcomes of all file operations to come and the rest of the host; the JSON library and the cleaner,
  which removes one resource, are parameters. \<open>recovery_store\<close> is the contract of the files a recovery writes.
  \<open>Ledger_System\<close> interleaves the transactions of all sandboxes with crashes and starts: whatever fails, a
  resource that exists is recorded on disk. It relies on the callers to write an intent before they create a
  resource. A crash inside an operation is a failure of all its remaining file operations; it is a crash of the
  service, not a loss of power: what was written stays written. Renames are atomic.
  \<open>Ledger_Progress\<close> shows that a start without faults opens the service and that one which opens it has removed
  everything, and what refused documents do.

  \<^bold>\<open>Recursion and bounds.\<close> No definition of the model uses fuel; the numbers of tries of the ledger (16
  temporary names, 1025 quarantine names) are those of the code. The readers and parsers recurse on
  their input; the recovery loop is a partial function whose termination is proved with a rank of the
  phases; the chain of parent indexes is a partial function too, since it may not end; a loop that
  waits for other threads is a step of a transition system. Random numbers, the clock, the disk and the system calls are arguments of the definitions that use them.

  \<^bold>\<open>Not modelled.\<close> Code whose meaning is that of the operating system or of a library: named pipes,
  the Windows security API, service control manager, SMB shares and QEMU processes of
  \<^verbatim>\<open>lsb-seawork-service\<close>, \<^verbatim>\<open>lsb-platform\<close>, \<^verbatim>\<open>lsb-vm\<close> and the updater's Windows platform; the macOS
  bindings; the guest's system calls; the calls that look up and remove one resource of the ledger; the network
  proxy, the pinning of root file systems, telemetry, the command line, the SDK and the Node.js bindings. Poisoned locks and the spawning of threads are not modelled
  either: the first turn into errors of every later call, the second is an arbitrary interleaving.
\<close>

end
